(* ===== verification/Prelude.thy ===== *)
theory Prelude
  imports Complex_Main "HOL-Library.Char_ord" "HOL-Library.List_Lexorder"
    "HOL-Library.Product_Lexorder"
begin

text \<open>
  The vocabulary every component theory shares: the Python values events are made of, the
  operations the sources use on them (\<open>.get\<close>, indexing, truth, iteration), insertion-ordered
  dictionaries, exceptions as values, and a state-and-exception type in which the handlers of the
  kernel are written.  The lemmas collected in \<open>keeps\<close> and \<open>ensures\<close> say which parts of a
  state an operation leaves alone and which invariants it preserves; they are compositional, so a
  handler of many steps is proved by applying them.
\<close>

section \<open>Exceptions and Python values\<close>

text \<open>
  The exceptions the sources raise or let escape.  The texts of messages are ASCII renderings of
  the messages in the sources; only the class and the identity of a message matter to the code.
\<close>

datatype exc =
    EventError string
  | ValueError string
  | FileNotFoundError string
  | KeyError string
  | AttributeError
  | TypeError
  | OverflowError
  | ProgrammingError
  | NotImplementedError
  | OSError string
  | IndexError
  | RuntimeError string

fun str_exc :: "exc \<Rightarrow> string" where
  "str_exc (EventError m) = m"
| "str_exc (ValueError m) = m"
| "str_exc (FileNotFoundError m) = m"
| "str_exc (KeyError m) = [CHR 0x27] @ m @ [CHR 0x27]"
| "str_exc AttributeError = ''attribute error''"
| "str_exc TypeError = ''type error''"
| "str_exc OverflowError = ''overflow error''"
| "str_exc ProgrammingError = ''programming error''"
| "str_exc NotImplementedError = ''''"
| "str_exc (OSError m) = m"
| "str_exc IndexError = ''index out of range''"
| "str_exc (RuntimeError m) = m"

text \<open>A float: a finite value or one of the three IEEE specials, on which comparisons differ.\<close>

datatype pyfloat = Fin rat | PInf | NInf | NaN

datatype pyval =
    PNone
  | PBool bool
  | PInt int
  | PFloat pyfloat
  | PStr string
  | PList "pyval list"
  | PDict "(string \<times> pyval) list"

type_synonym 'a res = "exc + 'a"

section \<open>Insertion-ordered dictionaries\<close>

text \<open>
  A Python \<^verbatim>\<open>dict\<close> keeps its insertion order; storing under an existing key keeps the key's place.
\<close>

type_synonym ('k, 'v) dict = "('k \<times> 'v) list"

abbreviation dget :: "('k, 'v) dict \<Rightarrow> 'k \<Rightarrow> 'v option" where
  "dget d k \<equiv> map_of d k"

fun dset :: "'k \<Rightarrow> 'v \<Rightarrow> ('k, 'v) dict \<Rightarrow> ('k, 'v) dict" where
  "dset k v [] = [(k, v)]"
| "dset k v ((k', v') # d) = (if k' = k then (k, v) # d else (k', v') # dset k v d)"

definition dpop :: "'k \<Rightarrow> ('k, 'v) dict \<Rightarrow> ('k, 'v) dict" where
  "dpop k d = filter (\<lambda>p. fst p \<noteq> k) d"

definition dkeys :: "('k, 'v) dict \<Rightarrow> 'k list" where
  "dkeys d = map fst d"

definition dvals :: "('k, 'v) dict \<Rightarrow> 'v list" where
  "dvals d = map snd d"

definition dwf :: "('k, 'v) dict \<Rightarrow> bool" where
  "dwf d \<longleftrightarrow> distinct (map fst d)"

text \<open>
  The interface the components rely on: a lookup, an update and a deletion that behave like a
  finite map, and the order in which the keys are iterated.
\<close>

locale ordered_dict =
  fixes get :: "'d \<Rightarrow> 'k \<Rightarrow> 'v option"
    and put :: "'k \<Rightarrow> 'v \<Rightarrow> 'd \<Rightarrow> 'd"
    and del :: "'k \<Rightarrow> 'd \<Rightarrow> 'd"
    and order :: "'d \<Rightarrow> 'k list"
    and wf :: "'d \<Rightarrow> bool"
  assumes get_put: "get (put k v d) = (get d)(k \<mapsto> v)"
    and get_del: "get (del k d) = (get d)(k := None)"
    and order_get: "set (order d) = {k. get d k \<noteq> None}"
    and order_put: "order (put k v d) = (if get d k = None then order d @ [k] else order d)"
    and wf_put: "wf d \<Longrightarrow> wf (put k v d)"
    and wf_del: "wf d \<Longrightarrow> wf (del k d)"
begin

lemma get_puts:
  "get (fold (\<lambda>(k, v) d. put k v d) kvs d) = get d ++ map_of (rev kvs)"
  by (induction kvs arbitrary: d) (auto simp: get_put map_add_def fun_eq_iff split: option.splits)

lemma put_keeps_order:
  "get d k \<noteq> None \<Longrightarrow> order (put k v d) = order d"
  by (simp add: order_put)

lemma wf_puts: "wf d \<Longrightarrow> wf (fold (\<lambda>(k, v) d. put k v d) kvs d)"
  by (induction kvs arbitrary: d) (auto simp: wf_put)

lemma put_order_set: "set (order (put k v d)) = insert k (set (order d))"
  by (auto simp: order_get get_put)

lemma del_order_set: "set (order (del k d)) = set (order d) - {k}"
  by (auto simp: order_get get_del)

end

lemma dget_dset [simp]: "dget (dset k v d) = (dget d)(k \<mapsto> v)"
  by (induction d) (auto simp: fun_eq_iff)

lemma dget_dpop [simp]: "dget (dpop k d) = (dget d)(k := None)"
  unfolding dpop_def by (induction d) (auto simp: fun_eq_iff)

lemma set_dkeys: "set (dkeys d) = {k. dget d k \<noteq> None}"
  unfolding dkeys_def by (induction d) auto

lemma dkeys_iff [simp]: "k \<in> set (dkeys d) \<longleftrightarrow> dget d k \<noteq> None"
  by (simp add: set_dkeys)

lemma dkeys_dset: "dkeys (dset k v d) = (if dget d k = None then dkeys d @ [k] else dkeys d)"
  unfolding dkeys_def by (induction d) auto

lemma dset_not_Nil [simp]: "dset k v d \<noteq> []"
  by (cases d) (auto split: if_splits)

lemma dset_fresh: "k \<notin> fst ` set d \<Longrightarrow> dset k v d = d @ [(k, v)]"
  by (induction d) auto

lemma dset_elem: "p \<in> set (dset k v d) \<Longrightarrow> p = (k, v) \<or> p \<in> set d"
  by (induction d) (auto split: if_splits)

lemma dset_same: "dget d k = Some v \<Longrightarrow> dset k v d = d"
  by (induction d) (auto split: if_splits)

lemma dset_twice [simp]: "dset k v (dset k w d) = dset k v d"
  by (induction d) auto

lemma dwf_dset: "dwf d \<Longrightarrow> dwf (dset k v d)"
proof -
  assume "dwf d"
  moreover have "dget d k = None \<Longrightarrow> k \<notin> fst ` set d"
    by (metis map_of_eq_None_iff)
  ultimately show ?thesis
    using dkeys_dset [of k v d] by (auto simp: dwf_def dkeys_def)
qed

lemma dwf_dpop: "dwf d \<Longrightarrow> dwf (dpop k d)"
  unfolding dwf_def dpop_def by (induction d) auto

interpretation pd: ordered_dict dget dset dpop dkeys dwf
  by unfold_locales (auto simp: dkeys_dset dwf_dset dwf_dpop)

section \<open>Operations on Python values\<close>

text \<open>Truth of a value, as \<^verbatim>\<open>if\<close>, \<^verbatim>\<open>not\<close> and \<^verbatim>\<open>or\<close> test it.\<close>

fun truthy :: "pyval \<Rightarrow> bool" where
  "truthy PNone = False"
| "truthy (PBool b) = b"
| "truthy (PInt i) = (i \<noteq> 0)"
| "truthy (PFloat f) = (f \<noteq> Fin 0)"
| "truthy (PStr s) = (s \<noteq> [])"
| "truthy (PList l) = (l \<noteq> [])"
| "truthy (PDict d) = (d \<noteq> [])"

definition py_or :: "pyval \<Rightarrow> pyval \<Rightarrow> pyval" where
  "py_or a b = (if truthy a then a else b)"

text \<open>\<^verbatim>\<open>v.get(k)\<close> and \<^verbatim>\<open>v.get(k, x)\<close>: only dictionaries have the method.\<close>

fun py_get_or :: "pyval \<Rightarrow> string \<Rightarrow> pyval \<Rightarrow> pyval res" where
  "py_get_or (PDict d) k x = Inr (case dget d k of None \<Rightarrow> x | Some v \<Rightarrow> v)"
| "py_get_or _ k x = Inl AttributeError"

abbreviation py_get :: "pyval \<Rightarrow> string \<Rightarrow> pyval res" where
  "py_get v k \<equiv> py_get_or v k PNone"

text \<open>\<^verbatim>\<open>v[k]\<close> with a string index.\<close>

fun py_item :: "pyval \<Rightarrow> string \<Rightarrow> pyval res" where
  "py_item (PDict d) k = (case dget d k of None \<Rightarrow> Inl (KeyError k) | Some v \<Rightarrow> Inr v)"
| "py_item _ k = Inl TypeError"

text \<open>\<^verbatim>\<open>list(v)\<close>, and the iteration of a \<^verbatim>\<open>for\<close> loop.\<close>

fun py_list :: "pyval \<Rightarrow> pyval list res" where
  "py_list (PList l) = Inr l"
| "py_list (PStr s) = Inr (map (\<lambda>c. PStr [c]) s)"
| "py_list (PDict d) = Inr (map PStr (dkeys d))"
| "py_list _ = Inl TypeError"

text \<open>A value used as a key: lists and dictionaries are not hashable.\<close>

fun hashable :: "pyval \<Rightarrow> bool" where
  "hashable (PList _) = False"
| "hashable (PDict _) = False"
| "hashable _ = True"

text \<open>\<^verbatim>\<open>v in {...}\<close> for a set or a dictionary whose keys are strings.\<close>

definition py_in_strs :: "pyval \<Rightarrow> string list \<Rightarrow> bool res" where
  "py_in_strs v ss = (if hashable v then Inr (v \<in> PStr ` set ss) else Inl TypeError)"

fun is_str :: "pyval \<Rightarrow> bool" where
  "is_str (PStr _) = True"
| "is_str _ = False"

text \<open>\<^verbatim>\<open>isinstance(v, str) and v\<close>: a non-empty string.\<close>

fun nonempty_str :: "pyval \<Rightarrow> bool" where
  "nonempty_str (PStr s) = (s \<noteq> [])"
| "nonempty_str _ = False"

lemma nonempty_strE: "nonempty_str v \<Longrightarrow> (\<And>s. v = PStr s \<Longrightarrow> s \<noteq> [] \<Longrightarrow> thesis) \<Longrightarrow> thesis"
  by (cases v) auto

text \<open>\<^verbatim>\<open>sub in s\<close> on strings.\<close>

fun is_prefix :: "string \<Rightarrow> string \<Rightarrow> bool" where
  "is_prefix [] s = True"
| "is_prefix (c # cs) [] = False"
| "is_prefix (c # cs) (x # xs) = (c = x \<and> is_prefix cs xs)"

fun substr :: "string \<Rightarrow> string \<Rightarrow> bool" where
  "substr p [] = (p = [])"
| "substr p (x # xs) = (is_prefix p (x # xs) \<or> substr p xs)"

lemma is_prefix_iff: "is_prefix p s \<longleftrightarrow> (\<exists>t. s = p @ t)"
  by (induction p s rule: is_prefix.induct) auto

lemma substr_iff: "substr p s \<longleftrightarrow> (\<exists>a b. s = a @ p @ b)"
proof (induction s)
  case Nil
  then show ?case by simp
next
  case (Cons x xs)
  have "(\<exists>a b. x # xs = a @ p @ b) \<longleftrightarrow> (\<exists>b. x # xs = p @ b) \<or> (\<exists>a b. xs = a @ p @ b)"
  proof
    assume "\<exists>a b. x # xs = a @ p @ b"
    then obtain a b where ab: "x # xs = a @ p @ b" by blast
    then show "(\<exists>b. x # xs = p @ b) \<or> (\<exists>a b. xs = a @ p @ b)"
      by (cases a) auto
  next
    assume "(\<exists>b. x # xs = p @ b) \<or> (\<exists>a b. xs = a @ p @ b)"
    then show "\<exists>a b. x # xs = a @ p @ b"
      by (metis append_Cons append_Nil)
  qed
  then show ?case using Cons by (simp add: is_prefix_iff)
qed

lemma substr_single: "substr [c] s \<longleftrightarrow> c \<in> set s"
  by (metis append_Cons append_Nil in_set_conv_decomp substr_iff)

section \<open>Comparison of numbers\<close>

text \<open>
  Comparisons between Python numbers; every comparison with a NaN is false.  A Boolean is an
  integer.  \<open>num_of\<close> is \<^verbatim>\<open>isinstance(v, (int, float))\<close> with the value.
\<close>

fun flt_le :: "pyfloat \<Rightarrow> pyfloat \<Rightarrow> bool" where
  "flt_le NaN _ = False"
| "flt_le _ NaN = False"
| "flt_le NInf _ = True"
| "flt_le _ PInf = True"
| "flt_le (Fin a) (Fin b) = (a \<le> b)"
| "flt_le _ _ = False"

fun flt_lt :: "pyfloat \<Rightarrow> pyfloat \<Rightarrow> bool" where
  "flt_lt NaN _ = False"
| "flt_lt _ NaN = False"
| "flt_lt NInf b = (b \<noteq> NInf)"
| "flt_lt a PInf = (a \<noteq> PInf)"
| "flt_lt (Fin a) (Fin b) = (a < b)"
| "flt_lt _ _ = False"

fun flt_add :: "pyfloat \<Rightarrow> pyfloat \<Rightarrow> pyfloat" where
  "flt_add (Fin a) (Fin b) = Fin (a + b)"
| "flt_add NaN _ = NaN"
| "flt_add _ NaN = NaN"
| "flt_add PInf NInf = NaN"
| "flt_add NInf PInf = NaN"
| "flt_add PInf _ = PInf"
| "flt_add _ PInf = PInf"
| "flt_add NInf _ = NInf"
| "flt_add _ NInf = NInf"

fun flt_neg :: "pyfloat \<Rightarrow> pyfloat" where
  "flt_neg (Fin a) = Fin (- a)"
| "flt_neg PInf = NInf"
| "flt_neg NInf = PInf"
| "flt_neg NaN = NaN"

definition flt_sub :: "pyfloat \<Rightarrow> pyfloat \<Rightarrow> pyfloat" where
  "flt_sub a b = flt_add a (flt_neg b)"

fun num_of :: "pyval \<Rightarrow> pyfloat option" where
  "num_of (PInt i) = Some (Fin (of_int i))"
| "num_of (PBool b) = Some (Fin (if b then 1 else 0))"
| "num_of (PFloat f) = Some f"
| "num_of _ = None"

lemma flt_lt_le: "flt_lt a b \<Longrightarrow> flt_le a b"
  by (cases "(a, b)" rule: flt_lt.cases) auto

lemma flt_not_lt: "a \<noteq> NaN \<Longrightarrow> b \<noteq> NaN \<Longrightarrow> \<not> flt_lt a b \<longleftrightarrow> flt_le b a"
  by (cases a; cases b) auto

lemma flt_le_trans: "flt_le a b \<Longrightarrow> flt_le b c \<Longrightarrow> flt_le a c"
  by (cases a; cases b; cases c) auto

section \<open>Computations with a state and exceptions\<close>

text \<open>
  A handler runs on a state and returns or raises; what it changed before raising stays changed,
  as it does in Python.
\<close>

type_synonym ('s, 'a) sx = "'s \<Rightarrow> 'a res \<times> 's"

definition ret :: "'a \<Rightarrow> ('s, 'a) sx" where
  "ret x = (\<lambda>s. (Inr x, s))"

definition throw :: "exc \<Rightarrow> ('s, 'a) sx" where
  "throw e = (\<lambda>s. (Inl e, s))"

definition bind :: "('s, 'a) sx \<Rightarrow> ('a \<Rightarrow> ('s, 'b) sx) \<Rightarrow> ('s, 'b) sx" where
  "bind m f = (\<lambda>s. case m s of (Inl e, s') \<Rightarrow> (Inl e, s') | (Inr x, s') \<Rightarrow> f x s')"

definition andthen :: "('s, unit) sx \<Rightarrow> ('s, 'b) sx \<Rightarrow> ('s, 'b) sx" where
  "andthen m n = bind m (\<lambda>_. n)"

text \<open>\<^verbatim>\<open>try: m except Exception as exc: h(exc)\<close>\<close>

definition catch :: "('s, 'a) sx \<Rightarrow> (exc \<Rightarrow> ('s, 'a) sx) \<Rightarrow> ('s, 'a) sx" where
  "catch m h = (\<lambda>s. case m s of (Inl e, s') \<Rightarrow> h e s' | (Inr x, s') \<Rightarrow> (Inr x, s'))"

definition lift :: "'a res \<Rightarrow> ('s, 'a) sx" where
  "lift r = (\<lambda>s. (r, s))"

definition asks :: "('s \<Rightarrow> 'a) \<Rightarrow> ('s, 'a) sx" where
  "asks f = (\<lambda>s. (Inr (f s), s))"

definition modify :: "('s \<Rightarrow> 's) \<Rightarrow> ('s, unit) sx" where
  "modify f = (\<lambda>s. (Inr (), f s))"

definition guard :: "bool \<Rightarrow> exc \<Rightarrow> ('s, unit) sx" where
  "guard b e = (if b then ret () else throw e)"

fun each :: "('a \<Rightarrow> ('s, unit) sx) \<Rightarrow> 'a list \<Rightarrow> ('s, unit) sx" where
  "each f [] = ret ()"
| "each f (x # xs) = andthen (f x) (each f xs)"

lemmas sx_defs = ret_def throw_def bind_def andthen_def catch_def lift_def asks_def
  modify_def guard_def

text \<open>Sequencing results without a state.\<close>

definition rbind :: "'a res \<Rightarrow> ('a \<Rightarrow> 'b res) \<Rightarrow> 'b res" where
  "rbind r f = (case r of Inl e \<Rightarrow> Inl e | Inr x \<Rightarrow> f x)"

lemma rbind_simps [simp]: "rbind (Inl e) f = Inl e" "rbind (Inr x) f = f x"
  by (simp_all add: rbind_def)

lemma rbind_Inr: "rbind r f = Inr y \<longleftrightarrow> (\<exists>x. r = Inr x \<and> f x = Inr y)"
  by (cases r) auto

fun rmap :: "('a \<Rightarrow> 'b res) \<Rightarrow> 'a list \<Rightarrow> 'b list res" where
  "rmap f [] = Inr []"
| "rmap f (x # xs) = rbind (f x) (\<lambda>y. rbind (rmap f xs) (\<lambda>ys. Inr (y # ys)))"

section \<open>What an operation leaves alone, and what it preserves\<close>

text \<open>
  \<open>keeps f m\<close>: the operation \<open>m\<close> never changes the view \<open>f\<close> of the state, whether it returns or
  raises.  \<open>ensures P m\<close>: it preserves the invariant \<open>P\<close>.
\<close>

definition keeps :: "('s \<Rightarrow> 'v) \<Rightarrow> ('s, 'a) sx \<Rightarrow> bool" where
  "keeps f m \<longleftrightarrow> (\<forall>s. f (snd (m s)) = f s)"

definition ensures :: "('s \<Rightarrow> bool) \<Rightarrow> ('s, 'a) sx \<Rightarrow> bool" where
  "ensures P m \<longleftrightarrow> (\<forall>s. P s \<longrightarrow> P (snd (m s)))"

named_theorems keeps_intros
named_theorems ensures_intros

lemma keepsD: "keeps f m \<Longrightarrow> f (snd (m s)) = f s"
  by (simp add: keeps_def)

lemma ensuresD: "ensures P m \<Longrightarrow> P s \<Longrightarrow> P (snd (m s))"
  by (simp add: ensures_def)

lemma keeps_ensures: "keeps f m \<Longrightarrow> ensures (\<lambda>s. Q (f s)) m"
  by (simp add: keeps_def ensures_def)

lemma keeps_ret [keeps_intros]: "keeps f (ret x)"
  by (simp add: keeps_def ret_def)

lemma keeps_throw [keeps_intros]: "keeps f (throw e)"
  by (simp add: keeps_def throw_def)

lemma keeps_lift [keeps_intros]: "keeps f (lift r)"
  by (simp add: keeps_def lift_def)

lemma keeps_asks [keeps_intros]: "keeps f (asks g)"
  by (simp add: keeps_def asks_def)

lemma keeps_guard [keeps_intros]: "keeps f (guard b e)"
  by (simp add: guard_def keeps_intros)

lemma keeps_bind [keeps_intros]:
  assumes "keeps f m" and "\<And>x. keeps f (g x)"
  shows "keeps f (bind m g)"
  unfolding keeps_def
proof
  fix s
  show "f (snd (bind m g s)) = f s"
    using keepsD [OF assms(1), of s] keepsD [OF assms(2)]
    by (cases "m s"; cases "fst (m s)") (auto simp: bind_def)
qed

lemma keeps_andthen [keeps_intros]: "keeps f m \<Longrightarrow> keeps f n \<Longrightarrow> keeps f (andthen m n)"
  by (simp add: andthen_def keeps_bind)

lemma keeps_catch [keeps_intros]:
  assumes "keeps f m" and "\<And>e. keeps f (h e)"
  shows "keeps f (catch m h)"
  unfolding keeps_def
proof
  fix s
  show "f (snd (catch m h s)) = f s"
    using keepsD [OF assms(1), of s] keepsD [OF assms(2)]
    by (cases "m s"; cases "fst (m s)") (auto simp: catch_def)
qed

lemma keeps_each [keeps_intros]: "(\<And>x. keeps f (g x)) \<Longrightarrow> keeps f (each g xs)"
  by (induction xs) (auto intro: keeps_intros)

lemma keeps_modify: "(\<And>s. f (u s) = f s) \<Longrightarrow> keeps f (modify u)"
  by (simp add: keeps_def modify_def)

lemma keeps_if [keeps_intros]: "keeps f m \<Longrightarrow> keeps f n \<Longrightarrow> keeps f (if b then m else n)"
  by simp

lemma ensures_ret [ensures_intros]: "ensures P (ret x)"
  by (simp add: ensures_def ret_def)

lemma ensures_throw [ensures_intros]: "ensures P (throw e)"
  by (simp add: ensures_def throw_def)

lemma ensures_lift [ensures_intros]: "ensures P (lift r)"
  by (simp add: ensures_def lift_def)

lemma ensures_asks [ensures_intros]: "ensures P (asks g)"
  by (simp add: ensures_def asks_def)

lemma ensures_guard [ensures_intros]: "ensures P (guard b e)"
  by (simp add: guard_def ensures_intros)

lemma ensures_bind [ensures_intros]:
  assumes "ensures P m" and "\<And>x. ensures P (g x)"
  shows "ensures P (bind m g)"
  unfolding ensures_def
proof (intro allI impI)
  fix s assume "P s"
  with assms show "P (snd (bind m g s))"
    using ensuresD [OF assms(1), of s] ensuresD [OF assms(2)]
    by (cases "m s"; cases "fst (m s)") (auto simp: bind_def)
qed

lemma ensures_andthen [ensures_intros]: "ensures P m \<Longrightarrow> ensures P n \<Longrightarrow> ensures P (andthen m n)"
  by (simp add: andthen_def ensures_bind)

lemma ensures_catch [ensures_intros]:
  assumes "ensures P m" and "\<And>e. ensures P (h e)"
  shows "ensures P (catch m h)"
  unfolding ensures_def
proof (intro allI impI)
  fix s assume "P s"
  with assms show "P (snd (catch m h s))"
    using ensuresD [OF assms(1), of s] ensuresD [OF assms(2)]
    by (cases "m s"; cases "fst (m s)") (auto simp: catch_def)
qed

lemma ensures_each [ensures_intros]: "(\<And>x. ensures P (g x)) \<Longrightarrow> ensures P (each g xs)"
  by (induction xs) (auto intro: ensures_intros)

lemma ensures_if [ensures_intros]: "ensures P m \<Longrightarrow> ensures P n \<Longrightarrow> ensures P (if b then m else n)"
  by simp

text \<open>How the outcome of a sequence splits into the outcomes of its parts.\<close>

lemma bind_Inr: "bind m f s = (Inr y, s') \<longleftrightarrow> (\<exists>x t. m s = (Inr x, t) \<and> f x t = (Inr y, s'))"
  by (cases "m s"; cases "fst (m s)") (auto simp: bind_def)

lemma andthen_Inr: "andthen m n s = (Inr y, s') \<longleftrightarrow> (\<exists>t. m s = (Inr (), t) \<and> n t = (Inr y, s'))"
  by (simp add: andthen_def bind_Inr)

lemma guard_Inr [simp]: "guard b e s = (Inr u, s') \<longleftrightarrow> b \<and> s' = s"
  by (auto simp: guard_def ret_def throw_def)

lemma asks_Inr [simp]: "asks f s = (Inr u, s') \<longleftrightarrow> u = f s \<and> s' = s"
  by (auto simp: asks_def)

lemma lift_Inr [simp]: "lift r s = (Inr u, s') \<longleftrightarrow> r = Inr u \<and> s' = s"
  by (auto simp: lift_def)

lemma modify_Inr [simp]: "modify f s = (Inr u, s') \<longleftrightarrow> s' = f s"
  by (auto simp: modify_def)

lemma ret_Inr [simp]: "ret x s = (Inr u, s') \<longleftrightarrow> u = x \<and> s' = s"
  by (auto simp: ret_def)

lemma throw_Inr [simp]: "throw e s = (Inr u, s') \<longleftrightarrow> False"
  by (auto simp: throw_def)

lemmas sx_Inr = bind_Inr andthen_Inr

text \<open>A failing guard stops the sequence in the state it was reached in.\<close>

lemma bind_guard_False [simp]: "\<not> b \<Longrightarrow> andthen (guard b e) n s = (Inl e, s)"
  by (simp add: sx_defs)

lemma bind_guard_True [simp]: "b \<Longrightarrow> andthen (guard b e) n s = n s"
  by (simp add: sx_defs)

lemma bind_asks [simp]: "bind (asks f) g s = g (f s) s"
  by (simp add: sx_defs)

lemma bind_lift [simp]: "bind (lift (Inr x)) g s = g x s" "bind (lift (Inl e)) g s = (Inl e, s)"
  by (simp_all add: sx_defs)

lemma andthen_modify [simp]: "andthen (modify u) n s = n (u s)"
  by (simp add: sx_defs)

lemma bind_ret [simp]: "bind (ret x) g s = g x s"
  by (simp add: sx_defs)

section \<open>Weakest preconditions\<close>

text \<open>
  \<open>wp m Q E s\<close>: run in \<open>s\<close>, the operation \<open>m\<close> returns with \<open>Q\<close> or raises with \<open>E\<close>.  The equations
  compute the precondition of a composed operation from those of its parts.
\<close>

definition wp :: "('s, 'a) sx \<Rightarrow> ('a \<Rightarrow> 's \<Rightarrow> bool) \<Rightarrow> (exc \<Rightarrow> 's \<Rightarrow> bool) \<Rightarrow> 's \<Rightarrow> bool" where
  "wp m Q E s \<longleftrightarrow> (case m s of (Inl e, s') \<Rightarrow> E e s' | (Inr x, s') \<Rightarrow> Q x s')"

named_theorems wp_simps

lemma wp_bind [wp_simps]: "wp (bind m f) Q E s = wp m (\<lambda>x. wp (f x) Q E) E s"
  by (auto simp: wp_def bind_def split: prod.splits sum.splits)

lemma wp_andthen [wp_simps]: "wp (andthen m n) Q E s = wp m (\<lambda>_. wp n Q E) E s"
  by (simp add: andthen_def wp_bind)

lemma wp_ret [wp_simps]: "wp (ret x) Q E s = Q x s"
  by (simp add: wp_def ret_def)

lemma wp_throw [wp_simps]: "wp (throw e) Q E s = E e s"
  by (simp add: wp_def throw_def)

lemma wp_lift [wp_simps]: "wp (lift r) Q E s = (case r of Inl e \<Rightarrow> E e s | Inr x \<Rightarrow> Q x s)"
  by (simp add: wp_def lift_def split: sum.splits)

lemma wp_asks [wp_simps]: "wp (asks f) Q E s = Q (f s) s"
  by (simp add: wp_def asks_def)

lemma wp_modify [wp_simps]: "wp (modify u) Q E s = Q () (u s)"
  by (simp add: wp_def modify_def)

lemma wp_guard [wp_simps]: "wp (guard b e) Q E s = (if b then Q () s else E e s)"
  by (simp add: guard_def wp_ret wp_throw)

lemma wp_catch [wp_simps]: "wp (catch m h) Q E s = wp m Q (\<lambda>e. wp (h e) Q E) s"
  by (auto simp: wp_def catch_def split: prod.splits sum.splits)

lemma wp_if [wp_simps]: "wp (if b then m else n) Q E s = (if b then wp m Q E s else wp n Q E s)"
  by simp

lemma wp_option [wp_simps]:
  "wp (case x of None \<Rightarrow> m | Some y \<Rightarrow> f y) Q E s = (case x of None \<Rightarrow> wp m Q E s | Some y \<Rightarrow> wp (f y) Q E s)"
  by (simp split: option.splits)

lemma wp_prod [wp_simps]: "wp (case p of (x, y) \<Rightarrow> f x y) Q E s = wp (f (fst p) (snd p)) Q E s"
  by (simp split: prod.splits)

lemma wp_mono:
  "wp m Q E s \<Longrightarrow> (\<And>x s'. Q x s' \<Longrightarrow> Q' x s') \<Longrightarrow> (\<And>e s'. E e s' \<Longrightarrow> E' e s') \<Longrightarrow> wp m Q' E' s"
  by (auto simp: wp_def split: prod.splits sum.splits)

lemma wp_each:
  assumes "\<And>x s. x \<in> set xs \<Longrightarrow> P s \<Longrightarrow> wp (f x) (\<lambda>_. P) (\<lambda>_. P) s" and "P s"
  shows "wp (each f xs) (\<lambda>_. P) (\<lambda>_. P) s"
  using assms
proof (induction xs arbitrary: s)
  case (Cons x xs)
  show ?case unfolding each.simps wp_andthen
    by (rule wp_mono [OF Cons.prems(1) [of x s]]) (use Cons in auto)
qed (simp add: wp_ret)

lemma wp_post: "wp m (\<lambda>_. P) (\<lambda>_. P) s \<longleftrightarrow> P (snd (m s))"
  by (auto simp: wp_def split: prod.splits sum.splits)

lemma wp_run: "m s = (Inr x, s') \<Longrightarrow> wp m Q E s = Q x s'" "m s = (Inl e, s') \<Longrightarrow> wp m Q E s = E e s'"
  by (simp_all add: wp_def)

section \<open>Transition systems\<close>

text \<open>
  Components that interleave are step relations.  \<open>reach\<close> are the states reached from the start; an
  inductive invariant holds in all of them, and so does one relative to an invariant known already.
\<close>

locale trans_sys =
  fixes start :: "'s \<Rightarrow> bool" and step :: "'s \<Rightarrow> 's \<Rightarrow> bool"
begin

inductive reach :: "'s \<Rightarrow> bool" where
  reach_start: "start s \<Longrightarrow> reach s"
| reach_step: "reach s \<Longrightarrow> step s t \<Longrightarrow> reach t"

lemma reach_invariant:
  assumes "reach s" and "\<And>s. start s \<Longrightarrow> I s" and "\<And>s t. reach s \<Longrightarrow> I s \<Longrightarrow> step s t \<Longrightarrow> I t"
  shows "I s"
  using assms(1)
proof (induction rule: reach.induct)
  case (reach_start s)
  then show ?case by (rule assms(2))
next
  case (reach_step s t)
  then show ?case using assms(3) by blast
qed

lemma reach_steps: "reach s \<Longrightarrow> step\<^sup>*\<^sup>* s t \<Longrightarrow> reach t"
proof (rule rtranclp_induct [of step s t reach])
  assume "reach s" then show "reach s" .
next
  fix y z assume "reach y" "step y z" then show "reach z" by (rule reach_step)
qed

end

text \<open>
  The interface of a store whose effects can be undone from what was there before, up to a view of it, and a
  log of applied effects: undoing the log in reverse leads back to where it began.
\<close>

locale undoable =
  fixes app :: "'e \<Rightarrow> 's \<Rightarrow> 'x + 's" and prior :: "'e \<Rightarrow> 's \<Rightarrow> 'p" and undo :: "'p \<Rightarrow> 's \<Rightarrow> 's"
    and view :: "'s \<Rightarrow> 'v" and ok :: "'s \<Rightarrow> bool"
  assumes undo_app: "ok s \<Longrightarrow> app e s = Inr s' \<Longrightarrow> view (undo (prior e s) s') = view s"
    and undo_view: "view s = view t \<Longrightarrow> view (undo p s) = view (undo p t)"
    and ok_app: "ok s \<Longrightarrow> app e s = Inr s' \<Longrightarrow> ok s'"
begin

inductive logged :: "'s \<Rightarrow> 'p list \<Rightarrow> 's \<Rightarrow> bool" for s0 where
  logged_nil: "logged s0 [] s0"
| logged_app: "logged s0 ps s \<Longrightarrow> app e s = Inr s' \<Longrightarrow> logged s0 (ps @ [prior e s]) s'"

lemma logged_ok: "logged s0 ps s \<Longrightarrow> ok s0 \<Longrightarrow> ok s"
  by (induction rule: logged.induct) (auto intro: ok_app)

lemma fold_view: "view s = view t \<Longrightarrow> view (fold undo ps s) = view (fold undo ps t)"
proof (induction ps arbitrary: s t)
  case (Cons p ps)
  show ?case using Cons.IH [OF undo_view [OF Cons.prems]] by simp
qed simp

lemma undo_log: "logged s0 ps s \<Longrightarrow> ok s0 \<Longrightarrow> view (fold undo (rev ps) s) = view s0"
proof (induction rule: logged.induct)
  case (logged_app ps s e s')
  have "view (undo (prior e s) s') = view s" using undo_app logged_app logged_ok by blast
  then have "view (fold undo (rev ps) (undo (prior e s) s')) = view (fold undo (rev ps) s)" by (rule fold_view)
  then show ?case using logged_app by simp
qed simp

end

end
