(* ===== verification/Events.thy ===== *)
theory Events
  imports Prelude
begin

text \<open>
  The event protocol and its validation (\<^verbatim>\<open>kernel/event_protocol.py\<close>,
  \<^verbatim>\<open>kernel/event_validator.py\<close>).  An event is a dictionary with the keys source, target, kind
  and payload; the validator is a list of rules, each of which passes or raises.  The main lemma
  characterises the accepted events; the others show which inputs make a rule raise something
  other than the protocol's own error.
\<close>

definition VOID :: pyval where
  "VOID = PStr ''VOID''"

definition SYSTEM_COMMANDS :: "string list" where
  "SYSTEM_COMMANDS = [''terminate'', ''install_device'', ''uninstall_device'', ''grant_scope'',
     ''revoke_scope'']"

definition KERNEL_COMMANDS :: "string list" where
  "KERNEL_COMMANDS = [''install_device'', ''uninstall_device'', ''grant_scope'', ''revoke_scope'']"

definition KIND_LEVELS :: "string list" where
  "KIND_LEVELS = [''system'', ''application'']"

text \<open>One constructor per rule class; the registry rules carry the registered identities.\<close>

datatype rule =
    IsDict
  | HasSource
  | HasTarget
  | KnownKind
  | SystemCommand
  | SourceRegistered "string list"
  | TargetRegistered "string list"

definition reject_unless :: "bool \<Rightarrow> string \<Rightarrow> unit res" where
  "reject_unless b m = (if b then Inr () else Inl (EventError m))"

definition system_command_validate :: "pyval \<Rightarrow> unit res" where
  "system_command_validate ev =
     rbind (py_get ev ''kind'') (\<lambda>kind.
       if kind \<noteq> PStr ''system'' then Inr ()
       else rbind (py_get_or ev ''payload'' (PDict [])) (\<lambda>payload.
         rbind (py_get payload ''command'') (\<lambda>command.
         rbind (py_in_strs command SYSTEM_COMMANDS) (\<lambda>known.
         rbind (reject_unless known ''unknown system command'') (\<lambda>_.
         rbind (py_in_strs command KERNEL_COMMANDS) (\<lambda>kernel_only.
         rbind (py_get ev ''target'') (\<lambda>target.
           reject_unless (\<not> (kernel_only \<and> target \<noteq> PStr ''kernel''))
             ''system command must address the kernel'')))))))"

fun rule_validate :: "rule \<Rightarrow> pyval \<Rightarrow> unit res" where
  "rule_validate IsDict ev =
     reject_unless (case ev of PDict _ \<Rightarrow> True | _ \<Rightarrow> False) ''event must be a dict''"
| "rule_validate HasSource ev =
     rbind (py_get ev ''source'') (\<lambda>v. reject_unless (nonempty_str v) ''source must be a string'')"
| "rule_validate HasTarget ev =
     rbind (py_get ev ''target'') (\<lambda>v. reject_unless (nonempty_str v) ''target must be a string'')"
| "rule_validate KnownKind ev =
     rbind (py_get ev ''kind'') (\<lambda>v.
       rbind (py_in_strs v KIND_LEVELS) (\<lambda>b. reject_unless b ''unknown kind''))"
| "rule_validate SystemCommand ev = system_command_validate ev"
| "rule_validate (SourceRegistered reg) ev =
     rbind (py_get ev ''source'') (\<lambda>v.
       rbind (py_in_strs v reg) (\<lambda>b. reject_unless b ''source not registered''))"
| "rule_validate (TargetRegistered reg) ev =
     rbind (py_get ev ''target'') (\<lambda>v.
       rbind (py_in_strs v reg) (\<lambda>b. reject_unless b ''target not registered''))"

definition DEFAULT_RULES :: "rule list" where
  "DEFAULT_RULES = [IsDict, HasSource, HasTarget, KnownKind, SystemCommand]"

fun validate_all :: "pyval \<Rightarrow> rule list \<Rightarrow> pyval res" where
  "validate_all ev [] = Inr ev"
| "validate_all ev (r # rs) = rbind (rule_validate r ev) (\<lambda>_. validate_all ev rs)"

definition validate_event :: "pyval \<Rightarrow> rule list \<Rightarrow> pyval res" where
  "validate_event ev rules = validate_all ev (if rules = [] then DEFAULT_RULES else rules)"

text \<open>The kernel's rule set: the default rules and the two registry rules.\<close>

definition kernel_rules :: "string list \<Rightarrow> rule list" where
  "kernel_rules reg = DEFAULT_RULES @ [SourceRegistered reg, TargetRegistered reg]"

section \<open>What the validator accepts\<close>

text \<open>The shape of an accepted event, over the fields of its dictionary.\<close>

definition field_is :: "(string, pyval) dict \<Rightarrow> string \<Rightarrow> string \<Rightarrow> bool" where
  "field_is d k s \<longleftrightarrow> dget d k = Some (PStr s)"

definition wf_system :: "(string, pyval) dict \<Rightarrow> string \<Rightarrow> bool" where
  "wf_system d t \<longleftrightarrow> (\<exists>p c. dget d ''payload'' = Some (PDict p) \<and> field_is p ''command'' c
     \<and> (c = ''terminate'' \<or> c \<in> set KERNEL_COMMANDS \<and> t = ''kernel''))"

definition wf_event :: "string list \<Rightarrow> pyval \<Rightarrow> bool" where
  "wf_event reg ev \<longleftrightarrow> (\<exists>d s t. ev = PDict d \<and> field_is d ''source'' s \<and> field_is d ''target'' t
     \<and> s \<noteq> [] \<and> t \<noteq> [] \<and> s \<in> set reg \<and> t \<in> set reg
     \<and> (field_is d ''kind'' ''application'' \<or> field_is d ''kind'' ''system'' \<and> wf_system d t))"

lemma reject_unless_Inr [simp]: "reject_unless b m = Inr u \<longleftrightarrow> b"
  by (auto simp: reject_unless_def)

lemma nonempty_str_iff: "nonempty_str v \<longleftrightarrow> (\<exists>s. v = PStr s \<and> s \<noteq> [])"
  by (cases v) auto

lemma py_in_strs_Inr: "py_in_strs v ss = Inr b \<longleftrightarrow> hashable v \<and> b = (v \<in> PStr ` set ss)"
  by (auto simp: py_in_strs_def)

lemma get_PStr: "(case dget d k of None \<Rightarrow> PNone | Some v \<Rightarrow> v) = PStr s \<longleftrightarrow> field_is d k s"
  by (auto simp: field_is_def split: option.splits)

lemma field_is_unique: "field_is d k s \<Longrightarrow> field_is d k t \<longleftrightarrow> s = t"
  by (auto simp: field_is_def)

lemma validate_all_append:
  "validate_all ev (rs @ qs) = rbind (validate_all ev rs) (\<lambda>_. validate_all ev qs)"
  by (induction rs) (auto simp: rbind_def split: sum.splits)

lemma hashable_PStr: "v \<in> PStr ` A \<Longrightarrow> hashable v"
  by auto

lemma system_command_application:
  "field_is d ''kind'' ''application'' \<Longrightarrow> system_command_validate (PDict d) = Inr ()"
  by (simp add: system_command_validate_def field_is_def)

lemma system_command_system:
  assumes "field_is d ''kind'' ''system''" and "field_is d ''target'' t"
  shows "system_command_validate (PDict d) = Inr u \<longleftrightarrow> wf_system d t"
proof (cases "dget d ''payload''")
  case None
  with assms show ?thesis
    by (auto simp: system_command_validate_def wf_system_def field_is_def py_in_strs_def
        SYSTEM_COMMANDS_def reject_unless_def)
next
  case (Some p)
  show ?thesis
  proof (cases "\<exists>q. p = PDict q")
    case False
    with Some assms show ?thesis
      by (cases p) (auto simp: system_command_validate_def wf_system_def field_is_def)
  next
    case True
    then obtain q where q: "p = PDict q" by blast
    have sys: "v \<in> PStr ` set SYSTEM_COMMANDS \<longleftrightarrow>
        v = PStr ''terminate'' \<or> v \<in> PStr ` set KERNEL_COMMANDS" for v
      by (auto simp: SYSTEM_COMMANDS_def KERNEL_COMMANDS_def)
    have ter: "PStr ''terminate'' \<notin> PStr ` set KERNEL_COMMANDS"
      by (auto simp: KERNEL_COMMANDS_def)
    show ?thesis
      using Some assms q sys ter
      by (cases "dget q ''command''")
        (auto simp: system_command_validate_def wf_system_def field_is_def rbind_Inr
          py_in_strs_Inr dest: hashable_PStr)
  qed
qed

lemma in_KIND_LEVELS: "v \<in> PStr ` set KIND_LEVELS \<longleftrightarrow> v = PStr ''system'' \<or> v = PStr ''application''"
  by (auto simp: KIND_LEVELS_def)

lemma rule_HasSource:
  "rule_validate HasSource (PDict d) = Inr u \<longleftrightarrow> (\<exists>s. field_is d ''source'' s \<and> s \<noteq> [])"
  by (auto simp: nonempty_str_iff get_PStr)

lemma rule_HasTarget:
  "rule_validate HasTarget (PDict d) = Inr u \<longleftrightarrow> (\<exists>s. field_is d ''target'' s \<and> s \<noteq> [])"
  by (auto simp: nonempty_str_iff get_PStr)

lemma rule_KnownKind:
  "rule_validate KnownKind (PDict d) = Inr u \<longleftrightarrow>
     field_is d ''kind'' ''application'' \<or> field_is d ''kind'' ''system''"
  by (auto simp: rbind_Inr py_in_strs_Inr in_KIND_LEVELS get_PStr) (simp_all add: field_is_def)

lemma rule_Registered:
  "field_is d ''source'' s \<Longrightarrow> rule_validate (SourceRegistered reg) (PDict d) = Inr u \<longleftrightarrow> s \<in> set reg"
  "field_is d ''target'' t \<Longrightarrow> rule_validate (TargetRegistered reg) (PDict d) = Inr u \<longleftrightarrow> t \<in> set reg"
  by (auto simp: rbind_Inr py_in_strs_Inr field_is_def)

lemmas rule_validate_iff = rule_HasSource rule_HasTarget rule_KnownKind

lemma validate_not_dict:
  "(\<And>d. ev \<noteq> PDict d) \<Longrightarrow> validate_event ev (kernel_rules reg) = Inl (EventError ''event must be a dict'')"
  by (cases ev)
    (auto simp: validate_event_def kernel_rules_def DEFAULT_RULES_def reject_unless_def)

lemma validate_dict_step:
  "validate_event (PDict d) (kernel_rules reg) = Inr ev' \<longleftrightarrow>
     ev' = PDict d
     \<and> rule_validate HasSource (PDict d) = Inr () \<and> rule_validate HasTarget (PDict d) = Inr ()
     \<and> rule_validate KnownKind (PDict d) = Inr () \<and> system_command_validate (PDict d) = Inr ()
     \<and> rule_validate (SourceRegistered reg) (PDict d) = Inr ()
     \<and> rule_validate (TargetRegistered reg) (PDict d) = Inr ()"
  by (auto simp: validate_event_def kernel_rules_def DEFAULT_RULES_def rbind_Inr reject_unless_def
      simp del: rule_validate.simps(2-7))
    (auto simp: rbind_Inr)

lemma validates_iff:
  "validate_event ev (kernel_rules reg) = Inr ev' \<longleftrightarrow> ev' = ev \<and> wf_event reg ev"
proof (cases "\<exists>d. ev = PDict d")
  case False
  then show ?thesis
    by (auto simp: validate_not_dict wf_event_def)
next
  case True
  then obtain d where d: "ev = PDict d" by blast
  show ?thesis
  proof (cases "\<exists>s t. field_is d ''source'' s \<and> field_is d ''target'' t \<and> s \<noteq> [] \<and> t \<noteq> []")
    case False
    then show ?thesis
      unfolding d validate_dict_step rule_validate_iff wf_event_def by auto
  next
    case True
    then obtain s t where st: "field_is d ''source'' s" "field_is d ''target'' t" "s \<noteq> []" "t \<noteq> []"
      by blast
    have kinds: "\<not> (field_is d ''kind'' ''application'' \<and> field_is d ''kind'' ''system'')"
      by (auto simp: field_is_def)
    have uniq: "field_is d ''source'' s' \<longleftrightarrow> s' = s" "field_is d ''target'' t' \<longleftrightarrow> t' = t" for s' t'
      using st by (auto simp: field_is_def)
    show ?thesis
      using st kinds system_command_application [of d] system_command_system [OF _ st(2)]
      unfolding d validate_dict_step rule_validate_iff wf_event_def
      by (auto simp: rule_Registered(1) [OF st(1)] rule_Registered(2) [OF st(2)] uniq
          simp del: rule_validate.simps)
  qed
qed

text \<open>
  C1. The kernel's validator accepts exactly the well-formed events: a dictionary whose source and
  target are non-empty registered identities, whose kind is application, or system with a
  whitelisted command in its payload; commands other than terminate must address the kernel.
  An accepted event is returned unchanged.
\<close>

theorem validate_event_iff:
  "validate_event ev (kernel_rules reg) = Inr ev' \<longleftrightarrow> ev' = ev \<and> wf_event reg ev"
  by (rule validates_iff)

section \<open>Inputs outside the protocol's own error\<close>

text \<open>
  A system event whose payload is not a dictionary makes the rule raise an attribute error,
  which is not the error the kernel's processing path catches.
\<close>

lemma system_payload_not_dict_escapes:
  "validate_event (PDict [(''source'', PStr ''a''), (''target'', PStr ''a''),
      (''kind'', PStr ''system''), (''payload'', PStr ''x'')]) (kernel_rules [''a''])
   = Inl AttributeError"
  by (simp add: validate_event_def kernel_rules_def DEFAULT_RULES_def reject_unless_def
      py_in_strs_def KIND_LEVELS_def system_command_validate_def)

text \<open>
  A maintenance session requested as a system command is rejected: the command is missing from
  the whitelist although the kernel handles it.
\<close>

lemma maintenance_session_not_whitelisted:
  assumes "dget p ''command'' = Some (PStr ''maintenance_session'')"
  shows "system_command_validate (PDict [(''source'', PStr s), (''target'', PStr ''kernel''),
      (''kind'', PStr ''system''), (''payload'', PDict p)])
    = Inl (EventError ''unknown system command'')"
  using assms
  by (auto simp: system_command_validate_def py_in_strs_def SYSTEM_COMMANDS_def reject_unless_def)

end
