(* ===== verification/Authority.thy ===== *)
theory Authority
  imports Events
begin

text \<open>
  The Authority device (\<^verbatim>\<open>kernel/authority.py\<close>): the registry of identities with their declared
  tools and scopes, the grant table \<open>(position, device, token)\<close>, and the injection of the entries
  an agent may see.  A Python set of grants is modelled by a list without duplicates; keys of the
  registry and of the grant table are strings, as everything the kernel sends here is, and any
  other key is modelled as a type error.
\<close>

definition ROOT_POSITION :: string where
  "ROOT_POSITION = ''root''"

definition ORG_DEVICE :: string where
  "ORG_DEVICE = ''org''"

record info =
  i_tools :: pyval
  i_scopes :: pyval
  i_agent :: bool
  i_position :: pyval

record authority =
  identities :: "(string, info) dict"
  grants :: "(string, (string \<times> string) list) dict"
  injected :: "(string, (string, pyval) dict) dict"

definition init_authority :: authority where
  "init_authority = \<lparr>identities = [], grants = [], injected = []\<rparr>"

fun py_key :: "pyval \<Rightarrow> string res" where
  "py_key (PStr s) = Inr s"
| "py_key _ = Inl TypeError"

definition item_key :: "pyval \<Rightarrow> string \<Rightarrow> string res" where
  "item_key p k = rbind (py_item p k) py_key"

section \<open>Queries\<close>

definition grants_of :: "authority \<Rightarrow> pyval \<Rightarrow> (string \<times> string) list" where
  "grants_of a pos = (case pos of
       PStr p \<Rightarrow> (case dget (grants a) p of None \<Rightarrow> [] | Some g \<Rightarrow> g)
     | _ \<Rightarrow> [])"

definition position_of :: "authority \<Rightarrow> string \<Rightarrow> pyval" where
  "position_of a identity =
     (case dget (identities a) identity of None \<Rightarrow> PNone | Some i \<Rightarrow> i_position i)"

definition authorized :: "authority \<Rightarrow> string \<Rightarrow> string \<Rightarrow> bool" where
  "authorized a identity scope =
     (let position = position_of a identity in
      if position = PStr ROOT_POSITION then True
      else truthy position \<and> (ORG_DEVICE, scope) \<in> set (grants_of a position))"

text \<open>The lookup raises for a position that is not empty and not hashable.\<close>

definition askable :: "authority \<Rightarrow> string \<Rightarrow> bool" where
  "askable a identity \<longleftrightarrow> truthy (position_of a identity) \<longrightarrow> hashable (position_of a identity)"

definition scope_val :: "string \<times> string \<Rightarrow> pyval" where
  "scope_val g = PDict [(''device'', PStr (fst g)), (''token'', PStr (snd g))]"

definition auth_context :: "authority \<Rightarrow> string \<Rightarrow> pyval" where
  "auth_context a identity =
     (let position = position_of a identity;
          gs = (if is_str position then grants_of a position else [])
      in PDict [(''position'', position), (''scopes'', PList (map scope_val (sort gs)))])"

definition agents :: "authority \<Rightarrow> string list" where
  "agents a = map fst (filter (\<lambda>p. i_agent (snd p)) (identities a))"

definition device_grants :: "authority \<Rightarrow> string \<Rightarrow> (string \<times> string) list" where
  "device_grants a identity =
     concat (map (\<lambda>p. map (\<lambda>g. (fst p, snd g)) (filter (\<lambda>g. fst g = identity) (snd p))) (grants a))"

section \<open>Updates of the grant table\<close>

definition setdefault_grants :: "string \<Rightarrow> authority \<Rightarrow> authority" where
  "setdefault_grants position a =
     (if dget (grants a) position = None then a\<lparr>grants := dset position [] (grants a)\<rparr> else a)"

definition add_grant :: "string \<Rightarrow> string \<Rightarrow> string \<Rightarrow> authority \<Rightarrow> authority" where
  "add_grant position device token a =
     (let gs = grants_of a (PStr position) in
      a\<lparr>grants := dset position (if (device, token) \<in> set gs then gs else gs @ [(device, token)])
                    (grants a)\<rparr>)"

definition discard_grant :: "string \<Rightarrow> string \<Rightarrow> string \<Rightarrow> authority \<Rightarrow> authority" where
  "discard_grant position device token a =
     (case dget (grants a) position of None \<Rightarrow> a
      | Some gs \<Rightarrow> a\<lparr>grants := dset position (filter (\<lambda>g. g \<noteq> (device, token)) gs) (grants a)\<rparr>)"

definition drop_device :: "string \<Rightarrow> authority \<Rightarrow> authority" where
  "drop_device identity a =
     a\<lparr>identities := dpop identity (identities a),
       grants := map (\<lambda>p. (fst p, filter (\<lambda>g. fst g \<noteq> identity) (snd p))) (grants a)\<rparr>"

section \<open>Injection\<close>

fun rfold :: "('a \<Rightarrow> 'b \<Rightarrow> 'b res) \<Rightarrow> 'a list \<Rightarrow> 'b \<Rightarrow> 'b res" where
  "rfold f [] b = Inr b"
| "rfold f (x # xs) b = rbind (f x b) (rfold f xs)"

definition entry_val :: "string \<Rightarrow> string \<Rightarrow> pyval \<Rightarrow> pyval \<Rightarrow> pyval \<Rightarrow> pyval \<Rightarrow> pyval list \<Rightarrow> pyval
    \<Rightarrow> string \<Rightarrow> pyval" where
  "entry_val entry_id typ name description parameters priority trigger version device_id =
     PDict [(''entry_id'', PStr entry_id), (''type'', PStr typ),
       (''content'', PDict [(''name'', name), (''description'', description),
          (''parameters'', parameters)]),
       (''trigger'', PList trigger), (''priority'', priority),
       (''associated'', PList [PStr device_id]), (''version'', version),
       (''links'', PList []), (''deleted_at'', PNone)]"

definition entry :: "string \<Rightarrow> pyval \<Rightarrow> pyval res" where
  "entry device_id tool =
     rbind (item_key tool ''name'') (\<lambda>name.
     rbind (py_get_or tool ''description'' (PStr '''')) (\<lambda>description.
     rbind (py_get_or tool ''parameters'' (PDict [])) (\<lambda>parameters.
     rbind (py_get tool ''trigger'') (\<lambda>tr.
     rbind (py_list (py_or tr (PList []))) (\<lambda>trigger.
     rbind (py_get_or tool ''priority'' (PInt 10)) (\<lambda>priority.
       Inr (entry_val (''tool:'' @ device_id @ '':'' @ name) ''tool'' (PStr name) description
              parameters priority trigger (PInt 1) device_id)))))))"

definition perm_entry :: "string \<Rightarrow> pyval \<Rightarrow> pyval res" where
  "perm_entry device_id scope =
     rbind (item_key scope ''token'') (\<lambda>token.
     rbind (py_get_or scope ''explanation'' (PStr '''')) (\<lambda>explanation.
       Inr (entry_val (''perm:'' @ device_id @ '':'' @ token) ''skill''
              (PStr (device_id @ '':'' @ token)) explanation (PDict []) (PInt 10) [] (PInt 1)
              device_id)))"

fun by_device :: "(string \<times> string) list \<Rightarrow> (string, string list) dict \<Rightarrow> (string, string list) dict"
where
  "by_device [] d = d"
| "by_device ((device, token) # gs) d =
     by_device gs (dset device ((case dget d device of None \<Rightarrow> [] | Some ts \<Rightarrow> ts) @ [token]) d)"

definition add_tool :: "string \<Rightarrow> pyval \<Rightarrow> (string, pyval) dict \<Rightarrow> (string, pyval) dict res" where
  "add_tool dev_id tool new =
     rbind (entry dev_id tool) (\<lambda>e. rbind (item_key tool ''name'') (\<lambda>name. Inr (dset name e new)))"

definition add_tools :: "(string, string list) dict \<Rightarrow> string \<times> info \<Rightarrow> (string, pyval) dict
    \<Rightarrow> (string, pyval) dict res" where
  "add_tools bd p new =
     (if i_agent (snd p) \<or> dget bd (fst p) = None then Inr new
      else rbind (py_list (i_tools (snd p))) (\<lambda>ts. rfold (add_tool (fst p)) ts new))"

definition add_skill :: "string \<Rightarrow> string list \<Rightarrow> pyval \<Rightarrow> (string, pyval) dict
    \<Rightarrow> (string, pyval) dict res" where
  "add_skill dev_id tokens scope new =
     rbind (item_key scope ''token'') (\<lambda>token.
       if token \<in> set tokens
       then rbind (perm_entry dev_id scope) (\<lambda>e. Inr (dset (dev_id @ '':'' @ token) e new))
       else Inr new)"

definition add_skills :: "authority \<Rightarrow> (string, string list) dict \<Rightarrow> string \<Rightarrow> (string, pyval) dict
    \<Rightarrow> (string, pyval) dict res" where
  "add_skills a bd dev_id new =
     (case dget (identities a) dev_id of
        None \<Rightarrow> Inr new
      | Some i \<Rightarrow> if i_agent i then Inr new
          else rbind (py_list (py_or (i_scopes i) (PList []))) (\<lambda>ss.
            rfold (add_skill dev_id (case dget bd dev_id of None \<Rightarrow> [] | Some ts \<Rightarrow> ts)) ss new))"

definition visible :: "authority \<Rightarrow> pyval \<Rightarrow> (string, pyval) dict res" where
  "visible a position =
     (if \<not> hashable position then Inl TypeError
      else let bd = by_device (grants_of a position) [] in
      rbind (rfold (add_tools bd) (identities a) []) (\<lambda>new.
        rfold (add_skills a bd) (sort (dkeys bd)) new))"

definition inject_event :: "string \<Rightarrow> (string, pyval) dict \<Rightarrow> (string, pyval) dict \<Rightarrow> pyval" where
  "inject_event agent old new =
     PDict [(''target'', PStr agent), (''kind'', PStr ''application''),
       (''payload'', PDict [(''command'', PStr ''inject''), (''entries'', PList (dvals new)),
          (''evict'', PList (map PStr (filter (\<lambda>n. dget new n = None) (dkeys old))))])]"

definition build_inject :: "string \<Rightarrow> (authority, pyval) sx" where
  "build_inject agent =
     bind (asks (\<lambda>a. dget (identities a) agent)) (\<lambda>i.
     (case i of
        None \<Rightarrow> throw (KeyError agent)
      | Some me \<Rightarrow>
          bind (asks (\<lambda>a. visible a (i_position me))) (\<lambda>r.
          bind (lift r) (\<lambda>new.
          bind (asks (\<lambda>a. case dget (injected a) agent of None \<Rightarrow> [] | Some d \<Rightarrow> d)) (\<lambda>old.
          andthen (modify (\<lambda>a. a\<lparr>injected := dset agent new (injected a)\<rparr>))
            (ret (inject_event agent old new)))))))"

section \<open>The command surface\<close>

definition reply :: "(string, pyval) dict \<Rightarrow> pyval" where
  "reply payload = PDict [(''target'', PStr ''kernel''), (''kind'', PStr ''application''),
     (''payload'', PDict payload)]"

definition denied :: "pyval \<Rightarrow> pyval" where
  "denied source = PDict [(''target'', source), (''kind'', PStr ''application''),
     (''payload'', PDict [(''command'', PStr ''denied''),
        (''reason'', PStr ''authority commands are kernel only'')])]"

definition register_request :: "pyval \<Rightarrow> (authority, pyval) sx" where
  "register_request p =
     bind (lift (item_key p ''identity'')) (\<lambda>identity.
     bind (lift (py_get p ''tools'')) (\<lambda>tools.
     bind (lift (py_get p ''scopes'')) (\<lambda>scopes.
     bind (lift (py_get p ''agent'')) (\<lambda>agent.
     bind (lift (py_get p ''position'')) (\<lambda>position.
     andthen (modify (\<lambda>a. a\<lparr>identities := dset identity
         \<lparr>i_tools = py_or tools (PList []), i_scopes = py_or scopes (PList []),
          i_agent = truthy agent, i_position = position\<rparr> (identities a)\<rparr>))
       (ret VOID))))))"

definition unregister_request :: "pyval \<Rightarrow> (authority, pyval) sx" where
  "unregister_request p =
     bind (lift (item_key p ''identity'')) (\<lambda>identity.
       andthen (modify (drop_device identity)) (ret VOID))"

definition grant_request :: "pyval \<Rightarrow> (authority, pyval) sx" where
  "grant_request p =
     bind (lift (item_key p ''position'')) (\<lambda>position.
     andthen (modify (setdefault_grants position))
     (bind (lift (item_key p ''device'')) (\<lambda>device.
      bind (lift (item_key p ''token'')) (\<lambda>token.
      andthen (modify (add_grant position device token)) (ret VOID)))))"

definition revoke_request :: "pyval \<Rightarrow> (authority, pyval) sx" where
  "revoke_request p =
     bind (lift (item_key p ''position'')) (\<lambda>position.
     bind (lift (item_key p ''device'')) (\<lambda>device.
     bind (lift (item_key p ''token'')) (\<lambda>token.
     andthen (modify (discard_grant position device token)) (ret VOID))))"

definition device_grants_request :: "pyval \<Rightarrow> (authority, pyval) sx" where
  "device_grants_request p =
     bind (lift (item_key p ''identity'')) (\<lambda>identity.
     bind (asks (\<lambda>a. device_grants a identity)) (\<lambda>gs.
     ret (reply [(''grants'', PList (map (\<lambda>g. PDict [(''position'', PStr (fst g)),
            (''token'', PStr (snd g))]) gs))])))"

definition authorize_request :: "pyval \<Rightarrow> (authority, pyval) sx" where
  "authorize_request p =
     bind (lift (item_key p ''identity'')) (\<lambda>identity.
     bind (lift (item_key p ''scope'')) (\<lambda>scope.
     bind (asks (\<lambda>a. askable a identity)) (\<lambda>h.
     andthen (guard h TypeError)
     (bind (asks (\<lambda>a. authorized a identity scope)) (\<lambda>b.
     ret (reply [(''allowed'', PBool b)]))))))"

definition auth_request :: "pyval \<Rightarrow> (authority, pyval) sx" where
  "auth_request p =
     bind (lift (item_key p ''identity'')) (\<lambda>identity.
     bind (asks (\<lambda>a. auth_context a identity)) (\<lambda>c. ret (reply [(''auth'', c)])))"

definition inject_request :: "pyval \<Rightarrow> (authority, pyval) sx" where
  "inject_request p = bind (lift (item_key p ''agent'')) build_inject"

definition agents_request :: "(authority, pyval) sx" where
  "agents_request = bind (asks agents) (\<lambda>as. ret (reply [(''agents'', PList (map PStr as))]))"

definition respond :: "pyval \<Rightarrow> (authority, pyval) sx" where
  "respond ev =
     bind (lift (py_get ev ''source'')) (\<lambda>source.
     if source \<noteq> PStr ''system'' then bind (lift (py_item ev ''source'')) (\<lambda>s. ret (denied s))
     else bind (lift (py_item ev ''payload'')) (\<lambda>p.
       bind (lift (py_get p ''command'')) (\<lambda>command.
       if command = PStr ''register_request'' then register_request p
       else if command = PStr ''unregister_request'' then unregister_request p
       else if command = PStr ''grant_request'' then grant_request p
       else if command = PStr ''revoke_request'' then revoke_request p
       else if command = PStr ''device_grants_request'' then device_grants_request p
       else if command = PStr ''authorize_request'' then authorize_request p
       else if command = PStr ''auth_request'' then auth_request p
       else if command = PStr ''inject_request'' then inject_request p
       else if command = PStr ''agents_request'' then agents_request
       else ret VOID)))"


section \<open>The grant table as a ternary relation\<close>

definition holds :: "authority \<Rightarrow> string \<Rightarrow> string \<Rightarrow> string \<Rightarrow> bool" where
  "holds a position device token \<longleftrightarrow> (device, token) \<in> set (grants_of a (PStr position))"

text \<open>
  What the kernel relies on when it wires a device: granting adds one triple, revoking removes
  one, dropping a device removes exactly its triples.
\<close>

locale grant_table =
  fixes held :: "'a \<Rightarrow> 'p \<Rightarrow> 'd \<Rightarrow> 't \<Rightarrow> bool"
    and grant :: "'p \<Rightarrow> 'd \<Rightarrow> 't \<Rightarrow> 'a \<Rightarrow> 'a"
    and revoke :: "'p \<Rightarrow> 'd \<Rightarrow> 't \<Rightarrow> 'a \<Rightarrow> 'a"
    and drop :: "'d \<Rightarrow> 'a \<Rightarrow> 'a"
  assumes held_grant: "held (grant p d t a) p' d' t' \<longleftrightarrow> held a p' d' t' \<or> p' = p \<and> d' = d \<and> t' = t"
    and held_revoke: "held (revoke p d t a) p' d' t' \<longleftrightarrow> held a p' d' t' \<and> \<not> (p' = p \<and> d' = d \<and> t' = t)"
    and held_drop: "held (drop d a) p' d' t' \<longleftrightarrow> held a p' d' t' \<and> d' \<noteq> d"
begin

definition rel :: "'a \<Rightarrow> ('p \<times> 'd \<times> 't) set" where
  "rel a = {(p, d, t). held a p d t}"

lemma rel_grant: "rel (grant p d t a) = insert (p, d, t) (rel a)"
  by (auto simp: rel_def held_grant)

lemma rel_revoke: "rel (revoke p d t a) = rel a - {(p, d, t)}"
  by (auto simp: rel_def held_revoke)

lemma rel_drop: "rel (drop d a) = rel a - UNIV \<times> {d} \<times> UNIV"
  by (auto simp: rel_def held_drop)

lemma rel_grants: "rel (fold (\<lambda>(p, d, t). grant p d t) gs a) = rel a \<union> set gs"
  by (induction gs arbitrary: a) (auto simp: rel_grant)

lemma revoke_grant: "\<not> held a p d t \<Longrightarrow> rel (revoke p d t (grant p d t a)) = rel a"
  unfolding rel_revoke rel_grant by (auto simp: rel_def)

lemma drop_regrant:
  "rel (fold (\<lambda>(p, t). grant p d t) gs (drop d a))
    = (rel a - UNIV \<times> {d} \<times> UNIV) \<union> (\<lambda>(p, t). (p, d, t)) ` set gs"
proof -
  have "rel (fold (\<lambda>(p, t). grant p d t) gs b) = rel b \<union> (\<lambda>(p, t). (p, d, t)) ` set gs" for b
    by (induction gs arbitrary: b) (auto simp: rel_grant)
  then show ?thesis by (simp add: rel_drop)
qed

end

lemma grants_of_dset:
  "grants_of (a\<lparr>grants := dset p gs (grants a)\<rparr>) (PStr q) = (if q = p then gs else grants_of a (PStr q))"
  by (simp add: grants_of_def)

lemma holds_add_grant:
  "holds (add_grant p d t a) p' d' t' \<longleftrightarrow> holds a p' d' t' \<or> p' = p \<and> d' = d \<and> t' = t"
  by (auto simp: holds_def add_grant_def Let_def grants_of_dset)

lemma holds_discard_grant:
  "holds (discard_grant p d t a) p' d' t' \<longleftrightarrow> holds a p' d' t' \<and> \<not> (p' = p \<and> d' = d \<and> t' = t)"
  by (auto simp: holds_def discard_grant_def grants_of_dset grants_of_def split: option.splits)

lemma holds_drop_device:
  "holds (drop_device d a) p' d' t' \<longleftrightarrow> holds a p' d' t' \<and> d' \<noteq> d"
proof -
  have "dget (map (\<lambda>p. (fst p, filter (\<lambda>g. fst g \<noteq> d) (snd p))) gs) p'
      = map_option (filter (\<lambda>g. fst g \<noteq> d)) (dget gs p')" for gs :: "(string, (string \<times> string) list) dict"
    by (induction gs) auto
  then show ?thesis
    by (auto simp: holds_def drop_device_def grants_of_def split: option.splits)
qed

interpretation gt: grant_table holds add_grant discard_grant drop_device
  by unfold_locales (simp_all add: holds_add_grant holds_discard_grant holds_drop_device)

abbreviation grant_rel :: "authority \<Rightarrow> (string \<times> string \<times> string) set" where
  "grant_rel a \<equiv> gt.rel a"

lemma grant_rel_iff: "(p, d, t) \<in> grant_rel a \<longleftrightarrow> holds a p d t"
  by (simp add: gt.rel_def)

lemma grant_rel_setdefault [simp]: "grant_rel (setdefault_grants p a) = grant_rel a"
  by (auto simp: gt.rel_def holds_def setdefault_grants_def grants_of_def
      split: option.splits if_splits)

lemma grant_rel_cong: "grants a = grants b \<Longrightarrow> grant_rel a = grant_rel b"
  by (auto simp: gt.rel_def holds_def grants_of_def)

section \<open>Invariant\<close>

definition authority_wf :: "authority \<Rightarrow> bool" where
  "authority_wf a \<longleftrightarrow> dwf (identities a) \<and> dwf (grants a) \<and> dwf (injected a)
     \<and> (\<forall>(p, gs) \<in> set (grants a). distinct gs)"

lemma in_set_dset: "(k', v') \<in> set (dset k v d) \<Longrightarrow> (k', v') = (k, v) \<or> (k', v') \<in> set d"
  by (induction d) (auto split: if_splits)

lemma ensures_modify: "(\<And>s. P s \<Longrightarrow> P (u s)) \<Longrightarrow> ensures P (modify u)"
  by (simp add: ensures_def modify_def)

lemma grants_of_distinct: "authority_wf a \<Longrightarrow> distinct (grants_of a pos)"
  by (cases pos) (auto simp: authority_wf_def grants_of_def dest!: map_of_SomeD split: option.splits)

lemma wf_setdefault: "authority_wf a \<Longrightarrow> authority_wf (setdefault_grants p a)"
  by (auto simp: authority_wf_def setdefault_grants_def dwf_dset dest!: in_set_dset)

lemma wf_add_grant: "authority_wf a \<Longrightarrow> authority_wf (add_grant p d t a)"
  using grants_of_distinct [of a "PStr p"]
  by (auto simp: authority_wf_def add_grant_def Let_def dwf_dset dest!: in_set_dset)

lemma wf_discard_grant: "authority_wf a \<Longrightarrow> authority_wf (discard_grant p d t a)"
  by (auto simp: authority_wf_def discard_grant_def dwf_dset dest!: in_set_dset map_of_SomeD
      split: option.splits)

lemma wf_drop_device: "authority_wf a \<Longrightarrow> authority_wf (drop_device i a)"
  by (auto simp: authority_wf_def drop_device_def dwf_dpop) (auto simp: dwf_def comp_def)

lemma wf_identities: "authority_wf a \<Longrightarrow> authority_wf (a\<lparr>identities := dset i x (identities a)\<rparr>)"
  by (auto simp: authority_wf_def dwf_dset)

lemma wf_injected: "authority_wf a \<Longrightarrow> authority_wf (a\<lparr>injected := dset i x (injected a)\<rparr>)"
  by (auto simp: authority_wf_def dwf_dset)

lemmas authority_command_defs = register_request_def unregister_request_def grant_request_def
  revoke_request_def device_grants_request_def authorize_request_def auth_request_def
  inject_request_def agents_request_def build_inject_def

lemma respond_wf [ensures_intros]: "ensures authority_wf (respond ev)"
  unfolding respond_def authority_command_defs
  by (intro ensures_intros ensures_modify wf_setdefault wf_add_grant wf_discard_grant
      wf_drop_device wf_identities wf_injected | auto split: option.splits)+


section \<open>Deny by default: what an agent is shown\<close>

definition tool_name :: "pyval \<Rightarrow> string \<Rightarrow> bool" where
  "tool_name tool n \<longleftrightarrow> item_key tool ''name'' = Inr n"

definition scope_token :: "pyval \<Rightarrow> string \<Rightarrow> bool" where
  "scope_token scope t \<longleftrightarrow> item_key scope ''token'' = Inr t"

text \<open>A tool is visible when its device is no agent and some token on the device is held.\<close>

definition tool_visible :: "authority \<Rightarrow> string \<Rightarrow> string \<Rightarrow> bool" where
  "tool_visible a position n \<longleftrightarrow> (\<exists>dev i t ts tool. (dev, i) \<in> set (identities a) \<and> \<not> i_agent i
     \<and> holds a position dev t \<and> py_list (i_tools i) = Inr ts \<and> tool \<in> set ts \<and> tool_name tool n)"

text \<open>A scope's explanation is visible when the declared token itself is held.\<close>

definition skill_visible :: "authority \<Rightarrow> string \<Rightarrow> string \<Rightarrow> bool" where
  "skill_visible a position n \<longleftrightarrow> (\<exists>dev i t ss scope. dget (identities a) dev = Some i \<and> \<not> i_agent i
     \<and> holds a position dev t \<and> py_list (py_or (i_scopes i) (PList [])) = Inr ss \<and> scope \<in> set ss
     \<and> scope_token scope t \<and> n = dev @ '':'' @ t)"

lemma rfold_keys:
  assumes "\<And>x b c. x \<in> set xs \<Longrightarrow> f x b = Inr c \<Longrightarrow> dget c n \<noteq> None \<longleftrightarrow> dget b n \<noteq> None \<or> K x"
    and "rfold f xs b = Inr c"
  shows "dget c n \<noteq> None \<longleftrightarrow> dget b n \<noteq> None \<or> (\<exists>x \<in> set xs. K x)"
  using assms
proof (induction xs arbitrary: b)
  case Nil
  then show ?case by simp
next
  case (Cons x xs)
  from Cons.prems(2) obtain b' where b': "f x b = Inr b'" "rfold f xs b' = Inr c"
    by (auto simp: rbind_Inr)
  have "dget b' n \<noteq> None \<longleftrightarrow> dget b n \<noteq> None \<or> K x"
    using Cons.prems(1) [of x b b'] b'(1) by simp
  moreover have "dget c n \<noteq> None \<longleftrightarrow> dget b' n \<noteq> None \<or> (\<exists>x \<in> set xs. K x)"
    by (rule Cons.IH [OF _ b'(2)]) (rule Cons.prems(1), auto)
  ultimately show ?case by auto
qed

lemma by_device_get:
  "dget (by_device gs d) dev =
     (if dev \<in> fst ` set gs
      then Some ((case dget d dev of None \<Rightarrow> [] | Some ts \<Rightarrow> ts) @ map snd (filter (\<lambda>g. fst g = dev) gs))
      else dget d dev)"
  by (induction gs d rule: by_device.induct)
    (force simp: filter_empty_conv split: option.splits)+

lemma add_tool_keys:
  "add_tool dev tool b = Inr c \<Longrightarrow> dget c n \<noteq> None \<longleftrightarrow> dget b n \<noteq> None \<or> tool_name tool n"
  by (auto simp: add_tool_def rbind_Inr tool_name_def split: if_splits)

lemma add_tools_keys:
  assumes "add_tools bd (dev, i) b = Inr c"
  shows "dget c n \<noteq> None \<longleftrightarrow> dget b n \<noteq> None \<or> (\<not> i_agent i \<and> dget bd dev \<noteq> None
     \<and> (\<exists>ts tool. py_list (i_tools i) = Inr ts \<and> tool \<in> set ts \<and> tool_name tool n))"
proof (cases "i_agent i \<or> dget bd dev = None")
  case True
  with assms show ?thesis by (auto simp: add_tools_def)
next
  case False
  with assms obtain ts where ts: "py_list (i_tools i) = Inr ts" "rfold (add_tool dev) ts b = Inr c"
    by (auto simp: add_tools_def rbind_Inr)
  from rfold_keys [OF _ ts(2), of n "\<lambda>tool. tool_name tool n"] add_tool_keys
  have "dget c n \<noteq> None \<longleftrightarrow> dget b n \<noteq> None \<or> (\<exists>tool \<in> set ts. tool_name tool n)" by blast
  with False ts(1) show ?thesis by auto
qed

lemma add_skill_keys:
  "add_skill dev tokens scope b = Inr c \<Longrightarrow>
     dget c n \<noteq> None \<longleftrightarrow> dget b n \<noteq> None \<or> (\<exists>t \<in> set tokens. scope_token scope t \<and> n = dev @ '':'' @ t)"
proof -
  assume c: "add_skill dev tokens scope b = Inr c"
  then obtain token where tk: "item_key scope ''token'' = Inr token"
    by (auto simp: add_skill_def rbind_Inr)
  show ?thesis
    using c tk by (cases "token \<in> set tokens") (auto simp: add_skill_def rbind_Inr scope_token_def)
qed

lemma add_skills_keys:
  assumes "add_skills a bd dev b = Inr c" and "dget bd dev = Some tokens"
  shows "dget c n \<noteq> None \<longleftrightarrow> dget b n \<noteq> None \<or> (\<exists>i t ss scope. dget (identities a) dev = Some i
     \<and> \<not> i_agent i \<and> t \<in> set tokens \<and> py_list (py_or (i_scopes i) (PList [])) = Inr ss
     \<and> scope \<in> set ss \<and> scope_token scope t \<and> n = dev @ '':'' @ t)"
proof (cases "\<exists>i. dget (identities a) dev = Some i \<and> \<not> i_agent i")
  case False
  with assms show ?thesis by (auto simp: add_skills_def split: option.splits if_splits)
next
  case True
  then obtain i where i: "dget (identities a) dev = Some i" "\<not> i_agent i" by blast
  with assms obtain ss where ss: "py_list (py_or (i_scopes i) (PList [])) = Inr ss"
      "rfold (add_skill dev tokens) ss b = Inr c"
    by (auto simp: add_skills_def rbind_Inr)
  from rfold_keys [OF _ ss(2), of n
      "\<lambda>scope. \<exists>t \<in> set tokens. scope_token scope t \<and> n = dev @ '':'' @ t"] add_skill_keys
  have "dget c n \<noteq> None \<longleftrightarrow> dget b n \<noteq> None
      \<or> (\<exists>scope \<in> set ss. \<exists>t \<in> set tokens. scope_token scope t \<and> n = dev @ '':'' @ t)" by blast
  with i ss(1) show ?thesis by auto
qed

lemma grants_of_by_device:
  "dget (by_device (grants_of a (PStr p)) []) dev \<noteq> None \<longleftrightarrow> (\<exists>t. holds a p dev t)"
  "dget (by_device (grants_of a (PStr p)) []) dev = Some ts \<Longrightarrow> t \<in> set ts \<longleftrightarrow> holds a p dev t"
  by (force simp: by_device_get holds_def split: if_splits)+

text \<open>
  C2. Injection is deny-by-default and complete: when the entries visible to a position are
  computed, a name is among them exactly when it is a tool of a registered device on which the
  position holds some token, or the explanation of a declared scope whose token the position holds.
\<close>

theorem visible_iff:
  assumes "visible a (PStr p) = Inr new"
  shows "dget new n \<noteq> None \<longleftrightarrow> tool_visible a p n \<or> skill_visible a p n"
proof -
  let ?bd = "by_device (grants_of a (PStr p)) []"
  from assms obtain mid where mid: "rfold (add_tools ?bd) (identities a) [] = Inr mid"
      "rfold (add_skills a ?bd) (sort (dkeys ?bd)) mid = Inr new"
    by (auto simp: visible_def Let_def rbind_Inr)
  let ?T = "\<lambda>x. \<exists>t. \<not> i_agent (snd x) \<and> holds a p (fst x) t
     \<and> (\<exists>ts tool. py_list (i_tools (snd x)) = Inr ts \<and> tool \<in> set ts \<and> tool_name tool n)"
  let ?S = "\<lambda>dev. \<exists>i t ss scope. dget (identities a) dev = Some i \<and> \<not> i_agent i \<and> holds a p dev t
     \<and> py_list (py_or (i_scopes i) (PList [])) = Inr ss \<and> scope \<in> set ss \<and> scope_token scope t
     \<and> n = dev @ '':'' @ t"
  have "dget mid n \<noteq> None \<longleftrightarrow> dget ([] :: (string, pyval) dict) n \<noteq> None \<or> (\<exists>x \<in> set (identities a). ?T x)"
  proof (rule rfold_keys [OF _ mid(1)])
    fix x b c
    assume c: "add_tools ?bd x b = Inr c"
    show "dget c n \<noteq> None \<longleftrightarrow> dget b n \<noteq> None \<or> ?T x"
      using add_tools_keys [of ?bd "fst x" "snd x" b c n] c
      unfolding grants_of_by_device(1) prod.collapse by blast
  qed
  then have tools: "dget mid n \<noteq> None \<longleftrightarrow> tool_visible a p n"
    unfolding tool_visible_def by force
  have "dget new n \<noteq> None \<longleftrightarrow> dget mid n \<noteq> None \<or> (\<exists>dev \<in> set (sort (dkeys ?bd)). ?S dev)"
  proof (rule rfold_keys [OF _ mid(2)])
    fix dev b c
    assume "dev \<in> set (sort (dkeys ?bd))" and c: "add_skills a ?bd dev b = Inr c"
    then obtain ts where ts: "dget ?bd dev = Some ts" by auto
    show "dget c n \<noteq> None \<longleftrightarrow> dget b n \<noteq> None \<or> ?S dev"
      using add_skills_keys [OF c ts, of n] grants_of_by_device(2) [OF ts] by auto
  qed
  moreover have "(\<exists>dev \<in> set (sort (dkeys ?bd)). ?S dev) \<longleftrightarrow> skill_visible a p n"
    unfolding skill_visible_def using grants_of_by_device(1) [of a p] by fastforce
  ultimately show ?thesis using tools by blast
qed

text \<open>An organisation with one agent, and one device on which the agent's position holds a scope.\<close>

definition example_authority :: authority where
  "example_authority =
     \<lparr>identities =
        [(''boss'', \<lparr>i_tools = PList [], i_scopes = PList [], i_agent = True, i_position = PStr ''lead''\<rparr>),
         (''clock'', \<lparr>i_tools = PList [PDict [(''name'', PStr ''now''), (''trigger'', PList [PStr ''time''])]],
            i_scopes = PList [PDict [(''token'', PStr ''use'')], PDict [(''token'', PStr ''set'')]],
            i_agent = False, i_position = PNone\<rparr>)],
      grants = [(''lead'', [(''clock'', ''use'')])],
      injected = []\<rparr>"

definition example_tool :: pyval where
  "example_tool = entry_val ''tool:clock:now'' ''tool'' (PStr ''now'') (PStr []) (PDict []) (PInt 10)
     [PStr ''time''] (PInt 1) ''clock''"

lemma example_visible:
  "\<exists>e2. visible example_authority (PStr ''lead'') = Inr [(''now'', example_tool), (''clock:use'', e2)]"
  by (simp add: example_tool_def visible_def example_authority_def add_tools_def add_tool_def entry_def add_skills_def
      add_skill_def perm_entry_def grants_of_def item_key_def Let_def py_or_def dkeys_def)

theorem visible_iff_witness:
  "(tool_visible example_authority ''lead'' ''now'' \<or> skill_visible example_authority ''lead'' ''now'')
   \<and> \<not> tool_visible example_authority ''lead'' ''clock:set''
   \<and> \<not> skill_visible example_authority ''lead'' ''clock:set''"
proof -
  obtain e2 where v: "visible example_authority (PStr ''lead'') = Inr [(''now'', example_tool), (''clock:use'', e2)]"
    using example_visible by blast
  show ?thesis
    using visible_iff [OF v, of "''now''"] visible_iff [OF v, of "''clock:set''"] by simp
qed

end
