(* ===== verification/Process.thy ===== *)
theory Process
  imports Prelude
begin

text \<open>
  Processes and their sandbox (\<^verbatim>\<open>kernel/process.py\<close>, \<^verbatim>\<open>kernel/sandbox_entry.py\<close>): identity
  checks, private homes, the constructor of a user-mode process, the decision whether a process
  enters the sandbox, the mount anchors and the command line of the sandbox.  The file system, the
  interpreter and bubblewrap itself are outside the sources: a resolved path, the interpreter's
  name and the descriptor number are parameters.
\<close>

section \<open>Paths\<close>

definition path_join :: "string \<Rightarrow> string \<Rightarrow> string" where
  "path_join a b =
     (if is_prefix ''/'' b then b
      else if a = [] \<or> last a = CHR ''/'' then a @ b
      else a @ ''/'' @ b)"

definition dirname :: "string \<Rightarrow> string" where
  "dirname p =
     (let h = rev (dropWhile (\<lambda>c. c \<noteq> CHR ''/'') (rev p)) in
      if list_all (\<lambda>c. c = CHR ''/'') h then h else rev (dropWhile (\<lambda>c. c = CHR ''/'') (rev h)))"

section \<open>Identities and homes\<close>

text \<open>The check of the base class, and the check the kernel applies before it registers.\<close>

definition validate_identity :: "string \<Rightarrow> unit res" where
  "validate_identity identity =
     (if identity = [] \<or> substr ''/'' identity \<or> substr ''..'' identity
         \<or> identity \<in> {''.'', ''kernel''}
      then Inl (ValueError ''illegal identity'') else Inr ())"

definition illegal_name :: "string \<Rightarrow> bool" where
  "illegal_name identity \<longleftrightarrow> substr ''/'' identity \<or> substr ''..'' identity \<or> identity = ''.''
     \<or> substr ''@'' identity"

definition home_of :: "string \<Rightarrow> string \<Rightarrow> string" where
  "home_of rt identity = path_join (path_join rt ''home'') identity"

text \<open>
  The escape check: \<open>realpath\<close> is the file system's resolution of symbolic links and dots.
\<close>

definition validate_path :: "(string \<Rightarrow> string) \<Rightarrow> string \<Rightarrow> string \<Rightarrow> unit res" where
  "validate_path realpath home path =
     (let real = realpath path; h = realpath home in
      if real \<noteq> h \<and> \<not> is_prefix (h @ ''/'') real then Inl (ValueError ''path escapes home'')
      else Inr ())"

section \<open>A user-mode process\<close>

text \<open>
  The attributes of a process object the sandbox reads.  \<open>p_workdir\<close> is the attribute
  \<^verbatim>\<open>workdir\<close>, which an object may or may not have.
\<close>

type_synonym load_spec = "string \<times> string \<times> pyval"

record proc =
  p_identity :: string
  p_root :: string
  p_home :: string
  p_load :: "load_spec option"
  p_max :: pyval
  p_maint :: "string option"
  p_network :: pyval
  p_workdir :: "string option"

definition user_mode_init :: "string \<Rightarrow> string option \<Rightarrow> load_spec option \<Rightarrow> pyval \<Rightarrow> string option
    \<Rightarrow> proc res" where
  "user_mode_init rt identity load maxsrc maint =
     (let ident = (case identity of None \<Rightarrow> map_option fst load | Some i \<Rightarrow> Some i) in
      case ident of
        None \<Rightarrow> Inl (ValueError ''identity must be given'')
      | Some i \<Rightarrow> rbind (validate_identity i) (\<lambda>_.
          Inr \<lparr>p_identity = i, p_root = rt, p_home = home_of rt i, p_load = load,
               p_max = maxsrc, p_maint = maint, p_network = PBool False, p_workdir = None\<rparr>))"

text \<open>The agent's constructor: keyword options, of which only these two exist.\<close>

definition agent_init :: "string \<Rightarrow> string \<Rightarrow> pyval \<Rightarrow> proc res" where
  "agent_init rt identity options =
     (case options of
        PDict o1 \<Rightarrow>
          if dget o1 ''position'' = None \<or> (\<exists>k \<in> set (dkeys o1). k \<notin> {''position'', ''needs_network''})
          then Inl TypeError
          else rbind (user_mode_init rt (Some identity) None (PInt 1) None) (\<lambda>p.
            Inr (p\<lparr>p_network := (case dget o1 ''needs_network'' of None \<Rightarrow> PBool False | Some v \<Rightarrow> v)\<rparr>))
      | _ \<Rightarrow> Inl TypeError)"

section \<open>The sandbox\<close>

datatype run_mode = Reexec | RefuseReentry | ServeDirectly

definition run :: "proc \<Rightarrow> string option \<Rightarrow> run_mode" where
  "run p sentinel =
     (if p_load p \<noteq> None \<or> p_workdir p \<noteq> None
      then (if sentinel \<noteq> Some ''1'' then Reexec else RefuseReentry)
      else ServeDirectly)"

definition mount_anchors :: "proc \<Rightarrow> (string list \<times> string list) res" where
  "mount_anchors p =
     (case p_load p of
        Some (_, path, _) \<Rightarrow> Inr ([dirname path], [path])
      | None \<Rightarrow>
          (case p_workdir p of
             None \<Rightarrow> Inl AttributeError
           | Some workdir \<Rightarrow>
               (let own_home = path_join (path_join workdir ''data'') (p_identity p) in
                case p_maint p of
                  None \<Rightarrow> Inr ([own_home], [])
                | Some target \<Rightarrow>
                    if target = [] then Inr ([own_home], [])
                    else if substr ''/'' target \<or> substr ''..'' target
                      \<or> target \<in> {''.'', ''kernel''} \<or> substr ''@'' target
                    then Inl (ValueError ''illegal maintenance target'')
                    else Inr ([own_home, path_join (path_join workdir ''data'') target], []))))"

definition needs_network :: "proc \<Rightarrow> bool res" where
  "needs_network p =
     (case p_load p of
        Some (_, _, options) \<Rightarrow>
          rbind (py_get_or options ''needs_network'' (PBool False)) (\<lambda>v. Inr (truthy v))
      | None \<Rightarrow> Inr (truthy (p_network p)))"

definition bwrap_args :: "string \<Rightarrow> string \<Rightarrow> string list \<Rightarrow> string list \<Rightarrow> bool \<Rightarrow> string list" where
  "bwrap_args executable state_fd writable readonly net =
     [''bwrap'', ''--ro-bind'', ''/'', ''/'', ''--dev'', ''/dev'', ''--proc'', ''/proc'',
      ''--tmpfs'', ''/tmp'', ''--tmpfs'', dirname (hd writable)]
     @ concat (map (\<lambda>a. [''--ro-bind'', a, a]) readonly)
     @ concat (map (\<lambda>a. [''--bind'', a, a]) writable)
     @ [''--unshare-user'', ''--unshare-pid'', ''--unshare-ipc'']
     @ (if net then [] else [''--unshare-net''])
     @ [''--die-with-parent'', executable, ''-m'', ''my_team.kernel.sandbox_entry'', state_fd]"

text \<open>
  The environment variables the re-execution adds, and its command line.  The writable anchors are
  never empty, so \<^verbatim>\<open>writable[0]\<close> exists.
\<close>

record exec_call =
  x_args :: "string list"
  x_env :: "(string, string) dict"

definition sandbox_reexec :: "string option \<Rightarrow> string \<Rightarrow> string \<Rightarrow> string \<Rightarrow> (string, string) dict
    \<Rightarrow> proc \<Rightarrow> exec_call res" where
  "sandbox_reexec bwrap executable state_fd python_path environ p =
     (case bwrap of
        None \<Rightarrow> Inl (OSError ''bwrap not found'')
      | Some _ \<Rightarrow>
          rbind (mount_anchors p) (\<lambda>(writable, readonly).
          rbind (needs_network p) (\<lambda>net.
            Inr \<lparr>x_args = bwrap_args executable state_fd writable readonly net,
                 x_env = dset ''MY_TEAM_DATA_DIR'' (hd writable)
                   (dset ''PYTHONDONTWRITEBYTECODE'' ''1''
                   (dset ''PYTHONPATH'' python_path
                   (dset ''MY_TEAM_SANDBOXED'' ''1'' environ)))\<rparr>)))"

text \<open>
  Inside the sandbox the entry point builds the constructor's options: the sandbox's own switch is
  removed, the root and the identity are added, and parameters without a default that the device's
  signature lists and nobody supplied get a conservative default.  The signature is a parameter:
  the names of the constructor's parameters with whether each has a default.
\<close>

definition entry_defaults :: "(string, pyval) dict" where
  "entry_defaults =
     [(''max_concurrent_sources'', PInt 0), (''max_jobs'', PInt 8), (''timeout'', PFloat (Fin 30)),
      (''deadline'', PFloat (Fin 60)), (''max_deadline'', PFloat (Fin 300)),
      (''output_cap'', PInt 65536), (''completed_cap'', PInt 64)]"

fun fill_defaults :: "(string \<times> bool) list \<Rightarrow> (string, pyval) dict \<Rightarrow> (string, pyval) dict" where
  "fill_defaults [] opts = opts"
| "fill_defaults ((name, has_default) # ps) opts =
     fill_defaults ps
       (if name \<in> {''self'', ''emit'', ''runtime_root'', ''identity''} then opts
        else if dget opts name = None \<and> \<not> has_default
        then (case dget entry_defaults name of None \<Rightarrow> opts | Some v \<Rightarrow> dset name v opts)
        else opts)"

definition serve_device_options :: "(string \<times> bool) list \<Rightarrow> string option \<Rightarrow> string
    \<Rightarrow> (string, pyval) dict \<Rightarrow> (string, pyval) dict" where
  "serve_device_options signature data_dir identity options =
     (let rt = (case data_dir of None \<Rightarrow> ''/tmp'' | Some d \<Rightarrow> d);
          opts = filter (\<lambda>p. fst p \<noteq> ''needs_network'') options;
          opts = dset ''runtime_root'' (PStr (dirname rt)) opts;
          opts = dset ''identity'' (PStr identity) opts
      in fill_defaults signature opts)"

text \<open>The resource limits set before anything else runs in the sandbox.\<close>

definition RLIMITS :: "(string \<times> nat \<times> nat) list" where
  "RLIMITS = [(''RLIMIT_CPU'', 60, 60), (''RLIMIT_AS'', 2 ^ 30, 2 ^ 30), (''RLIMIT_NPROC'', 64, 64)]"

section \<open>Homes of distinct identities\<close>

lemma path_join_simple: "a \<noteq> [] \<Longrightarrow> last a \<noteq> CHR ''/'' \<Longrightarrow> \<not> is_prefix ''/'' b \<Longrightarrow>
    path_join a b = a @ ''/'' @ b"
  by (simp add: path_join_def)

lemma no_slash_prefix: "\<not> substr ''/'' s \<Longrightarrow> \<not> is_prefix ''/'' s"
  by (cases s) (auto simp: substr_single)

lemma home_of_eq:
  assumes "rt \<noteq> []" and "last rt \<noteq> CHR ''/''" and "\<not> substr ''/'' identity"
  shows "home_of rt identity = rt @ ''/home/'' @ identity"
  using assms no_slash_prefix [OF assms(3)]
  by (simp add: home_of_def path_join_def)

lemma dirname_child:
  assumes "CHR ''/'' \<notin> set f" and "d \<noteq> []" and "last d \<noteq> CHR ''/''"
  shows "dirname (d @ ''/'' @ f) = d"
proof -
  have "dropWhile (\<lambda>c. c \<noteq> CHR ''/'') (rev f @ CHR ''/'' # rev d) = CHR ''/'' # rev d"
    using assms(1) by (subst dropWhile_append2) auto
  then have h: "rev (dropWhile (\<lambda>c. c \<noteq> CHR ''/'') (rev (d @ ''/'' @ f))) = d @ ''/''"
    by simp
  obtain ys y where ys: "d = ys @ [y]" using assms(2) by (cases d rule: rev_cases) auto
  have "\<not> list_all (\<lambda>c. c = CHR ''/'') (d @ ''/'')"
    using assms(3) by (simp add: ys)
  moreover have "dropWhile (\<lambda>c. c = CHR ''/'') (rev (d @ ''/'')) = rev d"
    using assms(2,3) by (cases d rule: rev_cases) auto
  ultimately show ?thesis unfolding dirname_def Let_def h by simp
qed

lemma dirname_home:
  assumes "rt \<noteq> []" and "last rt \<noteq> CHR ''/''" and "\<not> substr ''/'' identity"
  shows "dirname (home_of rt identity) = rt @ ''/home''"
  using dirname_child [of identity "rt @ ''/home''"] assms
  by (simp add: home_of_eq substr_single)

text \<open>
  Where a path leads without symbolic links: its components one after the other, where an empty component and a dot stay
  and two dots go up.
\<close>

fun split_slash :: "string \<Rightarrow> string list" where
  "split_slash [] = [[]]"
| "split_slash (c # s) =
     (if c = CHR ''/'' then [] # split_slash s
      else case split_slash s of [] \<Rightarrow> [[c]] | x # xs \<Rightarrow> (c # x) # xs)"

definition walk :: "string \<Rightarrow> string list \<Rightarrow> string list" where
  "walk x here = (if x = [] \<or> x = ''.'' then here else if x = ''..'' then butlast here else here @ [x])"

definition resolved :: "string \<Rightarrow> string list" where
  "resolved p = fold walk (split_slash p) []"

definition inside :: "string \<Rightarrow> string \<Rightarrow> bool" where
  "inside p q \<longleftrightarrow> (\<exists>rest. resolved p = resolved q @ rest)"

lemma split_slash_not_Nil [simp]: "split_slash s \<noteq> []"
  by (cases s) (auto split: list.splits)

lemma split_slash_join: "split_slash (a @ CHR ''/'' # b) = split_slash a @ split_slash b"
  by (induction a) (auto split: list.splits)

lemma split_slash_single: "CHR ''/'' \<notin> set s \<Longrightarrow> split_slash s = [s]"
  by (induction s) auto

lemma resolved_join:
  assumes "CHR ''/'' \<notin> set b"
  shows "resolved (path_join a b) = walk b (resolved a)"
proof -
  have b: "\<not> is_prefix ''/'' b" using assms by (cases b) auto
  show ?thesis
  proof (cases "a = [] \<or> last a = CHR ''/''")
    case True
    show ?thesis
    proof (cases a rule: rev_cases)
      case Nil
      then show ?thesis using b assms by (simp add: path_join_def resolved_def split_slash_single walk_def)
    next
      case (snoc a' c)
      then have "a = a' @ [CHR ''/'']" using True by simp
      then show ?thesis using b assms split_slash_join [of a' b] split_slash_join [of a' "[]"]
        by (simp add: path_join_def resolved_def split_slash_single walk_def)
    qed
  next
    case False
    then show ?thesis using b assms split_slash_join [of a b]
      by (simp add: path_join_def resolved_def split_slash_single)
  qed
qed

lemma legal_home:
  assumes "validate_identity i = Inr ()"
  shows "resolved (home_of rt i) = resolved rt @ [''home'', i]"
proof -
  have i: "i \<noteq> []" "i \<noteq> ''.''" "i \<noteq> ''..''" "CHR ''/'' \<notin> set i"
    using assms by (auto simp: validate_identity_def substr_single split: if_splits)
  have h: "CHR ''/'' \<notin> set ''home''" by simp
  have "resolved (home_of rt i) = walk i (walk ''home'' (resolved rt))"
    unfolding home_of_def resolved_join [OF i(4)] resolved_join [OF h] by (rule refl)
  then show ?thesis using i by (simp add: walk_def)
qed

lemma process_home:
  assumes "user_mode_init rt ident load m maint = Inr p"
  shows "p_home p = home_of rt (p_identity p)" "validate_identity (p_identity p) = Inr ()"
  using assms by (auto simp: user_mode_init_def rbind_Inr Let_def split: option.splits)

text \<open>
  C3. Homes are private: the home of a process that the constructor accepts leads, below any root directory, to the entry
  of the container \<^verbatim>\<open>home\<close> that has the identity as its name, and none is called kernel; so for two different identities
  neither home is, or lies below, the other.  Symbolic links are not followed.
\<close>

theorem homes_disjoint:
  assumes "user_mode_init rt ident load m maint = Inr p" and "user_mode_init rt ident' load' m' maint' = Inr q"
    and "p_identity p \<noteq> p_identity q"
  shows "resolved (p_home p) = resolved rt @ [''home'', p_identity p] \<and> p_identity p \<noteq> ''kernel''
    \<and> \<not> inside (p_home p) (p_home q) \<and> \<not> inside (p_home q) (p_home p)"
proof -
  note p = process_home [OF assms(1)] and q = process_home [OF assms(2)]
  have "p_identity p \<noteq> ''kernel''" using p(2) by (auto simp: validate_identity_def split: if_splits)
  then show ?thesis using legal_home [OF p(2), of rt] legal_home [OF q(2), of rt] assms(3)
    by (simp add: inside_def p(1) q(1))
qed

theorem homes_disjoint_witness:
  "\<exists>p q. user_mode_init ''/srv'' (Some ''bash'') None (PInt 0) None = Inr p
     \<and> user_mode_init ''/srv'' (Some ''llm'') None (PInt 0) None = Inr q
     \<and> resolved (p_home p) = [''srv'', ''home'', ''bash''] \<and> \<not> inside (p_home p) (p_home q)"
proof -
  obtain p q where p: "user_mode_init ''/srv'' (Some ''bash'') None (PInt 0) None = Inr p" "p_identity p = ''bash''"
    and q: "user_mode_init ''/srv'' (Some ''llm'') None (PInt 0) None = Inr q" "p_identity q = ''llm''"
    by (simp add: user_mode_init_def validate_identity_def)
  have "resolved ''/srv'' = [''srv'']" by code_simp
  with homes_disjoint [OF p(1) q(1)] p q show ?thesis by simp
qed

section \<open>The sandbox of an installed device\<close>

text \<open>The process object the kernel's install command builds for a device.\<close>

definition device_proc :: "string \<Rightarrow> string \<Rightarrow> pyval \<Rightarrow> proc res" where
  "device_proc rt identity options =
     rbind (py_get_or options ''max_concurrent_sources'' (PInt 0)) (\<lambda>maxsrc.
       user_mode_init rt None (Some (identity, path_join (home_of rt identity) ''device.py'', options))
         maxsrc None)"

lemma device_source_path:
  assumes "rt \<noteq> []" and "last rt \<noteq> CHR ''/''" and "\<not> substr ''/'' identity" and "identity \<noteq> []"
  shows "path_join (home_of rt identity) ''device.py'' = home_of rt identity @ ''/device.py''"
proof -
  have "last identity \<noteq> CHR ''/''"
    using assms(3,4) by (metis last_in_set substr_single)
  then show ?thesis
    using assms by (simp add: home_of_eq path_join_def)
qed

lemma device_anchors:
  assumes "rt \<noteq> []" and "last rt \<noteq> CHR ''/''" and "device_proc rt identity options = Inr p"
  shows "mount_anchors p = Inr ([home_of rt identity], [home_of rt identity @ ''/device.py''])"
proof -
  from assms(3) have ok: "validate_identity identity = Inr ()"
    and p: "p_load p = Some (identity, path_join (home_of rt identity) ''device.py'', options)"
    by (auto simp: device_proc_def user_mode_init_def Let_def rbind_Inr)
  from ok have id: "\<not> substr ''/'' identity" "identity \<noteq> []"
    by (auto simp: validate_identity_def split: if_splits)
  have "last identity \<noteq> CHR ''/''"
    using id by (metis last_in_set substr_single)
  then have last: "last (home_of rt identity) \<noteq> CHR ''/''" "home_of rt identity \<noteq> []"
    using id assms(1,2) by (simp_all add: home_of_eq)
  have "dirname (home_of rt identity @ ''/'' @ ''device.py'') = home_of rt identity"
    by (rule dirname_child) (use last in auto)
  then show ?thesis
    using p device_source_path [OF assms(1,2) id] by (simp add: mount_anchors_def)
qed

lemma in_binds: "x \<in> set (concat (map (\<lambda>a. [f, a, a]) as)) \<longleftrightarrow> x \<in> set as \<or> (x = f \<and> as \<noteq> [])"
  by (induction as) auto

text \<open>
  The network of a sandboxed device is denied unless its install options ask for it: the
  sandbox's command line contains the network isolation flag exactly when the option is false or
  missing.
\<close>

lemma device_network_denied:
  assumes "rt \<noteq> []" and "last rt \<noteq> CHR ''/''" and "hd rt = CHR ''/''"
    and "device_proc rt identity (PDict opts) = Inr p"
    and "sandbox_reexec (Some b) exe fd pp env p = Inr x"
    and "exe \<noteq> ''--unshare-net''" and "fd \<noteq> ''--unshare-net''"
  shows "''--unshare-net'' \<in> set (x_args x) \<longleftrightarrow>
      \<not> truthy (case dget opts ''needs_network'' of None \<Rightarrow> PBool False | Some v \<Rightarrow> v)"
proof -
  have load: "p_load p = Some (identity, path_join (home_of rt identity) ''device.py'', PDict opts)"
    using assms(4) by (auto simp: device_proc_def user_mode_init_def Let_def rbind_Inr)
  have ok: "\<not> substr ''/'' identity"
    using assms(4) by (auto simp: device_proc_def user_mode_init_def validate_identity_def Let_def
        rbind_Inr split: if_splits)
  have home: "hd (home_of rt identity) = CHR ''/''" "home_of rt identity \<noteq> []"
    using assms(1-3) ok by (simp_all add: home_of_eq)
  have flag: "s \<noteq> ''--unshare-net''" if "hd s = CHR ''/''" for s :: string
    using that by auto
  have anchors: "home_of rt identity \<noteq> ''--unshare-net''"
      "home_of rt identity @ ''/device.py'' \<noteq> ''--unshare-net''"
      "dirname (home_of rt identity) \<noteq> ''--unshare-net''"
    using home assms(1-3) by (auto intro!: flag simp: dirname_home [OF assms(1,2) ok])
  obtain net where net: "needs_network p = Inr net"
      "net = truthy (case dget opts ''needs_network'' of None \<Rightarrow> PBool False | Some v \<Rightarrow> v)"
    using load by (simp add: needs_network_def)
  from assms(5) device_anchors [OF assms(1,2,4)] net(1)
  have "x_args x = bwrap_args exe fd [home_of rt identity]
      [home_of rt identity @ ''/device.py''] net"
    by (auto simp: sandbox_reexec_def rbind_Inr)
  then show ?thesis
    using anchors assms(6,7) net(2) by (auto simp: bwrap_args_def)
qed

lemma device_network_denied_example:
  "\<exists>p x. device_proc ''/srv'' ''echo'' (PDict []) = Inr p
     \<and> sandbox_reexec (Some ''/usr/bin/bwrap'') ''python3'' ''5'' '''' [] p = Inr x
     \<and> ''--unshare-net'' \<in> set (x_args x)"
proof -
  have "\<exists>p x. device_proc ''/srv'' ''echo'' (PDict []) = Inr p
     \<and> sandbox_reexec (Some ''/usr/bin/bwrap'') ''python3'' ''5'' '''' [] p = Inr x"
    by (simp add: device_proc_def user_mode_init_def validate_identity_def sandbox_reexec_def
        mount_anchors_def needs_network_def)
  then obtain p x where px: "device_proc ''/srv'' ''echo'' (PDict []) = Inr p"
      "sandbox_reexec (Some ''/usr/bin/bwrap'') ''python3'' ''5'' '''' [] p = Inr x" by blast
  have "''--unshare-net'' \<in> set (x_args x)"
    using device_network_denied [OF _ _ _ px] by simp
  with px show ?thesis by blast
qed

text \<open>
  The command line binds the implementation file read-only before it binds the whole home
  writable, and the sandbox applies its operations in order: the later, writable bind of the home
  covers the earlier read-only bind of the file inside it.
\<close>

lemma implementation_bound_before_home:
  assumes "rt \<noteq> []" and "last rt \<noteq> CHR ''/''" and "device_proc rt identity options = Inr p"
    and "sandbox_reexec (Some b) exe fd pp env p = Inr x"
  shows "\<exists>pre post. x_args x = pre
      @ [''--ro-bind'', home_of rt identity @ ''/device.py'', home_of rt identity @ ''/device.py'']
      @ [''--bind'', home_of rt identity, home_of rt identity] @ post"
proof -
  from assms(4) device_anchors [OF assms(1-3)] obtain net where
    "x_args x = bwrap_args exe fd [home_of rt identity] [home_of rt identity @ ''/device.py''] net"
    by (auto simp: sandbox_reexec_def rbind_Inr)
  then show ?thesis
    by (intro exI [of _ "[''bwrap'', ''--ro-bind'', ''/'', ''/'', ''--dev'', ''/dev'', ''--proc'',
        ''/proc'', ''--tmpfs'', ''/tmp'', ''--tmpfs'', dirname (home_of rt identity)]"]
        exI [of _ "[''--unshare-user'', ''--unshare-pid'', ''--unshare-ipc'']
          @ (if net then [] else [''--unshare-net''])
          @ [''--die-with-parent'', exe, ''-m'', ''my_team.kernel.sandbox_entry'', fd]"])
      (simp add: bwrap_args_def)
qed

text \<open>
  No constructor sets the attribute that sends an agent into the sandbox: agents and maintenance
  sessions serve directly, whatever the environment says.
\<close>

lemma user_mode_init_plain:
  "user_mode_init rt (Some i) None maxsrc maint = Inr p \<Longrightarrow> p_load p = None \<and> p_workdir p = None"
  by (auto simp: user_mode_init_def rbind_Inr Let_def)

lemma agent_never_sandboxed:
  assumes "agent_init rt identity options = Inr p"
  shows "run p sentinel = ServeDirectly"
proof -
  obtain q where "user_mode_init rt (Some identity) None (PInt 1) None = Inr q"
    and "p_load p = p_load q" and "p_workdir p = p_workdir q"
    using assms by (cases options) (simp_all add: agent_init_def rbind_Inr split: if_split_asm, fastforce)
  then show ?thesis
    using user_mode_init_plain by (fastforce simp: run_def)
qed

lemma maintenance_never_sandboxed:
  "user_mode_init rt (Some actor) None maxsrc (Some target) = Inr p \<Longrightarrow> run p sentinel = ServeDirectly"
  using user_mode_init_plain by (fastforce simp: run_def)

text \<open>
  Inside the sandbox the device is given the home container as its root, so the home its base
  class computes lies one level too deep.
\<close>

lemma sandboxed_home_one_level_deeper:
  assumes "rt \<noteq> []" and "last rt \<noteq> CHR ''/''" and "\<not> substr ''/'' identity"
  shows "dget (serve_device_options [] (Some (home_of rt identity)) identity opts) ''runtime_root''
      = Some (PStr (rt @ ''/home''))
    \<and> home_of (rt @ ''/home'') identity = rt @ ''/home/home/'' @ identity"
  using assms dirname_home [OF assms] home_of_eq [of "rt @ ''/home''" identity]
  by (simp add: serve_device_options_def Let_def)

end
