(* ===== verification/Kernel.thy ===== *)
theory Kernel
  imports Authority Process
begin

text \<open>
  The journal (\<^verbatim>\<open>kernel/journal.py\<close>) and the AgentOS kernel (\<^verbatim>\<open>kernel/agent_os.py\<close>): the table of
  entities, registration, the system commands install, uninstall, maintenance session, grant and
  revoke, and the one path every event takes: validate, enrich, record, route.  Handlers are
  computations on the kernel state that may raise; what a handler changed before raising stays
  changed.

  The kernel awaits only its own in-process devices and the death of a process; each handler is
  modelled as one step.  Outside the sources, and so parameters of the model: the contents of the
  device source files (\<open>modules\<close>), whether the operating system starts a process
  (\<open>spawn_error\<close>), and which home directories exist when the kernel starts.
\<close>

section \<open>Journal\<close>

record jrow =
  j_source :: pyval
  j_target :: pyval
  j_kind :: pyval
  j_payload :: pyval
  j_outcome :: pyval
  j_reason :: pyval

text \<open>What the database driver accepts as a parameter: no containers, 64-bit integers.\<close>

fun sql_bind :: "pyval \<Rightarrow> unit res" where
  "sql_bind (PList _) = Inl ProgrammingError"
| "sql_bind (PDict _) = Inl ProgrammingError"
| "sql_bind (PInt i) = (if - (2 ^ 63) \<le> i \<and> i < 2 ^ 63 then Inr () else Inl OverflowError)"
| "sql_bind _ = Inr ()"

definition journal_respond :: "pyval \<Rightarrow> (jrow list, pyval) sx" where
  "journal_respond ev =
     bind (lift (py_item ev ''payload'')) (\<lambda>payload.
     bind (lift (py_get payload ''command'')) (\<lambda>command.
     if command = PStr ''journal_record'' then
       bind (lift (py_get payload ''event'')) (\<lambda>e0.
       let e = py_or e0 (PDict []) in
       bind (lift (py_get e ''source'')) (\<lambda>source.
       bind (lift (py_get e ''target'')) (\<lambda>target.
       bind (lift (py_get e ''kind'')) (\<lambda>kind.
       bind (lift (py_get payload ''outcome'')) (\<lambda>outcome.
       bind (lift (py_get payload ''reason'')) (\<lambda>reason.
       andthen (each (\<lambda>v. lift (sql_bind v)) [source, target, kind, outcome, reason])
       (andthen (modify (\<lambda>rows. rows @ [\<lparr>j_source = source, j_target = target, j_kind = kind,
            j_payload = e, j_outcome = outcome, j_reason = reason\<rparr>]))
         (ret VOID))))))))
     else ret VOID))"

section \<open>Kernel state\<close>

text \<open>How to build the process of a handle, kept by the handle for a lazy start.\<close>

datatype spawn_spec =
    SpawnAgent pyval
  | SpawnDevice string pyval
  | SpawnMaintenance string

record handle =
  h_spec :: spawn_spec
  h_process :: "proc option"

datatype entity = EKernel | EKernelDevice | EHandle handle

datatype modsrc =
    NoSource
  | NoSpec
  | ExecFails exc
  | Module "pyval option" "pyval option"

record env =
  modules :: "string \<Rightarrow> modsrc"
  spawn_error :: "string \<Rightarrow> exc option"

text \<open>
  The state of the kernel.  \<open>kqueue\<close> and \<open>sent\<close> are what has been submitted to the dispatchers of
  the in-process devices and written to the channels of the user-mode processes; \<open>killed\<close> lists
  the processes whose death has been awaited; \<open>dead\<close> the identities whose process has died by itself, so
  that writing to its channel fails; \<open>homes\<close> the directories under the home container.
\<close>

record kernel =
  runtime_root :: string
  entities :: "(string, entity) dict"
  agent_ids :: "string list"
  auth :: authority
  journal :: "jrow list"
  kqueue :: "(string \<times> pyval) list"
  sent :: "(string \<times> pyval) list"
  killed :: "string list"
  dead :: "string list"
  homes :: "string list"

definition KERNEL_IDENTITY :: string where
  "KERNEL_IDENTITY = ''kernel''"

definition EMPTY_AUTH :: pyval where
  "EMPTY_AUTH = PDict [(''position'', PNone), (''scopes'', PList [])]"

definition init_kernel :: "string \<Rightarrow> string list \<Rightarrow> kernel" where
  "init_kernel rt dirs =
     \<lparr>runtime_root = rt,
      entities = [(KERNEL_IDENTITY, EKernel), (''authority'', EKernelDevice),
                  (''journal'', EKernelDevice)],
      agent_ids = [], auth = init_authority, journal = [], kqueue = [], sent = [], killed = [], dead = [],
      homes = dirs @ [''authority'', ''journal'']\<rparr>"

definition on_authority :: "(authority, 'a) sx \<Rightarrow> (kernel, 'a) sx" where
  "on_authority m = (\<lambda>k. case m (auth k) of (r, a) \<Rightarrow> (r, k\<lparr>auth := a\<rparr>))"

definition on_journal :: "(jrow list, 'a) sx \<Rightarrow> (kernel, 'a) sx" where
  "on_journal m = (\<lambda>k. case m (journal k) of (r, j) \<Rightarrow> (r, k\<lparr>journal := j\<rparr>))"

definition makedirs :: "string \<Rightarrow> (kernel, unit) sx" where
  "makedirs identity =
     modify (\<lambda>k. if identity \<in> set (homes k) then k else k\<lparr>homes := homes k @ [identity]\<rparr>)"

section \<open>Requests to the in-process devices\<close>

definition system_event :: "string \<Rightarrow> (string, pyval) dict \<Rightarrow> pyval" where
  "system_event target payload =
     PDict [(''source'', PStr ''system''), (''target'', PStr target), (''kind'', PStr ''system''),
       (''payload'', PDict payload)]"

definition ask :: "(string, pyval) dict \<Rightarrow> (kernel, pyval) sx" where
  "ask payload = on_authority (respond (system_event ''authority'' payload))"

definition authorize :: "string \<Rightarrow> string \<Rightarrow> (kernel, pyval) sx" where
  "authorize identity scope =
     bind (ask [(''command'', PStr ''authorize_request''), (''identity'', PStr identity),
                (''scope'', PStr scope)]) (\<lambda>r.
     bind (lift (py_item r ''payload'')) (\<lambda>p. lift (py_item p ''allowed'')))"

definition auth_context_of :: "string \<Rightarrow> (kernel, pyval) sx" where
  "auth_context_of identity =
     bind (ask [(''command'', PStr ''auth_request''), (''identity'', PStr identity)]) (\<lambda>r.
     bind (lift (py_item r ''payload'')) (\<lambda>p. lift (py_item p ''auth'')))"

definition agents_of :: "(kernel, pyval list) sx" where
  "agents_of =
     bind (ask [(''command'', PStr ''agents_request'')]) (\<lambda>r.
     bind (lift (py_item r ''payload'')) (\<lambda>p.
     bind (lift (py_item p ''agents'')) (\<lambda>l. lift (py_list l))))"

definition is_maintain_grant :: "string \<Rightarrow> pyval \<Rightarrow> bool res" where
  "is_maintain_grant device g =
     rbind (py_get g ''device'') (\<lambda>d.
     if d \<noteq> PStr device then Inr False
     else rbind (py_get g ''token'') (\<lambda>t. py_in_strs t [''maintain'', ''maintain:'' @ device]))"

fun rany :: "('a \<Rightarrow> bool res) \<Rightarrow> 'a list \<Rightarrow> bool res" where
  "rany p [] = Inr False"
| "rany p (x # xs) = rbind (p x) (\<lambda>b. if b then Inr True else rany p xs)"

definition authorize_device :: "string \<Rightarrow> string \<Rightarrow> (kernel, bool) sx" where
  "authorize_device actor device =
     (if actor = KERNEL_IDENTITY then ret True
      else bind (authorize actor ''install'') (\<lambda>b.
        if truthy b then ret True
        else bind (auth_context_of actor) (\<lambda>a.
          bind (lift (py_get_or a ''scopes'' (PList []))) (\<lambda>sc.
          bind (lift (py_list sc)) (\<lambda>gs. lift (rany (is_maintain_grant device) gs))))))"

definition grant :: "string \<Rightarrow> string \<Rightarrow> string \<Rightarrow> (kernel, unit) sx" where
  "grant position device token =
     bind (ask [(''command'', PStr ''grant_request''), (''position'', PStr position),
                (''device'', PStr device), (''token'', PStr token)]) (\<lambda>_. ret ())"

definition unregister :: "string \<Rightarrow> (kernel, unit) sx" where
  "unregister identity =
     bind (ask [(''command'', PStr ''unregister_request''), (''identity'', PStr identity)])
       (\<lambda>_. ret ())"

definition record_event :: "pyval \<Rightarrow> string \<Rightarrow> pyval \<Rightarrow> (kernel, unit) sx" where
  "record_event ev outcome reason =
     bind (on_journal (journal_respond (system_event ''journal''
        [(''command'', PStr ''journal_record''), (''event'', ev), (''outcome'', PStr outcome),
         (''reason'', reason)]))) (\<lambda>_. ret ())"

section \<open>Processes and registration\<close>

definition spawn :: "env \<Rightarrow> string \<Rightarrow> spawn_spec \<Rightarrow> (kernel, proc) sx" where
  "spawn e identity spec =
     bind (asks runtime_root) (\<lambda>rt.
     bind (lift (case spec of
         SpawnAgent options \<Rightarrow> agent_init rt identity options
       | SpawnDevice path options \<Rightarrow>
           rbind (py_get_or options ''max_concurrent_sources'' (PInt 0)) (\<lambda>m.
             user_mode_init rt None (Some (identity, path, options)) m None)
       | SpawnMaintenance target \<Rightarrow>
           user_mode_init rt (Some identity) None (PInt 0) (Some target))) (\<lambda>p.
     andthen (makedirs identity)
       (case spawn_error e identity of None \<Rightarrow> ret p | Some x \<Rightarrow> throw x)))"

definition ensure_process :: "env \<Rightarrow> string \<Rightarrow> handle \<Rightarrow> (kernel, handle) sx" where
  "ensure_process e identity h =
     (case h_process h of
        Some _ \<Rightarrow> ret h
      | None \<Rightarrow> bind (spawn e identity (h_spec h)) (\<lambda>p.
          andthen (modify (\<lambda>k. k\<lparr>dead := removeAll identity (dead k)\<rparr>)) (ret (h\<lparr>h_process := Some p\<rparr>))))"

definition new_handle :: "env \<Rightarrow> string \<Rightarrow> spawn_spec \<Rightarrow> bool \<Rightarrow> (kernel, handle) sx" where
  "new_handle e identity spec lazy =
     (let h = \<lparr>h_spec = spec, h_process = None\<rparr> in
      if lazy then ret h else ensure_process e identity h)"

definition set_entity :: "string \<Rightarrow> entity \<Rightarrow> (kernel, unit) sx" where
  "set_entity identity ent = modify (\<lambda>k. k\<lparr>entities := dset identity ent (entities k)\<rparr>)"

definition del_entity :: "string \<Rightarrow> (kernel, unit) sx" where
  "del_entity identity = modify (\<lambda>k. k\<lparr>entities := dpop identity (entities k)\<rparr>)"

text \<open>Writing to a channel; when the process has died, the event is dropped (with a message on the terminal).\<close>

definition send :: "string \<Rightarrow> pyval \<Rightarrow> (kernel, unit) sx" where
  "send identity ev =
     modify (\<lambda>k. if identity \<in> set (dead k) then k else k\<lparr>sent := sent k @ [(identity, ev)]\<rparr>)"

text \<open>
  Termination: the terminate event is written to the channel, and the death of the process is
  awaited (forced after the timeout), so that the process is dead on return.
\<close>

definition terminate_event :: "string \<Rightarrow> pyval" where
  "terminate_event identity =
     PDict [(''source'', PStr ''system''), (''target'', PStr identity), (''kind'', PStr ''system''),
       (''payload'', PDict [(''command'', PStr ''terminate'')])]"

definition terminate :: "string \<Rightarrow> handle \<Rightarrow> (kernel, unit) sx" where
  "terminate identity h =
     (case h_process h of
        None \<Rightarrow> ret ()
      | Some _ \<Rightarrow> andthen (send identity (terminate_event identity))
          (modify (\<lambda>k. k\<lparr>killed := killed k @ [identity]\<rparr>)))"

definition register :: "env \<Rightarrow> string \<Rightarrow> spawn_spec \<Rightarrow> pyval list \<Rightarrow> bool \<Rightarrow> bool \<Rightarrow> pyval
    \<Rightarrow> pyval list \<Rightarrow> (kernel, unit) sx" where
  "register e identity spec tools agent lazy position scopes =
     andthen (guard (\<not> (agent \<and> \<not> truthy position)) (ValueError ''agent without position''))
     (andthen (guard (\<not> illegal_name identity) (ValueError ''illegal identity''))
     (bind (ask [(''command'', PStr ''register_request''), (''identity'', PStr identity),
            (''tools'', PList tools), (''agent'', PBool agent), (''position'', position),
            (''scopes'', PList scopes)]) (\<lambda>_.
      bind (new_handle e identity spec lazy) (\<lambda>h.
      andthen (set_entity identity (EHandle h))
        (if agent then modify (\<lambda>k. k\<lparr>agent_ids :=
             (if identity \<in> set (agent_ids k) then agent_ids k else agent_ids k @ [identity])\<rparr>)
         else ret ())))))"

section \<open>Loading a device's source\<close>

definition scope_shape :: "pyval \<Rightarrow> bool" where
  "scope_shape s = (case s of
       PDict d \<Rightarrow> nonempty_str (case dget d ''token'' of None \<Rightarrow> PNone | Some v \<Rightarrow> v)
     | _ \<Rightarrow> False)"

definition load_module :: "env \<Rightarrow> string \<Rightarrow> (pyval list \<times> pyval list) res" where
  "load_module e path =
     (case modules e path of
        NoSource \<Rightarrow> Inl (FileNotFoundError ''device source missing'')
      | NoSpec \<Rightarrow> Inl (FileNotFoundError ''device module spec'')
      | ExecFails x \<Rightarrow> Inl x
      | Module tools scopes \<Rightarrow>
          (case (case tools of None \<Rightarrow> PList [] | Some v \<Rightarrow> v) of
             PList ts \<Rightarrow>
               (case (case scopes of None \<Rightarrow> PList [] | Some v \<Rightarrow> v) of
                  PList ss \<Rightarrow> if list_all scope_shape ss then Inr (ts, ss)
                     else Inl (ValueError ''illegal SCOPES'')
                | _ \<Rightarrow> Inl (ValueError ''illegal SCOPES''))
           | _ \<Rightarrow> Inl (ValueError ''illegal TOOLS'')))"

text \<open>The tokens of the scopes a device declares as public by default.\<close>

fun defaults :: "pyval list \<Rightarrow> string list res" where
  "defaults [] = Inr []"
| "defaults (s # ss) =
     rbind (py_get s ''default'') (\<lambda>d.
       if truthy d then rbind (item_key s ''token'') (\<lambda>t. rbind (defaults ss) (\<lambda>ts. Inr (t # ts)))
       else defaults ss)"

definition device_source :: "kernel \<Rightarrow> string \<Rightarrow> string" where
  "device_source k identity = path_join (home_of (runtime_root k) identity) ''device.py''"

section \<open>Processing an event\<close>

text \<open>
  The functions that emit take the processing of the emitted event as their argument \<open>emit\<close>; the
  knot is tied below.
\<close>

type_synonym emitter = "pyval \<Rightarrow> (kernel, unit) sx"

fun with_source :: "string \<Rightarrow> pyval \<Rightarrow> pyval" where
  "with_source s (PDict d) = PDict (dset ''source'' (PStr s) d)"
| "with_source s v = v"

definition kernel_emit :: "emitter \<Rightarrow> string \<Rightarrow> emitter" where
  "kernel_emit emit source ev = emit (with_source source ev)"

definition inject :: "emitter \<Rightarrow> pyval \<Rightarrow> (kernel, unit) sx" where
  "inject emit agent =
     bind (ask [(''command'', PStr ''inject_request''), (''agent'', agent)]) (\<lambda>ev.
       if ev \<noteq> VOID then kernel_emit emit ''authority'' ev else ret ())"

definition ack :: "pyval \<Rightarrow> string \<Rightarrow> pyval \<Rightarrow> exc option \<Rightarrow> (kernel, pyval) sx" where
  "ack ev command identity error =
     bind (lift (py_item ev ''source'')) (\<lambda>s.
     ret (PDict [(''target'', s), (''kind'', PStr ''application''),
       (''payload'', PDict [(''command'', PStr command), (''identity'', identity),
          (''ok'', PBool (error = None)),
          (''error'', case error of None \<Rightarrow> PNone | Some x \<Rightarrow> PStr (str_exc x))])]))"

text \<open>\<^verbatim>\<open>try: m; ok, error = True, None except Exception as exc: ok, error = False, str(exc)\<close>\<close>

definition attempt :: "(kernel, unit) sx \<Rightarrow> (kernel, exc option) sx" where
  "attempt m = catch (andthen m (ret None)) (\<lambda>x. ret (Some x))"

definition wire :: "string \<Rightarrow> string list \<Rightarrow> string list \<Rightarrow> (kernel, unit) sx" where
  "wire identity positions tokens =
     each (\<lambda>position. each (\<lambda>token. grant position identity token) tokens) positions"

definition source_of :: "pyval \<Rightarrow> (kernel, string) sx" where
  "source_of ev = lift (item_key ev ''source'')"

definition check_identity :: "pyval \<Rightarrow> string \<Rightarrow> (kernel, string) sx" where
  "check_identity v m =
     (case v of PStr s \<Rightarrow> (if s \<noteq> [] then ret s else throw (ValueError m))
      | _ \<Rightarrow> throw (ValueError m))"

definition check_grants :: "pyval \<Rightarrow> (kernel, string list) sx" where
  "check_grants v =
     (case v of
        PList gs \<Rightarrow> if gs \<noteq> [] \<and> list_all nonempty_str gs then lift (rmap py_key gs)
          else throw (ValueError ''install_device needs grants'')
      | _ \<Rightarrow> throw (ValueError ''install_device needs grants''))"

text \<open>
  Taking down the running instance of an identity: the identity leaves the table first, then the
  process is terminated.
\<close>

definition take_down :: "string \<Rightarrow> handle \<Rightarrow> (kernel, unit) sx" where
  "take_down identity h = andthen (del_entity identity) (terminate identity h)"

definition refuse_kernel_mode :: "string \<Rightarrow> (kernel, unit) sx" where
  "refuse_kernel_mode identity =
     bind (asks (\<lambda>k. dget (entities k) identity)) (\<lambda>old.
       guard (old \<noteq> Some EKernel \<and> old \<noteq> Some EKernelDevice)
         (ValueError ''kernel-mode identity''))"

text \<open>
  The second half of an install, once the source is loaded: the running instance, if any, is
  replaced; then the new one is registered and wired, and every agent is injected.
\<close>

definition install_new :: "env \<Rightarrow> emitter \<Rightarrow> pyval \<Rightarrow> string \<Rightarrow> string list \<Rightarrow> pyval list \<Rightarrow> string
    \<Rightarrow> pyval list \<Rightarrow> pyval list \<Rightarrow> (kernel, unit) sx" where
  "install_new e emit payload identity positions ags path tools scopes =
     bind (lift (py_get payload ''options'')) (\<lambda>ov.
     andthen (register e identity (SpawnDevice path (py_or ov (PDict []))) tools False False
                PNone scopes)
     (bind (lift (defaults scopes)) (\<lambda>tokens.
      andthen (wire identity positions tokens)
        (each (inject emit) ags))))"

definition install_loaded :: "env \<Rightarrow> emitter \<Rightarrow> pyval \<Rightarrow> string \<Rightarrow> string list \<Rightarrow> pyval list \<Rightarrow> string
    \<Rightarrow> pyval list \<Rightarrow> pyval list \<Rightarrow> (kernel, unit) sx" where
  "install_loaded e emit payload identity positions ags path tools scopes =
     andthen (makedirs identity)
     (andthen (refuse_kernel_mode identity)
     (bind (asks (\<lambda>k. dget (entities k) identity)) (\<lambda>old.
      andthen (case old of
          Some (EHandle h) \<Rightarrow> andthen (take_down identity h) (unregister identity)
        | _ \<Rightarrow> ret ())
        (install_new e emit payload identity positions ags path tools scopes))))"

definition install_body :: "env \<Rightarrow> emitter \<Rightarrow> pyval \<Rightarrow> pyval \<Rightarrow> (kernel, unit) sx" where
  "install_body e emit ev payload =
     bind (lift (py_get payload ''identity'')) (\<lambda>idv.
     bind (check_identity idv ''install_device needs identity'') (\<lambda>identity.
     andthen (guard (\<not> illegal_name identity) (ValueError ''illegal device identity''))
     (bind (source_of ev) (\<lambda>source.
      bind (authorize_device source identity) (\<lambda>ok.
      andthen (guard ok (ValueError ''no maintenance right''))
      (bind (lift (py_get payload ''grants'')) (\<lambda>gv.
       bind (check_grants gv) (\<lambda>positions.
       bind agents_of (\<lambda>ags.
       andthen (guard (PStr identity \<notin> set ags) (ValueError ''agent identity''))
       (bind (asks (\<lambda>k. device_source k identity)) (\<lambda>path.
        bind (lift (load_module e path)) (\<lambda>(tools, scopes).
          install_loaded e emit payload identity positions ags path tools scopes))))))))))))"

definition install :: "env \<Rightarrow> emitter \<Rightarrow> pyval \<Rightarrow> (kernel, unit) sx" where
  "install e emit ev =
     bind (lift (py_item ev ''payload'')) (\<lambda>payload.
     bind (lift (py_get payload ''identity'')) (\<lambda>idv.
     bind (attempt (install_body e emit ev payload)) (\<lambda>err.
     bind (ack ev ''device_installed'' idv err) (kernel_emit emit KERNEL_IDENTITY))))"

definition keep_maintain :: "string \<Rightarrow> pyval list \<Rightarrow> (kernel, unit) sx" where
  "keep_maintain identity gs =
     each (\<lambda>g.
       bind (lift (item_key g ''token'')) (\<lambda>t.
       if t = ''maintain'' \<or> t = ''maintain:'' @ identity
       then bind (lift (item_key g ''position'')) (\<lambda>p. grant p identity t)
       else ret ())) gs"

text \<open>The second half of an uninstall: the registration goes, maintenance rights stay.\<close>

definition uninstall_running :: "emitter \<Rightarrow> string \<Rightarrow> pyval list \<Rightarrow> handle \<Rightarrow> (kernel, unit) sx" where
  "uninstall_running emit identity ags h =
     andthen (take_down identity h)
     (bind (ask [(''command'', PStr ''device_grants_request''), (''identity'', PStr identity)]) (\<lambda>r.
      andthen (unregister identity)
      (bind (lift (py_item r ''payload'')) (\<lambda>p.
       bind (lift (py_item p ''grants'')) (\<lambda>l.
       bind (lift (py_list l)) (\<lambda>gs.
       andthen (keep_maintain identity gs)
         (each (inject emit) ags)))))))"

definition uninstall_body :: "emitter \<Rightarrow> pyval \<Rightarrow> pyval \<Rightarrow> (kernel, unit) sx" where
  "uninstall_body emit ev payload =
     bind (lift (py_get payload ''identity'')) (\<lambda>idv.
     bind (check_identity idv ''uninstall_device needs identity'') (\<lambda>identity.
     bind (source_of ev) (\<lambda>source.
     bind (authorize_device source identity) (\<lambda>ok.
     andthen (guard ok (ValueError ''no maintenance right''))
     (andthen (refuse_kernel_mode identity)
     (bind agents_of (\<lambda>ags.
      andthen (guard (PStr identity \<notin> set ags) (ValueError ''agent identity''))
      (bind (asks (\<lambda>k. dget (entities k) identity)) (\<lambda>old.
       case old of
         Some (EHandle h) \<Rightarrow> uninstall_running emit identity ags h
       | _ \<Rightarrow> throw (ValueError ''not registered''))))))))))"

definition uninstall :: "emitter \<Rightarrow> pyval \<Rightarrow> (kernel, unit) sx" where
  "uninstall emit ev =
     bind (lift (py_item ev ''payload'')) (\<lambda>payload.
     bind (lift (py_get payload ''identity'')) (\<lambda>idv.
     bind (attempt (uninstall_body emit ev payload)) (\<lambda>err.
     bind (ack ev ''device_uninstalled'' idv err) (kernel_emit emit KERNEL_IDENTITY))))"

fun runs_device :: "entity option \<Rightarrow> bool" where
  "runs_device (Some (EHandle h)) = (case h_process h of None \<Rightarrow> False | Some p \<Rightarrow> p_load p \<noteq> None)"
| "runs_device _ = False"

definition maintenance_body :: "env \<Rightarrow> pyval \<Rightarrow> string \<Rightarrow> (kernel, unit) sx" where
  "maintenance_body e tv actor =
     bind (check_identity tv ''maintenance_session needs target_device'') (\<lambda>target.
     andthen (guard (\<not> illegal_name target) (ValueError ''illegal maintenance target''))
     (bind (asks (\<lambda>k. dget (entities k) actor)) (\<lambda>ent.
      andthen (guard (\<not> runs_device ent) (ValueError ''a device cannot maintain''))
      (bind (authorize_device actor target) (\<lambda>ok.
       andthen (guard ok (ValueError ''no maintenance right''))
       (bind (asks (\<lambda>k. dget (entities k) target)) (\<lambda>t.
        andthen (guard (t = None) (ValueError ''target still running''))
        (bind (asks homes) (\<lambda>hs.
         andthen (guard (target \<in> set hs) (ValueError ''target home missing''))
         (case ent of
            Some (EHandle h) \<Rightarrow>
              bind (auth_context_of actor) (\<lambda>c.
              bind (lift (py_get c ''position'')) (\<lambda>position.
              andthen (guard (is_str position) (ValueError ''maintainer without position''))
              (andthen (take_down actor h)
                (register e actor (SpawnMaintenance target) [] True False position []))))
          | _ \<Rightarrow> throw (ValueError ''maintainer must be a registered agent'')))))))))))"

definition maintenance_session :: "env \<Rightarrow> emitter \<Rightarrow> pyval \<Rightarrow> (kernel, unit) sx" where
  "maintenance_session e emit ev =
     bind (lift (py_item ev ''payload'')) (\<lambda>payload.
     bind (lift (py_get payload ''target_device'')) (\<lambda>tv.
     bind (source_of ev) (\<lambda>actor.
     bind (attempt (maintenance_body e tv actor)) (\<lambda>err.
     bind (ack ev ''maintenance_session_started'' (if err = None then tv else PStr actor) err)
       (kernel_emit emit KERNEL_IDENTITY)))))"

definition scope_apply :: "emitter \<Rightarrow> bool \<Rightarrow> pyval \<Rightarrow> pyval \<Rightarrow> pyval \<Rightarrow> (kernel, unit) sx" where
  "scope_apply emit is_grant position device token =
     bind (ask [(''command'', PStr (if is_grant then ''grant_request'' else ''revoke_request'')),
                (''position'', position), (''device'', device), (''token'', token)]) (\<lambda>_.
     bind agents_of (\<lambda>ags. each (inject emit) ags))"

definition scope_body :: "emitter \<Rightarrow> pyval \<Rightarrow> bool \<Rightarrow> pyval \<Rightarrow> pyval \<Rightarrow> pyval \<Rightarrow> (kernel, unit) sx" where
  "scope_body emit ev is_grant position device token =
     andthen (guard (nonempty_str position \<and> nonempty_str device \<and> nonempty_str token)
        (ValueError ''grant/revoke_scope needs position/device/token''))
     (bind (source_of ev) (\<lambda>source.
      andthen (if device = PStr ORG_DEVICE
          then bind (authorize source ''org'') (\<lambda>b.
                 guard (truthy b) (ValueError ''org device is root only''))
          else ret ())
      (bind (authorize source ''grant'') (\<lambda>b.
       andthen (guard (truthy b) (ValueError ''no org:grant right''))
         (scope_apply emit is_grant position device token)))))"

definition scope_ack :: "bool \<Rightarrow> pyval \<Rightarrow> pyval \<Rightarrow> pyval \<Rightarrow> exc option \<Rightarrow> pyval" where
  "scope_ack is_grant source position device err =
     PDict [(''target'', source), (''kind'', PStr ''application''),
       (''payload'', PDict [(''command'', PStr (if is_grant then ''scope_granted'' else ''scope_revoked'')),
          (''position'', position), (''device'', device), (''ok'', PBool (err = None)),
          (''error'', case err of None \<Rightarrow> PNone | Some x \<Rightarrow> PStr (str_exc x))])]"

definition scope :: "emitter \<Rightarrow> pyval \<Rightarrow> bool \<Rightarrow> (kernel, unit) sx" where
  "scope emit ev is_grant =
     bind (lift (py_item ev ''payload'')) (\<lambda>payload.
     bind (lift (py_get payload ''position'')) (\<lambda>position.
     bind (lift (py_get payload ''device'')) (\<lambda>device.
     bind (lift (py_get payload ''token'')) (\<lambda>token.
     bind (attempt (scope_body emit ev is_grant position device token)) (\<lambda>err.
     bind (lift (py_item ev ''source'')) (\<lambda>s.
       kernel_emit emit KERNEL_IDENTITY (scope_ack is_grant s position device err)))))))"

definition on_kernel :: "env \<Rightarrow> emitter \<Rightarrow> pyval \<Rightarrow> (kernel, unit) sx" where
  "on_kernel e emit ev =
     bind (lift (py_item ev ''payload'')) (\<lambda>payload.
     bind (lift (py_get payload ''command'')) (\<lambda>command.
     if command = PStr ''install_device'' then install e emit ev
     else if command = PStr ''uninstall_device'' then uninstall emit ev
     else if command = PStr ''maintenance_session'' then maintenance_session e emit ev
     else if command = PStr ''grant_scope'' \<or> command = PStr ''revoke_scope''
     then scope emit ev (command = PStr ''grant_scope'')
     else ret ()))"

section \<open>Enrichment and routing\<close>

fun with_auth :: "pyval \<Rightarrow> pyval \<Rightarrow> pyval" where
  "with_auth c (PDict d) = PDict (dset ''auth'' c d)"
| "with_auth c v = v"

definition enrich :: "pyval \<Rightarrow> (kernel, pyval) sx" where
  "enrich ev =
     bind (lift (item_key ev ''target'')) (\<lambda>target.
     bind (asks (\<lambda>k. target \<in> set (agent_ids k))) (\<lambda>to_agent.
     if to_agent then ret ev
     else bind (asks (\<lambda>k. dget (entities k) target)) (\<lambda>ent.
       case ent of
         Some (EHandle _) \<Rightarrow>
           bind (lift (item_key ev ''source'')) (\<lambda>source.
           bind (asks (\<lambda>k. dget (entities k) source)) (\<lambda>src.
           if source = KERNEL_IDENTITY \<or> src = Some EKernelDevice
           then ret (with_auth EMPTY_AUTH ev)
           else bind (auth_context_of source) (\<lambda>c. ret (with_auth c ev))))
       | _ \<Rightarrow> ret ev)))"

definition deliver :: "env \<Rightarrow> string \<Rightarrow> handle \<Rightarrow> pyval \<Rightarrow> (kernel, unit) sx" where
  "deliver e target h ev =
     bind (ensure_process e target h) (\<lambda>h'.
     andthen (if h_process h = None then set_entity target (EHandle h') else ret ())
       (send target ev))"

definition route :: "env \<Rightarrow> pyval \<Rightarrow> (kernel, unit) sx" where
  "route e ev =
     bind (lift (item_key ev ''target'')) (\<lambda>target.
     bind (asks (\<lambda>k. dget (entities k) target)) (\<lambda>ent.
     case ent of
       Some (EHandle h) \<Rightarrow> deliver e target h ev
     | Some EKernelDevice \<Rightarrow> modify (\<lambda>k. k\<lparr>kqueue := kqueue k @ [(target, ev)]\<rparr>)
     | _ \<Rightarrow> ret ()))"

text \<open>The processing path, over the handler of the events addressed to the kernel.\<close>

definition process_with :: "env \<Rightarrow> emitter \<Rightarrow> emitter" where
  "process_with e onk ev =
     bind (asks (\<lambda>k. validate_event ev (kernel_rules (dkeys (entities k))))) (\<lambda>r.
     case r of
       Inl (EventError m) \<Rightarrow> record_event ev ''dropped'' (PStr m)
     | Inl x \<Rightarrow> throw x
     | Inr _ \<Rightarrow>
         bind (lift (item_key ev ''target'')) (\<lambda>target.
         if target = KERNEL_IDENTITY then andthen (record_event ev ''routed'' PNone) (onk ev)
         else bind (enrich ev) (\<lambda>ev'.
           andthen (record_event ev' ''routed'' PNone) (route e ev'))))"

text \<open>
  What the handlers emit is never itself a kernel command, so an emitted event that addresses the
  kernel takes the branch for unknown commands; this bounds the nesting at two.
\<close>

definition on_kernel_unknown :: emitter where
  "on_kernel_unknown ev =
     bind (lift (py_item ev ''payload'')) (\<lambda>payload.
     bind (lift (py_get payload ''command'')) (\<lambda>_. ret ()))"

definition process_emitted :: "env \<Rightarrow> emitter" where
  "process_emitted e = process_with e on_kernel_unknown"

definition process_event :: "env \<Rightarrow> emitter" where
  "process_event e = process_with e (on_kernel e (process_emitted e))"

text \<open>One tick: the events found on the bus, in order; the first escaping exception ends it.\<close>

definition step :: "env \<Rightarrow> pyval list \<Rightarrow> (kernel, unit) sx" where
  "step e bus = each (process_event e) bus"

text \<open>
  The worker of an in-process device takes an event off the device's queue, lets the device
  respond, and emits the response (or a receipt, when the event asks for one and the device has
  nothing to say) through the same processing path.
\<close>

definition receipt_event :: "pyval \<Rightarrow> pyval res" where
  "receipt_event ev =
     rbind (py_item ev ''source'') (\<lambda>s.
     rbind (py_item ev ''target'') (\<lambda>t.
     rbind (py_item ev ''kind'') (\<lambda>k.
       Inr (PDict [(''target'', s), (''kind'', PStr ''application''),
         (''payload'', PDict [(''command'', PStr ''receipt''),
            (''event'', PDict [(''target'', t), (''kind'', k)])])]))))"

definition serve_kernel_device :: "env \<Rightarrow> string \<Rightarrow> pyval \<Rightarrow> (kernel, unit) sx" where
  "serve_kernel_device e device ev =
     bind (if device = ''authority'' then on_authority (respond ev) else on_journal (journal_respond ev))
     (\<lambda>r. if r \<noteq> VOID then kernel_emit (process_event e) device r
          else bind (lift (py_get ev ''receipt'')) (\<lambda>w.
            if truthy w
            then bind (lift (receipt_event ev)) (kernel_emit (process_event e) device)
            else ret ()))"

fun serve_all :: "env \<Rightarrow> (string \<times> pyval) list \<Rightarrow> (kernel, unit) sx" where
  "serve_all e [] = ret ()"
| "serve_all e ((device, ev) # q) = andthen (serve_kernel_device e device ev) (serve_all e q)"

section \<open>Start-up from the configuration\<close>

text \<open>
  The configuration lists agents and devices.  Copying a device's source file into its home is
  file-system work; here it makes sure the home exists.  \<open>isabs\<close> and the resolution of the relative
  path only select the file to copy.
\<close>

definition install_from_config :: "env \<Rightarrow> emitter \<Rightarrow> string \<Rightarrow> pyval list \<Rightarrow> (kernel, unit) sx" where
  "install_from_config e emit identity positions =
     bind (asks (\<lambda>k. device_source k identity)) (\<lambda>path.
     bind (lift (load_module e path)) (\<lambda>(tools, scopes).
     andthen (register e identity (SpawnDevice path (PDict [])) tools False False PNone scopes)
     (andthen (each (\<lambda>pv. bind (lift (defaults scopes)) (\<lambda>tokens.
         each (\<lambda>token. bind (lift (py_key pv)) (\<lambda>p. grant p identity token)) tokens)) positions)
     (bind agents_of (\<lambda>ags. each (inject emit) ags)))))"

definition setup_agent :: "env \<Rightarrow> pyval \<Rightarrow> (kernel, unit) sx" where
  "setup_agent e spec =
     bind (lift (item_key spec ''identity'')) (\<lambda>identity.
     bind (lift (item_key spec ''type'')) (\<lambda>typ.
     andthen (guard (typ = ''agent'') (KeyError typ))
     (bind (lift (py_get_or spec ''options'' (PDict []))) (\<lambda>options.
      bind (lift (py_get options ''position'')) (\<lambda>position.
      andthen (register e identity (SpawnAgent options) [] True False position [])
        (makedirs identity))))))"

definition setup_device :: "env \<Rightarrow> emitter \<Rightarrow> pyval \<Rightarrow> (kernel, unit) sx" where
  "setup_device e emit spec =
     bind (lift (item_key spec ''identity'')) (\<lambda>identity.
     bind (lift (item_key spec ''source'')) (\<lambda>_.
     andthen (makedirs identity)
     (bind (lift (py_get_or spec ''grants'' (PList []))) (\<lambda>gv.
      bind (lift (py_list gv)) (\<lambda>gs. install_from_config e emit identity gs)))))"

definition setup_all :: "env \<Rightarrow> pyval list \<Rightarrow> pyval list \<Rightarrow> (kernel, unit) sx" where
  "setup_all e agent_specs device_specs =
     andthen (each (setup_agent e) agent_specs)
       (each (setup_device e (process_event e)) device_specs)"

end
