(* ===== verification/KernelLemmas.thy ===== *)
theory KernelLemmas
  imports Kernel
begin

text \<open>
  What the kernel's building blocks do: the answers of the Authority to each request, the parts of
  the state each operation leaves alone, and the equation that ties the processing path to the
  handlers.  The properties of the commands are proved from these in the theory that follows.
\<close>

section \<open>Answers of the Authority\<close>

lemma on_authority_ret: "m (auth k) = (r, a) \<Longrightarrow> on_authority m k = (r, k\<lparr>auth := a\<rparr>)"
  by (simp add: on_authority_def)

lemma item_key_PDict [simp]:
  "item_key (PDict d) x = (case dget d x of None \<Rightarrow> Inl (KeyError x) | Some v \<Rightarrow> py_key v)"
  by (simp add: item_key_def split: option.splits)

text \<open>Who may install, remove and maintain a device.\<close>

definition may_maintain :: "authority \<Rightarrow> string \<Rightarrow> string \<Rightarrow> bool" where
  "may_maintain a actor device \<longleftrightarrow> actor = KERNEL_IDENTITY \<or> authorized a actor ''install''
     \<or> (\<exists>p. position_of a actor = PStr p
          \<and> (holds a p device ''maintain'' \<or> holds a p device (''maintain:'' @ device)))"

lemmas ask_defs = ask_def on_authority_def system_event_def respond_def

lemma authorize_eq [simp]:
  "authorize i s k = (if askable (auth k) i then Inr (PBool (authorized (auth k) i s)) else Inl TypeError, k)"
  by (simp add: authorize_def ask_defs authorize_request_def reply_def sx_defs)

lemma auth_context_of_eq [simp]: "auth_context_of i k = (Inr (auth_context (auth k) i), k)"
  by (simp add: auth_context_of_def ask_defs auth_request_def reply_def sx_defs)

lemma agents_of_eq [simp]: "agents_of k = (Inr (map PStr (agents (auth k))), k)"
  by (simp add: agents_of_def ask_defs agents_request_def reply_def sx_defs)

lemma grant_eq [simp]:
  "grant p d t k = (Inr (), k\<lparr>auth := add_grant p d t (setdefault_grants p (auth k))\<rparr>)"
  by (simp add: grant_def ask_defs grant_request_def sx_defs)

lemma unregister_eq [simp]: "unregister i k = (Inr (), k\<lparr>auth := drop_device i (auth k)\<rparr>)"
  by (simp add: unregister_def ask_defs unregister_request_def sx_defs)

lemma ask_device_grants [simp]:
  "ask [(''command'', PStr ''device_grants_request''), (''identity'', PStr i)] k
    = (Inr (reply [(''grants'', PList (map (\<lambda>g. PDict [(''position'', PStr (fst g)),
            (''token'', PStr (snd g))]) (device_grants (auth k) i)))]), k)"
  by (simp add: ask_defs device_grants_request_def sx_defs)

lemma ask_register [simp]:
  "ask [(''command'', PStr ''register_request''), (''identity'', PStr i), (''tools'', PList ts),
      (''agent'', PBool ag), (''position'', pos), (''scopes'', PList ss)] k
   = (Inr VOID, k\<lparr>auth := auth k\<lparr>identities := dset i \<lparr>i_tools = PList ts, i_scopes = PList ss,
        i_agent = ag, i_position = pos\<rparr> (identities (auth k))\<rparr>\<rparr>)"
  by (simp add: ask_defs register_request_def sx_defs py_or_def)

lemma ask_scope [simp]:
  "ask [(''command'', PStr (if b then ''grant_request'' else ''revoke_request'')),
      (''position'', PStr p), (''device'', PStr d), (''token'', PStr t)] k
   = (Inr VOID, k\<lparr>auth := (if b then add_grant p d t (setdefault_grants p (auth k))
                            else discard_grant p d t (auth k))\<rparr>)"
  by (simp add: ask_defs grant_request_def revoke_request_def sx_defs)

lemma rany_PDict:
  "rany (is_maintain_grant device) (map scope_val gs)
    = Inr (\<exists>t \<in> {''maintain'', ''maintain:'' @ device}. (device, t) \<in> set gs)"
  by (induction gs) (auto simp: is_maintain_grant_def scope_val_def py_in_strs_def)

lemma authorize_device_eq [simp]:
  "authorize_device actor device k =
     (if actor = KERNEL_IDENTITY \<or> askable (auth k) actor then Inr (may_maintain (auth k) actor device) else Inl TypeError, k)"
proof -
  have "rany (is_maintain_grant device)
      (map scope_val (sort (if is_str (position_of (auth k) actor)
         then grants_of (auth k) (position_of (auth k) actor) else [])))
    = Inr (\<exists>p. position_of (auth k) actor = PStr p
        \<and> (holds (auth k) p device ''maintain'' \<or> holds (auth k) p device (''maintain:'' @ device)))"
    by (cases "position_of (auth k) actor") (auto simp: rany_PDict holds_def)
  then show ?thesis
    by (auto simp: authorize_device_def may_maintain_def auth_context_def Let_def sx_defs)
qed

lemma wire_eq [simp]:
  "wire i ps ts k = (Inr (), k\<lparr>auth :=
     fold (\<lambda>p. fold (\<lambda>t a. add_grant p i t (setdefault_grants p a)) ts) ps (auth k)\<rparr>)"
proof -
  have one: "each (grant p i) ts k
     = (Inr (), k\<lparr>auth := fold (\<lambda>t a. add_grant p i t (setdefault_grants p a)) ts (auth k)\<rparr>)" for p ts k
    by (induction ts arbitrary: k) (simp_all add: sx_defs)
  show ?thesis
    unfolding wire_def by (induction ps arbitrary: k) (simp_all add: sx_defs one)
qed

section \<open>What each operation leaves alone\<close>

lemma keeps_on_authority [keeps_intros]: "(\<And>k a. f (k\<lparr>auth := a\<rparr>) = f k) \<Longrightarrow> keeps f (on_authority m)"
  by (simp add: keeps_def on_authority_def split_beta)

lemma keeps_on_authority_view:
  assumes "keeps g m"
  shows "keeps (\<lambda>k. g (auth k)) (on_authority m)"
  using keepsD [OF assms] by (simp add: keeps_def on_authority_def split_beta)

lemma keeps_on_journal [keeps_intros]: "(\<And>k j. f (k\<lparr>journal := j\<rparr>) = f k) \<Longrightarrow> keeps f (on_journal m)"
  by (simp add: keeps_def on_journal_def split_beta)

lemma keeps_case_option [keeps_intros]:
  "(x = None \<Longrightarrow> keeps f m) \<Longrightarrow> (\<And>y. x = Some y \<Longrightarrow> keeps f (g y)) \<Longrightarrow>
     keeps f (case x of None \<Rightarrow> m | Some y \<Rightarrow> g y)"
  by (cases x) auto

lemma keeps_case_entity [keeps_intros]:
  "keeps f m \<Longrightarrow> keeps f n \<Longrightarrow> (\<And>h. keeps f (g h)) \<Longrightarrow>
     keeps f (case x of EKernel \<Rightarrow> m | EKernelDevice \<Rightarrow> n | EHandle h \<Rightarrow> g h)"
  by (cases x) auto

lemma keeps_enrich [keeps_intros]: "keeps f (enrich ev)"
proof -
  have "keeps f (auth_context_of i)" for i by (simp add: keeps_def)
  then show ?thesis unfolding enrich_def by (intro keeps_intros)
qed

lemma keeps_makedirs [keeps_intros]: "(\<And>k x. f (k\<lparr>homes := x\<rparr>) = f k) \<Longrightarrow> keeps f (makedirs i)"
  by (simp add: makedirs_def keeps_def modify_def)

lemma keeps_spawn [keeps_intros]: "(\<And>k x. f (k\<lparr>homes := x\<rparr>) = f k) \<Longrightarrow> keeps f (spawn e i sp)"
  unfolding spawn_def by (intro keeps_intros) auto

lemma keeps_ensure_process [keeps_intros]:
  "(\<And>k x. f (k\<lparr>homes := x\<rparr>) = f k) \<Longrightarrow> (\<And>k x. f (k\<lparr>dead := x\<rparr>) = f k) \<Longrightarrow> keeps f (ensure_process e i h)"
  unfolding ensure_process_def by (intro keeps_intros keeps_modify) auto

lemma keeps_record [keeps_intros]: "(\<And>k j. f (k\<lparr>journal := j\<rparr>) = f k) \<Longrightarrow> keeps f (record_event ev out r)"
  unfolding record_event_def by (intro keeps_intros) auto

lemma keeps_send [keeps_intros]: "(\<And>k x. f (k\<lparr>sent := x\<rparr>) = f k) \<Longrightarrow> keeps f (send i ev)"
  unfolding send_def by (intro keeps_modify) simp

lemma keeps_set_entity: "(\<And>k x. f (k\<lparr>entities := x\<rparr>) = f k) \<Longrightarrow> keeps f (set_entity i x)"
  unfolding set_entity_def by (intro keeps_modify)

lemma keeps_deliver [keeps_intros]:
  assumes "\<And>k x. f (k\<lparr>homes := x\<rparr>) = f k" and "\<And>k x. f (k\<lparr>dead := x\<rparr>) = f k" and "\<And>k x. f (k\<lparr>entities := x\<rparr>) = f k"
    and "\<And>k x. f (k\<lparr>sent := x\<rparr>) = f k"
  shows "keeps f (deliver e t h ev)"
  unfolding deliver_def using assms by (intro keeps_intros keeps_set_entity)

lemma keeps_route [keeps_intros]:
  assumes "\<And>k x. f (k\<lparr>homes := x\<rparr>) = f k" and "\<And>k x. f (k\<lparr>dead := x\<rparr>) = f k" and "\<And>k x. f (k\<lparr>entities := x\<rparr>) = f k"
    and "\<And>k x. f (k\<lparr>sent := x\<rparr>) = f k" and "\<And>k x. f (k\<lparr>kqueue := x\<rparr>) = f k"
  shows "keeps f (route e ev)"
  unfolding route_def using assms by (intro keeps_intros keeps_modify) auto

lemma keeps_case_res [keeps_intros]:
  "(\<And>x. keeps f (g x)) \<Longrightarrow> (\<And>y. keeps f (h y)) \<Longrightarrow> keeps f (case r of Inl x \<Rightarrow> g x | Inr y \<Rightarrow> h y)"
  by (cases r) auto

lemma keeps_case_exc [keeps_intros]:
  "(\<And>m. keeps f (g m)) \<Longrightarrow> keeps f n \<Longrightarrow> keeps f (case x of EventError m \<Rightarrow> g m | _ \<Rightarrow> n)"
  by (cases x) auto

text \<open>
  Processing an event that the kernel handles by \<open>onk\<close> keeps a view that its handler keeps and that
  does not look at the channels, the journal, the homes or the entity table.
\<close>

lemma keeps_process_with [keeps_intros]:
  assumes "\<And>ev. keeps f (onk ev)"
    and "\<And>k x. f (k\<lparr>homes := x\<rparr>) = f k" and "\<And>k x. f (k\<lparr>dead := x\<rparr>) = f k" and "\<And>k x. f (k\<lparr>entities := x\<rparr>) = f k"
    and "\<And>k x. f (k\<lparr>sent := x\<rparr>) = f k" and "\<And>k x. f (k\<lparr>kqueue := x\<rparr>) = f k"
    and "\<And>k x. f (k\<lparr>journal := x\<rparr>) = f k"
  shows "keeps f (process_with e onk ev)"
proof -
  have *: "keeps f (case r of Inl (EventError m) \<Rightarrow> record_event ev ''dropped'' (PStr m)
     | Inl x \<Rightarrow> throw x
     | Inr (_ :: pyval) \<Rightarrow> bind (lift (item_key ev ''target'')) (\<lambda>target.
         if target = KERNEL_IDENTITY then andthen (record_event ev ''routed'' PNone) (onk ev)
         else bind (enrich ev) (\<lambda>ev'.
           andthen (record_event ev' ''routed'' PNone) (route e ev'))))" for r
    using assms by (cases r rule: sum.exhaust) (auto intro!: keeps_intros split: exc.splits)
  show ?thesis
    unfolding process_with_def by (intro keeps_intros *)
qed

lemma keeps_on_kernel_unknown [keeps_intros]: "keeps f (on_kernel_unknown ev)"
  unfolding on_kernel_unknown_def by (intro keeps_intros)

lemma keeps_process_emitted [keeps_intros]:
  assumes "\<And>k x. f (k\<lparr>homes := x\<rparr>) = f k" and "\<And>k x. f (k\<lparr>dead := x\<rparr>) = f k" and "\<And>k x. f (k\<lparr>entities := x\<rparr>) = f k"
    and "\<And>k x. f (k\<lparr>sent := x\<rparr>) = f k" and "\<And>k x. f (k\<lparr>kqueue := x\<rparr>) = f k"
    and "\<And>k x. f (k\<lparr>journal := x\<rparr>) = f k"
  shows "keeps f (process_emitted e ev)"
  unfolding process_emitted_def using assms by (intro keeps_intros)

section \<open>The entity table up to the start of a lazy process\<close>

fun shape :: "entity \<Rightarrow> entity" where
  "shape (EHandle h) = EHandle (h\<lparr>h_process := None\<rparr>)"
| "shape x = x"

definition etable :: "kernel \<Rightarrow> string \<Rightarrow> entity option" where
  "etable k i = map_option shape (dget (entities k) i)"

lemma shape_simps [simp]: "shape x = EKernel \<longleftrightarrow> x = EKernel" "shape x = EKernelDevice \<longleftrightarrow> x = EKernelDevice"
  by (cases x; simp)+

lemma etable_kernel_mode [simp]:
  "etable k i = Some EKernel \<longleftrightarrow> dget (entities k) i = Some EKernel"
  "etable k i = Some EKernelDevice \<longleftrightarrow> dget (entities k) i = Some EKernelDevice"
  "etable k i = None \<longleftrightarrow> dget (entities k) i = None"
  by (auto simp: etable_def)

lemma etable_update [simp]:
  "etable (k\<lparr>auth := a\<rparr>) = etable k" "etable (k\<lparr>homes := x\<rparr>) = etable k"
  "etable (k\<lparr>sent := s\<rparr>) = etable k" "etable (k\<lparr>kqueue := q\<rparr>) = etable k"
  "etable (k\<lparr>journal := j\<rparr>) = etable k" "etable (k\<lparr>killed := x\<rparr>) = etable k"
  "etable (k\<lparr>agent_ids := as\<rparr>) = etable k" "etable (k\<lparr>dead := x\<rparr>) = etable k"
  by (simp_all add: etable_def fun_eq_iff)

lemma ensure_process_shape:
  "ensure_process e t h k = (Inr h', k') \<Longrightarrow> shape (EHandle h') = shape (EHandle h) \<and> entities k' = entities k"
proof -
  assume h': "ensure_process e t h k = (Inr h', k')"
  have "entities (snd (ensure_process e t h k)) = entities k"
    by (rule keepsD) (intro keeps_intros; simp)
  with h' show ?thesis
    by (auto simp: ensure_process_def sx_Inr split: option.splits)
qed

lemma keeps_etable_ensure: "keeps etable (ensure_process e t h)"
  by (intro keeps_intros) simp_all

lemma keeps_etable_deliver:
  assumes "dget (entities k) t = Some (EHandle h)"
  shows "etable (snd (deliver e t h ev k)) = etable k"
proof -
  obtain r k1 where r: "ensure_process e t h k = (r, k1)" by (cases "ensure_process e t h k")
  have k1: "etable k1 = etable k" "entities k1 = entities k"
    using keepsD [OF keeps_etable_ensure, of e t h k] r
      keepsD [OF keeps_ensure_process [of entities e t h], of k] by simp_all
  show ?thesis
  proof (cases r)
    case (Inl x)
    then show ?thesis using r k1 by (simp add: deliver_def sx_defs)
  next
    case (Inr h')
    then have sh: "shape (EHandle h') = shape (EHandle h)"
      using ensure_process_shape [of e t h k h' k1] r by simp
    have *: "etable (k2\<lparr>entities := dset t (EHandle h') (entities k2)\<rparr>) = etable k2"
      if "entities k2 = entities k" for k2
      using that sh assms by (auto simp: etable_def fun_eq_iff)
    show ?thesis
      using r Inr k1 * [OF k1(2)] by (simp add: deliver_def sx_defs set_entity_def send_def)
  qed
qed

lemma keeps_etable_route [keeps_intros]: "keeps etable (route e ev)"
  unfolding keeps_def
proof
  fix k
  show "etable (snd (route e ev k)) = etable k"
    using keeps_etable_deliver
    by (auto simp: route_def sx_defs split: sum.splits option.splits entity.splits)
qed

lemma keeps_etable_process_with [keeps_intros]:
  assumes "\<And>ev. keeps etable (onk ev)"
  shows "keeps etable (process_with e onk ev)"
proof -
  have *: "keeps etable (case r of Inl (EventError m) \<Rightarrow> record_event ev ''dropped'' (PStr m)
     | Inl x \<Rightarrow> throw x
     | Inr (_ :: pyval) \<Rightarrow> bind (lift (item_key ev ''target'')) (\<lambda>target.
         if target = KERNEL_IDENTITY then andthen (record_event ev ''routed'' PNone) (onk ev)
         else bind (enrich ev) (\<lambda>ev'.
           andthen (record_event ev' ''routed'' PNone) (route e ev'))))" for r
    using assms keeps_etable_route
    by (cases r rule: sum.exhaust) (auto intro!: keeps_bind keeps_andthen keeps_if keeps_enrich
        keeps_lift keeps_throw keeps_record split: exc.splits)
  show ?thesis
    unfolding process_with_def by (intro keeps_bind keeps_asks *)
qed

lemma keeps_etable_process_emitted [keeps_intros]: "keeps etable (process_emitted e ev)"
  unfolding process_emitted_def by (intro keeps_etable_process_with keeps_on_kernel_unknown)

section \<open>Tying the knot\<close>

text \<open>Events that are no kernel command.\<close>

definition HANDLED :: "string set" where
  "HANDLED = {''install_device'', ''uninstall_device'', ''maintenance_session'', ''grant_scope'',
     ''revoke_scope''}"

definition quiet :: "pyval \<Rightarrow> bool" where
  "quiet ev \<longleftrightarrow> (\<exists>d p c. ev = PDict d \<and> dget d ''payload'' = Some (PDict p)
     \<and> dget p ''command'' = Some (PStr c) \<and> c \<notin> HANDLED)"

lemma on_kernel_quiet: "quiet ev \<Longrightarrow> on_kernel e emit ev = on_kernel_unknown ev"
  by (auto simp: quiet_def HANDLED_def on_kernel_def on_kernel_unknown_def fun_eq_iff)

lemma process_with_cong:
  assumes "onk ev = onk' ev"
  shows "process_with e onk ev = process_with e onk' ev"
  unfolding process_with_def assms by (rule refl)

lemma process_event_quiet: "quiet ev \<Longrightarrow> process_event e ev = process_emitted e ev"
  unfolding process_event_def process_emitted_def by (intro process_with_cong on_kernel_quiet)

lemma quiet_with_source: "quiet (with_source s ev) \<longleftrightarrow> quiet ev"
  by (cases ev) (auto simp: quiet_def)

definition agree :: "emitter \<Rightarrow> emitter \<Rightarrow> bool" where
  "agree f g \<longleftrightarrow> (\<forall>ev. quiet ev \<longrightarrow> f ev = g ev)"

lemma agree_emit: "agree f g \<Longrightarrow> quiet ev \<Longrightarrow> kernel_emit f s ev = kernel_emit g s ev"
  by (simp add: kernel_emit_def agree_def quiet_with_source)

lemma quiet_inject: "quiet (inject_event agent old new)"
  by (simp add: quiet_def inject_event_def HANDLED_def)

lemma build_inject_event:
  "build_inject agent a = (Inr ev, a') \<Longrightarrow> \<exists>old new. ev = inject_event agent old new"
  by (auto simp: build_inject_def sx_Inr split: option.splits)

lemma ask_inject:
  "ask [(''command'', PStr ''inject_request''), (''agent'', v)] k = (Inr ev, k') \<Longrightarrow> quiet ev"
  by (cases v) (auto simp: ask_defs inject_request_def bind_def lift_def split: prod.splits sum.splits
      dest!: build_inject_event intro: quiet_inject)

lemma inject_cong: "agree f g \<Longrightarrow> inject f agent = inject g agent"
proof
  fix k assume fg: "agree f g"
  obtain r k1 where r: "ask [(''command'', PStr ''inject_request''), (''agent'', agent)] k = (r, k1)"
    by (cases "ask [(''command'', PStr ''inject_request''), (''agent'', agent)] k")
  show "inject f agent k = inject g agent k"
  proof (cases r)
    case (Inl x)
    then show ?thesis using r by (simp add: inject_def bind_def)
  next
    case (Inr ev)
    then have "quiet ev" using r ask_inject by blast
    then have "kernel_emit f ''authority'' ev = kernel_emit g ''authority'' ev"
      by (rule agree_emit [OF fg])
    then show ?thesis using r Inr by (simp add: inject_def bind_def)
  qed
qed

lemma ack_cong:
  assumes "agree f g" and "command \<notin> HANDLED"
  shows "bind (ack ev command i err) (kernel_emit f s) = bind (ack ev command i err) (kernel_emit g s)"
proof -
  have "kernel_emit f s (PDict [(''target'', t), (''kind'', PStr ''application''),
       (''payload'', PDict [(''command'', PStr command), (''identity'', i),
          (''ok'', ok), (''error'', x)])])
    = kernel_emit g s (PDict [(''target'', t), (''kind'', PStr ''application''),
       (''payload'', PDict [(''command'', PStr command), (''identity'', i),
          (''ok'', ok), (''error'', x)])])" for t ok x
    by (rule agree_emit [OF assms(1)]) (simp add: quiet_def assms(2))
  then show ?thesis
    by (simp add: ack_def fun_eq_iff bind_def lift_def ret_def split: sum.splits)
qed

lemma quiet_scope_ack: "quiet (scope_ack b s p d err)"
  by (simp add: quiet_def scope_ack_def HANDLED_def)

lemma handlers_cong:
  assumes "agree f g"
  shows "install e f = install e g" "uninstall f = uninstall g"
    "maintenance_session e f = maintenance_session e g" "scope f = scope g"
proof -
  have inj: "inject f = inject g"
    by (rule ext) (rule inject_cong [OF assms])
  have acks:
    "bind (ack ev ''device_installed'' i err) (kernel_emit f s)
      = bind (ack ev ''device_installed'' i err) (kernel_emit g s)"
    "bind (ack ev ''device_uninstalled'' i err) (kernel_emit f s)
      = bind (ack ev ''device_uninstalled'' i err) (kernel_emit g s)"
    "bind (ack ev ''maintenance_session_started'' i err) (kernel_emit f s)
      = bind (ack ev ''maintenance_session_started'' i err) (kernel_emit g s)" for ev i err s
    by (rule ack_cong [OF assms], simp add: HANDLED_def)+
  show "install e f = install e g"
    unfolding install_def install_body_def install_loaded_def install_new_def inj acks by (rule refl)
  show "uninstall f = uninstall g"
    unfolding uninstall_def uninstall_body_def uninstall_running_def inj acks by (rule refl)
  show "maintenance_session e f = maintenance_session e g"
    unfolding maintenance_session_def acks by (rule refl)
  show "scope f = scope g"
    unfolding scope_def scope_body_def scope_apply_def inj agree_emit [OF assms quiet_scope_ack] by (rule refl)
qed

text \<open>
  The model of the processing path satisfies the recursive equation of the source: a handler
  that emits processes the emitted event by the whole path again, kernel commands included; the
  nesting that the model unrolls twice is all there is, because nothing a handler emits is a
  kernel command.
\<close>

lemma process_event_unfold:
  "process_event e ev = process_with e (on_kernel e (process_event e)) ev"
proof -
  have ag: "agree (process_emitted e) (process_event e)"
    by (simp add: agree_def process_event_quiet)
  have "on_kernel e (process_emitted e) ev = on_kernel e (process_event e) ev" for ev
    unfolding on_kernel_def handlers_cong [OF ag] by (rule refl)
  then have "on_kernel e (process_emitted e) = on_kernel e (process_event e)" by (rule ext)
  then show ?thesis unfolding process_event_def [of e, symmetric] by (metis process_event_def)
qed

end
