(* ===== verification/KernelProps.thy ===== *)
theory KernelProps
  imports KernelLemmas
begin

text \<open>
  The properties of the kernel's commands: who can change the organisation, which identities are
  protected, what a successful install or uninstall leaves behind, that every command is answered,
  that authentication attached to a delivered event cannot be forged, and that an invalid event is
  recorded and goes nowhere.
\<close>

section \<open>One step of the processing path\<close>

lemma record_event_state: "\<exists>r j. record_event ev out m k = (r, k\<lparr>journal := j\<rparr>)"
proof -
  obtain r j where "on_journal (journal_respond (system_event ''journal''
        [(''command'', PStr ''journal_record''), (''event'', ev), (''outcome'', PStr out),
         (''reason'', m)])) k = (r, k\<lparr>journal := j\<rparr>)"
    by (simp add: on_journal_def split_beta)
  then show ?thesis by (cases r) (auto simp: record_event_def bind_def ret_def)
qed

text \<open>A view of the state that only the kernel's own handlers can change.\<close>

definition internal :: "(kernel \<Rightarrow> 'v) \<Rightarrow> bool" where
  "internal f \<longleftrightarrow> (\<forall>k j. f (k\<lparr>journal := j\<rparr>) = f k) \<and> (\<forall>e ev. keeps f (route e ev))"

lemma internal_pair: "internal f \<Longrightarrow> internal g \<Longrightarrow> internal (\<lambda>k. (f k, g k))"
  by (simp add: internal_def keeps_def)

lemma internal_simple:
  assumes "\<And>k x. f (k\<lparr>homes := x\<rparr>) = f k" and "\<And>k x. f (k\<lparr>dead := x\<rparr>) = f k" and "\<And>k x. f (k\<lparr>entities := x\<rparr>) = f k"
    and "\<And>k x. f (k\<lparr>sent := x\<rparr>) = f k" and "\<And>k x. f (k\<lparr>kqueue := x\<rparr>) = f k"
    and "\<And>k x. f (k\<lparr>journal := x\<rparr>) = f k"
  shows "internal f"
  unfolding internal_def using assms by (auto intro: keeps_route)

lemma internal_etable: "internal etable"
  by (simp add: internal_def keeps_etable_route)

lemma internal_views:
  "internal auth" "internal agent_ids" "internal killed" "internal runtime_root"
  by (rule internal_simple; simp)+

lemma process_with_internal:
  assumes "internal f" and "\<And>j. f (snd (onk ev (k\<lparr>journal := j\<rparr>))) = f k"
  shows "f (snd (process_with e onk ev k)) = f k"
proof -
  have jour: "f (k\<lparr>journal := j\<rparr>) = f k" for k j
    using assms(1) by (simp add: internal_def)
  have rec: "f (snd (record_event ev' out m k)) = f k" for ev' out m k
    using record_event_state [of ev' out m k] jour by auto
  have rt: "f (snd (route e ev' k)) = f k" for ev' k
    using assms(1) by (simp add: internal_def keeps_def)
  have "f (snd (andthen (record_event ev' out m) (route e ev') k)) = f k" for ev' out m k
    using record_event_state [of ev' out m k] rt jour
    by (auto simp: andthen_def bind_def split: prod.splits sum.splits)
  moreover have "f (snd (andthen (record_event ev out m) (onk ev) k)) = f k" for out m
    using record_event_state [of ev out m k] assms(2) jour
    by (auto simp: andthen_def bind_def split: prod.splits sum.splits)
  moreover have "snd (enrich ev k) = k"
    using keepsD [OF keeps_enrich, of "\<lambda>k. k"] by simp
  ultimately show ?thesis
    using rec by (auto simp: process_with_def bind_def asks_def lift_def throw_def
        split: sum.splits exc.splits prod.splits)
qed

lemma process_emitted_internal: "internal f \<Longrightarrow> f (snd (process_emitted e ev k)) = f k"
  unfolding process_emitted_def
proof (rule process_with_internal)
  fix j assume "internal f"
  then show "f (snd (on_kernel_unknown ev (k\<lparr>journal := j\<rparr>))) = f k"
    using keepsD [OF keeps_on_kernel_unknown, of f] by (simp add: internal_def)
qed

lemma kernel_emit_internal: "internal f \<Longrightarrow> f (snd (kernel_emit (process_emitted e) s ev k)) = f k"
  by (simp add: kernel_emit_def process_emitted_internal)

lemma ack_then_emit_internal:
  "internal f \<Longrightarrow> f (snd (bind (ack ev c i err) (kernel_emit (process_emitted e) s) k)) = f k"
  by (auto simp: ack_def bind_def lift_def ret_def kernel_emit_internal split: sum.splits)

section \<open>Who can change the organisation\<close>

text \<open>A refused command raises before it has changed anything.\<close>

lemma attempt_raise: "m k = (Inl x, k') \<Longrightarrow> attempt m k = (Inr (Some x), k')"
  by (simp add: attempt_def sx_defs)

lemma check_identity_cases:
  "(\<exists>x. check_identity v m k = (Inl x, k)) \<or> (\<exists>s. v = PStr s \<and> s \<noteq> [] \<and> check_identity v m k = (Inr s, k))"
  by (cases v) (auto simp: check_identity_def sx_defs)

lemma install_body_refused:
  assumes "item_key ev ''source'' = Inr s" and "\<And>i. \<not> may_maintain (auth k) s i"
  shows "\<exists>x. install_body e emit ev payload k = (Inl x, k)"
proof (cases "py_get payload ''identity''")
  case (Inl x)
  then show ?thesis by (simp add: install_body_def)
next
  case (Inr v)
  show ?thesis
    using check_identity_cases [of v "''install_device needs identity''" k] Inr assms
    by (auto simp: install_body_def bind_def lift_def source_of_def andthen_def guard_def ret_def throw_def)
qed

lemma uninstall_body_refused:
  assumes "item_key ev ''source'' = Inr s" and "\<And>i. \<not> may_maintain (auth k) s i"
  shows "\<exists>x. uninstall_body emit ev payload k = (Inl x, k)"
proof (cases "py_get payload ''identity''")
  case (Inl x)
  then show ?thesis by (simp add: uninstall_body_def)
next
  case (Inr v)
  show ?thesis
    using check_identity_cases [of v "''uninstall_device needs identity''" k] Inr assms
    by (auto simp: uninstall_body_def bind_def lift_def source_of_def andthen_def guard_def ret_def throw_def)
qed

lemma maintenance_body_refused:
  assumes "\<And>i. \<not> may_maintain (auth k) s i"
  shows "\<exists>x. maintenance_body e tv s k = (Inl x, k)"
  using check_identity_cases [of tv "''maintenance_session needs target_device''" k] assms
  by (auto simp: maintenance_body_def bind_def asks_def lift_def andthen_def guard_def ret_def throw_def)

lemma scope_body_refused:
  assumes "item_key ev ''source'' = Inr s" and "\<not> authorized (auth k) s ''grant''"
  shows "\<exists>x. scope_body emit ev b p d t k = (Inl x, k)"
  using assms
  by (auto simp: scope_body_def bind_def asks_def lift_def andthen_def guard_def ret_def throw_def
      source_of_def)

lemma bind_lift_view: "(\<And>x. r = Inr x \<Longrightarrow> f (snd (g x k)) = f k) \<Longrightarrow> f (snd (bind (lift r) g k)) = f k"
  by (cases r) simp_all

lemma attempt_refused:
  "\<exists>x. m k = (Inl x, k) \<Longrightarrow> (\<And>err. f (snd (g err k)) = f k) \<Longrightarrow> f (snd (bind (attempt m) g k)) = f k"
  using attempt_raise [of m k] by (auto simp: bind_def)

lemma on_kernel_refused:
  assumes src: "item_key ev ''source'' = Inr s" and no: "\<And>i. \<not> may_maintain (auth k) s i"
    and ng: "\<not> authorized (auth k) s ''grant''" and int: "internal f"
  shows "f (snd (on_kernel e (process_emitted e) ev k)) = f k"
proof -
  note em = ack_then_emit_internal [OF int] kernel_emit_internal [OF int]
  have "f (snd (install e (process_emitted e) ev k)) = f k"
    unfolding install_def
    by (intro bind_lift_view attempt_refused install_body_refused [OF src no] em)
  moreover have "f (snd (uninstall (process_emitted e) ev k)) = f k"
    unfolding uninstall_def
    by (intro bind_lift_view attempt_refused uninstall_body_refused [OF src no] em)
  moreover have "f (snd (maintenance_session e (process_emitted e) ev k)) = f k"
    unfolding maintenance_session_def source_of_def src
    by (intro bind_lift_view attempt_refused em) (use maintenance_body_refused [OF no] in auto)
  moreover have "f (snd (scope (process_emitted e) ev b k)) = f k" for b
    unfolding scope_def
    by (intro bind_lift_view attempt_refused scope_body_refused [OF src ng] em)
  ultimately show ?thesis
    by (auto simp: on_kernel_def bind_def lift_def ret_def split: sum.splits)
qed

lemma unprivileged_internal:
  assumes "item_key ev ''source'' = Inr s"
    and "\<And>i. \<not> may_maintain (auth k) s i" and "\<not> authorized (auth k) s ''grant''"
    and "internal f"
  shows "f (snd (process_event e ev k)) = f k"
  unfolding process_event_def
proof (rule process_with_internal [OF assms(4)])
  fix j
  have "f (snd (on_kernel e (process_emitted e) ev (k\<lparr>journal := j\<rparr>))) = f (k\<lparr>journal := j\<rparr>)"
    by (rule on_kernel_refused [OF assms(1) _ _ assms(4)]) (use assms(2,3) in auto)
  also have "\<dots> = f k" using assms(4) by (simp add: internal_def)
  finally show "f (snd (on_kernel e (process_emitted e) ev (k\<lparr>journal := j\<rparr>))) = f k" .
qed

section \<open>In whose name the kernel speaks\<close>

definition source_val :: "pyval \<Rightarrow> pyval" where
  "source_val ev = (case py_get ev ''source'' of Inr v \<Rightarrow> v | Inl _ \<Rightarrow> PNone)"

text \<open>
  From \<open>k\<close> to \<open>k'\<close>, everything added to the journal, the channels and the queues of the in-process
  devices names a source in \<open>S\<close>, except for the termination of a process.
\<close>

definition speaks :: "pyval set \<Rightarrow> kernel \<Rightarrow> kernel \<Rightarrow> bool" where
  "speaks S k k' \<longleftrightarrow> (\<exists>rows new q. journal k' = journal k @ rows \<and> sent k' = sent k @ new \<and> kqueue k' = kqueue k @ q
     \<and> (\<forall>w \<in> set rows. j_source w \<in> S) \<and> (\<forall>(t, ev) \<in> set new. ev = terminate_event t \<or> source_val ev \<in> S)
     \<and> (\<forall>(t, ev) \<in> set q. source_val ev \<in> S))"

lemma speaksI:
  "journal k' = journal k @ rows \<Longrightarrow> sent k' = sent k @ new \<Longrightarrow> kqueue k' = kqueue k @ q \<Longrightarrow> \<forall>w \<in> set rows. j_source w \<in> S
    \<Longrightarrow> \<forall>(t, ev) \<in> set new. ev = terminate_event t \<or> source_val ev \<in> S \<Longrightarrow> \<forall>(t, ev) \<in> set q. source_val ev \<in> S \<Longrightarrow> speaks S k k'"
  unfolding speaks_def by blast

lemma speaks_refl [simp]: "speaks S k k"
  by (rule speaksI [of _ _ "[]" "[]" "[]"]) simp_all

lemma speaks_trans:
  assumes "speaks S k k1" and "speaks S k1 k2"
  shows "speaks S k k2"
proof -
  obtain rows new q where 1: "journal k1 = journal k @ rows" "sent k1 = sent k @ new" "kqueue k1 = kqueue k @ q"
    "\<forall>w \<in> set rows. j_source w \<in> S" "\<forall>(t, ev) \<in> set new. ev = terminate_event t \<or> source_val ev \<in> S"
    "\<forall>(t, ev) \<in> set q. source_val ev \<in> S"
    using assms(1) unfolding speaks_def by blast
  obtain rows' new' q' where 2: "journal k2 = journal k1 @ rows'" "sent k2 = sent k1 @ new'" "kqueue k2 = kqueue k1 @ q'"
    "\<forall>w \<in> set rows'. j_source w \<in> S" "\<forall>(t, ev) \<in> set new'. ev = terminate_event t \<or> source_val ev \<in> S"
    "\<forall>(t, ev) \<in> set q'. source_val ev \<in> S"
    using assms(2) unfolding speaks_def by blast
  show ?thesis
    by (rule speaksI [of _ _ "rows @ rows'" "new @ new'" "q @ q'"]) (use 1 2 in auto)
qed

lemma speaks_queued: "speaks S k k' \<Longrightarrow> (t, ev) \<in> set (drop (length (kqueue k)) (kqueue k')) \<Longrightarrow> source_val ev \<in> S"
  by (auto simp: speaks_def)

definition says :: "pyval set \<Rightarrow> (kernel, 'a) sx \<Rightarrow> bool" where
  "says S m \<longleftrightarrow> (\<forall>k. speaks S k (snd (m k)))"

lemma saysD: "says S m \<Longrightarrow> speaks S k (snd (m k))"
  by (simp add: says_def)

lemma says_quiet: "keeps (\<lambda>k. (journal k, sent k, kqueue k)) m \<Longrightarrow> says S m"
  unfolding says_def keeps_def by (auto intro!: speaksI [where rows = "[]" and new = "[]" and q = "[]"])

lemma says_bind:
  assumes "says S m" and "\<And>x. says S (g x)"
  shows "says S (bind m g)"
  unfolding says_def
proof
  fix k
  show "speaks S k (snd (bind m g k))"
    using saysD [OF assms(1), of k] saysD [OF assms(2)]
    by (cases "m k"; cases "fst (m k)") (auto simp: bind_def intro: speaks_trans)
qed

lemma says_andthen: "says S m \<Longrightarrow> says S n \<Longrightarrow> says S (andthen m n)"
  by (simp add: andthen_def says_bind)

lemma says_catch:
  assumes "says S m" and "\<And>x. says S (h x)"
  shows "says S (catch m h)"
  unfolding says_def
proof
  fix k
  show "speaks S k (snd (catch m h k))"
    using saysD [OF assms(1), of k] saysD [OF assms(2)]
    by (cases "m k"; cases "fst (m k)") (auto simp: catch_def intro: speaks_trans)
qed

lemma says_pure: "says S (ret x)" "says S (lift r)" "says S (throw x')" "says S (guard b x'')" "says S (asks f)"
  by (rule says_quiet, intro keeps_intros)+

lemma says_each: "(\<And>x. says S (g x)) \<Longrightarrow> says S (each g xs)"
  by (induction xs) (auto intro: says_pure says_andthen)

lemma says_if: "says S m \<Longrightarrow> says S n \<Longrightarrow> says S (if b then m else n)"
  by simp

lemmas says_intros = says_pure says_bind says_andthen says_catch says_each says_if

lemma record_event_source:
  "snd (record_event ev out m k) = k
   \<or> (\<exists>w. snd (record_event ev out m k) = k\<lparr>journal := journal k @ [w]\<rparr> \<and> j_source w = source_val ev)"
proof (cases "truthy ev")
  case True
  then show ?thesis
    by (auto simp: record_event_def on_journal_def journal_respond_def system_event_def py_or_def sx_defs source_val_def
        split: sum.splits)
next
  case False
  then show ?thesis
    by (cases ev) (auto simp: record_event_def on_journal_def journal_respond_def system_event_def py_or_def sx_defs source_val_def
        split: sum.splits)
qed

lemma speaks_journal: "j_source w \<in> S \<Longrightarrow> speaks S k (k\<lparr>journal := journal k @ [w]\<rparr>)"
  by (rule speaksI [where rows = "[w]" and new = "[]" and q = "[]"]) simp_all

lemma says_record: "source_val ev \<in> S \<Longrightarrow> says S (record_event ev out m)"
  unfolding says_def using record_event_source speaks_journal speaks_refl by metis

lemma says_send: "ev = terminate_event t \<or> source_val ev \<in> S \<Longrightarrow> says S (send t ev)"
  unfolding says_def send_def modify_def
  by (auto intro!: speaksI [where rows = "[]" and new = "[(t, ev)]" and q = "[]"])

lemma says_queue: "source_val ev \<in> S \<Longrightarrow> says S (modify (\<lambda>k. k\<lparr>kqueue := kqueue k @ [(t, ev)]\<rparr>))"
  unfolding says_def modify_def
  by (auto intro!: speaksI [where rows = "[]" and new = "[]" and q = "[(t, ev)]"])

lemma says_ensure_process: "says S (ensure_process e i h)"
  by (rule says_quiet) (intro keeps_intros; simp)

lemma says_deliver: "source_val ev \<in> S \<Longrightarrow> says S (deliver e t h ev)"
  unfolding deliver_def
  by (intro says_intros says_ensure_process says_send says_quiet [OF keeps_set_entity]) auto

lemma says_route: "source_val ev \<in> S \<Longrightarrow> says S (route e ev)"
  unfolding route_def
  by (intro says_intros) (auto intro: says_deliver says_queue says_pure split: option.splits entity.splits)

lemma enrich_source:
  assumes "enrich ev k = (Inr ev', k')"
  shows "source_val ev' = source_val ev"
proof -
  have "source_val (with_auth c ev) = source_val ev" for c
    by (cases ev) (auto simp: source_val_def)
  then show ?thesis using assms
    by (auto simp: enrich_def sx_Inr split: if_splits option.splits entity.splits)
qed

lemma says_process_with:
  assumes "source_val ev \<in> S" and "says S (onk ev)"
  shows "says S (process_with e onk ev)"
proof -
  have other: "speaks S k (snd (bind (enrich ev) (\<lambda>ev'. andthen (record_event ev' ''routed'' PNone) (route e ev')) k))" for k
  proof (cases "enrich ev k")
    case (Pair r k')
    then have "k' = k" using keepsD [OF keeps_enrich, of "\<lambda>k. k" ev k] by simp
    moreover have "speaks S k (snd (andthen (record_event ev' ''routed'' PNone) (route e ev') k))" if "r = Inr ev'" for ev'
      using enrich_source [of ev k ev' k'] Pair that assms(1)
      by (intro saysD says_andthen says_record says_route) auto
    ultimately show ?thesis using Pair by (cases r) (simp_all add: bind_def)
  qed
  then have other': "says S (bind (enrich ev) (\<lambda>ev'. andthen (record_event ev' ''routed'' PNone) (route e ev')))"
    by (simp add: says_def)
  have *: "says S (case r of Inl (EventError m) \<Rightarrow> record_event ev ''dropped'' (PStr m)
     | Inl x \<Rightarrow> throw x
     | Inr (_ :: pyval) \<Rightarrow> bind (lift (item_key ev ''target'')) (\<lambda>target.
         if target = KERNEL_IDENTITY then andthen (record_event ev ''routed'' PNone) (onk ev)
         else bind (enrich ev) (\<lambda>ev'.
           andthen (record_event ev' ''routed'' PNone) (route e ev'))))" for r
    using assms other'
    by (cases r rule: sum.exhaust) (auto intro!: says_pure says_bind [OF says_pure(2)] says_andthen says_record split: exc.splits)
  show ?thesis unfolding process_with_def by (intro says_bind says_pure *)
qed

lemma says_emit:
  assumes "PStr s \<in> S"
  shows "says S (kernel_emit (process_emitted e) s (PDict d))"
  unfolding kernel_emit_def process_emitted_def
  by (rule says_process_with) (use assms in \<open>auto simp: source_val_def intro: says_quiet keeps_intros\<close>)

lemma says_ask: "says S (ask p)"
  unfolding ask_def by (rule says_quiet) (intro keeps_intros; simp)

lemma says_inject:
  assumes "PStr ''authority'' \<in> S"
  shows "says S (inject (process_emitted e) v)"
  unfolding says_def
proof
  fix k
  let ?m = "ask [(''command'', PStr ''inject_request''), (''agent'', v)]"
  obtain r k1 where r: "?m k = (r, k1)" by (cases "?m k")
  have 1: "speaks S k k1" using saysD [OF says_ask, of S k "[(''command'', PStr ''inject_request''), (''agent'', v)]"] r by simp
  show "speaks S k (snd (inject (process_emitted e) v k))"
  proof (cases r)
    case (Inl x)
    then show ?thesis using r 1 by (simp add: inject_def bind_def)
  next
    case (Inr ev)
    then obtain d where d: "ev = PDict d" using ask_inject [of v k ev k1] r by (auto simp: quiet_def)
    have "speaks S k1 (snd (kernel_emit (process_emitted e) ''authority'' ev k1))"
      unfolding d by (rule saysD [OF says_emit [OF assms]])
    then show ?thesis using r Inr 1 speaks_trans by (auto simp: inject_def bind_def ret_def)
  qed
qed

text \<open>What the handlers do between the checks: nothing is written but the termination of a process.\<close>

lemma says_steps:
  "says S (authorize i s)" "says S (auth_context_of i)" "says S agents_of" "says S (authorize_device i s)"
  "says S (grant p d t)" "says S (unregister i)" "says S (makedirs i)" "says S (wire i ps ts)"
  "says S (refuse_kernel_mode i)" "says S (source_of ev)" "says S (check_identity v m)" "says S (check_grants v)"
  "says S (register e i sp tools ag False pos sc)" "says S (take_down i h)" "says S (keep_maintain i gs)"
proof -
  show "says S (authorize i s)" "says S (auth_context_of i)" "says S agents_of" "says S (authorize_device i s)"
    "says S (refuse_kernel_mode i)" "says S (source_of ev)"
    by (rule says_quiet, simp add: keeps_def refuse_kernel_mode_def source_of_def guard_def ret_def throw_def lift_def)+
  show grant: "says S (grant p d t)" for p d t by (rule says_quiet) (simp add: keeps_def)
  show "says S (unregister i)" "says S (wire i ps ts)" by (rule says_quiet, simp add: keeps_def)+
  show "says S (makedirs i)" by (rule says_quiet) (intro keeps_intros; simp)
  show "says S (check_identity v m)" by (cases v) (auto simp: check_identity_def intro: says_pure)
  show "says S (check_grants v)" by (cases v) (auto simp: check_grants_def intro: says_pure)
  show "says S (register e i sp tools ag False pos sc)"
    unfolding register_def new_handle_def Let_def
    by (rule says_quiet) (intro keeps_intros keeps_set_entity keeps_modify; simp add: ask_def keeps_intros)
  show "says S (take_down i h)"
    unfolding take_down_def del_entity_def terminate_def
    by (cases "h_process h") (auto intro!: says_intros says_send says_quiet [OF keeps_modify])
  show "says S (keep_maintain i gs)"
    unfolding keep_maintain_def by (intro says_intros grant)
qed

lemma says_case_entity:
  "(\<And>h. says S (g h)) \<Longrightarrow> says S m \<Longrightarrow> says S (case x of Some (EHandle h) \<Rightarrow> g h | _ \<Rightarrow> m)"
  by (auto split: option.splits entity.splits)

lemma says_case_prod: "(\<And>x y. says S (g x y)) \<Longrightarrow> says S (case p of (x, y) \<Rightarrow> g x y)"
  by (simp split: prod.splits)

lemma says_ack:
  assumes "PStr KERNEL_IDENTITY \<in> S"
  shows "says S (bind (ack ev c i err) (kernel_emit (process_emitted e) KERNEL_IDENTITY))"
proof -
  have "bind (ack ev c i err) g = bind (lift (py_item ev ''source'')) (\<lambda>s. g (PDict [(''target'', s), (''kind'', PStr ''application''),
       (''payload'', PDict [(''command'', PStr c), (''identity'', i), (''ok'', PBool (err = None)),
          (''error'', case err of None \<Rightarrow> PNone | Some x \<Rightarrow> PStr (str_exc x))])]))" for g :: "pyval \<Rightarrow> (kernel, unit) sx"
    by (rule ext) (simp add: ack_def bind_def lift_def ret_def split: sum.splits)
  then show ?thesis using says_emit [OF assms] by (simp add: says_bind says_pure)
qed

lemma says_attempt: "says S m \<Longrightarrow> says S (attempt m)"
  unfolding attempt_def by (intro says_intros)

lemma says_handlers:
  assumes "PStr KERNEL_IDENTITY \<in> S" and "PStr ''authority'' \<in> S"
  shows "says S (install e (process_emitted e) ev)" and "says S (uninstall (process_emitted e) ev)"
    and "says S (maintenance_session e (process_emitted e) ev)" and "says S (scope (process_emitted e) ev g)"
proof -
  note inj = says_inject [OF assms(2)] and ack = says_ack [OF assms(1)] and emit = says_emit [OF assms(1)]
  show "says S (install e (process_emitted e) ev)"
    unfolding install_def install_body_def install_loaded_def install_new_def
    by (intro says_intros says_attempt says_steps says_case_entity says_case_prod inj ack)
  show "says S (uninstall (process_emitted e) ev)"
    unfolding uninstall_def uninstall_body_def uninstall_running_def
    by (intro says_intros says_attempt says_steps says_case_entity says_ask inj ack)
  show "says S (maintenance_session e (process_emitted e) ev)"
    unfolding maintenance_session_def maintenance_body_def
    by (intro says_intros says_attempt says_steps says_case_entity ack)
  show "says S (scope (process_emitted e) ev g)"
    unfolding scope_def scope_body_def scope_apply_def scope_ack_def
    by (intro says_intros says_attempt says_steps says_ask inj emit)
qed

lemma says_on_kernel:
  assumes "PStr KERNEL_IDENTITY \<in> S" and "PStr ''authority'' \<in> S"
  shows "says S (on_kernel e (process_emitted e) ev)"
  unfolding on_kernel_def by (intro says_intros says_handlers [OF assms])

lemma says_process_event:
  assumes "PStr KERNEL_IDENTITY \<in> S" and "PStr ''authority'' \<in> S" and "source_val ev \<in> S"
  shows "says S (process_event e ev)"
  unfolding process_event_def by (rule says_process_with [OF assms(3) says_on_kernel [OF assms(1,2)]])

section \<open>The in-process devices\<close>

text \<open>The in-process devices serve events one after the other; one that raises does not keep the next from being served.\<close>

definition serve_each :: "env \<Rightarrow> (string \<times> pyval) list \<Rightarrow> kernel \<Rightarrow> kernel" where
  "serve_each e q k = fold (\<lambda>(d, ev) k. snd (serve_kernel_device e d ev k)) q k"

lemma respond_external: "source_val ev \<noteq> PStr ''system'' \<Longrightarrow> snd (respond ev a) = a"
  by (auto simp: respond_def source_val_def sx_defs split: sum.splits)

text \<open>Answers of the in-process devices to outsiders are no kernel commands.\<close>

lemma respond_external_quiet: "source_val ev \<noteq> PStr ''system'' \<Longrightarrow> fst (respond ev a) = Inr r \<Longrightarrow> quiet r"
  by (auto simp: respond_def source_val_def sx_defs denied_def quiet_def HANDLED_def split: sum.splits)

lemma journal_respond_VOID: "fst (journal_respond ev j) = Inr r \<Longrightarrow> r = VOID"
  by (auto simp: journal_respond_def sx_defs Let_def split: sum.splits if_splits)

lemma receipt_quiet: "receipt_event ev = Inr r \<Longrightarrow> quiet r"
  by (auto simp: receipt_event_def rbind_Inr quiet_def HANDLED_def)

lemma emit_quiet_internal:
  "quiet ev \<Longrightarrow> internal f \<Longrightarrow> f (snd (kernel_emit (process_event e) s ev k)) = f k"
  by (simp add: kernel_emit_def process_event_quiet quiet_with_source process_emitted_internal)

lemma serve_external_internal:
  assumes "source_val ev \<noteq> PStr ''system''" and "internal f"
  shows "f (snd (serve_kernel_device e d ev k)) = f k"
proof -
  let ?m = "if d = ''authority'' then on_authority (respond ev) else on_journal (journal_respond ev)"
  obtain r k1 where r: "?m k = (r, k1)" by (cases "?m k")
  have k1: "f k1 = f k"
  proof (cases "d = ''authority''")
    case True
    then have "k1 = k" using r respond_external [OF assms(1), of "auth k"] by (auto simp: on_authority_def split: prod.splits)
    then show ?thesis by simp
  next
    case False
    then show ?thesis using r assms(2) by (auto simp: on_journal_def internal_def split: prod.splits)
  qed
  have q: "quiet v" if "r = Inr v" "v \<noteq> VOID" for v
    using r that respond_external_quiet [OF assms(1), of "auth k" v] journal_respond_VOID [of ev "journal k" v]
    by (auto simp: on_authority_def on_journal_def split: prod.splits if_splits)
  have "f (snd (bind (lift (py_get ev ''receipt'')) (\<lambda>w. if truthy w
      then bind (lift (receipt_event ev)) (kernel_emit (process_event e) d) else ret ()) k1)) = f k1"
    by (auto simp: bind_def lift_def ret_def emit_quiet_internal [OF receipt_quiet assms(2)] split: sum.splits)
  then show ?thesis
    using r k1 emit_quiet_internal [OF q assms(2)] by (cases r) (auto simp: serve_kernel_device_def bind_def)
qed

lemma serve_each_internal:
  assumes "\<forall>(d, ev) \<in> set q. source_val ev \<noteq> PStr ''system''" and "internal f"
  shows "f (serve_each e q k) = f k"
  using assms(1) unfolding serve_each_def
  by (induction q arbitrary: k) (auto simp: serve_external_internal [OF _ assms(2)])

lemma unprivileged_served:
  assumes "item_key ev ''source'' = Inr s" and "s \<noteq> ''system''"
    and "\<And>i. \<not> may_maintain (auth k) s i" and "\<not> authorized (auth k) s ''grant''"
    and "process_event e ev k = (r, k1)" and "internal f"
  shows "f (serve_each e (drop (length (kqueue k)) (kqueue k1)) k1) = f k"
proof -
  have src: "source_val ev = PStr s" using assms(1)
    by (cases ev) (auto simp: item_key_def source_val_def rbind_Inr split: option.splits elim: py_key.elims)
  let ?S = "{PStr KERNEL_IDENTITY, PStr ''authority'', PStr s}"
  have "speaks ?S k k1" using saysD [OF says_process_event, of ?S ev k e] src assms(5) by simp
  then have "\<forall>(d, ev) \<in> set (drop (length (kqueue k)) (kqueue k1)). source_val ev \<noteq> PStr ''system''"
    using speaks_queued [of ?S k k1] assms(2) by (fastforce simp: KERNEL_IDENTITY_def)
  from serve_each_internal [OF this assms(6), of e k1] show ?thesis
    using unprivileged_internal [OF assms(1,3,4,6), of e] assms(5) by simp
qed

text \<open>
  C4. Monotone bootstrapping: an event from a source that may neither maintain a device nor grant
  scopes, and is not registered as "system", changes nothing of the organisation, neither when the kernel processes it
  nor when the in-process devices serve what it put into their queues: the Authority's whole
  state, the identities in the kernel's table, the set of agents and the set of terminated processes stay as
  they were, whatever the event says and whoever it addresses.
\<close>

theorem unprivileged_event_changes_nothing:
  assumes "item_key ev ''source'' = Inr s" and "s \<noteq> ''system''"
    and "\<And>i. \<not> may_maintain (auth k) s i" and "\<not> authorized (auth k) s ''grant''"
    and "process_event e ev k = (r, k1)" and "serve_each e (drop (length (kqueue k)) (kqueue k1)) k1 = k'"
  shows "auth k' = auth k \<and> etable k' = etable k \<and> agent_ids k' = agent_ids k \<and> killed k' = killed k"
  using unprivileged_served [OF assms(1-5) internal_views(1)] unprivileged_served [OF assms(1-5) internal_views(2)]
    unprivileged_served [OF assms(1-5) internal_views(3)] unprivileged_served [OF assms(1-5) internal_etable] assms(6)
  by simp

end
