(* ===== verification/KernelInv.thy ===== *)
theory KernelInv
  imports KernelProps
begin

text \<open>
  The invariant of the kernel's state, its preservation by every event and by the in-process
  devices, and what a successful install, uninstall, scope change or maintenance session leaves
  behind.
\<close>

section \<open>The invariant\<close>

definition kernel_mode :: "(string, entity) dict \<Rightarrow> bool" where
  "kernel_mode ents \<longleftrightarrow> (\<forall>i. (dget ents i = Some EKernel \<longleftrightarrow> i = KERNEL_IDENTITY)
     \<and> (dget ents i = Some EKernelDevice \<longleftrightarrow> i = ''authority'' \<or> i = ''journal''))"

definition started :: "(string, entity) dict \<Rightarrow> (string, info) dict \<Rightarrow> bool" where
  "started ents ids \<longleftrightarrow> (\<forall>i h. dget ents i = Some (EHandle h) \<longrightarrow>
     h_process h \<noteq> None \<and> dget ids i \<noteq> None)"

definition is_agent :: "authority \<Rightarrow> string \<Rightarrow> bool" where
  "is_agent a i \<longleftrightarrow> (\<exists>x. dget (identities a) i = Some x \<and> i_agent x)"

text \<open>
  The in-process identities are exactly kernel, authority and journal; every other entity has a
  started process and a registration; what the kernel takes for an agent is one in the Authority,
  and the agents \<open>A\<close> known at some earlier moment still are.
\<close>

definition kinv :: "string set \<Rightarrow> kernel \<Rightarrow> bool" where
  "kinv A k \<longleftrightarrow> authority_wf (auth k) \<and> dwf (entities k) \<and> kernel_mode (entities k)
     \<and> started (entities k) (identities (auth k))
     \<and> (\<forall>i \<in> A \<union> set (agent_ids k). is_agent (auth k) i)"

lemma kinv_mono: "kinv A k \<Longrightarrow> B \<subseteq> A \<Longrightarrow> kinv B k"
  by (auto simp: kinv_def)

lemma kinv_modes:
  assumes "kinv A k"
  shows "dget (entities k) i = Some EKernel \<longleftrightarrow> i = KERNEL_IDENTITY"
    and "dget (entities k) i = Some EKernelDevice \<longleftrightarrow> i = ''authority'' \<or> i = ''journal''"
  using assms by (simp_all add: kinv_def kernel_mode_def)

lemma kinv_update [simp]:
  "kinv A (k\<lparr>homes := x\<rparr>) = kinv A k" "kinv A (k\<lparr>sent := s\<rparr>) = kinv A k"
  "kinv A (k\<lparr>kqueue := q\<rparr>) = kinv A k" "kinv A (k\<lparr>journal := j\<rparr>) = kinv A k"
  "kinv A (k\<lparr>killed := x\<rparr>) = kinv A k" "kinv A (k\<lparr>dead := x\<rparr>) = kinv A k"
  by (simp_all add: kinv_def)

lemma set_agents: "dwf (identities a) \<Longrightarrow> i \<in> set (agents a) \<longleftrightarrow> is_agent a i"
  by (force simp: agents_def is_agent_def dwf_def)

lemma kinv_agents: "kinv A k \<Longrightarrow> i \<in> set (agents (auth k)) \<longleftrightarrow> is_agent (auth k) i"
  by (rule set_agents) (simp add: kinv_def authority_wf_def)

lemma kinv_auth:
  assumes "kinv A k" and "authority_wf a" and "identities a = identities (auth k)"
  shows "kinv A (k\<lparr>auth := a\<rparr>)"
  using assms by (auto simp: kinv_def is_agent_def)

text \<open>What is written to the channel of a process that may have died.\<close>

definition written :: "kernel \<Rightarrow> string \<Rightarrow> pyval \<Rightarrow> (string \<times> pyval) list" where
  "written k t ev = (if t \<in> set (dead k) then [] else [(t, ev)])"

lemma send_run: "send t ev k = (Inr (), k\<lparr>sent := sent k @ written k t ev\<rparr>)"
  by (simp add: send_def modify_def written_def)

lemma deliver_started:
  "h_process h \<noteq> None \<Longrightarrow> deliver e t h ev k = (Inr (), k\<lparr>sent := sent k @ written k t ev\<rparr>)"
  by (auto simp: deliver_def ensure_process_def send_run sx_defs)

lemma kinv_handle: "kinv A k \<Longrightarrow> dget (entities k) i = Some (EHandle h) \<Longrightarrow> h_process h \<noteq> None"
  by (auto simp: kinv_def started_def)

text \<open>Under the invariant routing cannot raise, and only appends to a channel or a queue.\<close>

lemma route_cases:
  assumes "kinv A k" and "item_key ev ''target'' = Inr t"
  shows "route e ev k =
     (Inr (), case dget (entities k) t of
        Some (EHandle h) \<Rightarrow> k\<lparr>sent := sent k @ written k t ev\<rparr>
      | Some EKernelDevice \<Rightarrow> k\<lparr>kqueue := kqueue k @ [(t, ev)]\<rparr>
      | _ \<Rightarrow> k)"
  using kinv_handle [OF assms(1)] assms(2)
  by (auto simp: route_def deliver_started sx_defs split: option.splits entity.splits)

lemma kinv_route: "ensures (kinv A) (route e ev)"
proof (cases "item_key ev ''target''")
  case (Inl x)
  then show ?thesis by (simp add: route_def ensures_def)
next
  case (Inr t)
  then show ?thesis
    by (simp add: route_cases ensures_def split: option.splits entity.splits)
qed

lemma ensures_process_with:
  assumes "ensures P (onk ev)" and "\<And>ev out m. ensures P (record_event ev out m)"
    and "\<And>ev. ensures P (route e ev)"
  shows "ensures P (process_with e onk ev)"
proof -
  have en: "ensures P (enrich ev)"
    by (rule keeps_ensures [of "\<lambda>k. k", simplified]) (rule keeps_enrich)
  have *: "ensures P (case r of Inl (EventError m) \<Rightarrow> record_event ev ''dropped'' (PStr m)
     | Inl x \<Rightarrow> throw x
     | Inr (_ :: pyval) \<Rightarrow> bind (lift (item_key ev ''target'')) (\<lambda>target.
         if target = KERNEL_IDENTITY then andthen (record_event ev ''routed'' PNone) (onk ev)
         else bind (enrich ev) (\<lambda>ev'.
           andthen (record_event ev' ''routed'' PNone) (route e ev'))))" for r
    using assms en
    by (cases r rule: sum.exhaust) (auto intro!: ensures_bind ensures_andthen ensures_if
        ensures_lift ensures_throw split: exc.splits)
  show ?thesis
    unfolding process_with_def by (intro ensures_bind ensures_asks *)
qed

lemma kinv_record: "ensures (kinv A) (record_event ev out m)"
  unfolding ensures_def using record_event_state by (metis kinv_update(4) snd_conv)

lemma kinv_on_kernel_unknown: "ensures P (on_kernel_unknown ev)"
  by (rule keeps_ensures [of "\<lambda>k. k", simplified]) (rule keeps_on_kernel_unknown)

lemma kinv_emitted: "ensures (kinv A) (process_emitted e ev)"
  unfolding process_emitted_def
  by (intro ensures_process_with kinv_on_kernel_unknown kinv_record kinv_route)

lemma kinv_emit: "ensures (kinv A) (kernel_emit (process_emitted e) s ev)"
  by (simp add: kernel_emit_def kinv_emitted)

text \<open>Building an injection changes only the table of injected entries.\<close>

lemma build_inject_state: "\<exists>x. snd (build_inject agent a) = a\<lparr>injected := x\<rparr>"
  by (auto simp: build_inject_def sx_defs split: option.splits sum.splits) (metis authority.surjective authority.update_convs(3))+

lemma keeps_ask_inject [keeps_intros]:
  assumes "\<And>k x. f (k\<lparr>auth := auth k\<lparr>injected := x\<rparr>\<rparr>) = f k"
  shows "keeps f (ask [(''command'', PStr ''inject_request''), (''agent'', v)])"
  unfolding keeps_def
proof
  fix k
  show "f (snd (ask [(''command'', PStr ''inject_request''), (''agent'', v)] k)) = f k"
  proof (cases v)
    case (PStr agent)
    then show ?thesis
      using build_inject_state [of agent "auth k"] assms
      by (auto simp: ask_defs inject_request_def bind_def lift_def split_beta)
  qed (simp_all add: ask_defs inject_request_def bind_def lift_def)
qed

lemma wf_ask: "ensures (\<lambda>k. authority_wf (auth k)) (ask payload)"
  using respond_wf by (auto simp: ensures_def ask_def on_authority_def split_beta)

lemma kinv_ask_inject: "ensures (kinv A) (ask [(''command'', PStr ''inject_request''), (''agent'', v)])"
proof -
  have "keeps (\<lambda>k. (identities (auth k), entities k, agent_ids k))
      (ask [(''command'', PStr ''inject_request''), (''agent'', v)])"
    by (intro keeps_intros) simp
  then show ?thesis
    using wf_ask [of "[(''command'', PStr ''inject_request''), (''agent'', v)]"]
    by (simp add: ensures_def keeps_def kinv_def is_agent_def)
qed

lemma kinv_inject: "ensures (kinv A) (inject (process_emitted e) agent)"
  unfolding inject_def by (intro ensures_bind kinv_ask_inject ensures_if kinv_emit ensures_ret)

lemma kinv_injects: "ensures (kinv A) (each (inject (process_emitted e)) ags)"
  by (intro ensures_each kinv_inject)

section \<open>Every event preserves the invariant\<close>

lemma wp_ensures: "ensures P m \<Longrightarrow> P s \<Longrightarrow> (\<And>s. P s \<Longrightarrow> Q' s) \<Longrightarrow> wp m (\<lambda>_. Q') (\<lambda>_. Q') s"
  by (auto simp: ensures_def wp_post)

lemma identities_grants [simp]:
  "identities (add_grant p d t a) = identities a" "identities (setdefault_grants p a) = identities a"
  "identities (discard_grant p d t a) = identities a"
  by (simp_all add: add_grant_def setdefault_grants_def discard_grant_def Let_def split: option.splits)

lemma kinv_add_grant: "kinv A k \<Longrightarrow> kinv A (k\<lparr>auth := add_grant p d t (setdefault_grants p (auth k))\<rparr>)"
  by (rule kinv_auth) (simp_all add: kinv_def wf_add_grant wf_setdefault)

lemma kinv_discard_grant: "kinv A k \<Longrightarrow> kinv A (k\<lparr>auth := discard_grant p d t (auth k)\<rparr>)"
  by (rule kinv_auth) (simp_all add: kinv_def wf_discard_grant)

lemma kinv_grant: "ensures (kinv A) (grant p d t)"
  by (simp add: ensures_def kinv_add_grant)

lemma kinv_wire: "ensures (kinv A) (wire i ps ts)"
  unfolding wire_def by (intro ensures_each kinv_grant)

lemma makedirs_state: "\<exists>hs. makedirs i k = (Inr (), k\<lparr>homes := hs\<rparr>)"
  by (auto simp: makedirs_def modify_def) (rule exI [of _ "homes k"], simp)

lemma kinv_makedirs: "ensures (kinv A) (makedirs i)"
  by (simp add: makedirs_def ensures_def modify_def)

text \<open>Removing the entry of a device, and its registration afterwards.\<close>

lemma kernel_mode_upd:
  assumes "kernel_mode ents" and "dget ents i \<noteq> Some EKernel" and "dget ents i \<noteq> Some EKernelDevice"
  shows "kernel_mode (dpop i ents)" and "kernel_mode (dset i (EHandle h) ents)"
proof -
  have "i \<noteq> KERNEL_IDENTITY" "i \<noteq> ''authority''" "i \<noteq> ''journal''"
    using assms unfolding kernel_mode_def by metis+
  then show "kernel_mode (dpop i ents)" "kernel_mode (dset i (EHandle h) ents)"
    using assms unfolding kernel_mode_def by simp_all
qed

lemma kinv_del:
  assumes "kinv A k" and "dget (entities k) i = Some (EHandle h)"
  shows "kinv A (k\<lparr>entities := dpop i (entities k)\<rparr>)"
  using assms kernel_mode_upd(1) [of "entities k" i]
  by (simp add: kinv_def dwf_dpop started_def)

lemma kinv_take_down:
  assumes "kinv A k" and "dget (entities k) i = Some (EHandle h)"
  shows "wp (take_down i h) (\<lambda>_ k'. kinv A k' \<and> dget (entities k') i = None
            \<and> identities (auth k') = identities (auth k)) E k"
  using kinv_del [OF assms]
  by (simp add: take_down_def del_entity_def terminate_def send_def wp_simps split: option.splits)

lemma is_agent_drop: "is_agent (drop_device i a) j \<longleftrightarrow> is_agent a j \<and> j \<noteq> i"
  by (auto simp: is_agent_def drop_device_def)

lemma identities_drop [simp]: "identities (drop_device i a) = dpop i (identities a)"
  by (simp add: drop_device_def)

lemma kinv_drop:
  assumes "kinv A k" and "dget (entities k) i = None" and "\<not> is_agent (auth k) i"
  shows "kinv A (k\<lparr>auth := drop_device i (auth k)\<rparr>)"
  using assms by (auto simp: kinv_def wf_drop_device started_def is_agent_drop)

text \<open>
  Registration: refused outright, registered in the Authority but not started, or registered with
  a started process.
\<close>

lemma spawn_state: "\<exists>r hs. spawn e i spec k = (r, k\<lparr>homes := hs\<rparr>)"
proof -
  have "\<exists>hs. k = k\<lparr>homes := hs\<rparr>" by (rule exI [of _ "homes k"]) simp
  moreover have "\<exists>hs. snd (makedirs i k) = k\<lparr>homes := hs\<rparr>"
    by (auto simp: makedirs_def modify_def) (rule exI [of _ "homes k"], simp)
  ultimately show ?thesis
    by (auto simp: spawn_def sx_defs makedirs_def split: sum.splits option.splits)
qed

definition registered :: "string \<Rightarrow> pyval list \<Rightarrow> pyval list \<Rightarrow> bool \<Rightarrow> pyval \<Rightarrow> authority \<Rightarrow> authority" where
  "registered i tools scopes agent position a = a\<lparr>identities := dset i \<lparr>i_tools = PList tools,
     i_scopes = PList scopes, i_agent = agent, i_position = position\<rparr> (identities a)\<rparr>"

lemma register_cases:
  obtains (refused) x where "register e i spec tools agent False position scopes k = (Inl x, k)"
  | (unstarted) x hs where "register e i spec tools agent False position scopes k
        = (Inl x, k\<lparr>auth := registered i tools scopes agent position (auth k), homes := hs\<rparr>)"
  | (started) p hs where "register e i spec tools agent False position scopes k
        = (Inr (), k\<lparr>auth := registered i tools scopes agent position (auth k), homes := hs, dead := removeAll i (dead k),
             entities := dset i (EHandle \<lparr>h_spec = spec, h_process = Some p\<rparr>) (entities k),
             agent_ids := (if agent \<and> i \<notin> set (agent_ids k) then agent_ids k @ [i] else agent_ids k)\<rparr>)"
proof -
  let ?k = "k\<lparr>auth := registered i tools scopes agent position (auth k)\<rparr>"
  obtain r hs where sp: "spawn e i spec ?k = (r, ?k\<lparr>homes := hs\<rparr>)" using spawn_state by blast
  show ?thesis
  proof (cases "(agent \<and> \<not> truthy position) \<or> illegal_name i")
    case True
    then have "\<exists>x. register e i spec tools agent False position scopes k = (Inl x, k)"
      by (cases "agent \<and> \<not> truthy position") (auto simp: register_def)
    then show ?thesis using refused by blast
  next
    case False
    note run = register_def new_handle_def ensure_process_def Let_def sx_defs set_entity_def
    show ?thesis
    proof (cases r)
      case (Inl x)
      then show ?thesis using False sp
        by (intro unstarted) (auto simp: run registered_def)
    next
      case (Inr p)
      then show ?thesis using False sp
        by (intro started) (auto simp: run registered_def)
    qed
  qed
qed

lemma kinv_registered:
  assumes "kinv A k" and "agent \<or> \<not> is_agent (auth k) i"
  shows "kinv A (k\<lparr>auth := registered i tools scopes agent position (auth k)\<rparr>)"
  using assms by (auto simp: registered_def kinv_def wf_identities started_def is_agent_def)

lemma kinv_set_entity:
  assumes "kinv A k" and "dget (entities k) i \<noteq> Some EKernel" "dget (entities k) i \<noteq> Some EKernelDevice"
    and "dget (identities (auth k)) i \<noteq> None" and "h_process h \<noteq> None"
  shows "kinv A (k\<lparr>entities := dset i (EHandle h) (entities k)\<rparr>)"
  using assms kernel_mode_upd(2) [OF _ assms(2,3), of h]
  by (auto simp: kinv_def dwf_dset started_def is_agent_def)

lemma kinv_register:
  assumes k: "kinv A k" and ag: "agent \<or> \<not> is_agent (auth k) i"
    and km: "dget (entities k) i \<noteq> Some EKernel" "dget (entities k) i \<noteq> Some EKernelDevice"
  shows "kinv A (snd (register e i spec tools agent False position scopes k))"
proof (cases rule: register_cases [of e i spec tools agent position scopes k])
  case (refused x)
  then show ?thesis using k by simp
next
  case (unstarted x hs)
  then show ?thesis using kinv_registered [OF k ag] by simp
next
  case (started p hs)
  let ?k = "k\<lparr>auth := registered i tools scopes agent position (auth k), homes := hs, dead := removeAll i (dead k),
    entities := dset i (EHandle \<lparr>h_spec = spec, h_process = Some p\<rparr>) (entities k)\<rparr>"
  have "kinv A ?k"
    using kinv_set_entity [of A "k\<lparr>auth := registered i tools scopes agent position (auth k), homes := hs, dead := removeAll i (dead k)\<rparr>" i
        "\<lparr>h_spec = spec, h_process = Some p\<rparr>"] kinv_registered [OF k ag] km
    by (simp add: registered_def)
  moreover have "agent \<Longrightarrow> is_agent (auth ?k) i" by (simp add: is_agent_def registered_def)
  ultimately show ?thesis using started by (auto simp: kinv_def)
qed

section \<open>The handlers\<close>

lemma wp_authorize [wp_simps]:
  "wp (authorize i s) Q E k = (if askable (auth k) i then Q (PBool (authorized (auth k) i s)) k else E TypeError k)"
  by (simp add: wp_def)

lemma wp_auth_context [wp_simps]: "wp (auth_context_of i) Q E k = Q (auth_context (auth k) i) k"
  by (simp add: wp_def)

lemma wp_agents_of [wp_simps]: "wp agents_of Q E k = Q (map PStr (agents (auth k))) k"
  by (simp add: wp_def)

lemma wp_authorize_device [wp_simps]:
  "wp (authorize_device a d) Q E k =
     (if a = KERNEL_IDENTITY \<or> askable (auth k) a then Q (may_maintain (auth k) a d) k else E TypeError k)"
  by (simp add: wp_def)

lemma wp_grant [wp_simps]:
  "wp (grant p d t) Q E k = Q () (k\<lparr>auth := add_grant p d t (setdefault_grants p (auth k))\<rparr>)"
  by (simp add: wp_def)

lemma wp_unregister [wp_simps]: "wp (unregister i) Q E k = Q () (k\<lparr>auth := drop_device i (auth k)\<rparr>)"
  by (simp add: wp_def)

lemma wp_refuse_kernel_mode [wp_simps]:
  "wp (refuse_kernel_mode i) Q E k = (if dget (entities k) i \<noteq> Some EKernel \<and> dget (entities k) i \<noteq> Some EKernelDevice
     then Q () k else E (ValueError ''kernel-mode identity'') k)"
  by (simp add: refuse_kernel_mode_def wp_simps)

lemma wp_case_entity [wp_simps]:
  "wp (case x of EKernel \<Rightarrow> m | EKernelDevice \<Rightarrow> n | EHandle h \<Rightarrow> g h) Q E s
    = (case x of EKernel \<Rightarrow> wp m Q E s | EKernelDevice \<Rightarrow> wp n Q E s | EHandle h \<Rightarrow> wp (g h) Q E s)"
  by (cases x) auto

text \<open>From the moment the old instance is gone, an install only registers, wires and injects.\<close>

lemma kinv_ensures_wp: "ensures (kinv A) m \<Longrightarrow> kinv A k \<Longrightarrow> wp m (\<lambda>_. kinv A) (\<lambda>_. kinv A) k"
  by (simp add: ensures_def wp_post)

lemma kinv_install_new:
  assumes k: "kinv A k" and ag: "\<not> is_agent (auth k) i"
    and km: "dget (entities k) i \<noteq> Some EKernel" "dget (entities k) i \<noteq> Some EKernelDevice"
  shows "wp (install_new e (process_emitted e) payload i positions ags path tools scopes)
     (\<lambda>_. kinv A) (\<lambda>_. kinv A) k"
proof -
  have rest: "ensures (kinv A) (bind (lift (defaults scopes)) (\<lambda>tokens. andthen (wire i positions tokens)
      (each (inject (process_emitted e)) ags)))"
    by (intro ensures_bind ensures_lift ensures_andthen kinv_wire kinv_injects)
  have "wp (andthen (register e i spec tools False False PNone scopes) (bind (lift (defaults scopes))
      (\<lambda>tokens. andthen (wire i positions tokens) (each (inject (process_emitted e)) ags))))
     (\<lambda>_. kinv A) (\<lambda>_. kinv A) k" for spec
    unfolding wp_andthen [of "register e i spec tools False False PNone scopes"]
  proof (rule wp_mono)
    show "wp (register e i spec tools False False PNone scopes) (\<lambda>_. kinv A) (\<lambda>_. kinv A) k"
      using kinv_register [OF k _ km, of False e spec tools PNone scopes] ag by (simp add: wp_post)
  qed (use kinv_ensures_wp [OF rest] in auto)
  then show ?thesis using k by (simp add: install_new_def wp_bind wp_lift split: sum.splits)
qed

text \<open>The checks before an effect look at the state and change nothing.\<close>

lemma pure_checks:
  "keeps f (check_identity v m)" "keeps f (check_grants v)" "keeps f (source_of ev)"
  "keeps f (authorize_device i d)" "keeps f agents_of" "keeps f (refuse_kernel_mode i)"
  "keeps f (auth_context_of i)" "keeps f (authorize i s)"
proof -
  show "keeps f (check_identity v m)"
    by (cases v) (simp_all add: check_identity_def keeps_intros)
  show "keeps f (check_grants v)"
    by (cases v) (simp_all add: check_grants_def keeps_intros)
qed (simp_all add: keeps_def source_of_def lift_def refuse_kernel_mode_def guard_def ret_def throw_def)

lemmas pure_intros = pure_checks keeps_lift keeps_guard keeps_asks keeps_bind keeps_if keeps_ret

lemma wp_pure_bind:
  assumes "keeps (\<lambda>k. k) m" and "\<And>e. E e k" and "\<And>x. m k = (Inr x, k) \<Longrightarrow> wp (f x) Q E k"
  shows "wp (bind m f) Q E k"
proof -
  obtain r k' where r: "m k = (r, k')" by (cases "m k")
  then have "k' = k" using keepsD [OF assms(1), of k] by simp
  then show ?thesis using r assms(2,3) by (cases r) (auto simp: wp_def bind_def)
qed

lemma wp_pure_andthen:
  "keeps (\<lambda>k. k) m \<Longrightarrow> (\<And>e. E e k) \<Longrightarrow> (m k = (Inr (), k) \<Longrightarrow> wp n Q E k) \<Longrightarrow> wp (andthen m n) Q E k"
  unfolding andthen_def by (rule wp_pure_bind) auto

lemmas wp_pure = wp_pure_bind wp_pure_andthen

lemma refuse_kernel_mode_Inr [simp]:
  "refuse_kernel_mode i k = (Inr u, k') \<longleftrightarrow>
     k' = k \<and> dget (entities k) i \<noteq> Some EKernel \<and> dget (entities k) i \<noteq> Some EKernelDevice"
  by (auto simp: refuse_kernel_mode_def)

text \<open>Dropping the running instance of a device together with its registration.\<close>

lemma kinv_take_down_unregister:
  assumes "kinv A k" and "dget (entities k) i = Some (EHandle h)" and "\<not> is_agent (auth k) i"
  shows "wp (andthen (take_down i h) (unregister i))
     (\<lambda>_ k'. kinv A k' \<and> dget (entities k') i = None \<and> \<not> is_agent (auth k') i) E k"
  unfolding wp_andthen wp_unregister
  by (rule wp_mono [OF kinv_take_down [OF assms(1,2)]])
    (use assms(3) in \<open>auto simp: kinv_drop is_agent_drop is_agent_def\<close>)

lemma kinv_install_loaded:
  assumes k: "kinv A k" and ag: "\<not> is_agent (auth k) i"
  shows "wp (install_loaded e (process_emitted e) payload i positions ags path tools scopes)
     (\<lambda>_. kinv A) (\<lambda>_. kinv A) k"
proof -
  obtain hs where hs: "makedirs i k = (Inr (), k\<lparr>homes := hs\<rparr>)" using makedirs_state by blast
  let ?k = "k\<lparr>homes := hs\<rparr>"
  have k': "kinv A ?k" "\<not> is_agent (auth ?k) i" using k ag by simp_all
  have "wp (andthen (case dget (entities ?k) i of
          Some (EHandle h) \<Rightarrow> andthen (take_down i h) (unregister i)
        | _ \<Rightarrow> ret ())
        (install_new e (process_emitted e) payload i positions ags path tools scopes))
       (\<lambda>_. kinv A) (\<lambda>_. kinv A) ?k"
    if km: "dget (entities ?k) i \<noteq> Some EKernel" "dget (entities ?k) i \<noteq> Some EKernelDevice"
  proof (cases "dget (entities ?k) i")
    case None
    then show ?thesis using kinv_install_new [OF k' km] by (simp add: wp_simps)
  next
    case (Some x)
    then obtain h where h: "dget (entities ?k) i = Some (EHandle h)" using km by (cases x) auto
    show ?thesis unfolding h option.case entity.case wp_andthen [of "andthen (take_down i h) (unregister i)"]
      by (rule wp_mono [OF kinv_take_down_unregister [OF k'(1) h k'(2)]])
        (auto intro: kinv_install_new)
  qed
  then show ?thesis
    unfolding install_loaded_def wp_andthen [of "makedirs i"] wp_run(1) [of "makedirs i" k "()" "k\<lparr>homes := hs\<rparr>", OF hs]
    using k' by (simp add: wp_andthen [of "refuse_kernel_mode i"] wp_refuse_kernel_mode
        wp_bind [of "asks f" for f] wp_asks)
qed

lemma kinv_install_body: "ensures (kinv A) (install_body e (process_emitted e) ev payload)"
  unfolding ensures_def wp_post [symmetric] install_body_def
proof (intro allI impI wp_pure pure_intros; (assumption)?, goal_cases)
  case (1 k _ i _ _ _ _ ags _ m)
  then have "\<not> is_agent (auth k) i" by (auto simp: kinv_agents)
  with 1 show ?case by (simp add: wp_prod kinv_install_loaded)
qed

lemma kinv_keep_maintain: "ensures (kinv A) (keep_maintain i gs)"
  unfolding keep_maintain_def
  by (intro ensures_each ensures_bind ensures_lift ensures_if kinv_grant ensures_ret)

lemma kinv_uninstall_running:
  assumes k: "kinv A k" and ag: "\<not> is_agent (auth k) i" and h: "dget (entities k) i = Some (EHandle h)"
  shows "wp (uninstall_running (process_emitted e) i ags h) (\<lambda>_. kinv A) (\<lambda>_. kinv A) k"
proof -
  have rest: "ensures (kinv A) (bind (lift (py_item r ''payload'')) (\<lambda>p.
       bind (lift (py_item p ''grants'')) (\<lambda>l.
       bind (lift (py_list l)) (\<lambda>gs.
       andthen (keep_maintain i gs) (each (inject (process_emitted e)) ags)))))" for r
    by (intro ensures_bind ensures_lift ensures_andthen kinv_keep_maintain kinv_injects)
  have ask: "wp (ask [(''command'', PStr ''device_grants_request''), (''identity'', PStr i)]) Q E k
     = Q (fst (projr (fst (ask [(''command'', PStr ''device_grants_request''), (''identity'', PStr i)] k)), ())) k" for Q E k
    by (simp add: wp_def)
  show ?thesis
    unfolding uninstall_running_def wp_andthen [of "take_down i h"]
    by (rule wp_mono [OF kinv_take_down [OF k h]])
      (use ag in \<open>auto simp: ask wp_bind [of "ask x" for x] wp_andthen [of "unregister i"] wp_unregister kinv_drop is_agent_def
        intro!: kinv_ensures_wp [OF rest]\<close>)
qed

lemma kinv_uninstall_body: "ensures (kinv A) (uninstall_body (process_emitted e) ev payload)"
  unfolding ensures_def wp_post [symmetric] uninstall_body_def
proof (intro allI impI wp_pure pure_intros; (assumption)?, goal_cases)
  case (1 k _ i _ _ ags old)
  then have "\<not> is_agent (auth k) i" by (auto simp: kinv_agents)
  with 1 show ?case
    by (auto simp: wp_throw intro: kinv_uninstall_running split: option.splits entity.splits)
qed

lemma kinv_maintenance_new:
  assumes k: "kinv A k" and h: "dget (entities k) i = Some (EHandle h)"
  shows "wp (andthen (take_down i h) (register e i spec tools True False position scopes))
     (\<lambda>_. kinv A) (\<lambda>_. kinv A) k"
  unfolding wp_andthen
  by (rule wp_mono [OF kinv_take_down [OF k h]]) (auto simp: wp_post kinv_register)

lemma kinv_maintenance_body: "ensures (kinv A) (maintenance_body e tv actor)"
  unfolding ensures_def wp_post [symmetric] maintenance_body_def
proof (intro allI impI wp_pure pure_intros; (assumption)?, goal_cases)
  case (1 k t ent)
  then show ?case
    by (auto simp: wp_throw split: option.splits entity.splits
        intro!: wp_pure pure_intros kinv_maintenance_new)
qed

lemma kinv_scope_apply:
  assumes k: "kinv A k"
  shows "wp (scope_apply (process_emitted e) g (PStr p) (PStr d) (PStr t)) (\<lambda>_. kinv A) (\<lambda>_. kinv A) k"
proof -
  have "wp (bind agents_of (each (inject (process_emitted e)))) (\<lambda>_. kinv A) (\<lambda>_. kinv A) k'"
    if "kinv A k'" for k'
    using kinv_ensures_wp [OF kinv_injects that] by (simp add: wp_simps)
  then show ?thesis
    unfolding scope_apply_def wp_bind [of "ask x" for x] wp_def [of "ask x" for x] ask_scope
    using k by (simp add: kinv_add_grant kinv_discard_grant)
qed

lemma kinv_scope_body: "ensures (kinv A) (scope_body (process_emitted e) ev g p d t)"
  unfolding ensures_def wp_post [symmetric] scope_body_def
proof (intro allI impI wp_pure pure_intros; (assumption)?, goal_cases)
  case (1 k s)
  then obtain p' d' t' where "p = PStr p'" "d = PStr d'" "t = PStr t'"
    by (auto simp: nonempty_str_iff)
  with 1 show ?case by (simp add: kinv_scope_apply)
qed

lemma kinv_acked:
  assumes "ensures (kinv A) body" and "\<And>err. ensures (kinv A) (answer err)"
  shows "ensures (kinv A) (bind (attempt body) answer)"
  unfolding attempt_def
  by (intro ensures_bind ensures_catch ensures_andthen ensures_ret assms)

lemma kinv_ack: "ensures (kinv A) (bind (ack ev c i err) (kernel_emit (process_emitted e) s))"
  unfolding ack_def by (intro ensures_bind ensures_lift ensures_ret kinv_emit)

lemma kinv_handlers:
  "ensures (kinv A) (install e (process_emitted e) ev)"
  "ensures (kinv A) (uninstall (process_emitted e) ev)"
  "ensures (kinv A) (maintenance_session e (process_emitted e) ev)"
  "ensures (kinv A) (scope (process_emitted e) ev g)"
  unfolding install_def uninstall_def maintenance_session_def scope_def source_of_def
  by (intro kinv_acked ensures_bind [of _ "lift r" for r] ensures_lift kinv_install_body
      kinv_uninstall_body kinv_maintenance_body kinv_scope_body kinv_ack kinv_emit)+

lemma kinv_on_kernel: "ensures (kinv A) (on_kernel e (process_emitted e) ev)"
  unfolding on_kernel_def by (intro ensures_bind ensures_lift ensures_if kinv_handlers ensures_ret)

lemma kinv_process_event: "ensures (kinv A) (process_event e ev)"
  unfolding process_event_def by (intro ensures_process_with kinv_on_kernel kinv_record kinv_route)

section \<open>Reachable states\<close>

lemma knot: "inject (process_event e) = inject (process_emitted e)"
  by (rule ext) (rule inject_cong, simp add: agree_def process_event_quiet)

text \<open>The in-process devices: the Authority answers nobody but the kernel, the journal only appends.\<close>

lemma kinv_serve:
  assumes "source_val ev \<noteq> PStr ''system''"
  shows "ensures (kinv A) (serve_kernel_device e d ev)"
proof -
  have "ensures (kinv A) (on_authority (respond ev))"
    using respond_external [OF assms] by (simp add: ensures_def on_authority_def split_beta)
  moreover have "ensures (kinv A) (on_journal (journal_respond ev))"
    by (simp add: ensures_def on_journal_def split_beta)
  moreover have "ensures (kinv A) (kernel_emit (process_event e) s ev')" for s ev'
    by (simp add: kernel_emit_def kinv_process_event)
  ultimately show ?thesis
    unfolding serve_kernel_device_def by (intro ensures_bind ensures_if ensures_lift ensures_ret)
qed

definition RESERVED :: "string set" where
  "RESERVED = {KERNEL_IDENTITY, ''authority'', ''journal''}"

text \<open>A configuration does not name an in-process device, nor a device after an agent.\<close>

definition config_ok :: "pyval list \<Rightarrow> pyval list \<Rightarrow> bool" where
  "config_ok as ds \<longleftrightarrow> (\<forall>s \<in> set as. \<forall>i. item_key s ''identity'' = Inr i \<longrightarrow> i \<notin> RESERVED)
     \<and> (\<forall>s \<in> set ds. \<forall>i. item_key s ''identity'' = Inr i \<longrightarrow> i \<notin> RESERVED
          \<and> (\<forall>s' \<in> set as. item_key s' ''identity'' \<noteq> Inr i))"

text \<open>
  The executions of the kernel: it starts from its configuration, processes any event at all, lets its
  in-process devices serve what was queued for them, in any interleaving, and its processes may die.  The sources of
  devices and the outcome of starting a process may change from step to step.  The states passed are kept.
\<close>

inductive execution :: "pyval list \<Rightarrow> pyval list \<Rightarrow> kernel list \<Rightarrow> kernel \<Rightarrow> bool" for as ds where
  boot: "setup_all e as ds (init_kernel rt dirs) = (Inr (), k) \<Longrightarrow> execution as ds [] k"
| event: "execution as ds past k \<Longrightarrow> process_event e ev k = (r, k') \<Longrightarrow> execution as ds (past @ [k]) k'"
| serve: "execution as ds past k \<Longrightarrow> d \<in> {''authority'', ''journal''} \<Longrightarrow> (d, ev) \<in> set (kqueue k) \<Longrightarrow> serve_kernel_device e d ev k = (r, k')
    \<Longrightarrow> execution as ds (past @ [k]) k'"
| dies: "execution as ds past k \<Longrightarrow> execution as ds (past @ [k]) (k\<lparr>dead := i # dead k\<rparr>)"

text \<open>
  The kernel trusts the source "system", which it uses for its own requests to the Authority, but lets a
  process be registered under that name; the theorems are about executions in which none is.
\<close>

definition no_system :: "kernel \<Rightarrow> bool" where
  "no_system k \<longleftrightarrow> dget (entities k) ''system'' = None"

definition reachable :: "kernel \<Rightarrow> bool" where
  "reachable k \<longleftrightarrow> (\<exists>as ds past. config_ok as ds \<and> execution as ds past k \<and> list_all no_system (past @ [k]))"

lemma kinv_init: "kinv {} (init_kernel rt dirs)"
  by (auto simp: kinv_def init_kernel_def init_authority_def authority_wf_def dwf_def kernel_mode_def
      started_def KERNEL_IDENTITY_def)

lemma kernel_mode_reserved:
  "kernel_mode ents \<Longrightarrow> i \<notin> RESERVED \<Longrightarrow> dget ents i \<noteq> Some EKernel \<and> dget ents i \<noteq> Some EKernelDevice"
  by (auto simp: kernel_mode_def RESERVED_def)

text \<open>During start-up the agents are among those of the configuration.\<close>

definition booting :: "string set \<Rightarrow> kernel \<Rightarrow> bool" where
  "booting N k \<longleftrightarrow> kinv {} k \<and> (\<forall>i. is_agent (auth k) i \<longrightarrow> i \<in> N)"

lemma booting_update [simp]: "booting N (k\<lparr>homes := x\<rparr>) = booting N k"
  by (simp add: booting_def)

lemma is_agent_registered:
  "is_agent (registered i ts ss ag p a) j \<longleftrightarrow> (if j = i then ag else is_agent a j)"
  by (auto simp: is_agent_def registered_def)

lemma booting_register:
  assumes "i \<notin> RESERVED" and "agent \<longleftrightarrow> i \<in> N"
  shows "ensures (booting N) (register e i spec tools agent False position scopes)"
  unfolding ensures_def
proof (intro allI impI)
  fix k assume k: "booting N k"
  then have km: "dget (entities k) i \<noteq> Some EKernel" "dget (entities k) i \<noteq> Some EKernelDevice"
    using kernel_mode_reserved [OF _ assms(1)] by (auto simp: booting_def kinv_def)
  have "kinv {} (snd (register e i spec tools agent False position scopes k))"
    using k assms km by (intro kinv_register) (auto simp: booting_def)
  moreover have "is_agent (auth (snd (register e i spec tools agent False position scopes k))) j \<longrightarrow> j \<in> N" for j
    using k assms(2)
    by (cases rule: register_cases [of e i spec tools agent position scopes k])
      (auto simp: booting_def is_agent_registered split: if_splits)
  ultimately show "booting N (snd (register e i spec tools agent False position scopes k))"
    by (simp add: booting_def)
qed

lemma bind_lift_fun: "bind (lift (Inr x)) g = g x"
  by (rule ext) simp

lemma ensures_case_prod: "(\<And>x y. ensures P (f x y)) \<Longrightarrow> ensures P (case p of (x, y) \<Rightarrow> f x y)"
  by (simp split: prod.splits)

lemma ensures_each_in: "(\<And>x. x \<in> set xs \<Longrightarrow> ensures P (g x)) \<Longrightarrow> ensures P (each g xs)"
  by (induction xs) (auto intro: ensures_intros)

lemma booting_keep:
  "ensures (kinv {}) m \<Longrightarrow> keeps (\<lambda>k. identities (auth k)) m \<Longrightarrow> ensures (booting N) m"
  by (simp add: ensures_def keeps_def booting_def is_agent_def)

lemma keeps_identities_grant: "keeps (\<lambda>k. identities (auth k)) (grant p d t)"
  by (simp add: keeps_def)

lemma keeps_identities_inject: "keeps (\<lambda>k. identities (auth k)) (inject (process_emitted e) v)"
  unfolding inject_def kernel_emit_def
  by (intro keeps_bind keeps_ask_inject keeps_if keeps_process_emitted keeps_ret) simp_all

lemma booting_setup_agent:
  assumes "\<And>i. item_key spec ''identity'' = Inr i \<Longrightarrow> i \<notin> RESERVED \<and> i \<in> N"
  shows "ensures (booting N) (setup_agent e spec)"
proof (cases "item_key spec ''identity''")
  case (Inl x)
  then show ?thesis by (simp add: setup_agent_def ensures_def)
next
  case (Inr i)
  have "ensures (booting N) (makedirs i)"
    by (simp add: makedirs_def ensures_def modify_def)
  moreover have "ensures (booting N) (register e i spec tools True False position scopes)"
    for spec tools position scopes
    using assms [OF Inr] by (intro booting_register) auto
  ultimately show ?thesis
    unfolding setup_agent_def Inr bind_lift_fun
    by (intro ensures_bind ensures_lift ensures_andthen ensures_guard)
qed

lemma booting_setup_device:
  assumes "\<And>i. item_key spec ''identity'' = Inr i \<Longrightarrow> i \<notin> RESERVED \<and> i \<notin> N"
  shows "ensures (booting N) (setup_device e (process_event e) spec)"
proof (cases "item_key spec ''identity''")
  case (Inl x)
  then show ?thesis by (simp add: setup_device_def ensures_def)
next
  case (Inr i)
  have "ensures (booting N) (makedirs i)"
    by (simp add: makedirs_def ensures_def modify_def)
  moreover have "ensures (booting N) (register e i spec tools False False position scopes)"
    for spec tools position scopes
    using assms [OF Inr] by (intro booting_register) auto
  moreover have "ensures (booting N) (grant p d t)" for p d t
    by (rule booting_keep [OF kinv_grant keeps_identities_grant])
  moreover have "ensures (booting N) (inject (process_emitted e) v)" for v
    by (rule booting_keep [OF kinv_inject keeps_identities_inject])
  moreover have "ensures (booting N) agents_of"
    by (rule booting_keep) (auto simp: ensures_def keeps_def)
  ultimately show ?thesis
    unfolding setup_device_def Inr bind_lift_fun install_from_config_def knot
    by (intro ensures_bind ensures_lift ensures_andthen ensures_asks ensures_each ensures_case_prod)
qed

lemma booting_setup_all:
  assumes "config_ok as ds" and "setup_all e as ds (init_kernel rt dirs) = (r, k)"
  shows "kinv {} k"
proof -
  let ?N = "{i. \<exists>s \<in> set as. item_key s ''identity'' = Inr i}"
  have "ensures (booting ?N) (setup_all e as ds)"
    unfolding setup_all_def using assms(1)
    by (intro ensures_andthen ensures_each_in booting_setup_agent booting_setup_device)
      (auto simp: config_ok_def)
  moreover have "booting ?N (init_kernel rt dirs)"
    using kinv_init by (auto simp: booting_def is_agent_def init_kernel_def init_authority_def)
  ultimately show ?thesis
    using ensuresD [of "booting ?N" "setup_all e as ds" "init_kernel rt dirs"] assms(2)
    by (simp add: booting_def)
qed

text \<open>Nothing in the queues of the in-process devices claims to be from the kernel itself.\<close>

definition clean :: "kernel \<Rightarrow> bool" where
  "clean k \<longleftrightarrow> (\<forall>(d, ev) \<in> set (kqueue k). source_val ev \<noteq> PStr ''system'')"

lemma clean_speaks: "clean k \<Longrightarrow> speaks S k k' \<Longrightarrow> PStr ''system'' \<notin> S \<Longrightarrow> clean k'"
  by (fastforce simp: clean_def speaks_def)

lemma says_setup:
  assumes "PStr ''authority'' \<in> S"
  shows "says S (setup_all e as ds)"
proof -
  have "says S (setup_agent e spec)" for spec
    unfolding setup_agent_def by (intro says_intros says_steps)
  moreover have "says S (setup_device e (process_event e) spec)" for spec
    unfolding setup_device_def install_from_config_def knot
    by (intro says_intros says_case_prod says_steps says_inject [OF assms])
  ultimately show ?thesis unfolding setup_all_def by (intro says_intros)
qed

text \<open>Without a process called "system", an event that claims this source is refused.\<close>

lemma system_refused:
  assumes "no_system k" and "source_val ev = PStr ''system''"
  shows "kqueue (snd (process_event e ev k)) = kqueue k"
proof -
  have "\<not> wf_event (dkeys (entities k)) ev"
    using assms by (auto simp: wf_event_def field_is_def no_system_def source_val_def)
  then have "validate_event ev (kernel_rules (dkeys (entities k))) \<noteq> Inr ev'" for ev' by (simp add: validates_iff)
  then obtain x where x: "validate_event ev (kernel_rules (dkeys (entities k))) = Inl x"
    by (cases "validate_event ev (kernel_rules (dkeys (entities k)))") auto
  have "kqueue (snd (record_event ev out m k)) = kqueue k" for out m
    using record_event_state [of ev out m k] by auto
  then show ?thesis unfolding process_event_def process_with_def bind_asks x
    by (auto simp: throw_def split: exc.splits)
qed

lemma clean_process_event:
  assumes "clean k" and "no_system k"
  shows "clean (snd (process_event e ev k))"
proof (cases "source_val ev = PStr ''system''")
  case True
  then show ?thesis using system_refused [OF assms(2)] assms(1) by (simp add: clean_def)
next
  case False
  let ?S = "{PStr KERNEL_IDENTITY, PStr ''authority'', source_val ev}"
  have "speaks ?S k (snd (process_event e ev k))" by (intro saysD says_process_event) simp_all
  then show ?thesis using clean_speaks [OF assms(1)] False by (simp add: KERNEL_IDENTITY_def)
qed

lemma clean_emit:
  assumes "clean k" and "quiet ev" and "d \<noteq> ''system''"
  shows "clean (snd (kernel_emit (process_event e) d ev k))"
proof -
  obtain f where f: "ev = PDict f" using assms(2) by (auto simp: quiet_def)
  have "kernel_emit (process_event e) d ev = kernel_emit (process_emitted e) d ev"
    using assms(2) by (simp add: kernel_emit_def process_event_quiet quiet_with_source)
  then show ?thesis
    using clean_speaks [OF assms(1) saysD [OF says_emit [of d "{PStr d}" e f]]] assms(3) f by simp
qed

lemma clean_serve:
  assumes "clean k" and "d \<noteq> ''system''" and "source_val ev \<noteq> PStr ''system''"
  shows "clean (snd (serve_kernel_device e d ev k))"
proof -
  let ?m = "if d = ''authority'' then on_authority (respond ev) else on_journal (journal_respond ev)"
  obtain r k1 where r: "?m k = (r, k1)" by (cases "?m k")
  then have "kqueue k1 = kqueue k" by (auto simp: on_authority_def on_journal_def split: prod.splits if_splits)
  then have k1: "clean k1" using assms(1) by (simp add: clean_def)
  have q: "quiet v" if "r = Inr v" "v \<noteq> VOID" for v
    using r that respond_external_quiet [OF assms(3), of "auth k" v] journal_respond_VOID [of ev "journal k" v]
    by (auto simp: on_authority_def on_journal_def split: prod.splits if_splits)
  have "clean (snd (bind (lift (py_get ev ''receipt'')) (\<lambda>w. if truthy w
      then bind (lift (receipt_event ev)) (kernel_emit (process_event e) d) else ret ()) k1))"
    using k1 clean_emit [OF k1 receipt_quiet assms(2)] by (auto simp: bind_def lift_def ret_def split: sum.splits)
  then show ?thesis
    using r k1 clean_emit [OF k1 q assms(2)] by (cases r) (auto simp: serve_kernel_device_def bind_def)
qed

lemma execution_kinv:
  assumes "execution as ds past k" and "config_ok as ds"
  shows "list_all no_system past \<Longrightarrow> kinv {} k \<and> clean k"
  using assms
proof (induction rule: execution.induct)
  case (boot e rt dirs k)
  have "clean (init_kernel rt dirs)" by (simp add: clean_def init_kernel_def)
  then have "clean k"
    using clean_speaks [OF _ saysD [OF says_setup [of "{PStr ''authority''}" e as ds]], of "init_kernel rt dirs"] boot by simp
  then show ?case using booting_setup_all [OF boot(3,1)] by simp
next
  case (event past k e ev r k')
  then have k: "kinv {} k" "clean k" "no_system k" by simp_all
  show ?case
    using ensuresD [OF kinv_process_event k(1), of e ev] clean_process_event [OF k(2,3), of e ev] event(2) by simp
next
  case (serve past k d ev e r k')
  then have k: "kinv {} k" "clean k" by simp_all
  have "source_val ev \<noteq> PStr ''system''" "d \<noteq> ''system''" using k(2) serve(2,3) by (auto simp: clean_def)
  then show ?case using ensuresD [OF kinv_serve k(1), of ev e d] clean_serve [OF k(2), of d ev e] serve(4) by simp
next
  case (dies past k i)
  then show ?case by (simp add: clean_def)
qed

lemma reachable_kinv: "reachable k \<Longrightarrow> kinv {} k"
  unfolding reachable_def using execution_kinv by fastforce

text \<open>
  C5. In every state of an execution whose configuration names no in-process identity and no device after an agent,
  and in which no process has been registered as "system", whatever events are processed and served and whichever
  processes die: the in-process identities are exactly kernel, authority and journal; every other entry of the
  table is a process that has been started and is registered with the Authority; everything the kernel treats as an agent is
  an agent in the Authority; and the Authority's tables are well formed.  The code checks none of the three conditions.
\<close>

theorem reachable_invariant:
  assumes "config_ok as ds" and "execution as ds past k" and "list_all no_system past"
  shows "(\<forall>i. dget (entities k) i = Some EKernel \<longleftrightarrow> i = KERNEL_IDENTITY)
    \<and> (\<forall>i. dget (entities k) i = Some EKernelDevice \<longleftrightarrow> i = ''authority'' \<or> i = ''journal'')
    \<and> (\<forall>i h. dget (entities k) i = Some (EHandle h) \<longrightarrow>
          h_process h \<noteq> None \<and> dget (identities (auth k)) i \<noteq> None)
    \<and> set (agent_ids k) \<subseteq> set (agents (auth k)) \<and> authority_wf (auth k)"
proof -
  have k: "kinv {} k" using execution_kinv [OF assms(2,1,3)] by simp
  have "set (agent_ids k) \<subseteq> set (agents (auth k))"
    using k kinv_agents [OF k] by (auto simp: kinv_def)
  then show ?thesis using k unfolding kinv_def kernel_mode_def started_def by blast
qed

text \<open>
  No event removes or displaces an agent: what is an agent before an event is processed is one
  afterwards, whoever sent the event and whatever it asks for.
\<close>

lemma agents_persist:
  assumes "reachable k" and "process_event e ev k = (r, k')"
  shows "set (agents (auth k)) \<subseteq> set (agents (auth k'))"
proof -
  have "kinv (set (agents (auth k))) k"
    using reachable_kinv [OF assms(1)] kinv_agents by (auto simp: kinv_def)
  then have "kinv (set (agents (auth k))) k'"
    using ensuresD [OF kinv_process_event, of "set (agents (auth k))" k e ev] assms(2) by simp
  then show ?thesis using kinv_agents by (auto simp: kinv_def)
qed

end
