(* ===== verification/KernelEffects.thy ===== *)
theory KernelEffects
  imports KernelInv
begin

text \<open>
  What the kernel's commands do when they succeed: the exact change of the entity table, the
  registry and the grant relation; that every command is answered; what a process is sent; and
  what becomes of an event the validator refuses.
\<close>

section \<open>Injections leave the organisation alone\<close>

definition organisation where
  "organisation k = (identities (auth k), grants (auth k), entities k, agent_ids k, killed k)"

definition stable where
  "stable x k \<longleftrightarrow> kinv {} k \<and> organisation k = x"

lemma organisation_update [simp]:
  "organisation (k\<lparr>homes := x\<rparr>) = organisation k" "organisation (k\<lparr>sent := s\<rparr>) = organisation k"
  "organisation (k\<lparr>kqueue := q\<rparr>) = organisation k" "organisation (k\<lparr>journal := j\<rparr>) = organisation k"
  "organisation (k\<lparr>auth := auth k\<lparr>injected := y\<rparr>\<rparr>) = organisation k" "organisation (k\<lparr>dead := x\<rparr>) = organisation k"
  by (simp_all add: organisation_def)

lemma stable_route: "ensures (stable x) (route e ev)"
  unfolding ensures_def
proof (intro allI impI)
  fix k assume k: "stable x k"
  then have kv: "kinv {} k" by (simp add: stable_def)
  show "stable x (snd (route e ev k))"
  proof (cases "item_key ev ''target''")
    case (Inl y)
    then show ?thesis using k by (simp add: route_def)
  next
    case (Inr t)
    show ?thesis using k
      by (simp add: route_cases [OF kv Inr] stable_def split: option.splits entity.splits)
  qed
qed

lemma stable_record: "ensures (stable x) (record_event ev out m)"
  unfolding ensures_def using record_event_state
  by (metis organisation_update(4) kinv_update(4) snd_conv stable_def)

lemma stable_emit: "ensures (stable x) (kernel_emit (process_emitted e) s ev)"
  unfolding kernel_emit_def process_emitted_def
  by (intro ensures_process_with kinv_on_kernel_unknown stable_record stable_route)

lemma stable_inject: "ensures (stable x) (inject (process_emitted e) v)"
proof -
  have "keeps organisation (ask [(''command'', PStr ''inject_request''), (''agent'', v)])"
    by (rule keeps_ask_inject) simp
  then have "ensures (stable x) (ask [(''command'', PStr ''inject_request''), (''agent'', v)])"
    using kinv_ask_inject [of "{}" v] by (simp add: ensures_def keeps_def stable_def)
  then show ?thesis
    unfolding inject_def by (intro ensures_bind ensures_if stable_emit ensures_ret)
qed

lemma injects_organisation:
  assumes "kinv {} k" and "each (inject (process_emitted e)) ags k = (r, k')"
  shows "organisation k' = organisation k" and "kinv {} k'"
proof -
  have "ensures (stable (organisation k)) (each (inject (process_emitted e)) ags)"
    by (intro ensures_each stable_inject)
  from ensuresD [OF this, of k] show "organisation k' = organisation k" and "kinv {} k'"
    using assms by (simp_all add: stable_def)
qed

lemma organisation_grant_rel: "organisation k = organisation k' \<Longrightarrow> grant_rel (auth k) = grant_rel (auth k')"
  by (rule grant_rel_cong) (simp add: organisation_def)

section \<open>Uninstalling\<close>

definition maintain_tokens :: "string \<Rightarrow> string set" where
  "maintain_tokens i = {''maintain'', ''maintain:'' @ i}"

lemma keep_maintain_run:
  "keep_maintain i (map (\<lambda>g. PDict [(''position'', PStr (fst g)), (''token'', PStr (snd g))]) gs) k
    = (Inr (), k\<lparr>auth := fold (\<lambda>(p, t) a. add_grant p i t (setdefault_grants p a))
         (filter (\<lambda>g. snd g \<in> maintain_tokens i) gs) (auth k)\<rparr>)"
proof (induction gs arbitrary: k)
  case Nil
  then show ?case by (simp add: keep_maintain_def sx_defs)
next
  case (Cons g gs)
  then show ?case
    by (cases g) (auto simp: keep_maintain_def sx_defs maintain_tokens_def)
qed

lemma grant_rel_add:
  "grant_rel (fold (\<lambda>(p, t) a. add_grant p i t (setdefault_grants p a)) gs a)
    = grant_rel a \<union> (\<lambda>(p, t). (p, i, t)) ` set gs"
  by (induction gs arbitrary: a) (auto simp: gt.rel_grant)

lemma identities_add:
  "identities (fold (\<lambda>(p, t) a. add_grant p i t (setdefault_grants p a)) gs a) = identities a"
  by (induction gs arbitrary: a) auto

lemma set_device_grants:
  "authority_wf a \<Longrightarrow> set (device_grants a i) = {(p, t). holds a p i t}"
  by (force simp: device_grants_def holds_def grants_of_def authority_wf_def dwf_def split: option.splits)

lemma take_down_run:
  "h_process h \<noteq> None \<Longrightarrow> take_down i h k = (Inr (), k\<lparr>entities := dpop i (entities k),
     sent := sent k @ written k i (terminate_event i), killed := killed k @ [i]\<rparr>)"
  by (auto simp: take_down_def del_entity_def terminate_def send_run written_def sx_defs)

lemma uninstall_running_effect:
  assumes k: "kinv {} k" and h: "dget (entities k) i = Some (EHandle h)" and ag: "\<not> is_agent (auth k) i"
    and run: "uninstall_running (process_emitted e) i ags h k = (r, k')"
  shows "entities k' = dpop i (entities k)" and "identities (auth k') = dpop i (identities (auth k))"
    and "killed k' = killed k @ [i]"
    and "grant_rel (auth k') = {(p, d, t). holds (auth k) p d t \<and> (d = i \<longrightarrow> t \<in> maintain_tokens i)}"
proof -
  let ?k1 = "k\<lparr>entities := dpop i (entities k), sent := sent k @ written k i (terminate_event i),
    killed := killed k @ [i]\<rparr>"
  let ?gs = "filter (\<lambda>g. snd g \<in> maintain_tokens i) (device_grants (auth k) i)"
  let ?a = "fold (\<lambda>(p, t) a. add_grant p i t (setdefault_grants p a)) ?gs (drop_device i (auth k))"
  have wf: "authority_wf (auth k)" using k by (simp add: kinv_def)
  have k1: "kinv {} ?k1" using kinv_del [OF k h] by simp
  have "kinv {} (?k1\<lparr>auth := drop_device i (auth ?k1)\<rparr>)"
    using k1 ag by (intro kinv_drop) auto
  then have "kinv {} (snd (keep_maintain i gs (?k1\<lparr>auth := drop_device i (auth ?k1)\<rparr>)))" for gs
    using ensuresD [OF kinv_keep_maintain] by blast
  from this [of "map (\<lambda>g. PDict [(''position'', PStr (fst g)), (''token'', PStr (snd g))])
      (device_grants (auth k) i)"]
  have k2: "kinv {} (?k1\<lparr>auth := ?a\<rparr>)" unfolding keep_maintain_run by simp
  have "each (inject (process_emitted e)) ags (?k1\<lparr>auth := ?a\<rparr>) = (r, k')"
    using run kinv_handle [OF k h]
    by (simp add: uninstall_running_def andthen_def bind_def take_down_run reply_def keep_maintain_run lift_def)
  from injects_organisation(1) [OF k2 this] have org: "organisation k' = organisation (?k1\<lparr>auth := ?a\<rparr>)" .
  show "entities k' = dpop i (entities k)" "killed k' = killed k @ [i]"
    "identities (auth k') = dpop i (identities (auth k))"
    using org by (simp_all add: organisation_def identities_add)
  have "grant_rel (auth k') = grant_rel ?a"
    using organisation_grant_rel [OF org] by simp
  also have "\<dots> = {(p, d, t). holds (auth k) p d t \<and> (d = i \<longrightarrow> t \<in> maintain_tokens i)}"
    unfolding grant_rel_add gt.rel_drop by (auto simp: set_device_grants [OF wf] grant_rel_iff image_iff)
  finally show "grant_rel (auth k') = {(p, d, t). holds (auth k) p d t \<and> (d = i \<longrightarrow> t \<in> maintain_tokens i)}" .
qed

text \<open>
  C6. A successful uninstall of a device, in any state the kernel reaches, removes the device from
  the entity table and from the registry and nothing else from either, awaits the death of its
  process, and revokes exactly its grants other than the maintenance rights, which survive.
\<close>

theorem uninstall_effect:
  assumes "reachable k" and "py_get payload ''identity'' = Inr (PStr i)"
    and "uninstall_body (process_emitted e) ev payload k = (Inr (), k')"
  shows "entities k' = dpop i (entities k) \<and> identities (auth k') = dpop i (identities (auth k))
    \<and> killed k' = killed k @ [i]
    \<and> grant_rel (auth k') = {(p, d, t). (p, d, t) \<in> grant_rel (auth k) \<and>
          (d = i \<longrightarrow> t = ''maintain'' \<or> t = ''maintain:'' @ i)}"
proof -
  note k = reachable_kinv [OF assms(1)]
  from assms(3) obtain h where "dget (entities k) i = Some (EHandle h)" "\<not> is_agent (auth k) i"
      "uninstall_running (process_emitted e) i (map PStr (agents (auth k))) h k = (Inr (), k')"
    using assms(2) kinv_agents [OF k]
    by (auto simp: uninstall_body_def sx_Inr check_identity_def source_of_def
        split: if_splits option.split_asm entity.split_asm)
  from uninstall_running_effect [OF k this] show ?thesis
    by (simp add: maintain_tokens_def grant_rel_iff)
qed

section \<open>Installing\<close>

lemma wire_rel:
  "grant_rel (fold (\<lambda>p. fold (\<lambda>t a. add_grant p i t (setdefault_grants p a)) ts) ps a)
    = grant_rel a \<union> set ps \<times> {i} \<times> set ts"
proof -
  have "grant_rel (fold (\<lambda>t a. add_grant p i t (setdefault_grants p a)) ts a) = grant_rel a \<union> {p} \<times> {i} \<times> set ts"
    for p a by (induction ts arbitrary: a) (auto simp: gt.rel_grant)
  then show ?thesis by (induction ps arbitrary: a) auto
qed

lemma wire_identities:
  "identities (fold (\<lambda>p. fold (\<lambda>t a. add_grant p i t (setdefault_grants p a)) ts) ps a) = identities a"
proof -
  have "identities (fold (\<lambda>t a. add_grant p i t (setdefault_grants p a)) ts a) = identities a" for p a
    by (induction ts arbitrary: a) auto
  then show ?thesis by (induction ps arbitrary: a) auto
qed

lemma install_new_effect:
  assumes k: "kinv {} k" and ag: "\<not> is_agent (auth k) i"
    and km: "dget (entities k) i \<noteq> Some EKernel" "dget (entities k) i \<noteq> Some EKernelDevice"
    and tok: "defaults scopes = Inr tokens"
    and run: "install_new e (process_emitted e) payload i positions ags path tools scopes k = (Inr (), k')"
  shows "\<exists>ov p. entities k' = dset i (EHandle \<lparr>h_spec = SpawnDevice path (py_or ov (PDict [])), h_process = Some p\<rparr>) (entities k)"
    and "identities (auth k') = dset i \<lparr>i_tools = PList tools, i_scopes = PList scopes, i_agent = False,
          i_position = PNone\<rparr> (identities (auth k))"
    and "killed k' = killed k"
    and "grant_rel (auth k') = grant_rel (auth k) \<union> set positions \<times> {i} \<times> set tokens"
proof -
  from run obtain ov k1 where reg: "register e i (SpawnDevice path (py_or ov (PDict []))) tools False False PNone scopes k = (Inr (), k1)"
      and rest: "andthen (wire i positions tokens) (each (inject (process_emitted e)) ags) k1 = (Inr (), k')"
    using tok by (auto simp: install_new_def sx_Inr)
  from reg obtain p hs where k1: "k1 = k\<lparr>auth := registered i tools scopes False PNone (auth k), homes := hs, dead := removeAll i (dead k),
       entities := dset i (EHandle \<lparr>h_spec = SpawnDevice path (py_or ov (PDict [])), h_process = Some p\<rparr>) (entities k)\<rparr>"
    by (cases rule: register_cases [of e i "SpawnDevice path (py_or ov (PDict []))" tools False PNone scopes k]) auto
  let ?a = "fold (\<lambda>p. fold (\<lambda>t a. add_grant p i t (setdefault_grants p a)) tokens) positions (auth k1)"
  have "kinv {} k1"
    using kinv_register [OF k _ km, of False e "SpawnDevice path (py_or ov (PDict []))" tools PNone scopes] ag reg
    by simp
  then have "kinv {} (k1\<lparr>auth := ?a\<rparr>)"
    using ensuresD [OF kinv_wire, of "{}" k1 i positions tokens] by simp
  moreover have "each (inject (process_emitted e)) ags (k1\<lparr>auth := ?a\<rparr>) = (Inr (), k')"
    using rest by (simp add: andthen_Inr)
  ultimately have org: "organisation k' = organisation (k1\<lparr>auth := ?a\<rparr>)"
    by (rule injects_organisation(1))
  show "\<exists>ov p. entities k' = dset i (EHandle \<lparr>h_spec = SpawnDevice path (py_or ov (PDict [])), h_process = Some p\<rparr>) (entities k)"
    using org k1 by (auto simp: organisation_def)
  show "identities (auth k') = dset i \<lparr>i_tools = PList tools, i_scopes = PList scopes, i_agent = False,
          i_position = PNone\<rparr> (identities (auth k))" and "killed k' = killed k"
    using org k1 by (simp_all add: organisation_def wire_identities registered_def)
  have "grant_rel (auth k') = grant_rel ?a" using organisation_grant_rel [OF org] by simp
  also have "\<dots> = grant_rel (auth k1) \<union> set positions \<times> {i} \<times> set tokens" by (rule wire_rel)
  also have "grant_rel (auth k1) = grant_rel (auth k)"
    using k1 by (intro grant_rel_cong) (simp add: registered_def)
  finally show "grant_rel (auth k') = grant_rel (auth k) \<union> set positions \<times> {i} \<times> set tokens" .
qed

lemma rmap_py_key: "rmap py_key gs = Inr ps \<Longrightarrow> set ps = {p. PStr p \<in> set gs}"
proof (induction gs arbitrary: ps)
  case (Cons g gs)
  then obtain p ps' where "py_key g = Inr p" "rmap py_key gs = Inr ps'" "ps = p # ps'"
    by (auto simp: rbind_Inr)
  then show ?case using Cons.IH [of ps'] by (cases g) auto
qed simp

text \<open>The state in which the new instance is registered.\<close>

definition cleared :: "string \<Rightarrow> kernel \<Rightarrow> kernel" where
  "cleared i k = (if dget (entities k) i = None then k
     else k\<lparr>entities := dpop i (entities k), sent := sent k @ written k i (terminate_event i),
        killed := killed k @ [i], auth := drop_device i (auth k)\<rparr>)"

lemma kinv_cleared:
  assumes "kinv {} k" and "\<not> is_agent (auth k) i"
    and "dget (entities k) i \<noteq> Some EKernel" "dget (entities k) i \<noteq> Some EKernelDevice"
  shows "kinv {} (cleared i k)" "\<not> is_agent (auth (cleared i k)) i"
    "dget (entities k) i \<noteq> None \<Longrightarrow> dget (entities (cleared i k)) i = None"
proof -
  show "kinv {} (cleared i k)"
  proof (cases "dget (entities k) i")
    case (Some x)
    then obtain h where "dget (entities k) i = Some (EHandle h)" using assms(3,4) by (cases x) auto
    from kinv_drop [OF kinv_del [OF assms(1) this], of i] assms(2)
    have "kinv {} (k\<lparr>entities := dpop i (entities k), auth := drop_device i (auth k),
        sent := sent k @ written k i (terminate_event i), killed := killed k @ [i]\<rparr>)" by simp
    with Some show ?thesis by (cases k) (simp add: cleared_def)
  qed (simp add: cleared_def assms(1))
  show "\<not> is_agent (auth (cleared i k)) i" "dget (entities k) i \<noteq> None \<Longrightarrow> dget (entities (cleared i k)) i = None"
    using assms(2) by (simp_all add: cleared_def is_agent_drop)
qed

lemma install_loaded_cleared:
  assumes k: "kinv {} k"
    and run: "install_loaded e emit payload i ps ags path tools scopes k = (Inr (), k')"
  obtains hs where "dget (entities k) i \<noteq> Some EKernel" "dget (entities k) i \<noteq> Some EKernelDevice"
    and "install_new e emit payload i ps ags path tools scopes (cleared i (k\<lparr>homes := hs\<rparr>)) = (Inr (), k')"
proof -
  obtain hs where hs: "makedirs i k = (Inr (), k\<lparr>homes := hs\<rparr>)" using makedirs_state by blast
  have km: "dget (entities k) i \<noteq> Some EKernel" "dget (entities k) i \<noteq> Some EKernelDevice"
    using run hs by (auto simp: install_loaded_def sx_Inr)
  show thesis
  proof (cases "dget (entities k) i")
    case None
    then show ?thesis using run hs km by (intro that [of hs]) (auto simp: install_loaded_def sx_Inr cleared_def)
  next
    case (Some x)
    then obtain h where h: "dget (entities k) i = Some (EHandle h)" using km by (cases x) auto
    then have "h_process h \<noteq> None" using kinv_handle [OF k] by simp
    then show ?thesis using run hs km h
      by (intro that [of hs]) (auto simp: install_loaded_def sx_Inr cleared_def take_down_run)
  qed
qed

lemma install_loaded_effect:
  assumes k: "kinv {} k" and ag: "\<not> is_agent (auth k) i" and tok: "defaults scopes = Inr tokens"
    and run: "install_loaded e (process_emitted e) payload i ps ags path tools scopes k = (Inr (), k')"
  shows "(\<exists>h. entities k' = dset i (EHandle h) (if etable k i = None then entities k else dpop i (entities k))
            \<and> h_process h \<noteq> None)
    \<and> dget (identities (auth k')) i
        = Some \<lparr>i_tools = PList tools, i_scopes = PList scopes, i_agent = False, i_position = PNone\<rparr>
    \<and> (\<forall>j. j \<noteq> i \<longrightarrow> dget (identities (auth k')) j = dget (identities (auth k)) j)
    \<and> killed k' = killed k @ (if etable k i = None then [] else [i])
    \<and> grant_rel (auth k') = grant_rel (auth k) - (if etable k i = None then {} else UNIV \<times> {i} \<times> UNIV)
          \<union> set ps \<times> {i} \<times> set tokens"
proof -
  obtain hs where km: "dget (entities k) i \<noteq> Some EKernel" "dget (entities k) i \<noteq> Some EKernelDevice"
      and new: "install_new e (process_emitted e) payload i ps ags path tools scopes
                  (cleared i (k\<lparr>homes := hs\<rparr>)) = (Inr (), k')"
    using install_loaded_cleared [OF k run] by blast
  let ?k = "cleared i (k\<lparr>homes := hs\<rparr>)"
  have c: "kinv {} ?k" "\<not> is_agent (auth ?k) i"
    using kinv_cleared [of "k\<lparr>homes := hs\<rparr>" i] k ag km by simp_all
  have km': "dget (entities ?k) i \<noteq> Some EKernel" "dget (entities ?k) i \<noteq> Some EKernelDevice"
    using km by (auto simp: cleared_def)
  have "killed k' = killed ?k" "grant_rel (auth k') = grant_rel (auth ?k) \<union> set ps \<times> {i} \<times> set tokens"
    "identities (auth k') = dset i \<lparr>i_tools = PList tools, i_scopes = PList scopes, i_agent = False,
          i_position = PNone\<rparr> (identities (auth ?k))"
    "\<exists>h. entities k' = dset i (EHandle h) (entities ?k) \<and> h_process h \<noteq> None"
    using install_new_effect [OF c km' tok new] by auto
  then show ?thesis
    by (cases "dget (entities k) i") (auto simp: cleared_def gt.rel_drop)
qed

text \<open>
  C7. A successful install, in any state the kernel reaches: an instance that was running has been
  terminated and its grants are gone; then there is one started process under the identity, the
  registry holds the tools and scopes the source declares, and the grant relation has grown by
  exactly the default tokens for each position the request names.  No other entity changes.
\<close>

theorem install_effect:
  assumes "reachable k" and "py_get payload ''identity'' = Inr (PStr i)"
    and "py_get payload ''grants'' = Inr (PList gs)"
    and "load_module e (device_source k i) = Inr (tools, scopes)" and "defaults scopes = Inr tokens"
    and "install_body e (process_emitted e) ev payload k = (Inr (), k')"
  shows "(\<exists>h. entities k' = dset i (EHandle h) (if etable k i = None then entities k else dpop i (entities k))
            \<and> h_process h \<noteq> None)
    \<and> dget (identities (auth k')) i
        = Some \<lparr>i_tools = PList tools, i_scopes = PList scopes, i_agent = False, i_position = PNone\<rparr>
    \<and> (\<forall>j. j \<noteq> i \<longrightarrow> dget (identities (auth k')) j = dget (identities (auth k)) j)
    \<and> killed k' = killed k @ (if etable k i = None then [] else [i])
    \<and> grant_rel (auth k') = grant_rel (auth k) - (if etable k i = None then {} else UNIV \<times> {i} \<times> UNIV)
          \<union> {p. PStr p \<in> set gs} \<times> {i} \<times> set tokens"
proof -
  note k = reachable_kinv [OF assms(1)]
  from assms(6) obtain ps where ps: "rmap py_key gs = Inr ps" and ag: "\<not> is_agent (auth k) i" and
      ld: "install_loaded e (process_emitted e) payload i ps (map PStr (agents (auth k)))
           (device_source k i) tools scopes k = (Inr (), k')"
    using assms(2-4) kinv_agents [OF k]
    by (auto simp: install_body_def sx_Inr check_identity_def check_grants_def source_of_def split: if_splits)
  from install_loaded_effect [OF k ag assms(5) ld] rmap_py_key [OF ps] show ?thesis by simp
qed

section \<open>Granting and revoking\<close>

text \<open>
  A scope command that succeeds was sent by someone with the right to grant, and by someone
  with the right over the organisation itself when it concerns the organisation's own device; it
  adds or removes exactly the triple it names, and changes neither the registry nor the entities.
\<close>

lemma scope_effect:
  assumes "reachable k" and "item_key ev ''source'' = Inr s"
    and "scope_body (process_emitted e) ev g (PStr p) (PStr d) (PStr t) k = (Inr (), k')"
  shows "authorized (auth k) s ''grant'' \<and> (d = ORG_DEVICE \<longrightarrow> authorized (auth k) s ''org'')
    \<and> grant_rel (auth k') = (if g then insert (p, d, t) (grant_rel (auth k)) else grant_rel (auth k) - {(p, d, t)})
    \<and> identities (auth k') = identities (auth k) \<and> entities k' = entities k"
proof -
  note k = reachable_kinv [OF assms(1)]
  let ?a = "if g then add_grant p d t (setdefault_grants p (auth k)) else discard_grant p d t (auth k)"
  have "kinv {} (k\<lparr>auth := ?a\<rparr>)" using k by (simp add: kinv_add_grant kinv_discard_grant)
  moreover have au: "authorized (auth k) s ''grant''" "d = ORG_DEVICE \<longrightarrow> authorized (auth k) s ''org''"
    and "scope_apply (process_emitted e) g (PStr p) (PStr d) (PStr t) k = (Inr (), k')"
    using assms(2,3) by (auto simp: scope_body_def sx_Inr source_of_def split: if_splits)
  then obtain ags where "each (inject (process_emitted e)) ags (k\<lparr>auth := ?a\<rparr>) = (Inr (), k')"
    unfolding scope_apply_def by (auto simp: bind_Inr simp del: if_image_distrib)
  ultimately have org: "organisation k' = organisation (k\<lparr>auth := ?a\<rparr>)"
    by (intro injects_organisation(1))
  have "grant_rel (auth k') = grant_rel ?a" using organisation_grant_rel [OF org] by simp
  then show ?thesis using au org
    by (simp add: gt.rel_grant gt.rel_revoke organisation_def)
qed

section \<open>Refused and delivered events\<close>

definition row :: "pyval \<Rightarrow> pyval \<Rightarrow> pyval \<Rightarrow> pyval \<Rightarrow> string \<Rightarrow> pyval \<Rightarrow> jrow" where
  "row s t kd ev out reason = \<lparr>j_source = s, j_target = t, j_kind = kd, j_payload = ev,
     j_outcome = PStr out, j_reason = reason\<rparr>"

lemma row_eq [simp]: "row s t kd ev out r = row s' t' kd' ev' out' r' \<longleftrightarrow>
    s = s' \<and> t = t' \<and> kd = kd' \<and> ev = ev' \<and> out = out' \<and> r = r'"
  by (auto simp: row_def)

definition field :: "(string, pyval) dict \<Rightarrow> string \<Rightarrow> pyval" where
  "field d x = (case dget d x of None \<Rightarrow> PNone | Some v \<Rightarrow> v)"

lemma record_event_run:
  assumes "d \<noteq> []" and "sql_bind (field d ''source'') = Inr ()" "sql_bind (field d ''target'') = Inr ()"
    "sql_bind (field d ''kind'') = Inr ()" "sql_bind reason = Inr ()"
  shows "record_event (PDict d) out reason k
    = (Inr (), k\<lparr>journal := journal k @ [row (field d ''source'') (field d ''target'') (field d ''kind'') (PDict d) out reason]\<rparr>)"
  using assms unfolding field_def
  by (simp add: record_event_def on_journal_def journal_respond_def system_event_def py_or_def
      sx_defs row_def)

text \<open>
  C8. What becomes of an event the validator refuses, whatever it is: it goes nowhere.  When the database accepts its source,
  target and kind, the kernel records it as dropped, with the reason, and nothing else of its state changes; an
  empty or missing event is recorded without them.  Otherwise the state does not change at all, and the exception of the
  database, or that of reading a field of something that is no dictionary, escapes.
\<close>

theorem invalid_event_dropped:
  assumes "validate_event ev (kernel_rules (dkeys (entities k))) = Inl (EventError m)"
  shows "process_event e ev k =
     (case py_or ev (PDict []) of
        PDict d \<Rightarrow>
          (case rmap sql_bind [field d ''source'', field d ''target'', field d ''kind''] of
             Inl x \<Rightarrow> (Inl x, k)
           | Inr _ \<Rightarrow> (Inr (), k\<lparr>journal := journal k @
               [row (field d ''source'') (field d ''target'') (field d ''kind'') (PDict d) ''dropped'' (PStr m)]\<rparr>))
      | _ \<Rightarrow> (Inl AttributeError, k))"
proof -
  have "process_event e ev k = record_event ev ''dropped'' (PStr m) k"
    using assms by (simp add: process_event_def process_with_def)
  also have "\<dots> = (case py_or ev (PDict []) of
        PDict d \<Rightarrow>
          (case rmap sql_bind [field d ''source'', field d ''target'', field d ''kind''] of
             Inl x \<Rightarrow> (Inl x, k)
           | Inr _ \<Rightarrow> (Inr (), k\<lparr>journal := journal k @
               [row (field d ''source'') (field d ''target'') (field d ''kind'') (PDict d) ''dropped'' (PStr m)]\<rparr>))
      | _ \<Rightarrow> (Inl AttributeError, k))"
    by (cases "py_or ev (PDict [])") (auto simp: record_event_def on_journal_def journal_respond_def system_event_def sx_defs row_def
        field_def Let_def rbind_def split: sum.splits)
  finally show ?thesis .
qed

lemma valid_fields:
  assumes "wf_event reg (PDict d)" and "field_is d ''source'' s" and "field_is d ''target'' t"
  shows "s \<in> set reg" "t \<in> set reg" "d \<noteq> []" "sql_bind (field d ''source'') = Inr ()"
    "sql_bind (field d ''target'') = Inr ()" "sql_bind (field d ''kind'') = Inr ()"
  using assms by (auto simp: wf_event_def field_is_def field_def)

lemma valid_validates:
  "wf_event (dkeys (entities k)) ev \<Longrightarrow> validate_event ev (kernel_rules (dkeys (entities k))) = Inr ev"
  by (simp add: validates_iff)

text \<open>The processing path on a valid event, for the kernel and for anybody else.\<close>

lemma process_with_other:
  assumes "wf_event (dkeys (entities k)) ev" and "item_key ev ''target'' = Inr t" and "t \<noteq> KERNEL_IDENTITY"
    and "enrich ev k = (Inr ev', k)" and "record_event ev' ''routed'' PNone k = (Inr (), k1)"
    and "route e ev' k1 = (Inr (), k2)"
  shows "process_with e onk ev k = (Inr (), k2)"
  using assms(2-6) unfolding process_with_def bind_asks valid_validates [OF assms(1)]
  by (simp add: bind_def andthen_def lift_def)

lemma process_with_kernel:
  assumes "wf_event (dkeys (entities k)) ev" and "item_key ev ''target'' = Inr KERNEL_IDENTITY"
    and "record_event ev ''routed'' PNone k = (Inr (), k1)"
  shows "process_with e onk ev k = onk ev k1"
  using assms(2-3) unfolding process_with_def bind_asks valid_validates [OF assms(1)]
  by (simp add: bind_def andthen_def lift_def)

text \<open>What the kernel attaches to an event for a device.\<close>

definition attached :: "kernel \<Rightarrow> string \<Rightarrow> pyval" where
  "attached k s = (if s = KERNEL_IDENTITY \<or> dget (entities k) s = Some EKernelDevice then EMPTY_AUTH
     else auth_context (auth k) s)"

text \<open>
  C9. A valid event for a user process is written to its channel exactly once, unchanged for an agent, and for
  a device with the authentication of its stamped source as the Authority has it at that moment:
  whatever the sender wrote in that field is replaced.  When the process has died the event is dropped instead.  The
  journal records it as routed in both cases, and nothing else changes.
\<close>

theorem valid_event_delivered:
  assumes "reachable k" and "wf_event (dkeys (entities k)) (PDict d)"
    and "field_is d ''source'' s" and "field_is d ''target'' t" and "dget (entities k) t = Some (EHandle h)"
  shows "process_event e (PDict d) k =
     (let ev = PDict (if t \<in> set (agent_ids k) then d else dset ''auth'' (attached k s) d) in
      (Inr (), k\<lparr>journal := journal k @ [row (PStr s) (PStr t) (field d ''kind'') ev ''routed'' PNone],
         sent := sent k @ (if t \<in> set (dead k) then [] else [(t, ev)])\<rparr>))"
proof -
  note k = reachable_kinv [OF assms(1)]
  let ?ev = "PDict (if t \<in> set (agent_ids k) then d else dset ''auth'' (attached k s) d)"
  let ?d = "if t \<in> set (agent_ids k) then d else dset ''auth'' (attached k s) d"
  have t: "t \<noteq> KERNEL_IDENTITY" using kinv_modes(1) [OF k, of t] assms(5) by simp
  have keys: "item_key (PDict d) ''target'' = Inr t" "item_key (PDict d) ''source'' = Inr s"
    "item_key ?ev ''target'' = Inr t"
    using assms(3,4) by (auto simp: field_is_def)
  have en: "enrich (PDict d) k = (Inr ?ev, k)"
    using keys(1,2) assms(5) by (auto simp: enrich_def attached_def sx_defs)
  have "d \<noteq> []" "?d \<noteq> []" using valid_fields(3) [OF assms(2-4)] by auto
  moreover have "field ?d x = field d x" if "x \<noteq> ''auth''" for x using that by (simp add: field_def)
  moreover have "field d ''source'' = PStr s" "field d ''target'' = PStr t"
    using assms(3,4) by (simp_all add: field_def field_is_def)
  ultimately have rc: "record_event ?ev ''routed'' PNone k
    = (Inr (), k\<lparr>journal := journal k @ [row (PStr s) (PStr t) (field d ''kind'') ?ev ''routed'' PNone]\<rparr>)"
    using record_event_run [of ?d PNone "''routed''" k] valid_fields(4-6) [OF assms(2-4)] by simp
  have "kinv {} (k\<lparr>journal := j\<rparr>)" for j using k by simp
  from route_cases [OF this keys(3), of e]
  have rt: "route e ?ev (k\<lparr>journal := j\<rparr>) = (Inr (), k\<lparr>journal := j, sent := sent k @ (if t \<in> set (dead k) then [] else [(t, ?ev)])\<rparr>)" for j
    using assms(5) by (simp add: written_def)
  show ?thesis
    unfolding process_event_def Let_def by (rule process_with_other [OF assms(2) keys(1) t en rc rt])
qed

section \<open>Every command is answered\<close>

lemma bind_ret_fun: "bind (ret x) g = g x"
  by (rule ext) simp

fun answer :: "string \<Rightarrow> string" where
  "answer c = (if c = ''install_device'' then ''device_installed''
     else if c = ''uninstall_device'' then ''device_uninstalled''
     else if c = ''maintenance_session'' then ''maintenance_session_started''
     else if c = ''grant_scope'' then ''scope_granted'' else ''scope_revoked'')"

text \<open>An application event the kernel emits itself is recorded, and processing it never raises.\<close>

lemma emit_recorded:
  assumes k: "kinv {} k" and s: "s \<noteq> []"
  shows "\<exists>k' out reason ev. kernel_emit (process_emitted e) KERNEL_IDENTITY
        (PDict [(''target'', PStr s), (''kind'', PStr ''application''), (''payload'', PDict p)]) k = (Inr (), k')
     \<and> journal k' = journal k @ [row (PStr KERNEL_IDENTITY) (PStr s) (PStr ''application'') ev out reason]
     \<and> py_item ev ''payload'' = Inr (PDict p)"
proof -
  let ?d = "[(''target'', PStr s), (''kind'', PStr ''application''), (''payload'', PDict p),
    (''source'', PStr KERNEL_IDENTITY)]"
  let ?reg = "dkeys (entities k)"
  have ker: "dget (entities k) KERNEL_IDENTITY = Some EKernel" using kinv_modes(1) [OF k] by simp
  have rec: "record_event (PDict d') out reason k = (Inr (), k\<lparr>journal := journal k @
       [row (PStr KERNEL_IDENTITY) (PStr s) (PStr ''application'') (PDict d') out reason]\<rparr>)"
    if "sql_bind reason = Inr ()" "d' = ?d \<or> d' = dset ''auth'' EMPTY_AUTH ?d" for d' out reason
    using that by (subst record_event_run) (auto simp: field_def)
  have run: "kernel_emit (process_emitted e) KERNEL_IDENTITY
      (PDict [(''target'', PStr s), (''kind'', PStr ''application''), (''payload'', PDict p)]) k
    = process_with e on_kernel_unknown (PDict ?d) k"
    by (simp add: kernel_emit_def process_emitted_def)
  have valid: "wf_event ?reg (PDict ?d)" if "dget (entities k) s \<noteq> None"
    using that s ker by (auto simp: wf_event_def field_is_def set_dkeys KERNEL_IDENTITY_def)
  consider "dget (entities k) s = None" | "s = KERNEL_IDENTITY"
    | "s \<noteq> KERNEL_IDENTITY" "dget (entities k) s \<noteq> None" by blast
  then show ?thesis
  proof cases
    case 1
    then have "validate_event (PDict ?d) (kernel_rules ?reg) = Inl (EventError ''target not registered'')"
      using s ker by (simp add: validate_event_def kernel_rules_def DEFAULT_RULES_def reject_unless_def
          py_in_strs_def KIND_LEVELS_def system_command_validate_def KERNEL_IDENTITY_def image_iff set_dkeys)
    then show ?thesis using rec [of "PStr ''target not registered''" ?d "''dropped''"]
      by (auto simp: run process_with_def)
  next
    case 2
    then show ?thesis
      using process_with_kernel [OF valid _ rec [of PNone ?d "''routed''"], of e on_kernel_unknown] ker
      unfolding run by (auto simp: on_kernel_unknown_def sx_defs)
  next
    case 3
    define d' where "d' = (if s \<notin> set (agent_ids k) \<and> (\<exists>h. dget (entities k) s = Some (EHandle h))
      then dset ''auth'' EMPTY_AUTH ?d else ?d)"
    have en: "enrich (PDict ?d) k = (Inr (PDict d'), k)"
      by (auto simp: enrich_def d'_def sx_defs split: option.splits entity.splits)
    have d': "d' = ?d \<or> d' = dset ''auth'' EMPTY_AUTH ?d" by (simp add: d'_def)
    have t: "item_key (PDict d') ''target'' = Inr s" by (simp add: d'_def)
    let ?k = "k\<lparr>journal := journal k @
       [row (PStr KERNEL_IDENTITY) (PStr s) (PStr ''application'') (PDict d') ''routed'' PNone]\<rparr>"
    obtain k' where rt: "route e (PDict d') ?k = (Inr (), k')" "journal k' = journal ?k"
      using route_cases [of "{}" ?k, OF _ t, of e] k by (auto split: option.splits entity.splits)
    have "process_with e on_kernel_unknown (PDict ?d) k = (Inr (), k')"
      using 3 by (intro process_with_other [OF valid _ 3(1) en rec [OF _ d'] rt(1)]) (auto simp: set_dkeys)
    then show ?thesis using rt(2) d' unfolding run by auto
  qed
qed

lemma attempt_returns: "\<exists>err k'. attempt m k = (Inr err, k')"
  by (cases "m k"; cases "fst (m k)") (auto simp: attempt_def sx_defs)

definition answered :: "string \<Rightarrow> string \<Rightarrow> unit res \<times> kernel \<Rightarrow> bool" where
  "answered s c out \<longleftrightarrow> (\<exists>k' rows ev o' reason q. out = (Inr (), k')
     \<and> journal k' = rows @ [row (PStr KERNEL_IDENTITY) (PStr s) (PStr ''application'') ev o' reason]
     \<and> py_item ev ''payload'' = Inr (PDict q) \<and> field_is q ''command'' c)"

lemma attempt_answered:
  assumes "kinv {} k" and "ensures (kinv {}) body" and "s \<noteq> []"
    and "\<And>err. ans err = kernel_emit (process_emitted e) KERNEL_IDENTITY
          (PDict [(''target'', PStr s), (''kind'', PStr ''application''), (''payload'', PDict (q err))])"
    and "\<And>err. field_is (q err) ''command'' c"
  shows "answered s c (bind (attempt body) ans k)"
proof -
  obtain err k1 where at: "attempt body k = (Inr err, k1)" using attempt_returns by blast
  have "ensures (kinv {}) (attempt body)"
    unfolding attempt_def by (intro ensures_catch ensures_andthen ensures_ret assms(2))
  then have "kinv {} k1" using ensuresD [of "kinv {}" "attempt body" k] assms(1) at by simp
  from emit_recorded [OF this assms(3), of e "q err"] show ?thesis
    using at assms(5) [of err] unfolding answered_def bind_def assms(4) by auto
qed

lemma handlers_answered:
  assumes k: "kinv {} k" and s: "s \<noteq> []" and d: "field_is d ''source'' s"
    and p: "dget d ''payload'' = Some (PDict p)"
  shows "answered s ''device_installed'' (install e (process_emitted e) (PDict d) k)"
    and "answered s ''device_uninstalled'' (uninstall (process_emitted e) (PDict d) k)"
    and "answered s ''maintenance_session_started'' (maintenance_session e (process_emitted e) (PDict d) k)"
    and "answered s (if g then ''scope_granted'' else ''scope_revoked'') (scope (process_emitted e) (PDict d) g k)"
proof -
  have src: "py_item (PDict d) ''source'' = Inr (PStr s)" "item_key (PDict d) ''source'' = Inr s"
    and pay: "py_item (PDict d) ''payload'' = Inr (PDict p)"
    using d p by (simp_all add: field_is_def)
  note simps = pay src bind_lift_fun source_of_def ack_def py_get_or.simps bind_ret_fun
  show "answered s ''device_installed'' (install e (process_emitted e) (PDict d) k)"
    unfolding install_def simps
    by (rule attempt_answered [OF k kinv_install_body s refl]) (simp add: field_is_def)
  show "answered s ''device_uninstalled'' (uninstall (process_emitted e) (PDict d) k)"
    unfolding uninstall_def simps
    by (rule attempt_answered [OF k kinv_uninstall_body s refl]) (simp add: field_is_def)
  show "answered s ''maintenance_session_started'' (maintenance_session e (process_emitted e) (PDict d) k)"
    unfolding maintenance_session_def simps
    by (rule attempt_answered [OF k kinv_maintenance_body s refl]) (simp add: field_is_def)
  show "answered s (if g then ''scope_granted'' else ''scope_revoked'') (scope (process_emitted e) (PDict d) g k)"
    unfolding scope_def simps scope_ack_def
    by (rule attempt_answered [OF k kinv_scope_body s refl]) (simp add: field_is_def)
qed

text \<open>
  C10. Every kernel command in a valid event is answered, whether it succeeds, is refused or fails
  half-way: processing it never raises, and the last thing the journal records is the kernel's
  answer to the source of the command.
\<close>

theorem commands_answered:
  assumes "reachable k" and "wf_event (dkeys (entities k)) (PDict d)"
    and "field_is d ''source'' s" and "field_is d ''target'' KERNEL_IDENTITY"
    and "dget d ''payload'' = Some (PDict p)" and "field_is p ''command'' c" and "c \<in> HANDLED"
  shows "\<exists>k' rows ev out reason q. process_event e (PDict d) k = (Inr (), k')
     \<and> journal k' = rows @ [row (PStr KERNEL_IDENTITY) (PStr s) (PStr ''application'') ev out reason]
     \<and> py_item ev ''payload'' = Inr (PDict q) \<and> field_is q ''command'' (answer c)"
proof -
  note k = reachable_kinv [OF assms(1)]
  note f = valid_fields [OF assms(2-4)]
  obtain k1 where rec: "record_event (PDict d) ''routed'' PNone k = (Inr (), k1)" and k1: "kinv {} k1"
    using record_event_run [OF f(3-6), of PNone "''routed''" k] k by auto
  have s: "s \<noteq> []" using assms(2,3) by (auto simp: wf_event_def field_is_def)
  have "process_event e (PDict d) k = on_kernel e (process_emitted e) (PDict d) k1"
    unfolding process_event_def
    by (rule process_with_kernel [OF assms(2) _ rec]) (use assms(4) in \<open>simp add: field_is_def\<close>)
  also have "answered s (answer c) (on_kernel e (process_emitted e) (PDict d) k1)"
    using handlers_answered [OF k1 s assms(3,5), where e = e] assms(5-7)
    by (auto simp: on_kernel_def field_is_def HANDLED_def)
  finally show ?thesis unfolding answered_def .
qed

end
