(* ===== verification/Channel.thy ===== *)
theory Channel
  imports KernelEffects
begin

text \<open>
  The host's side of a process's channel (\<^verbatim>\<open>ProcessHandle._read_loop\<close> in
  \<^verbatim>\<open>kernel/process_handle.py\<close>): what the process writes reaches the kernel's bus with the identity of
  the process as its source.
\<close>

text \<open>What one round of the reader's loop can observe.\<close>

datatype observation =
    Dead
  | NothingYet
  | Closed
  | Received pyval

fun read_loop :: "string \<Rightarrow> observation list \<Rightarrow> pyval list" where
  "read_loop i [] = []"
| "read_loop i (Dead # obs) = []"
| "read_loop i (NothingYet # obs) = read_loop i obs"
| "read_loop i (Closed # obs) = []"
| "read_loop i (Received (PDict d) # obs) = PDict (dset ''source'' (PStr i) d) # read_loop i obs"
| "read_loop i (Received _ # obs) = read_loop i obs"

lemma read_loop_stamped:
  "ev \<in> set (read_loop i obs) \<Longrightarrow> \<exists>d. ev = PDict d \<and> field_is d ''source'' i"
  by (induction i obs rule: read_loop.induct) (auto simp: field_is_def)

lemma speaks_images:
  assumes "speaks S k k'"
  shows "\<exists>rows new q. journal k' = journal k @ rows \<and> sent k' = sent k @ new \<and> kqueue k' = kqueue k @ q
    \<and> j_source ` set rows \<subseteq> S \<and> source_val ` snd ` {p \<in> set new. snd p \<noteq> terminate_event (fst p)} \<subseteq> S
    \<and> source_val ` snd ` set q \<subseteq> S"
proof -
  obtain rows new q where *: "journal k' = journal k @ rows" "sent k' = sent k @ new" "kqueue k' = kqueue k @ q"
    "\<forall>w \<in> set rows. j_source w \<in> S" "\<forall>(t, ev) \<in> set new. ev = terminate_event t \<or> source_val ev \<in> S"
    "\<forall>(t, ev) \<in> set q. source_val ev \<in> S"
    using assms unfolding speaks_def by blast
  have "j_source ` set rows \<subseteq> S" using *(4) by blast
  moreover have "source_val ` snd ` {p \<in> set new. snd p \<noteq> terminate_event (fst p)} \<subseteq> S" using *(5) by fastforce
  moreover have "source_val ` snd ` set q \<subseteq> S" using *(6) by fastforce
  ultimately show ?thesis using *(1-3) by blast
qed

text \<open>
  C14. A process cannot speak in another's name: whatever it writes to its channel, the event that reaches the
  kernel has the identity of the process as its source, whoever it claimed to be; and whatever the kernel then writes to the
  journal, to the channels of processes and to the queues of its devices while it processes the event, commands
  included, names as its source that identity, the kernel or the Authority, and nobody else, apart from the order to
  terminate that a process gets when it is taken down.
\<close>

theorem process_cannot_impersonate:
  assumes "ev \<in> set (read_loop i obs)" and "process_event e ev k = (r, k')"
  shows "source_val ev = PStr i
    \<and> (\<exists>rows new q. journal k' = journal k @ rows \<and> sent k' = sent k @ new \<and> kqueue k' = kqueue k @ q
        \<and> j_source ` set rows \<subseteq> {PStr i, PStr KERNEL_IDENTITY, PStr ''authority''}
        \<and> source_val ` snd ` {p \<in> set new. snd p \<noteq> terminate_event (fst p)} \<subseteq> {PStr i, PStr KERNEL_IDENTITY, PStr ''authority''}
        \<and> source_val ` snd ` set q \<subseteq> {PStr i, PStr KERNEL_IDENTITY, PStr ''authority''})"
proof -
  let ?S = "{PStr i, PStr KERNEL_IDENTITY, PStr ''authority''}"
  have src: "source_val ev = PStr i" using read_loop_stamped [OF assms(1)] by (auto simp: source_val_def field_is_def)
  then have "speaks ?S k k'" using saysD [OF says_process_event, of ?S ev k e] assms(2) by simp
  from speaks_images [OF this] src show ?thesis by simp
qed

end
