(* ===== verification/KernelExamples.thy ===== *)
theory KernelExamples
  imports Channel
begin

text \<open>
  A small organisation run through the kernel's own operations: an agent at the root position and
  one device, started from a configuration.  It shows that the hypotheses of the kernel's theorems
  hold together.
\<close>

definition ex_env :: env where
  "ex_env = \<lparr>modules = (\<lambda>path. if path = ''/r/home/clock/device.py''
       then Module (Some (PList [PDict [(''name'', PStr ''now'')]]))
              (Some (PList [PDict [(''token'', PStr ''use''), (''default'', PBool True)]]))
       else NoSource),
     spawn_error = (\<lambda>_. None)\<rparr>"

definition ex_agents :: "pyval list" where
  "ex_agents = [PDict [(''identity'', PStr ''boss''), (''type'', PStr ''agent''),
       (''options'', PDict [(''position'', PStr ''root'')])],
     PDict [(''identity'', PStr ''bob''), (''type'', PStr ''agent''),
       (''options'', PDict [(''position'', PStr ''worker'')])]]"

definition ex_devices :: "pyval list" where
  "ex_devices = [PDict [(''identity'', PStr ''clock''), (''source'', PStr ''clock.py''),
       (''grants'', PList [PStr ''worker''])]]"

definition ex_event :: "string \<Rightarrow> string \<Rightarrow> string \<Rightarrow> (string, pyval) dict \<Rightarrow> (string, pyval) dict" where
  "ex_event s t kd p = [(''source'', PStr s), (''target'', PStr t), (''kind'', PStr kd), (''payload'', PDict p)]"

text \<open>Running the kernel: the definitions applied to a state, so that only what is reached is unfolded.\<close>

lemmas run_monad = bind_def [THEN fun_cong] andthen_def [THEN fun_cong] ret_def [THEN fun_cong]
  throw_def [THEN fun_cong] lift_def [THEN fun_cong] asks_def [THEN fun_cong] modify_def [THEN fun_cong]
  guard_def [THEN fun_cong] catch_def [THEN fun_cong] attempt_def [THEN fun_cong]

lemmas run_kernel = setup_all_def [THEN fun_cong] setup_agent_def [THEN fun_cong]
  setup_device_def [THEN fun_cong] install_from_config_def [THEN fun_cong] register_def [THEN fun_cong]
  new_handle_def [THEN fun_cong] ensure_process_def [THEN fun_cong] spawn_def [THEN fun_cong]
  makedirs_def [THEN fun_cong] set_entity_def [THEN fun_cong] inject_def [THEN fun_cong]
  kernel_emit_def [THEN fun_cong] process_event_def [THEN fun_cong, THEN fun_cong]
  process_emitted_def [THEN fun_cong, THEN fun_cong] process_with_def [THEN fun_cong]
  enrich_def [THEN fun_cong] record_event_def [THEN fun_cong] on_journal_def [THEN fun_cong]
  journal_respond_def [THEN fun_cong] route_def [THEN fun_cong] deliver_def [THEN fun_cong]
  send_def [THEN fun_cong] on_kernel_def [THEN fun_cong] build_inject_def [THEN fun_cong]
  inject_request_def [THEN fun_cong]

lemmas run_values = ex_env_def ex_agents_def ex_devices_def init_kernel_def init_authority_def
  KERNEL_IDENTITY_def

lemmas run_process = illegal_name_def agent_init_def user_mode_init_def validate_identity_def
  load_module_def device_source_def home_of_def path_join_def scope_shape_def

lemmas run_authority = visible_def add_tools_def add_tool_def entry_def add_skills_def add_skill_def
  perm_entry_def grants_of_def inject_event_def add_grant_def setdefault_grants_def agents_def

lemmas run_validate = validate_event_def kernel_rules_def DEFAULT_RULES_def reject_unless_def py_in_strs_def
  KIND_LEVELS_def system_command_validate_def SYSTEM_COMMANDS_def KERNEL_COMMANDS_def

lemma run_ask_inject:
  "ask [(''command'', PStr ''inject_request''), (''agent'', PStr i)] k
    = (case build_inject i (auth k) of (r, a) \<Rightarrow> (r, k\<lparr>auth := a\<rparr>))"
  by (simp add: ask_defs inject_request_def bind_lift_fun)

lemmas runs = run_values run_kernel run_monad run_process run_authority run_validate run_ask_inject
  item_key_def Let_def dkeys_def py_or_def system_event_def on_kernel_unknown_def [THEN fun_cong]

text \<open>The state the configuration starts, written out.\<close>

definition ex_tool :: pyval where
  "ex_tool = entry_val ''tool:clock:now'' ''tool'' (PStr ''now'') (PStr []) (PDict []) (PInt 10) [] (PInt 1) ''clock''"

definition ex_skill :: pyval where
  "ex_skill = entry_val ''perm:clock:use'' ''skill'' (PStr ''clock:use'') (PStr []) (PDict []) (PInt 10) []
     (PInt 1) ''clock''"

definition ex_injection :: "string \<Rightarrow> pyval list \<Rightarrow> pyval" where
  "ex_injection i entries = PDict [(''target'', PStr i), (''kind'', PStr ''application''),
     (''payload'', PDict [(''command'', PStr ''inject''), (''entries'', PList entries), (''evict'', PList [])]),
     (''source'', PStr ''authority'')]"

definition ex_proc :: "string \<Rightarrow> load_spec option \<Rightarrow> pyval \<Rightarrow> proc" where
  "ex_proc i load m = \<lparr>p_identity = i, p_root = ''/r'', p_home = ''/r/home/'' @ i, p_load = load, p_max = m,
     p_maint = None, p_network = PBool False, p_workdir = None\<rparr>"

definition ex_agent :: "string \<Rightarrow> string \<Rightarrow> string \<times> entity" where
  "ex_agent i pos = (i, EHandle \<lparr>h_spec = SpawnAgent (PDict [(''position'', PStr pos)]),
     h_process = Some (ex_proc i None (PInt 1))\<rparr>)"

definition ex_info :: "string \<Rightarrow> string \<Rightarrow> string \<times> info" where
  "ex_info i pos = (i, \<lparr>i_tools = PList [], i_scopes = PList [], i_agent = True, i_position = PStr pos\<rparr>)"

definition ex_row :: "string \<Rightarrow> pyval \<Rightarrow> jrow" where
  "ex_row i ev = \<lparr>j_source = PStr ''authority'', j_target = PStr i, j_kind = PStr ''application'',
     j_payload = ev, j_outcome = PStr ''routed'', j_reason = PNone\<rparr>"

definition ex_kernel :: kernel where
  "ex_kernel =
     \<lparr>runtime_root = ''/r'',
      entities = [(''kernel'', EKernel), (''authority'', EKernelDevice), (''journal'', EKernelDevice),
        ex_agent ''boss'' ''root'', ex_agent ''bob'' ''worker'',
        (''clock'', EHandle \<lparr>h_spec = SpawnDevice ''/r/home/clock/device.py'' (PDict []),
           h_process = Some (ex_proc ''clock'' (Some (''clock'', ''/r/home/clock/device.py'', PDict [])) (PInt 0))\<rparr>)],
      agent_ids = [''boss'', ''bob''],
      auth = \<lparr>identities = [ex_info ''boss'' ''root'', ex_info ''bob'' ''worker'',
          (''clock'', \<lparr>i_tools = PList [PDict [(''name'', PStr ''now'')]],
             i_scopes = PList [PDict [(''token'', PStr ''use''), (''default'', PBool True)]],
             i_agent = False, i_position = PNone\<rparr>)],
        grants = [(''worker'', [(''clock'', ''use'')])],
        injected = [(''boss'', []), (''bob'', [(''now'', ex_tool), (''clock:use'', ex_skill)])]\<rparr>,
      journal = [ex_row ''boss'' (ex_injection ''boss'' []),
        ex_row ''bob'' (ex_injection ''bob'' [ex_tool, ex_skill])],
      kqueue = [],
      sent = [(''boss'', ex_injection ''boss'' []), (''bob'', ex_injection ''bob'' [ex_tool, ex_skill])],
      killed = [], dead = [], homes = [''authority'', ''journal'', ''boss'', ''bob'', ''clock'']\<rparr>"

lemmas ex_defs = ex_kernel_def ex_tool_def ex_skill_def ex_injection_def ex_proc_def ex_agent_def ex_info_def
  ex_row_def VOID_def dvals_def

lemma ex_boot: "setup_all ex_env ex_agents ex_devices (init_kernel ''/r'' []) = (Inr (), ex_kernel)"
  by (simp add: runs ex_defs)

lemma ex_config: "config_ok ex_agents ex_devices"
  by (simp add: config_ok_def ex_agents_def ex_devices_def RESERVED_def KERNEL_IDENTITY_def item_key_def)

lemma ex_execution: "execution ex_agents ex_devices [] ex_kernel"
  by (rule execution.boot [OF ex_boot])

lemma ex_reachable: "reachable ex_kernel"
  unfolding reachable_def
  by (intro exI [of _ ex_agents] exI [of _ ex_devices] exI [of _ "[]"] conjI ex_config ex_execution)
    (simp add: no_system_def ex_kernel_def ex_agent_def)

section \<open>The theorems at work on it\<close>

lemma pair_fst: "fst p = x \<Longrightarrow> p = (x, snd p)"
  by (cases p) simp

lemmas ex_auth = may_maintain_def authorized_def askable_def position_of_def holds_def grants_of_def

definition ex_usurp :: pyval where
  "ex_usurp = PDict (ex_event ''bob'' ''authority'' ''application'' [(''command'', PStr ''grant_request''),
     (''position'', PStr ''worker''), (''device'', PStr ''org''), (''token'', PStr ''grant'')])"

theorem unprivileged_event_changes_nothing_witness:
  "\<exists>r k1 k'. process_event ex_env ex_usurp ex_kernel = (r, k1)
     \<and> serve_each ex_env (drop (length (kqueue ex_kernel)) (kqueue k1)) k1 = k'
     \<and> auth k' = auth ex_kernel \<and> etable k' = etable ex_kernel
     \<and> agent_ids k' = agent_ids ex_kernel \<and> killed k' = killed ex_kernel"
proof -
  obtain r k1 where run: "process_event ex_env ex_usurp ex_kernel = (r, k1)" by (meson surj_pair)
  have "item_key ex_usurp ''source'' = Inr ''bob''" "''bob'' \<noteq> ''system''" by (simp_all add: ex_event_def ex_usurp_def)
  moreover have "\<not> may_maintain (auth ex_kernel) ''bob'' i" for i
    by (simp add: ex_auth ex_defs KERNEL_IDENTITY_def ROOT_POSITION_def ORG_DEVICE_def)
  moreover have "\<not> authorized (auth ex_kernel) ''bob'' ''grant''"
    by (simp add: ex_auth ex_defs ROOT_POSITION_def ORG_DEVICE_def)
  ultimately show ?thesis using unprivileged_event_changes_nothing [OF _ _ _ _ run refl] run by blast
qed

theorem reachable_invariant_witness:
  "config_ok ex_agents ex_devices \<and> execution ex_agents ex_devices [] ex_kernel
     \<and> dget (entities ex_kernel) ''clock'' \<noteq> None \<and> dget (identities (auth ex_kernel)) ''clock'' \<noteq> None
     \<and> set (agent_ids ex_kernel) \<subseteq> set (agents (auth ex_kernel))"
proof -
  obtain h where h: "dget (entities ex_kernel) ''clock'' = Some (EHandle h)" by (simp add: ex_defs)
  show ?thesis
    using reachable_invariant [OF ex_config ex_execution] h ex_config ex_execution by simp
qed

lemma agents_persist_example:
  "\<exists>r k'. process_event ex_env (PDict (ex_event ''boss'' ''kernel'' ''system''
        [(''command'', PStr ''uninstall_device''), (''identity'', PStr ''bob'')])) ex_kernel = (r, k')
     \<and> ''bob'' \<in> set (agents (auth k'))"
proof -
  let ?ev = "PDict (ex_event ''boss'' ''kernel'' ''system''
        [(''command'', PStr ''uninstall_device''), (''identity'', PStr ''bob'')])"
  obtain r k' where run: "process_event ex_env ?ev ex_kernel = (r, k')" by (meson surj_pair)
  have "''bob'' \<in> set (agents (auth ex_kernel))" by (simp add: agents_def ex_defs)
  then show ?thesis using agents_persist [OF ex_reachable run] run by blast
qed

definition ex_uninstall :: pyval where
  "ex_uninstall = PDict (ex_event ''boss'' ''kernel'' ''system''
     [(''command'', PStr ''uninstall_device''), (''identity'', PStr ''clock'')])"

lemmas run_uninstall = uninstall_body_def [THEN fun_cong] uninstall_running_def [THEN fun_cong]
  check_identity_def [THEN fun_cong] source_of_def [THEN fun_cong] refuse_kernel_mode_def [THEN fun_cong]
  take_down_def [THEN fun_cong] del_entity_def [THEN fun_cong] terminate_def [THEN fun_cong]
  keep_maintain_def [THEN fun_cong] device_grants_def drop_device_def dpop_def reply_def

lemma ex_uninstall_runs:
  "fst (uninstall_body (process_emitted ex_env) ex_uninstall (PDict [(''identity'', PStr ''clock'')]) ex_kernel) = Inr ()"
  by (simp add: run_uninstall runs ex_defs ex_uninstall_def ex_event_def ex_auth ROOT_POSITION_def) auto

theorem uninstall_effect_witness:
  "\<exists>k'. uninstall_body (process_emitted ex_env) ex_uninstall (PDict [(''identity'', PStr ''clock'')]) ex_kernel
        = (Inr (), k') \<and> dget (entities k') ''clock'' = None \<and> killed k' = [''clock''] \<and> grant_rel (auth k') = {}"
proof -
  obtain k' where run: "uninstall_body (process_emitted ex_env) ex_uninstall
      (PDict [(''identity'', PStr ''clock'')]) ex_kernel = (Inr (), k')"
    using pair_fst [OF ex_uninstall_runs] by blast
  have "grant_rel (auth ex_kernel) = {(''worker'', ''clock'', ''use'')}"
    by (auto simp: gt.rel_def holds_def grants_of_def ex_defs split: if_splits)
  moreover have "killed ex_kernel = []" by (simp add: ex_defs)
  ultimately show ?thesis
    using uninstall_effect [OF ex_reachable _ run, of "''clock''"] run by auto
qed

definition ex_install :: "(string, pyval) dict" where
  "ex_install = [(''command'', PStr ''install_device''), (''identity'', PStr ''clock''),
     (''grants'', PList [PStr ''lead''])]"

lemmas run_install = install_body_def [THEN fun_cong] install_loaded_def [THEN fun_cong]
  install_new_def [THEN fun_cong] check_grants_def [THEN fun_cong]

lemma ex_install_runs:
  "fst (install_body ex_env (process_emitted ex_env) (PDict (ex_event ''boss'' ''kernel'' ''system'' ex_install))
     (PDict ex_install) ex_kernel) = Inr ()"
  by (simp add: run_install run_uninstall runs ex_defs ex_install_def ex_event_def ex_auth ROOT_POSITION_def) auto

theorem install_effect_witness:
  "\<exists>k'. install_body ex_env (process_emitted ex_env) (PDict (ex_event ''boss'' ''kernel'' ''system'' ex_install))
        (PDict ex_install) ex_kernel = (Inr (), k')
     \<and> grant_rel (auth k') = {(''lead'', ''clock'', ''use'')} \<and> killed k' = [''clock'']"
proof -
  obtain k' where run: "install_body ex_env (process_emitted ex_env)
      (PDict (ex_event ''boss'' ''kernel'' ''system'' ex_install)) (PDict ex_install) ex_kernel = (Inr (), k')"
    using pair_fst [OF ex_install_runs] by blast
  have "grant_rel (auth ex_kernel) = {(''worker'', ''clock'', ''use'')}"
    by (auto simp: gt.rel_def holds_def grants_of_def ex_defs split: if_splits)
  moreover have "killed ex_kernel = []" "etable ex_kernel ''clock'' \<noteq> None" by (simp_all add: ex_defs etable_def)
  moreover have "py_get (PDict ex_install) ''identity'' = Inr (PStr ''clock'')"
    "py_get (PDict ex_install) ''grants'' = Inr (PList [PStr ''lead''])" by (simp_all add: ex_install_def)
  moreover have "load_module ex_env (device_source ex_kernel ''clock'')
      = Inr ([PDict [(''name'', PStr ''now'')]], [PDict [(''token'', PStr ''use''), (''default'', PBool True)]])"
    by (simp add: runs ex_defs)
  moreover have "defaults [PDict [(''token'', PStr ''use''), (''default'', PBool True)]] = Inr [''use'']"
    by simp
  ultimately show ?thesis
    using install_effect [OF ex_reachable _ _ _ _ run] run by auto
qed

lemma ex_scope_runs:
  "fst (scope_body (process_emitted ex_env) (PDict (ex_event ''boss'' ''kernel'' ''system'' [])) True
     (PStr ''lead'') (PStr ''clock'') (PStr ''use'') ex_kernel) = Inr ()"
  by (simp add: scope_body_def [THEN fun_cong] scope_apply_def [THEN fun_cong] source_of_def [THEN fun_cong]
      ask_scope [where b = True, simplified] runs ex_defs ex_event_def ex_auth ROOT_POSITION_def ORG_DEVICE_def)

lemma scope_effect_example:
  "\<exists>k'. scope_body (process_emitted ex_env) (PDict (ex_event ''boss'' ''kernel'' ''system'' [])) True
        (PStr ''lead'') (PStr ''clock'') (PStr ''use'') ex_kernel = (Inr (), k')
     \<and> (''lead'', ''clock'', ''use'') \<in> grant_rel (auth k')"
proof -
  obtain k' where run: "scope_body (process_emitted ex_env) (PDict (ex_event ''boss'' ''kernel'' ''system'' []))
      True (PStr ''lead'') (PStr ''clock'') (PStr ''use'') ex_kernel = (Inr (), k')"
    using pair_fst [OF ex_scope_runs] by blast
  have "item_key (PDict (ex_event ''boss'' ''kernel'' ''system'' [])) ''source'' = Inr ''boss''"
    by (simp add: ex_event_def)
  from scope_effect [OF ex_reachable this run] run show ?thesis by simp
qed

theorem invalid_event_dropped_witness:
  "process_event ex_env (PDict (ex_event ''bob'' ''clock'' ''gossip'' [])) ex_kernel
    = (Inr (), ex_kernel\<lparr>journal := journal ex_kernel @ [row (PStr ''bob'') (PStr ''clock'') (PStr ''gossip'')
         (PDict (ex_event ''bob'' ''clock'' ''gossip'' [])) ''dropped'' (PStr ''unknown kind'')]\<rparr>)"
proof -
  have "validate_event (PDict (ex_event ''bob'' ''clock'' ''gossip'' []))
      (kernel_rules (dkeys (entities ex_kernel))) = Inl (EventError ''unknown kind'')"
    by (simp add: run_validate ex_event_def)
  from invalid_event_dropped [OF this, of ex_env] show ?thesis
    by (simp add: ex_event_def field_def py_or_def rbind_def)
qed

theorem valid_event_delivered_witness:
  "\<exists>k'. process_event ex_env (PDict ((''auth'', PStr ''forged'') # ex_event ''bob'' ''clock'' ''application'' []))
       ex_kernel = (Inr (), k')
     \<and> sent k' = sent ex_kernel @ [(''clock'', PDict ((''auth'', auth_context (auth ex_kernel) ''bob'')
          # ex_event ''bob'' ''clock'' ''application'' []))]"
proof -
  let ?d = "(''auth'', PStr ''forged'') # ex_event ''bob'' ''clock'' ''application'' []"
  have "wf_event (dkeys (entities ex_kernel)) (PDict ?d)"
    by (simp add: wf_event_def field_is_def ex_event_def ex_defs dkeys_def)
  moreover have "field_is ?d ''source'' ''bob''" "field_is ?d ''target'' ''clock''"
    by (simp_all add: field_is_def ex_event_def)
  moreover obtain h where "dget (entities ex_kernel) ''clock'' = Some (EHandle h)" by (simp add: ex_defs)
  ultimately show ?thesis
    using valid_event_delivered [OF ex_reachable, of ?d "''bob''" "''clock''"]
    by (simp add: attached_def ex_defs KERNEL_IDENTITY_def Let_def)
qed

theorem commands_answered_witness:
  "\<exists>k' rows ev out reason q. process_event ex_env
       (PDict (ex_event ''bob'' ''kernel'' ''system'' ex_install)) ex_kernel = (Inr (), k')
     \<and> journal k' = rows @ [row (PStr KERNEL_IDENTITY) (PStr ''bob'') (PStr ''application'') ev out reason]
     \<and> py_item ev ''payload'' = Inr (PDict q) \<and> field_is q ''command'' ''device_installed''"
proof -
  let ?d = "ex_event ''bob'' ''kernel'' ''system'' ex_install"
  have "wf_event (dkeys (entities ex_kernel)) (PDict ?d)"
    by (simp add: wf_event_def wf_system_def field_is_def ex_event_def ex_install_def ex_defs dkeys_def KERNEL_COMMANDS_def)
  moreover have "field_is ?d ''source'' ''bob''" "field_is ?d ''target'' KERNEL_IDENTITY"
    "dget ?d ''payload'' = Some (PDict ex_install)"
    "field_is ex_install ''command'' ''install_device''" "''install_device'' \<in> HANDLED"
    by (simp_all add: field_is_def ex_event_def KERNEL_IDENTITY_def ex_install_def HANDLED_def)
  ultimately show ?thesis
    using commands_answered [OF ex_reachable, of ?d "''bob''" ex_install "''install_device''"] by simp
qed


text \<open>Bob's process writes an event that claims to come from the kernel.\<close>

theorem process_cannot_impersonate_witness:
  "\<exists>ev r k' rows. ev \<in> set (read_loop ''bob'' [Received (PDict (ex_event ''kernel'' ''kernel'' ''system''
        [(''command'', PStr ''uninstall_device''), (''identity'', PStr ''clock'')]))])
     \<and> source_val ev = PStr ''bob'' \<and> process_event ex_env ev ex_kernel = (r, k') \<and> journal k' = journal ex_kernel @ rows
     \<and> j_source ` set rows \<subseteq> {PStr ''bob'', PStr KERNEL_IDENTITY, PStr ''authority''}"
proof -
  let ?obs = "[Received (PDict (ex_event ''kernel'' ''kernel'' ''system''
        [(''command'', PStr ''uninstall_device''), (''identity'', PStr ''clock'')]))]"
  obtain ev where ev: "ev \<in> set (read_loop ''bob'' ?obs)" by simp
  obtain r k' where run: "process_event ex_env ev ex_kernel = (r, k')" by (meson surj_pair)
  from process_cannot_impersonate [OF ev run] obtain rows where "source_val ev = PStr ''bob''"
    "journal k' = journal ex_kernel @ rows" "j_source ` set rows \<subseteq> {PStr ''bob'', PStr KERNEL_IDENTITY, PStr ''authority''}"
    by (elim conjE exE) (rule that)
  with ev run show ?thesis by (intro exI conjI)
qed

text \<open>
  Nothing keeps a process from being registered as "system", the name under which the kernel itself addresses the
  Authority.  What such a process writes is obeyed: here it gives the position of a worker the right to grant.
\<close>

definition ex_system :: pyval where
  "ex_system = hd (read_loop ''system'' [Received (PDict (ex_event ''x'' ''authority'' ''application''
     [(''command'', PStr ''grant_request''), (''position'', PStr ''worker''), (''device'', PStr ''org''), (''token'', PStr ''grant'')]))])"

lemma system_process_obeyed:
  "\<not> illegal_name ''system''"
  "holds (auth (serve_each ex_env [(''authority'', ex_system)] ex_kernel)) ''worker'' ''org'' ''grant''"
  by (simp add: illegal_name_def)
    (simp add: serve_each_def serve_kernel_device_def [THEN fun_cong] on_authority_def respond_def [THEN fun_cong] grant_request_def [THEN fun_cong]
      ex_system_def ex_event_def holds_def grants_of_def add_grant_def setdefault_grants_def runs ex_defs)

text \<open>A configuration may give an agent the name of an in-process device, which it then replaces in the table.\<close>

lemma config_displaces_authority:
  "\<exists>k h. setup_all ex_env [PDict [(''identity'', PStr ''authority''), (''type'', PStr ''agent''),
       (''options'', PDict [(''position'', PStr ''root'')])]] [] (init_kernel ''/r'' []) = (Inr (), k)
     \<and> dget (entities k) ''authority'' = Some (EHandle h)"
  by (simp add: runs)

text \<open>A refused event whose target is a list makes the database raise, and the exception escapes the kernel's processing.\<close>

lemma refused_event_escapes:
  "process_event ex_env (PDict [(''source'', PStr ''bob''), (''target'', PList []), (''kind'', PStr ''application'')]) ex_kernel
     = (Inl ProgrammingError, ex_kernel)"
  by (simp add: runs ex_defs)

end
