(* ===== verification/Dispatcher.thy ===== *)
theory Dispatcher
  imports KernelLemmas
begin

text \<open>
  The event dispatcher of a process (\<^verbatim>\<open>BucketDispatcher\<close> in \<^verbatim>\<open>kernel/process.py\<close>) and the loop that
  feeds it (\<^verbatim>\<open>UserModeProcess._serve\<close>).  The tasks of the event loop are a list of workers; each step
  is the code between two awaits.  What the process's handler returns or raises is outside this
  component, so a step may continue with any result.  Ghost fields record what was submitted, what
  was handed to the handler and what was emitted.
\<close>

section \<open>State\<close>

text \<open>Where a worker is suspended: at the semaphore, at its queue, in the handler, or in an emission.\<close>

datatype wstate = AtSemaphore | AtQueue | InRespond pyval | InEmit

record dispatcher =
  max_sources :: int
  queues :: "(string, pyval list) dict"
  running :: "string list"
  workers :: "(string \<times> wstate) list"
  permits :: int
  submitted :: "(string \<times> pyval) list"
  handled :: "(string \<times> pyval) list"
  emitted :: "pyval list"

definition new_dispatcher :: "int \<Rightarrow> dispatcher" where
  "new_dispatcher m = \<lparr>max_sources = m, queues = [], running = [], workers = [], permits = m,
     submitted = [], handled = [], emitted = []\<rparr>"

definition queue :: "dispatcher \<Rightarrow> string \<Rightarrow> pyval list" where
  "queue b s = (case dget (queues b) s of None \<Rightarrow> [] | Some q \<Rightarrow> q)"

section \<open>Operations\<close>

text \<open>\<^verbatim>\<open>submit\<close>: into the source's queue; a source without a worker gets one.\<close>

definition submit :: "pyval \<Rightarrow> dispatcher \<Rightarrow> dispatcher res" where
  "submit ev b =
     rbind (item_key ev ''source'') (\<lambda>s.
     let b1 = b\<lparr>queues := dset s (queue b s @ [ev]) (queues b), submitted := submitted b @ [(s, ev)]\<rparr> in
     Inr (if s \<in> set (running b) then b1
          else b1\<lparr>running := running b @ [s],
                 workers := workers b @ [(s, if max_sources b > 0 then AtSemaphore else AtQueue)]\<rparr>))"

definition set_worker :: "nat \<Rightarrow> wstate \<Rightarrow> dispatcher \<Rightarrow> dispatcher" where
  "set_worker i w b = b\<lparr>workers := (workers b)[i := (fst (workers b ! i), w)]\<rparr>"

definition drop_worker :: "nat \<Rightarrow> dispatcher \<Rightarrow> dispatcher" where
  "drop_worker i b = b\<lparr>workers := take i (workers b) @ drop (Suc i) (workers b)\<rparr>"

text \<open>The \<^verbatim>\<open>finally\<close> block: the source may get a new worker, the slot is free.\<close>

definition finish :: "nat \<Rightarrow> dispatcher \<Rightarrow> dispatcher" where
  "finish i b =
     (let s = fst (workers b ! i) in
      (drop_worker i b)\<lparr>running := removeAll s (running b),
         permits := (if max_sources b > 0 then permits b + 1 else permits b)\<rparr>)"

text \<open>After an emission (or none): the worker ends when its queue is empty, else takes the next event.\<close>

definition next_round :: "nat \<Rightarrow> dispatcher \<Rightarrow> dispatcher" where
  "next_round i b = (if queue b (fst (workers b ! i)) = [] then finish i b else set_worker i AtQueue b)"

text \<open>
  The handler returned: nothing at all (a violation of the protocol, the worker goes back to its
  queue), silence (perhaps with a receipt), or an event.
\<close>

definition responded :: "nat \<Rightarrow> pyval \<Rightarrow> pyval \<Rightarrow> dispatcher \<Rightarrow> dispatcher" where
  "responded i ev r b =
     (if r = PNone then set_worker i AtQueue b
      else if r \<noteq> VOID then (set_worker i InEmit b)\<lparr>emitted := emitted b @ [r]\<rparr>
      else case py_get ev ''receipt'' of
          Inl _ \<Rightarrow> finish i b
        | Inr w \<Rightarrow> if truthy w
            then (case receipt_event ev of
                    Inl _ \<Rightarrow> finish i b
                  | Inr rc \<Rightarrow> (set_worker i InEmit b)\<lparr>emitted := emitted b @ [rc]\<rparr>)
            else next_round i b)"

definition acquire :: "nat \<Rightarrow> dispatcher \<Rightarrow> dispatcher" where
  "acquire i b = (set_worker i AtQueue b)\<lparr>permits := permits b - 1\<rparr>"

definition get_event :: "nat \<Rightarrow> dispatcher \<Rightarrow> dispatcher" where
  "get_event i b =
     (let s = fst (workers b ! i); ev = hd (queue b s) in
      (set_worker i (InRespond ev) b)\<lparr>queues := dset s (tl (queue b s)) (queues b),
         handled := handled b @ [(s, ev)]\<rparr>)"

text \<open>One step of the event loop.\<close>

inductive dstep :: "dispatcher \<Rightarrow> dispatcher \<Rightarrow> bool" where
  Submit: "submit ev b = Inr b' \<Longrightarrow> dstep b b'"
| Acquire: "i < length (workers b) \<Longrightarrow> snd (workers b ! i) = AtSemaphore \<Longrightarrow> permits b > 0
    \<Longrightarrow> dstep b (acquire i b)"
| Get: "i < length (workers b) \<Longrightarrow> snd (workers b ! i) = AtQueue \<Longrightarrow> queue b (fst (workers b ! i)) \<noteq> []
    \<Longrightarrow> dstep b (get_event i b)"
| Respond: "i < length (workers b) \<Longrightarrow> snd (workers b ! i) = InRespond ev \<Longrightarrow> dstep b (responded i ev r b)"
| Emit: "i < length (workers b) \<Longrightarrow> snd (workers b ! i) = InEmit \<Longrightarrow> dstep b (next_round i b)"
| Fail: "i < length (workers b) \<Longrightarrow> snd (workers b ! i) = InEmit \<or> (\<exists>ev. snd (workers b ! i) = InRespond ev)
    \<Longrightarrow> dstep b (finish i b)"

interpretation disp: trans_sys "\<lambda>b. \<exists>m. b = new_dispatcher m" dstep .

text \<open>
  The child's receive loop: events are submitted in the order received; a terminate command ends
  the loop.
\<close>

definition is_terminate :: "pyval \<Rightarrow> bool res" where
  "is_terminate ev =
     rbind (py_get ev ''kind'') (\<lambda>kd.
     if kd \<noteq> PStr ''system'' then Inr False
     else rbind (py_get_or ev ''payload'' (PDict [])) (\<lambda>p.
       rbind (py_get p ''command'') (\<lambda>c. Inr (c = PStr ''terminate''))))"

fun serve_loop :: "pyval list \<Rightarrow> dispatcher \<Rightarrow> (dispatcher \<times> pyval list) res" where
  "serve_loop [] b = Inr (b, [])"
| "serve_loop (ev # evs) b =
     rbind (is_terminate ev) (\<lambda>stop.
     if stop then Inr (b, evs) else rbind (submit ev b) (serve_loop evs))"

lemma submit_run:
  assumes "submit ev b = Inr b'"
  shows "\<exists>s. item_key ev ''source'' = Inr s \<and> queue b' = (queue b)(s := queue b s @ [ev])
     \<and> set (running b') = insert s (set (running b))"
proof -
  from assms obtain s where s: "item_key ev ''source'' = Inr s" by (auto simp: submit_def rbind_Inr)
  with assms show ?thesis
    by (intro exI [of _ s], cases "s \<in> set (running b)")
      (auto simp: submit_def Let_def queue_def fun_eq_iff)
qed

section \<open>One worker per source, bounded service\<close>

definition holding :: "string \<times> wstate \<Rightarrow> bool" where
  "holding w \<longleftrightarrow> snd w \<noteq> AtSemaphore"

definition workers_ok :: "dispatcher \<Rightarrow> bool" where
  "workers_ok b \<longleftrightarrow> distinct (map fst (workers b)) \<and> set (map fst (workers b)) = set (running b)"

definition permits_ok :: "dispatcher \<Rightarrow> bool" where
  "permits_ok b \<longleftrightarrow> (if max_sources b > 0
     then permits b \<ge> 0 \<and> permits b + int (length (filter holding (workers b))) = max_sources b
     else list_all holding (workers b))"

lemma length_filter_split:
  "i < length xs \<Longrightarrow> length (filter P xs) = length (filter P (take i xs)) + (if P (xs ! i) then 1 else 0)
     + length (filter P (drop (Suc i) xs))"
proof -
  assume "i < length xs"
  then have "filter P xs = filter P (take i xs @ xs ! i # drop (Suc i) xs)"
    by (metis id_take_nth_drop)
  then show ?thesis by simp
qed

lemma length_filter_update:
  "i < length xs \<Longrightarrow> int (length (filter P (xs[i := x]))) = int (length (filter P xs))
     + (if P x then 1 else 0) - (if P (xs ! i) then 1 else 0)"
  by (simp add: upd_conv_take_nth_drop length_filter_split)

lemma length_filter_drop:
  "i < length xs \<Longrightarrow> int (length (filter P (take i xs @ drop (Suc i) xs)))
     = int (length (filter P xs)) - (if P (xs ! i) then 1 else 0)"
  by (simp add: length_filter_split)

lemma list_all_drop: "list_all P xs \<Longrightarrow> list_all P (take i xs @ drop (Suc i) xs)"
  by (auto simp: list_all_iff dest: in_set_takeD in_set_dropD)

lemma set_drop_nth:
  "distinct xs \<Longrightarrow> i < length xs \<Longrightarrow> set (take i xs @ drop (Suc i) xs) = set xs - {xs ! i}"
proof -
  assume "distinct xs" "i < length xs"
  moreover from this have "xs = take i xs @ xs ! i # drop (Suc i) xs" by (simp add: id_take_nth_drop)
  ultimately show ?thesis by (metis (no_types, lifting) Diff_insert_absorb Un_insert_right distinct.simps(2)
      distinct_append list.simps(15) not_distinct_conv_prefix set_append insert_Diff_if disjoint_insert(1) UnE)
qed

text \<open>How the building blocks of a step move the workers.\<close>

lemma set_worker_ok:
  assumes "i < length (workers b)" and "workers_ok b"
  shows "workers_ok (set_worker i w b)"
proof -
  have "map fst ((workers b)[i := (fst (workers b ! i), w)]) = map fst (workers b)"
    using assms(1) by (simp add: map_update list_update_same_conv)
  then show ?thesis using assms(2) by (simp add: workers_ok_def set_worker_def)
qed

lemma finish_workers_ok:
  assumes "i < length (workers b)" and "workers_ok b"
  shows "workers_ok (finish i b)"
proof -
  let ?xs = "map fst (workers b)"
  have "map fst (take i (workers b) @ drop (Suc i) (workers b)) = take i ?xs @ drop (Suc i) ?xs"
    by (simp add: take_map drop_map)
  moreover have "set (take i ?xs @ drop (Suc i) ?xs) = set (running b) - {?xs ! i}"
    using assms set_drop_nth [of ?xs i] by (simp add: workers_ok_def)
  moreover have "distinct (take i ?xs @ drop (Suc i) ?xs)"
    using assms by (auto simp: workers_ok_def distinct_take distinct_drop set_take_disj_set_drop_if_distinct)
  ultimately show ?thesis using assms(1)
    by (simp add: workers_ok_def finish_def drop_worker_def Let_def set_removeAll)
qed

lemma permits_set_worker:
  assumes "i < length (workers b)" and "permits_ok b" and "holding (workers b ! i)" and "w \<noteq> AtSemaphore"
  shows "permits_ok (set_worker i w b)"
proof -
  have "list_all holding (workers b) \<Longrightarrow> list_all holding ((workers b)[i := (fst (workers b ! i), w)])"
    using assms(4) set_update_subset_insert [of "workers b" i] by (fastforce simp: list_all_iff holding_def)
  then show ?thesis
    using assms by (auto simp: permits_ok_def set_worker_def length_filter_update holding_def split: if_splits)
qed

lemma permits_finish:
  assumes "i < length (workers b)" and "permits_ok b" and "holding (workers b ! i)"
  shows "permits_ok (finish i b)"
  using assms length_filter_drop [OF assms(1), of holding] list_all_drop [of holding "workers b" i]
  by (auto simp: permits_ok_def finish_def drop_worker_def Let_def split: if_splits)

lemma permits_acquire:
  assumes "i < length (workers b)" and "permits_ok b" and "snd (workers b ! i) = AtSemaphore" and "permits b > 0"
  shows "permits_ok (acquire i b)"
  using assms by (auto simp: permits_ok_def acquire_def set_worker_def length_filter_update holding_def list_all_iff
      split: if_splits dest: nth_mem)

lemma permits_update [simp]:
  "permits_ok (b\<lparr>emitted := x\<rparr>) = permits_ok b" "permits_ok (b\<lparr>queues := q, handled := h\<rparr>) = permits_ok b"
  "workers_ok (b\<lparr>emitted := x\<rparr>) = workers_ok b" "workers_ok (b\<lparr>queues := q, handled := h\<rparr>) = workers_ok b"
  "workers_ok (b\<lparr>permits := p\<rparr>) = workers_ok b"
  by (simp_all add: permits_ok_def workers_ok_def)

lemma next_round_ok:
  assumes "i < length (workers b)" and "workers_ok b" and "permits_ok b" and "holding (workers b ! i)"
  shows "workers_ok (next_round i b) \<and> permits_ok (next_round i b)"
  using assms by (auto simp: next_round_def intro: finish_workers_ok permits_finish set_worker_ok permits_set_worker)

lemma submit_ok:
  assumes "submit ev b = Inr b'" and "workers_ok b" and "permits_ok b"
  shows "workers_ok b' \<and> permits_ok b'"
proof -
  from assms(1) obtain s where s: "item_key ev ''source'' = Inr s" by (auto simp: submit_def rbind_Inr)
  show ?thesis
  proof (cases "s \<in> set (running b)")
    case True
    then have "b' = b\<lparr>queues := dset s (queue b s @ [ev]) (queues b), submitted := submitted b @ [(s, ev)]\<rparr>"
      using s assms(1) by (simp add: submit_def Let_def)
    then show ?thesis using assms(2,3) by (simp add: workers_ok_def permits_ok_def)
  next
    case False
    moreover have "s \<notin> set (map fst (workers b))" using False assms(2) by (simp add: workers_ok_def)
    moreover have "b' = b\<lparr>queues := dset s (queue b s @ [ev]) (queues b), submitted := submitted b @ [(s, ev)],
        running := running b @ [s], workers := workers b @ [(s, if max_sources b > 0 then AtSemaphore else AtQueue)]\<rparr>"
      using s assms(1) False by (simp add: submit_def Let_def)
    ultimately show ?thesis using assms(2,3)
      by (cases "max_sources b > 0") (simp_all add: workers_ok_def permits_ok_def holding_def)
  qed
qed

lemma dstep_ok:
  assumes "dstep b b'" and "workers_ok b" and "permits_ok b"
  shows "workers_ok b' \<and> permits_ok b'"
  using assms
proof (induction rule: dstep.induct)
  case (Submit ev b b')
  then show ?case by (rule submit_ok)
next
  case (Acquire i b)
  then show ?case by (simp add: permits_acquire) (simp add: acquire_def set_worker_ok)
next
  case (Get i b)
  then show ?case by (simp add: get_event_def Let_def set_worker_ok permits_set_worker holding_def)
next
  case (Respond i b ev r)
  then have h: "holding (workers b ! i)" by (simp add: holding_def)
  with Respond show ?case
    by (auto simp: responded_def set_worker_ok permits_set_worker finish_workers_ok permits_finish
        next_round_ok split: sum.splits)
next
  case (Emit i b)
  then show ?case by (intro next_round_ok) (auto simp: holding_def)
next
  case (Fail i b)
  then have h: "holding (workers b ! i)" by (auto simp: holding_def)
  with Fail show ?case by (simp add: finish_workers_ok permits_finish)
qed

lemma reach_ok: "disp.reach b \<Longrightarrow> workers_ok b \<and> permits_ok b"
proof (erule disp.reach_invariant)
  fix b assume "\<exists>m. b = new_dispatcher m"
  then show "workers_ok b \<and> permits_ok b"
    by (auto simp: new_dispatcher_def workers_ok_def permits_ok_def)
next
  fix s t assume "workers_ok s \<and> permits_ok s" "dstep s t"
  then show "workers_ok t \<and> permits_ok t" using dstep_ok by blast
qed

text \<open>
  In every state of a dispatcher each source has at most one worker, and when a limit on
  concurrent sources is set, no more workers than that are past the semaphore; the free slots and
  the workers holding one always add up to the limit.
\<close>

lemma dispatcher_bounded:
  assumes "disp.reach b"
  shows "distinct (map fst (workers b)) \<and> set (map fst (workers b)) = set (running b)
    \<and> (max_sources b > 0 \<longrightarrow> permits b + int (length (filter holding (workers b))) = max_sources b
         \<and> int (length (filter holding (workers b))) \<le> max_sources b)"
  using reach_ok [OF assms] by (auto simp: workers_ok_def permits_ok_def)

section \<open>Order within a source\<close>

definition of_source :: "string \<Rightarrow> (string \<times> pyval) list \<Rightarrow> pyval list" where
  "of_source s xs = map snd (filter (\<lambda>p. fst p = s) xs)"

lemma of_source_append [simp]: "of_source s (xs @ ys) = of_source s xs @ of_source s ys"
  by (simp add: of_source_def)

lemma of_source_single [simp]: "of_source s [(s', x)] = (if s' = s then [x] else [])"
  by (simp add: of_source_def)

definition fifo :: "dispatcher \<Rightarrow> bool" where
  "fifo b \<longleftrightarrow> (\<forall>s. of_source s (handled b) @ queue b s = of_source s (submitted b))"

lemma fifo_moves [simp]:
  "fifo (set_worker i w b) = fifo b" "fifo (finish i b) = fifo b" "fifo (b\<lparr>emitted := x\<rparr>) = fifo b"
  "fifo (b\<lparr>permits := p\<rparr>) = fifo b"
  by (simp_all add: fifo_def set_worker_def finish_def drop_worker_def Let_def queue_def)

lemma queue_set [simp]: "queue (b\<lparr>queues := dset s q (queues b)\<rparr>) s' = (if s' = s then q else queue b s')"
  by (simp add: queue_def)

lemma fifo_get:
  assumes "fifo b" and "queue b s \<noteq> []"
  shows "fifo (b\<lparr>queues := dset s (tl (queue b s)) (queues b), handled := handled b @ [(s, hd (queue b s))]\<rparr>)"
  using assms by (auto simp: fifo_def queue_def)

lemma fifo_step: "dstep b b' \<Longrightarrow> fifo b \<Longrightarrow> fifo b'"
proof (induction rule: dstep.induct)
  case (Submit ev b b')
  then show ?case by (auto simp: submit_def rbind_Inr Let_def fifo_def queue_def split: if_splits)
next
  case (Get i b)
  let ?s = "fst (workers b ! i)"
  have "queue (set_worker i w b) = queue b" for w by (simp add: set_worker_def queue_def fun_eq_iff)
  then show ?case
    using fifo_get [of "set_worker i (InRespond (hd (queue b ?s))) b" ?s] Get
    by (simp add: get_event_def Let_def) (simp add: set_worker_def)
qed (auto simp: acquire_def responded_def next_round_def split: sum.splits)

lemma reach_fifo:
  assumes "disp.reach b"
  shows "of_source s (handled b) @ queue b s = of_source s (submitted b)"
proof -
  from assms have "fifo b"
  proof (rule disp.reach_invariant)
    fix b assume "\<exists>m. b = new_dispatcher m"
    then show "fifo b" by (auto simp: new_dispatcher_def fifo_def queue_def of_source_def)
  qed (rule fifo_step)
  then show ?thesis by (simp add: fifo_def)
qed

section \<open>No event waits without a worker\<close>

text \<open>
  A worker that dies of an exception leaves its queue behind until the source submits again.  As
  long as none dies with events waiting, every waiting event has a worker.
\<close>

definition attended :: "dispatcher \<Rightarrow> bool" where
  "attended b \<longleftrightarrow> (\<forall>s. queue b s \<noteq> [] \<longrightarrow> s \<in> set (running b))"

definition calm_step :: "dispatcher \<Rightarrow> dispatcher \<Rightarrow> bool" where
  "calm_step b b' \<longleftrightarrow> dstep b b'
     \<and> \<not> (\<exists>i < length (workers b). queue b (fst (workers b ! i)) \<noteq> [] \<and> b' = finish i b)"

interpretation calm: trans_sys "\<lambda>b. \<exists>m. b = new_dispatcher m" calm_step .

lemma attended_moves [simp]:
  "attended (set_worker i w b) = attended b" "attended (b\<lparr>emitted := x\<rparr>) = attended b"
  "attended (b\<lparr>permits := p\<rparr>) = attended b"
  by (simp_all add: attended_def set_worker_def queue_def)

lemma attended_finish: "attended b \<Longrightarrow> queue b (fst (workers b ! i)) = [] \<Longrightarrow> attended (finish i b)"
  by (auto simp: attended_def finish_def drop_worker_def Let_def queue_def)

lemma attended_next: "attended b \<Longrightarrow> attended (next_round i b)"
  by (simp add: next_round_def attended_finish)

lemma attended_step:
  assumes "dstep b b'" and "attended b"
    and "\<And>i. i < length (workers b) \<Longrightarrow> queue b (fst (workers b ! i)) \<noteq> [] \<Longrightarrow> b' \<noteq> finish i b"
  shows "attended b'"
  using assms
proof (induction rule: dstep.induct)
  case (Submit ev b b')
  then show ?case using submit_run [OF Submit(1)] by (auto simp: attended_def)
next
  case (Acquire i b)
  then show ?case by (simp add: acquire_def)
next
  case (Get i b)
  then show ?case
    by (auto simp: get_event_def Let_def attended_def set_worker_def queue_def)
next
  case (Respond i b ev r)
  have "responded i ev r b = finish i b \<Longrightarrow> attended (finish i b)"
    using Respond(4) [OF Respond(1)] attended_finish [OF Respond(3), of i] by blast
  with Respond(3) show ?case
    by (auto simp: responded_def attended_next split: sum.splits)
next
  case (Emit i b)
  then show ?case by (simp add: attended_next)
next
  case (Fail i b)
  then show ?case by (cases "queue b (fst (workers b ! i)) = []") (auto intro: attended_finish)
qed

lemma calm_reach: "calm.reach b \<Longrightarrow> disp.reach b"
  by (erule calm.reach_invariant) (auto simp: calm_step_def intro: disp.reach_start disp.reach_step)

lemma reach_attended:
  assumes "calm.reach b" and "queue b s \<noteq> []"
  shows "\<exists>w. (s, w) \<in> set (workers b)"
proof -
  from assms(1) have "attended b"
  proof (rule calm.reach_invariant)
    fix b assume "\<exists>m. b = new_dispatcher m"
    then show "attended b" by (auto simp: new_dispatcher_def attended_def queue_def)
  next
    fix b b' assume "attended b" "calm_step b b'"
    then show "attended b'" by (auto simp: calm_step_def intro: attended_step)
  qed
  then have "s \<in> set (map fst (workers b))"
    using assms(2) reach_ok [OF calm_reach [OF assms(1)]] by (simp add: attended_def workers_ok_def)
  then show ?thesis by auto
qed

text \<open>
  C11. Within a source nothing is lost, duplicated or reordered: in every state of a dispatcher,
  and for every source, the events handed to the handler followed by those still queued are exactly
  the events submitted, in the order of submission.  And as long as no worker dies with events waiting in
  its queue, every queued event is attended: its source has a worker, so no wake-up is lost between a
  submission and the end of a worker.  Each source has at most one worker, and when a limit on concurrent
  sources is set, no more workers than that are past the semaphore.
\<close>

theorem dispatcher_orderly:
  assumes "disp.reach b"
  shows "of_source s (handled b) @ queue b s = of_source s (submitted b)
    \<and> (calm.reach b \<and> queue b s \<noteq> [] \<longrightarrow> (\<exists>w. (s, w) \<in> set (workers b)))
    \<and> distinct (map fst (workers b)) \<and> (max_sources b > 0 \<longrightarrow> int (length (filter holding (workers b))) \<le> max_sources b)"
  using reach_fifo [OF assms] reach_attended dispatcher_bounded [OF assms] by blast

text \<open>
  A handler that returns nothing with an empty queue leaves its worker suspended at the queue, past
  the semaphore: the slot stays taken although no event is in service.
\<close>

lemma none_keeps_slot:
  assumes "i < length (workers b)" and "snd (workers b ! i) = InRespond ev"
  shows "holding (workers (responded i ev PNone b) ! i) \<and> permits (responded i ev PNone b) = permits b"
  using assms by (simp add: responded_def set_worker_def holding_def)

section \<open>An example run\<close>

definition ex_ev :: "string \<Rightarrow> int \<Rightarrow> pyval" where
  "ex_ev s n = PDict [(''source'', PStr s), (''n'', PInt n)]"

definition ex_b2 :: dispatcher where
  "ex_b2 = projr (rbind (submit (ex_ev ''a'' 1) (new_dispatcher 1)) (submit (ex_ev ''a'' 2)))"

lemma ex_b2_reach: "calm.reach ex_b2"
proof -
  let ?b1 = "projr (submit (ex_ev ''a'' 1) (new_dispatcher 1))"
  have 1: "submit (ex_ev ''a'' 1) (new_dispatcher 1) = Inr ?b1"
    by (simp add: submit_def ex_ev_def Let_def)
  have 2: "submit (ex_ev ''a'' 2) ?b1 = Inr ex_b2"
    by (simp add: ex_b2_def submit_def ex_ev_def Let_def new_dispatcher_def)
  have w: "workers (new_dispatcher 1) = []" by (simp add: new_dispatcher_def)
  have "calm.reach ?b1"
    by (rule calm.reach_step [OF calm.reach_start]) (use 1 w in \<open>auto simp: calm_step_def intro: dstep.Submit\<close>)
  moreover have "calm_step ?b1 ex_b2"
    using dstep.Submit [OF 2]
    by (auto simp: calm_step_def ex_b2_def submit_def ex_ev_def Let_def new_dispatcher_def finish_def
        drop_worker_def)
  ultimately show ?thesis by (rule calm.reach_step)
qed

lemma dispatcher_bounded_example:
  "\<exists>b. disp.reach b \<and> max_sources b = 1 \<and> length (workers b) = 1 \<and> distinct (map fst (workers b))
     \<and> int (length (filter holding (workers b))) \<le> 1"
proof -
  have "max_sources ex_b2 = 1 \<and> length (workers ex_b2) = 1"
    by (simp add: ex_b2_def submit_def ex_ev_def Let_def new_dispatcher_def)
  then show ?thesis using dispatcher_bounded [OF calm_reach [OF ex_b2_reach]] calm_reach [OF ex_b2_reach]
    by (intro exI [of _ ex_b2]) auto
qed

theorem dispatcher_orderly_witness:
  "disp.reach ex_b2 \<and> of_source ''a'' (handled ex_b2) @ queue ex_b2 ''a'' = [ex_ev ''a'' 1, ex_ev ''a'' 2]
     \<and> (\<exists>w. (''a'', w) \<in> set (workers ex_b2))"
proof -
  have "of_source ''a'' (submitted ex_b2) = [ex_ev ''a'' 1, ex_ev ''a'' 2]"
    by (simp add: ex_b2_def submit_def ex_ev_def Let_def new_dispatcher_def of_source_def)
  moreover have "queue ex_b2 ''a'' \<noteq> []"
    by (simp add: ex_b2_def submit_def ex_ev_def Let_def new_dispatcher_def queue_def)
  ultimately show ?thesis
    using dispatcher_orderly [OF calm_reach [OF ex_b2_reach], of "''a''"] calm_reach [OF ex_b2_reach] ex_b2_reach by simp
qed

end
