(* ===== verification/PyString.thy ===== *)
theory PyString
  imports Prelude
begin

text \<open>
  Operations of Python strings and bytes that several components use: removing a substring,
  stripping, decoding UTF-8 with replacement, slices, lower case, and decimal numerals.  A Python string is
  the list of its UTF-8 bytes.
\<close>

section \<open>Substrings and white space\<close>

text \<open>\<^verbatim>\<open>s.replace(p, "")\<close>: occurrences from the left, without overlap; nothing for an empty \<open>p\<close>.\<close>

function remove_all :: "string \<Rightarrow> string \<Rightarrow> string" where
  "remove_all p [] = []"
| "remove_all p (x # xs) = (if p \<noteq> [] \<and> is_prefix p (x # xs)
     then remove_all p (drop (length p) (x # xs)) else x # remove_all p xs)"
  by pat_completeness auto
termination
  by (relation "measure (\<lambda>(p, s). length s)") (auto simp: neq_Nil_conv)

text \<open>\<^verbatim>\<open>s.strip()\<close>: white space at both ends, the non-ASCII white space characters included.\<close>

definition WHITESPACE :: "string list" where
  "WHITESPACE = map (\<lambda>c. [c]) [CHR 0x09, CHR 0x0A, CHR 0x0B, CHR 0x0C, CHR 0x0D, CHR 0x1C, CHR 0x1D,
       CHR 0x1E, CHR 0x1F, CHR 0x20]
     @ [[CHR 0xC2, CHR 0x85], [CHR 0xC2, CHR 0xA0], [CHR 0xE1, CHR 0x9A, CHR 0x80]]
     @ map (\<lambda>c. [CHR 0xE2, CHR 0x80, c]) [CHR 0x80, CHR 0x81, CHR 0x82, CHR 0x83, CHR 0x84, CHR 0x85,
       CHR 0x86, CHR 0x87, CHR 0x88, CHR 0x89, CHR 0x8A, CHR 0xA8, CHR 0xA9, CHR 0xAF]
     @ [[CHR 0xE2, CHR 0x81, CHR 0x9F], [CHR 0xE3, CHR 0x80, CHR 0x80]]"

fun strip_front :: "nat \<Rightarrow> string list \<Rightarrow> string \<Rightarrow> string" where
  "strip_front 0 ws s = s"
| "strip_front (Suc n) ws s =
     (case find (\<lambda>w. is_prefix w s) ws of None \<Rightarrow> s | Some w \<Rightarrow> strip_front n ws (drop (length w) s))"

definition strip :: "string \<Rightarrow> string" where
  "strip s = (let t = strip_front (length s) WHITESPACE s in
     rev (strip_front (length t) (map rev WHITESPACE) (rev t)))"

lemma strip_front_done:
  "list_all (\<lambda>w. w \<noteq> []) ws \<Longrightarrow> length s \<le> n \<Longrightarrow> w \<in> set ws \<Longrightarrow> \<not> is_prefix w (strip_front n ws s)"
proof (induction n ws s rule: strip_front.induct)
  case (1 ws s)
  then show ?case by (cases w) (auto simp: list_all_iff)
next
  case (2 n ws s)
  show ?case
  proof (cases "find (\<lambda>w. is_prefix w s) ws")
    case None
    then have "\<not> is_prefix w s" using 2(4) by (auto simp: find_None_iff)
    then show ?thesis using None by simp
  next
    case (Some v)
    then have v: "v \<in> set ws" "is_prefix v s" by (auto simp: find_Some_iff)
    then have "v \<noteq> []" using 2(2) by (auto simp: list_all_iff)
    moreover have "length v \<le> length s" using v(2) by (auto simp: is_prefix_iff)
    ultimately have "length (drop (length v) s) \<le> n" using 2(3) by (cases v) auto
    then show ?thesis using 2(1) [OF Some 2(2) _ 2(4)] Some by simp
  qed
qed

section \<open>UTF-8\<close>

text \<open>
  \<^verbatim>\<open>bytes.decode("utf-8", "replace")\<close>: what a lead byte must be followed by, and the replacement
  character for each maximal ill-formed part.
\<close>

definition continuation :: "char \<Rightarrow> (nat \<times> nat) list option" where
  "continuation c =
     (let b = of_char c :: nat in
      if b < 0x80 then Some []
      else if b < 0xC2 then None
      else if b < 0xE0 then Some [(0x80, 0xBF)]
      else if b = 0xE0 then Some [(0xA0, 0xBF), (0x80, 0xBF)]
      else if b = 0xED then Some [(0x80, 0x9F), (0x80, 0xBF)]
      else if b < 0xF0 then Some [(0x80, 0xBF), (0x80, 0xBF)]
      else if b = 0xF0 then Some [(0x90, 0xBF), (0x80, 0xBF), (0x80, 0xBF)]
      else if b < 0xF4 then Some [(0x80, 0xBF), (0x80, 0xBF), (0x80, 0xBF)]
      else if b = 0xF4 then Some [(0x80, 0x8F), (0x80, 0xBF), (0x80, 0xBF)]
      else None)"

fun matching :: "(nat \<times> nat) list \<Rightarrow> string \<Rightarrow> nat" where
  "matching ((lo, hi) # rs) (c # cs) = (if lo \<le> of_char c \<and> of_char c \<le> hi then Suc (matching rs cs) else 0)"
| "matching _ _ = 0"

definition REPLACEMENT :: string where
  "REPLACEMENT = [CHR 0xEF, CHR 0xBF, CHR 0xBD]"

function utf8_replace :: "string \<Rightarrow> string" where
  "utf8_replace [] = []"
| "utf8_replace (c # cs) =
     (case continuation c of
        None \<Rightarrow> REPLACEMENT @ utf8_replace cs
      | Some rs \<Rightarrow> (let n = matching rs cs in
          if n = length rs then (c # take n cs) @ utf8_replace (drop n cs)
          else REPLACEMENT @ utf8_replace (drop n cs)))"
  by pat_completeness auto
termination
  by (relation "measure length") auto

text \<open>Plain ASCII decodes to itself.\<close>

lemma utf8_replace_ascii: "list_all (\<lambda>c. (of_char c :: nat) < 0x80) s \<Longrightarrow> utf8_replace s = s"
  by (induction s) (simp_all add: continuation_def Let_def)

section \<open>Decimal numerals\<close>

fun digits :: "nat \<Rightarrow> string" where
  "digits n = (if n < 10 then [char_of (48 + n)] else digits (n div 10) @ [char_of (48 + n mod 10)])"

declare digits.simps [simp del]

fun value_of :: "string \<Rightarrow> nat" where
  "value_of s = foldl (\<lambda>a c. 10 * a + (of_char c - 48)) 0 s"

lemma value_of_digits: "value_of (digits n) = n"
proof (induction n rule: digits.induct)
  case (1 n)
  have d: "of_char (char_of (48 + m) :: char) = 48 + m" if "m < 10" for m :: nat
    using that by (simp add: of_char_of)
  show ?case
  proof (cases "n < 10")
    case True
    then show ?thesis by (simp add: digits.simps [of n] d)
  next
    case False
    then show ?thesis using 1 by (simp add: digits.simps [of n] d)
  qed
qed

lemma digits_inject: "digits m = digits n \<longleftrightarrow> m = n"
  by (metis value_of_digits)

text \<open>\<^verbatim>\<open>f"{n:06d}"\<close>: zeros in front, up to six places.\<close>

definition padded :: "nat \<Rightarrow> string" where
  "padded n = replicate (6 - length (digits n)) CHR ''0'' @ digits n"

lemma value_of_padded: "value_of (padded n) = n"
proof -
  have "foldl (\<lambda>a c. 10 * a + (of_char c - 48)) 0 (replicate k CHR ''0'') = (0::nat)" for k by (induction k) simp_all
  then show ?thesis using value_of_digits [of n] by (simp add: padded_def)
qed

lemma padded_inject [simp]: "padded m = padded n \<longleftrightarrow> m = n"
  by (metis value_of_padded)

text \<open>\<^verbatim>\<open>str\<close> of an integer.\<close>

definition str_int :: "int \<Rightarrow> string" where
  "str_int i = (if i < 0 then ''-'' @ digits (nat (- i)) else digits (nat i))"

text \<open>\<^verbatim>\<open>str.lower\<close> on ASCII.\<close>

definition lower :: "string \<Rightarrow> string" where
  "lower s = map (\<lambda>c. let n = of_char c :: nat in if 65 \<le> n \<and> n \<le> 90 then char_of (n + 32) else c) s"

text \<open>\<^verbatim>\<open>s[:n]\<close>: the first characters of a text; a character begins at every byte not of the form 10xxxxxx.\<close>

definition trailing :: "char \<Rightarrow> bool" where
  "trailing c \<longleftrightarrow> (of_char c :: nat) div 64 = 2"

fun utf8_take :: "nat \<Rightarrow> string \<Rightarrow> string" where
  "utf8_take n [] = []"
| "utf8_take n (c # s) =
     (if trailing c then c # utf8_take n s else case n of 0 \<Rightarrow> [] | Suc m \<Rightarrow> c # utf8_take m s)"

lemma utf8_take_prefix: "is_prefix (utf8_take n s) s"
  by (induction n s rule: utf8_take.induct) (auto split: nat.split)

text \<open>\<^verbatim>\<open>s.strip(c)\<close> for one character.\<close>

definition strip_char :: "char \<Rightarrow> string \<Rightarrow> string" where
  "strip_char c s = rev (dropWhile (\<lambda>x. x = c) (rev (dropWhile (\<lambda>x. x = c) s)))"

text \<open>
  \<^verbatim>\<open>int(v)\<close>: of a text, a sign and decimal digits with single underscores between them, surrounded by white
  space; of a float, the integer part.
\<close>

definition decimal_digit :: "char \<Rightarrow> bool" where
  "decimal_digit c \<longleftrightarrow> 48 \<le> (of_char c :: nat) \<and> (of_char c :: nat) \<le> 57"

fun numeral_text :: "string \<Rightarrow> bool" where
  "numeral_text [] = False"
| "numeral_text [c] = decimal_digit c"
| "numeral_text (c # d # s) = (decimal_digit c \<and> (if d = CHR ''_'' then numeral_text s else numeral_text (d # s)))"

definition unsigned_int :: "string \<Rightarrow> int res" where
  "unsigned_int s = (if numeral_text s then Inr (int (value_of (filter (\<lambda>c. c \<noteq> CHR ''_'') s))) else Inl (ValueError s))"

definition int_of_str :: "string \<Rightarrow> int res" where
  "int_of_str s = (case strip s of
       CHR ''-'' # t \<Rightarrow> rbind (unsigned_int t) (\<lambda>n. Inr (- n))
     | CHR ''+'' # t \<Rightarrow> unsigned_int t
     | t \<Rightarrow> unsigned_int t)"

fun py_int :: "pyval \<Rightarrow> int res" where
  "py_int (PInt i) = Inr i"
| "py_int (PBool b) = Inr (if b then 1 else 0)"
| "py_int (PFloat (Fin r)) = Inr (if r < 0 then - \<lfloor>- r\<rfloor> else \<lfloor>r\<rfloor>)"
| "py_int (PFloat NaN) = Inl (ValueError ''cannot convert float NaN to integer'')"
| "py_int (PFloat _) = Inl OverflowError"
| "py_int (PStr s) = int_of_str s"
| "py_int _ = Inl TypeError"

end
