(* ===== verification/Agent.thy ===== *)
theory Agent
  imports Authority PyString
begin

text \<open>
  The agent (\<^verbatim>\<open>agent/agent.py\<close>): its working memory, its table of tool entries as the Authority
  injects them, and the decision that turns a task into a call of a device.  Strings are their
  UTF-8 bytes, so that the filler words of the source are those here.
\<close>

section \<open>State\<close>

record agent =
  messages :: "pyval list"
  entries :: "(string, pyval) dict"

definition new_agent :: agent where
  "new_agent = \<lparr>messages = [], entries = []\<rparr>"

definition AGENT_RESULT :: string where
  "AGENT_RESULT = ''agent_result''"

definition FILLERS :: "string list" where
  "FILLERS =
     [[CHR 0xE6, CHR 0x9F, CHR 0xA5, CHR 0xE8, CHR 0xAF, CHR 0xA2],
      [CHR 0xE8, CHR 0xAF, CHR 0xB7, CHR 0xE9, CHR 0x97, CHR 0xAE],
      [CHR 0xE4, CHR 0xBB, CHR 0x8A, CHR 0xE5, CHR 0xA4, CHR 0xA9],
      [CHR 0xE6, CHR 0x80, CHR 0x8E, CHR 0xE4, CHR 0xB9, CHR 0x88, CHR 0xE6, CHR 0xA0, CHR 0xB7],
      [CHR 0xE7, CHR 0x8E, CHR 0xB0, CHR 0xE5, CHR 0x9C, CHR 0xA8],
      [CHR 0xE7, CHR 0x9A, CHR 0x84], [CHR 0xE5, CHR 0x91, CHR 0xA2], [CHR 0xEF, CHR 0xBC, CHR 0x9F],
      ''?'', '' '']"

section \<open>Handlers\<close>

text \<open>\<^verbatim>\<open>sub in content\<close> for a non-empty trigger.\<close>

fun py_contains :: "pyval \<Rightarrow> pyval \<Rightarrow> bool res" where
  "py_contains (PStr t) (PStr s) = Inr (substr t s)"
| "py_contains _ (PStr s) = Inl TypeError"
| "py_contains v (PList l) = Inr (v \<in> set l)"
| "py_contains v (PDict d) = py_in_strs v (dkeys d)"
| "py_contains _ _ = Inl TypeError"

fun triggered :: "pyval \<Rightarrow> pyval list \<Rightarrow> bool res" where
  "triggered content [] = Inr False"
| "triggered content (t # ts) =
     (if truthy t then rbind (py_contains t content) (\<lambda>b. if b then Inr True else triggered content ts)
      else triggered content ts)"

definition triggers :: "pyval \<Rightarrow> pyval list res" where
  "triggers e = rbind (py_get e ''trigger'') (\<lambda>t. py_list (py_or t (PList [])))"

fun match_entry :: "pyval \<Rightarrow> pyval list \<Rightarrow> pyval option res" where
  "match_entry content [] = Inr None"
| "match_entry content (e # es) =
     rbind (triggers e) (\<lambda>ts. rbind (triggered content ts) (\<lambda>b.
       if b then Inr (Some e) else match_entry content es))"

fun remove_triggers :: "pyval list \<Rightarrow> string \<Rightarrow> string res" where
  "remove_triggers [] s = Inr s"
| "remove_triggers (PStr t # ts) s = remove_triggers ts (remove_all t s)"
| "remove_triggers (_ # ts) s = Inl TypeError"

definition extract_args :: "pyval \<Rightarrow> pyval \<Rightarrow> pyval res" where
  "extract_args e content =
     rbind (triggers e) (\<lambda>ts.
     case content of
       PStr s \<Rightarrow> rbind (remove_triggers ts s) (\<lambda>s1.
         let s2 = strip (fold remove_all FILLERS s1) in
         Inr (if s2 \<noteq> [] then PDict [(''city'', PStr s2)] else PDict []))
     | _ \<Rightarrow> Inl AttributeError)"

definition agent_result :: "pyval \<Rightarrow> pyval \<Rightarrow> pyval \<Rightarrow> pyval \<Rightarrow> pyval" where
  "agent_result requester ok content error =
     PDict [(''target'', requester), (''kind'', PStr ''application''),
       (''payload'', PDict [(''command'', PStr AGENT_RESULT), (''ok'', ok), (''content'', content),
          (''error'', error)])]"

definition pop_entry :: "pyval \<Rightarrow> (agent, unit) sx" where
  "pop_entry v =
     (if \<not> hashable v then throw TypeError
      else modify (\<lambda>a. a\<lparr>entries := (case v of PStr n \<Rightarrow> dpop n (entries a) | _ \<Rightarrow> entries a)\<rparr>))"

definition put_entry :: "pyval \<Rightarrow> (agent, unit) sx" where
  "put_entry e =
     bind (lift (py_item e ''content'')) (\<lambda>c.
     bind (lift (item_key c ''name'')) (\<lambda>n. modify (\<lambda>a. a\<lparr>entries := dset n e (entries a)\<rparr>)))"

definition on_inject :: "pyval \<Rightarrow> (agent, pyval) sx" where
  "on_inject payload =
     bind (lift (py_get payload ''evict'')) (\<lambda>ev.
     bind (lift (py_list (py_or ev (PList [])))) (\<lambda>names.
     andthen (each pop_entry names)
     (bind (lift (py_get payload ''entries'')) (\<lambda>en.
      bind (lift (py_list (py_or en (PList [])))) (\<lambda>es.
      andthen (each put_entry es) (ret VOID))))))"

definition first_associated :: "pyval \<Rightarrow> pyval res" where
  "first_associated e =
     rbind (py_item e ''associated'') (\<lambda>v. case v of
        PList (x # _) \<Rightarrow> Inr x
      | PList [] \<Rightarrow> Inl IndexError
      | PStr (c # _) \<Rightarrow> Inr (PStr [c])
      | PStr [] \<Rightarrow> Inl IndexError
      | PDict _ \<Rightarrow> Inl (KeyError ''0'')
      | _ \<Rightarrow> Inl TypeError)"

definition on_task :: "pyval \<Rightarrow> (agent, pyval) sx" where
  "on_task ev =
     bind (lift (py_item ev ''payload'')) (\<lambda>p.
     bind (lift (py_get_or p ''content'' (PStr ''''))) (\<lambda>content.
     bind (lift (py_item ev ''source'')) (\<lambda>source.
     andthen (modify (\<lambda>a. a\<lparr>messages := messages a @ [PDict [(''role'', PStr ''user''),
         (''content'', content), (''source'', source)]]\<rparr>))
     (bind (asks (\<lambda>a. match_entry content (dvals (entries a)))) (\<lambda>m.
      bind (lift m) (\<lambda>found.
      case found of
        None \<Rightarrow> ret (agent_result source (PBool False) PNone (PStr ''no matching tool''))
      | Some e \<Rightarrow>
          bind (lift (py_get p ''arguments'')) (\<lambda>given.
          bind (lift (if truthy given then Inr given else extract_args e content)) (\<lambda>arguments.
          bind (lift (first_associated e)) (\<lambda>target.
          bind (lift (py_item e ''content'')) (\<lambda>c.
          bind (lift (py_item c ''name'')) (\<lambda>name.
          ret (PDict [(''target'', target), (''kind'', PStr ''application''),
            (''payload'', PDict [(''command'', PStr ''tool_run''), (''name'', name),
               (''arguments'', arguments), (''task'', source)])]))))))))))))"

definition on_tool_result :: "pyval \<Rightarrow> (agent, pyval) sx" where
  "on_tool_result ev =
     bind (lift (py_item ev ''payload'')) (\<lambda>p.
     bind (lift (py_get p ''task'')) (\<lambda>task.
     bind (lift (py_get p ''ok'')) (\<lambda>ok.
     bind (lift (py_get p ''content'')) (\<lambda>content.
     bind (lift (py_get p ''error'')) (\<lambda>error.
     ret (agent_result task ok content error))))))"

definition agent_respond :: "pyval \<Rightarrow> (agent, pyval) sx" where
  "agent_respond ev =
     bind (lift (py_item ev ''payload'')) (\<lambda>p.
     bind (lift (py_get p ''command'')) (\<lambda>command.
     if command = PStr ''inject'' then on_inject p
     else if command = PStr ''task'' then on_task ev
     else if command = PStr ''tool_result'' then on_tool_result ev
     else ret VOID))"

section \<open>What the Authority injects is what the agent holds\<close>

definition entry_named :: "string \<Rightarrow> string \<Rightarrow> pyval \<Rightarrow> bool" where
  "entry_named dev n e \<longleftrightarrow> (\<exists>c. py_item e ''content'' = Inr c \<and> item_key c ''name'' = Inr n)
     \<and> py_item e ''associated'' = Inr (PList [PStr dev])"

lemma entry_named_entry: "entry dev tool = Inr e \<Longrightarrow> item_key tool ''name'' = Inr n \<Longrightarrow> entry_named dev n e"
  by (auto simp: entry_def rbind_Inr entry_val_def entry_named_def item_key_def)

lemma entry_named_perm:
  "perm_entry dev scope = Inr e \<Longrightarrow> item_key scope ''token'' = Inr t \<Longrightarrow> entry_named dev (dev @ CHR '':'' # t) e"
  by (auto simp: perm_entry_def rbind_Inr entry_val_def entry_named_def item_key_def)

lemma rfold_inv:
  "rfold f xs b = Inr c \<Longrightarrow> P b \<Longrightarrow> (\<And>x b c. x \<in> set xs \<Longrightarrow> f x b = Inr c \<Longrightarrow> P b \<Longrightarrow> P c) \<Longrightarrow> P c"
proof (induction xs arbitrary: b)
  case (Cons x xs)
  then obtain b' where "f x b = Inr b'" "rfold f xs b' = Inr c" by (auto simp: rbind_Inr)
  then show ?case using Cons.IH [of b'] Cons.prems(2,3) by (meson list.set_intros)
qed simp

text \<open>Every entry carries its own name and a device on which the position holds a token.\<close>

definition named_granted :: "authority \<Rightarrow> string \<Rightarrow> (string, pyval) dict \<Rightarrow> bool" where
  "named_granted a p new \<longleftrightarrow> (\<forall>n e. dget new n = Some e \<longrightarrow> (\<exists>dev t. entry_named dev n e \<and> holds a p dev t))"

lemma named_granted_dset:
  "named_granted a p new \<Longrightarrow> entry_named dev n e \<Longrightarrow> holds a p dev t \<Longrightarrow> named_granted a p (dset n e new)"
  by (auto simp: named_granted_def split: if_splits)

lemma visible_named:
  assumes "visible a (PStr p) = Inr new"
  shows "named_granted a p new"
proof -
  let ?bd = "by_device (grants_of a (PStr p)) []"
  from assms obtain mid where mid: "rfold (add_tools ?bd) (identities a) [] = Inr mid"
      "rfold (add_skills a ?bd) (sort (dkeys ?bd)) mid = Inr new"
    by (auto simp: visible_def Let_def rbind_Inr)
  have tool: "named_granted a p c" if "add_tool dev tool b = Inr c" "named_granted a p b" "holds a p dev t"
    for dev tool b c t
    using that by (auto simp: add_tool_def rbind_Inr intro: named_granted_dset entry_named_entry)
  have "named_granted a p mid"
  proof (rule rfold_inv [OF mid(1)])
    fix x b c assume c: "add_tools ?bd x b = Inr c" and b: "named_granted a p b"
    show "named_granted a p c"
    proof (cases "i_agent (snd x) \<or> dget ?bd (fst x) = None")
      case True
      then show ?thesis using c b by (auto simp: add_tools_def)
    next
      case False
      then obtain ts t where "rfold (add_tool (fst x)) ts b = Inr c" "holds a p (fst x) t"
        using c grants_of_by_device(1) [of a p "fst x"] by (auto simp: add_tools_def rbind_Inr)
      then show ?thesis using b tool by (blast intro: rfold_inv [of "add_tool (fst x)"])
    qed
  qed (simp add: named_granted_def)
  then show ?thesis
  proof (rule rfold_inv [OF mid(2)])
    fix dev b c assume dev: "dev \<in> set (sort (dkeys ?bd))" and c: "add_skills a ?bd dev b = Inr c"
      and b: "named_granted a p b"
    from dev obtain ts where ts: "dget ?bd dev = Some ts" by auto
    have skill: "named_granted a p c" if "add_skill dev ts scope b = Inr c" "named_granted a p b" for scope b c
      using that grants_of_by_device(2) [OF ts]
      by (auto simp: add_skill_def rbind_Inr split: if_splits intro: named_granted_dset entry_named_perm)
    show "named_granted a p c"
    proof (cases "\<exists>i. dget (identities a) dev = Some i \<and> \<not> i_agent i")
      case True
      then obtain ss where "rfold (add_skill dev ts) ss b = Inr c"
        using c ts by (auto simp: add_skills_def rbind_Inr)
      then show ?thesis using b skill by (blast intro: rfold_inv [of "add_skill dev ts"])
    next
      case False
      then show ?thesis using c b by (auto simp: add_skills_def split: option.splits)
    qed
  qed
qed

lemma py_list_or [simp]: "py_list (py_or (PList l) (PList [])) = Inr l"
  by (simp add: py_or_def)

lemma pops_run:
  "each pop_entry (map PStr ns) ag = (Inr (), ag\<lparr>entries := fold dpop ns (entries ag)\<rparr>)"
  by (induction ns arbitrary: ag) (simp_all add: pop_entry_def sx_defs)

lemma puts_run:
  "\<forall>(n, e) \<in> set new. \<exists>dev. entry_named dev n e \<Longrightarrow>
     each put_entry (dvals new) ag = (Inr (), ag\<lparr>entries := fold (\<lambda>(n, e). dset n e) new (entries ag)\<rparr>)"
proof (induction new arbitrary: ag)
  case Nil
  then show ?case by (simp add: dvals_def ret_def)
next
  case (Cons x new)
  obtain n e where x: "x = (n, e)" by (cases x)
  with Cons.prems obtain c where "py_item e ''content'' = Inr c" "item_key c ''name'' = Inr n"
    by (auto simp: entry_named_def)
  then have "put_entry e ag = (Inr (), ag\<lparr>entries := dset n e (entries ag)\<rparr>)"
    by (simp add: put_entry_def modify_def)
  then show ?case using Cons.IH [of "ag\<lparr>entries := dset n e (entries ag)\<rparr>"] Cons.prems x
    by (simp add: dvals_def andthen_def bind_def)
qed

lemma fold_dpop: "dget (fold dpop ns d) n = (if n \<in> set ns then None else dget d n)"
  by (induction ns arbitrary: d) auto

lemma fold_dset: "dwf new \<Longrightarrow> dget (fold (\<lambda>(n, e). dset n e) new d) n
    = (case dget new n of None \<Rightarrow> dget d n | Some e \<Rightarrow> Some e)"
proof (induction new arbitrary: d)
  case (Cons x new)
  obtain m e where x: "x = (m, e)" by (cases x)
  have "dwf new" and m: "dget new m = None"
    using Cons.prems x by (auto simp: dwf_def map_of_eq_None_iff)
  then show ?case using Cons.IH [of "dset m e d"] x by (auto split: option.splits)
qed simp

lemma visible_dwf: "visible a pos = Inr new \<Longrightarrow> dwf new"
proof -
  assume "visible a pos = Inr new"
  then obtain mid where mid: "rfold (add_tools (by_device (grants_of a pos) [])) (identities a) [] = Inr mid"
      "rfold (add_skills a (by_device (grants_of a pos) [])) (sort (dkeys (by_device (grants_of a pos) []))) mid
        = Inr new"
    by (auto simp: visible_def Let_def rbind_Inr split: if_splits)
  have tool: "add_tool dev tool b = Inr c \<Longrightarrow> dwf b \<Longrightarrow> dwf c" for dev tool b c
    by (auto simp: add_tool_def rbind_Inr dwf_dset)
  have skill: "add_skill dev ts scope b = Inr c \<Longrightarrow> dwf b \<Longrightarrow> dwf c" for dev ts scope b c
    by (auto simp: add_skill_def rbind_Inr dwf_dset split: if_splits)
  have "dwf mid"
    by (rule rfold_inv [OF mid(1)]) (auto simp: dwf_def [of "[]"] add_tools_def rbind_Inr split: if_splits
        intro: rfold_inv [of "add_tool d" for d] tool)
  then show "dwf new"
    by (rule rfold_inv [OF mid(2)]) (auto simp: add_skills_def rbind_Inr split: option.splits if_splits
        intro: rfold_inv [of "add_skill d ts" for d ts] skill)
qed

text \<open>A position that is no string sees nothing.\<close>

lemma visible_no_string:
  assumes "visible a pos = Inr new" and "\<not> is_str pos"
  shows "new = []"
proof -
  have g: "grants_of a pos = []" using assms(2) by (cases pos) (simp_all add: grants_of_def)
  from assms(1) have "rfold (add_tools []) (identities a) [] = Inr new"
    by (auto simp: visible_def g Let_def rbind_Inr dkeys_def split: if_splits)
  then show ?thesis by (rule rfold_inv) (simp_all add: add_tools_def)
qed

lemma visible_entries_named: "visible a pos = Inr new \<Longrightarrow> \<forall>(n, e) \<in> set new. \<exists>dev. entry_named dev n e"
proof (cases pos)
  case (PStr p)
  assume new: "visible a pos = Inr new"
  then show ?thesis using visible_named [of a p new] visible_dwf [OF new] PStr
    by (auto simp: named_granted_def dwf_def)
qed (auto dest: visible_no_string)

lemma dwf_fold_dpop: "dwf d \<Longrightarrow> dwf (fold dpop ns d)"
  by (induction ns arbitrary: d) (simp_all add: dwf_dpop)

lemma dwf_fold_dset: "dwf d \<Longrightarrow> dwf (fold (\<lambda>(n, e). dset n e) new d)"
  by (induction new arbitrary: d) (auto simp: dwf_dset)

definition injected_for :: "string \<Rightarrow> authority \<Rightarrow> (string, pyval) dict" where
  "injected_for i a = (case dget (injected a) i of None \<Rightarrow> [] | Some d \<Rightarrow> d)"

lemma inject_run:
  assumes "build_inject i a = (Inr ev, a')" and "dget (entries ag) = dget (injected_for i a)"
  obtains me new es where "dget (identities a) i = Some me" "visible a (i_position me) = Inr new"
    "a' = a\<lparr>injected := dset i new (injected a)\<rparr>" "agent_respond ev ag = (Inr VOID, ag\<lparr>entries := es\<rparr>)" "dget es = dget new"
    "dwf (entries ag) \<longrightarrow> dwf es"
proof -
  from assms(1) obtain me new where new: "dget (identities a) i = Some me" "visible a (i_position me) = Inr new"
      "ev = inject_event i (injected_for i a) new" "a' = a\<lparr>injected := dset i new (injected a)\<rparr>"
    by (auto simp: build_inject_def sx_Inr injected_for_def split: option.splits)
  have wf: "dwf new" by (rule visible_dwf [OF new(2)])
  note puts = puts_run [OF visible_entries_named [OF new(2)]]
  let ?ns = "filter (\<lambda>n. dget new n = None) (dkeys (injected_for i a))"
  let ?es = "fold (\<lambda>(n, e). dset n e) new (fold dpop ?ns (entries ag))"
  have "agent_respond ev ag = (Inr VOID, ag\<lparr>entries := ?es\<rparr>)"
    unfolding new(3) inject_event_def agent_respond_def on_inject_def
    using pops_run [of ?ns ag] puts [of "ag\<lparr>entries := fold dpop ?ns (entries ag)\<rparr>"]
    by (simp add: py_list_or bind_def andthen_def lift_def ret_def)
  moreover have "dget ?es n = dget new n" for n
    using assms(2) by (auto simp: fold_dset [OF wf] fold_dpop set_dkeys split: option.splits)
  then have "dget ?es = dget new" by (rule ext)
  moreover have "dwf (entries ag) \<longrightarrow> dwf ?es" by (intro impI dwf_fold_dset dwf_fold_dpop)
  ultimately show thesis using that new by blast
qed

text \<open>
  C12. The agent's table mirrors the Authority's: when the Authority builds an injection for an
  agent whose table agrees with what was injected before, handling that event makes the agent's
  table agree with what is now recorded as injected, and never raises.
\<close>

theorem inject_mirror:
  assumes "build_inject i a = (Inr ev, a')" and "dget (identities a) i = Some me" and "i_position me = PStr p"
    and "dget (entries ag) = dget (case dget (injected a) i of None \<Rightarrow> [] | Some d \<Rightarrow> d)"
  shows "\<exists>new. dget (injected a') i = Some new
    \<and> fst (agent_respond ev ag) = Inr VOID \<and> dget (entries (snd (agent_respond ev ag))) = dget new"
proof -
  obtain me' new es where "a' = a\<lparr>injected := dset i new (injected a)\<rparr>"
    "agent_respond ev ag = (Inr VOID, ag\<lparr>entries := es\<rparr>)" "dget es = dget new"
    using inject_run [OF assms(1) assms(4) [folded injected_for_def]] by blast
  then show ?thesis by simp
qed

section \<open>An agent calls only what it was granted\<close>

lemma match_entry_Some: "match_entry content es = Inr (Some e) \<Longrightarrow> e \<in> set es"
  by (induction es) (auto simp: rbind_Inr split: if_splits)

lemma named_first: "entry_named dev n e \<Longrightarrow> first_associated e = Inr t \<Longrightarrow> t = PStr dev"
  by (auto simp: entry_named_def first_associated_def)

text \<open>
  The life of an agent next to the Authority: it starts with an empty table; the Authority builds
  injections, which the agent handles in their order; the agent handles any other events; and the Authority changes in
  whatever way between its injections.  The states in which injections were built are kept.
\<close>

definition is_inject :: "pyval \<Rightarrow> bool" where
  "is_inject ev \<longleftrightarrow> rbind (py_item ev ''payload'') (\<lambda>p. py_get p ''command'') = Inr (PStr ''inject'')"

inductive served :: "string \<Rightarrow> authority list \<Rightarrow> authority \<Rightarrow> agent \<Rightarrow> bool" for i where
  served_start: "dget (injected a) i = None \<Longrightarrow> served i [] a new_agent"
| served_inject: "served i hist a ag \<Longrightarrow> build_inject i a = (Inr ev, a') \<Longrightarrow> served i (hist @ [a]) a' (snd (agent_respond ev ag))"
| served_other: "served i hist a ag \<Longrightarrow> \<not> is_inject ev \<Longrightarrow> served i hist a (snd (agent_respond ev ag))"
| served_change: "served i hist a ag \<Longrightarrow> dget (injected a') i = dget (injected a) i \<Longrightarrow> served i hist a' ag"

lemma other_keeps_entries: "\<not> is_inject ev \<Longrightarrow> entries (snd (agent_respond ev ag)) = entries ag"
proof -
  assume "\<not> is_inject ev"
  moreover have "keeps entries (on_task ev)"
    unfolding on_task_def by (intro keeps_intros keeps_modify) (auto intro!: keeps_intros split: option.split)
  moreover have "keeps entries (on_tool_result ev)"
    unfolding on_tool_result_def by (intro keeps_intros)
  ultimately show ?thesis
    by (auto simp: agent_respond_def is_inject_def rbind_Inr bind_def lift_def ret_def keeps_def split: sum.splits)
qed

text \<open>The table is what was visible to the agent's position when the latest injection was built.\<close>

lemma served_table:
  assumes "served i hist a ag"
  shows "dwf (entries ag) \<and> dget (entries ag) = dget (injected_for i a)
    \<and> (if hist = [] then entries ag = [] else \<exists>new. visible (last hist) (position_of (last hist) i) = Inr new \<and> dget (entries ag) = dget new)"
  using assms
proof (induction rule: served.induct)
  case (served_start a)
  then show ?case by (simp add: new_agent_def injected_for_def dwf_def)
next
  case (served_inject hist a ag ev a')
  then have "dget (entries ag) = dget (injected_for i a)" by simp
  from inject_run [OF served_inject(2) this] obtain me new es where me: "dget (identities a) i = Some me"
    and new: "visible a (i_position me) = Inr new" "a' = a\<lparr>injected := dset i new (injected a)\<rparr>"
      "agent_respond ev ag = (Inr VOID, ag\<lparr>entries := es\<rparr>)" "dget es = dget new" "dwf (entries ag) \<longrightarrow> dwf es" .
  have "position_of a i = i_position me" using me by (simp add: position_of_def)
  then show ?case using new served_inject.IH by (simp add: injected_for_def)
next
  case (served_other hist a ag ev)
  then show ?case unfolding other_keeps_entries [OF served_other(2)] by blast
next
  case (served_change hist a ag a')
  have same: "injected_for i a' = injected_for i a" using served_change(2) by (simp add: injected_for_def)
  show ?case unfolding same by (rule served_change.IH)
qed

text \<open>The only tool calls are those for a task, and they go to the device of an entry of the table.\<close>

lemma tool_call_entry:
  assumes "agent_respond ev ag = (Inr (PDict out), ag')" and "dwf (entries ag)"
    and "dget out ''payload'' = Some (PDict q)" and "dget q ''command'' = Some (PStr ''tool_run'')"
  obtains n e t where "dget (entries ag) n = Some e" "first_associated e = Inr t" "dget out ''target'' = Some t"
proof -
  from assms(1,3,4) have "on_task ev ag = (Inr (PDict out), ag')"
    by (auto simp: agent_respond_def on_inject_def on_tool_result_def sx_Inr agent_result_def AGENT_RESULT_def VOID_def split: if_splits)
  then obtain content found pl ag1 source where
    m: "match_entry content (dvals (entries ag)) = Inr found" and
    r: "(case found of
        None \<Rightarrow> ret (agent_result source (PBool False) PNone (PStr ''no matching tool''))
      | Some e \<Rightarrow>
          bind (lift (py_get pl ''arguments'')) (\<lambda>given.
          bind (lift (if truthy given then Inr given else extract_args e content)) (\<lambda>arguments.
          bind (lift (first_associated e)) (\<lambda>target.
          bind (lift (py_item e ''content'')) (\<lambda>c.
          bind (lift (py_item c ''name'')) (\<lambda>name.
          ret (PDict [(''target'', target), (''kind'', PStr ''application''),
            (''payload'', PDict [(''command'', PStr ''tool_run''), (''name'', name),
               (''arguments'', arguments), (''task'', source)])]))))))) ag1 = (Inr (PDict out), ag')"
    unfolding on_task_def by (auto simp: sx_Inr)
  show thesis
  proof (cases found)
    case None
    then show ?thesis using r assms(3,4) by (auto simp: agent_result_def AGENT_RESULT_def)
  next
    case (Some e)
    then have "e \<in> set (dvals (entries ag))" using m match_entry_Some by blast
    then obtain n where "dget (entries ag) n = Some e" using assms(2) by (auto simp: dvals_def dwf_def)
    moreover have "\<exists>t. first_associated e = Inr t \<and> dget out ''target'' = Some t"
      using r Some by (auto simp: sx_Inr)
    ultimately show ?thesis using that by blast
  qed
qed

text \<open>
  C13. Deny by default, for an agent that gets its injections from the Authority: whatever other events it handles and
  however the Authority changes meanwhile, each tool call it makes, in answer to any event, addresses a device on which its
  position held a token when its latest injection was built; before the first injection it makes none.  The
  agent does not check who sends an injection: one from a peer is obeyed and voids this.
\<close>

theorem agent_calls_granted:
  assumes "served i hist a ag" and "agent_respond ev ag = (Inr (PDict out), ag')"
    and "dget out ''payload'' = Some (PDict q)" and "dget q ''command'' = Some (PStr ''tool_run'')"
  shows "hist \<noteq> [] \<and> (\<exists>p dev t. position_of (last hist) i = PStr p \<and> dget out ''target'' = Some (PStr dev)
    \<and> holds (last hist) p dev t)"
proof -
  note tab = served_table [OF assms(1)]
  then have "dwf (entries ag)" by blast
  from tool_call_entry [OF assms(2) this assms(3,4)] obtain n e t where
    e: "dget (entries ag) n = Some e" "first_associated e = Inr t" "dget out ''target'' = Some t" .
  have h: "hist \<noteq> []" using tab e(1) by (auto split: if_splits)
  then obtain new where new: "visible (last hist) (position_of (last hist) i) = Inr new" "dget new n = Some e"
    using tab e(1) by auto
  then obtain p where p: "position_of (last hist) i = PStr p"
    using visible_no_string [OF new(1)] by (cases "position_of (last hist) i") auto
  then have "named_granted (last hist) p new" using visible_named new(1) by simp
  then obtain dev tok where "entry_named dev n e" "holds (last hist) p dev tok"
    using new(2) unfolding named_granted_def by blast
  with named_first [of dev n e t] e h p show ?thesis by blast
qed

text \<open>An injection from a peer gives the agent a tool of a device on which its position holds nothing.\<close>

definition ex_forged :: pyval where
  "ex_forged = PDict [(''source'', PStr ''eve''), (''target'', PStr ''bob''), (''kind'', PStr ''application''),
     (''payload'', PDict [(''command'', PStr ''inject''), (''entries'', PList [entry_val ''x'' ''tool'' (PStr ''now'') (PStr []) (PDict [])
        (PInt 10) [PStr ''time''] (PInt 1) ''vault'']), (''evict'', PList [])])]"

section \<open>Examples\<close>

definition ex_task :: "(string, pyval) dict" where
  "ex_task = [(''source'', PStr ''boss''), (''target'', PStr ''bob''), (''kind'', PStr ''application''),
     (''payload'', PDict [(''command'', PStr ''task''), (''content'', PStr ''what time now''),
        (''arguments'', PDict [(''zone'', PStr ''utc'')])])]"

theorem inject_mirror_witness:
  "\<exists>ev a' new. build_inject ''boss'' example_authority = (Inr ev, a') \<and> dget (injected a') ''boss'' = Some new
     \<and> dget (entries (snd (agent_respond ev new_agent))) = dget new"
proof -
  obtain e2 where v: "visible example_authority (PStr ''lead'') = Inr [(''now'', example_tool), (''clock:use'', e2)]"
    using example_visible by blast
  have "\<exists>ev a'. build_inject ''boss'' example_authority = (Inr ev, a')"
    using v by (simp add: build_inject_def sx_defs) (simp add: example_authority_def)
  then obtain ev a' where b: "build_inject ''boss'' example_authority = (Inr ev, a')" by blast
  have "\<exists>me. dget (identities example_authority) ''boss'' = Some me \<and> i_position me = PStr ''lead''"
    by (simp add: example_authority_def)
  then obtain me where "dget (identities example_authority) ''boss'' = Some me" "i_position me = PStr ''lead''" by blast
  from inject_mirror [OF b this, of new_agent] b show ?thesis
    by (auto simp: example_authority_def new_agent_def)
qed

lemma ex_served:
  assumes "build_inject ''boss'' example_authority = (Inr ev, a')"
  shows "served ''boss'' [example_authority] a' (snd (agent_respond ev new_agent))"
  using served_inject [OF served_start assms] by (simp add: example_authority_def)

theorem agent_calls_granted_witness:
  "\<exists>a ag out ag' p dev t. served ''boss'' [example_authority] a ag \<and> agent_respond (PDict ex_task) ag = (Inr (PDict out), ag')
     \<and> position_of example_authority ''boss'' = PStr p \<and> dget out ''target'' = Some (PStr dev) \<and> holds example_authority p dev t"
proof -
  obtain e2 where v: "visible example_authority (PStr ''lead'') = Inr [(''now'', example_tool), (''clock:use'', e2)]"
    using example_visible by blast
  let ?new = "[(''now'', example_tool), (''clock:use'', e2)]"
  obtain a' where b: "build_inject ''boss'' example_authority = (Inr (inject_event ''boss'' [] ?new), a')"
    using v by (simp add: build_inject_def sx_defs) (simp add: example_authority_def)
  let ?ag = "\<lparr>messages = [], entries = ?new\<rparr>"
  have ag: "snd (agent_respond (inject_event ''boss'' [] ?new) new_agent) = ?ag"
    using puts_run [OF visible_entries_named [OF v], of new_agent]
    by (simp add: agent_respond_def on_inject_def inject_event_def new_agent_def sx_defs dkeys_def py_or_def dvals_def)
  obtain out ag' q where run: "agent_respond (PDict ex_task) ?ag = (Inr (PDict out), ag')"
    "dget out ''payload'' = Some (PDict q)" "dget q ''command'' = Some (PStr ''tool_run'')"
    by (simp add: agent_respond_def on_task_def ex_task_def sx_defs triggers_def example_tool_def entry_val_def py_or_def
        first_associated_def agent_result_def dvals_def)
  note sv = ex_served [OF b, unfolded ag]
  from agent_calls_granted [OF sv run] obtain p dev t where "position_of example_authority ''boss'' = PStr p"
    "dget out ''target'' = Some (PStr dev)" "holds example_authority p dev t" by auto
  with sv run(1) show ?thesis by (intro exI conjI)
qed

lemma forged_injection_obeyed:
  "\<exists>out ag'. agent_respond (PDict ex_task) (snd (agent_respond ex_forged new_agent)) = (Inr (PDict out), ag')
     \<and> dget out ''target'' = Some (PStr ''vault'')"
  by (simp add: agent_respond_def on_inject_def on_task_def ex_forged_def ex_task_def new_agent_def entry_val_def put_entry_def sx_defs py_or_def
      triggers_def first_associated_def dvals_def item_key_def)

end
