(* ===== verification/Bash.thy ===== *)
theory Bash
  imports Authority PyString
begin

text \<open>
  The bash device (\<^verbatim>\<open>device/bash/device.py\<close>): a pool of shell jobs with the four gates on their time,
  serial per source, with background jobs, kill, extend and reading the output by offset.

  A job is an object shared by the pool, the list of completed jobs, the queues and its tasks; here
  jobs are kept in one list and referred to by their position.  Each operation is the code between
  two awaits.  What the operating system does (starting the shell, its output, its exit) and the
  clock enter as arguments of the steps.  Ghost fields: \<open>j_stream\<close>, all output so far, \<open>j_phase\<close>, where
  the driving task of the job is suspended, and \<open>told\<close>, the events delivered.
\<close>

section \<open>State\<close>

definition RESULT_PREVIEW :: nat where
  "RESULT_PREVIEW = 64 * 1024"

definition STATUS_CHUNK :: nat where
  "STATUS_CHUNK = 64 * 1024"

datatype jstate = Queued | Running | Done | Killed | Expired

fun state_str :: "jstate \<Rightarrow> string" where
  "state_str Queued = ''queued''"
| "state_str Running = ''running''"
| "state_str Done = ''done''"
| "state_str Killed = ''killed''"
| "state_str Expired = ''expired''"

datatype phase = InQueue | Spawning | InWindow | Background | Over

datatype procst = Alive | Exited int

record job =
  j_id :: string
  j_source :: string
  j_call :: pyval
  j_cmd :: string
  j_cwd :: pyval
  j_created :: pyfloat
  j_deadline :: pyfloat
  j_timeout :: pyfloat
  j_proc :: "procst option"
  j_buffer :: string
  j_trimmed :: int
  j_state :: jstate
  j_window :: bool
  j_signalled :: bool
  j_eof :: bool
  j_phase :: phase
  j_stream :: string

record bash =
  max_jobs :: int
  default_timeout :: pyfloat
  default_deadline :: pyfloat
  max_deadline :: pyfloat
  output_cap :: int
  completed_cap :: nat
  default_cwd :: pyval
  all_jobs :: "job list"
  jobs :: "nat list"
  completed :: "nat list"
  pending :: "(string, nat list) dict"
  busy :: "string list"
  told :: "(nat \<times> pyval) list"

definition bash_init :: "int \<Rightarrow> pyfloat \<Rightarrow> pyfloat \<Rightarrow> pyfloat \<Rightarrow> int \<Rightarrow> nat \<Rightarrow> pyval \<Rightarrow> bash res" where
  "bash_init mj timeout deadline maxd cap ccap cwd =
     (if flt_lt timeout deadline \<and> flt_le deadline maxd
      then Inr \<lparr>max_jobs = mj, default_timeout = timeout, default_deadline = deadline,
        max_deadline = maxd, output_cap = cap, completed_cap = ccap, default_cwd = cwd, all_jobs = [],
        jobs = [], completed = [], pending = [], busy = [], told = []\<rparr>
      else Inl (ValueError ''timeout < deadline <= max_deadline''))"

definition upd :: "nat \<Rightarrow> (job \<Rightarrow> job) \<Rightarrow> bash \<Rightarrow> bash" where
  "upd i f b = b\<lparr>all_jobs := (all_jobs b)[i := f (all_jobs b ! i)]\<rparr>"

section \<open>Events\<close>

text \<open>\<^verbatim>\<open>buffer[-RESULT_PREVIEW:]\<close>\<close>

definition preview :: "string \<Rightarrow> string" where
  "preview s = drop (length s - RESULT_PREVIEW) s"

definition result :: "pyfloat \<Rightarrow> job \<Rightarrow> pyval \<Rightarrow> pyval" where
  "result now j error =
     PDict [(''target'', PStr (j_source j)), (''kind'', PStr ''application''),
       (''payload'', PDict [(''command'', PStr ''bash_result''),
          (''ok'', PBool (j_state j = Done \<and> j_proc j = Some (Exited 0))),
          (''job_id'', PStr (j_id j)),
          (''content'', PStr (utf8_replace (preview (j_buffer j)))),
          (''exit_code'', case j_proc j of Some (Exited c) \<Rightarrow> PInt c | _ \<Rightarrow> PNone),
          (''expired'', PBool (j_state j = Expired)), (''killed'', PBool (j_state j = Killed)),
          (''truncated'', PBool (j_trimmed j + int (length (j_buffer j)) > int RESULT_PREVIEW)),
          (''duration'', PFloat (flt_sub now (j_created j))), (''error'', error),
          (''tool_call_id'', j_call j)])]"

definition backgrounded :: "job \<Rightarrow> pyval" where
  "backgrounded j =
     PDict [(''target'', PStr (j_source j)), (''kind'', PStr ''application''),
       (''payload'', PDict [(''command'', PStr ''bash_backgrounded''), (''job_id'', PStr (j_id j)),
          (''tool_call_id'', j_call j)])]"

text \<open>\<^verbatim>\<open>max(0.0, x)\<close> keeps its first argument unless the second is greater.\<close>

definition flt_max0 :: "pyfloat \<Rightarrow> pyfloat" where
  "flt_max0 x = (if flt_lt (Fin 0) x then x else Fin 0)"

definition status_result :: "pyfloat \<Rightarrow> job \<Rightarrow> string \<Rightarrow> int \<Rightarrow> bool \<Rightarrow> bool \<Rightarrow> pyval" where
  "status_result now j output offset reset truncated =
     PDict [(''target'', PStr (j_source j)), (''kind'', PStr ''application''),
       (''payload'', PDict [(''command'', PStr ''bash_status_result''), (''job_id'', PStr (j_id j)),
          (''state'', PStr (state_str (j_state j))), (''output'', PStr (utf8_replace output)),
          (''offset'', PInt offset), (''reset'', PBool reset), (''truncated'', PBool truncated),
          (''duration'', PFloat (flt_sub now (j_created j))),
          (''deadline_left'', PFloat (flt_max0 (flt_sub (j_deadline j) now))),
          (''tool_call_id'', j_call j)])]"

definition bash_error :: "pyval \<Rightarrow> string \<Rightarrow> pyval res" where
  "bash_error ev message =
     rbind (py_item ev ''source'') (\<lambda>s.
     rbind (py_item ev ''payload'') (\<lambda>p.
     rbind (py_get p ''job_id'') (\<lambda>i.
     rbind (py_get p ''command'') (\<lambda>c.
     rbind (py_get p ''tool_call_id'') (\<lambda>t.
       Inr (PDict [(''target'', s), (''kind'', PStr ''application''),
         (''payload'', PDict [(''command'', PStr ''bash_error''), (''job_id'', i), (''request'', c),
            (''error'', PStr message), (''tool_call_id'', t)])]))))))"

section \<open>Pool and queues\<close>

definition tell :: "nat \<Rightarrow> pyval \<Rightarrow> bash \<Rightarrow> bash" where
  "tell i ev b = b\<lparr>told := told b @ [(i, ev)]\<rparr>"

text \<open>
  \<^verbatim>\<open>_deliver\<close>: to the requester still waiting for its window, or to the bus; either way the event is
  delivered once, and the window is closed.
\<close>

definition deliver_job :: "nat \<Rightarrow> pyval \<Rightarrow> bash \<Rightarrow> bash" where
  "deliver_job i ev b = tell i ev (upd i (\<lambda>j. j\<lparr>j_window := False\<rparr>) b)"

text \<open>\<^verbatim>\<open>_finish\<close>: out of the pool, into the bounded list of completed jobs.\<close>

definition push_completed :: "nat \<Rightarrow> nat \<Rightarrow> nat list \<Rightarrow> nat list" where
  "push_completed cap i l = (let l' = l @ [i] in drop (length l' - cap) l')"

definition finish_job :: "nat \<Rightarrow> bash \<Rightarrow> bash" where
  "finish_job i b = b\<lparr>jobs := filter (\<lambda>k. k \<noteq> i) (jobs b),
     completed := push_completed (completed_cap b) i (completed b)\<rparr>"

text \<open>\<^verbatim>\<open>_wake_source\<close>: the next job of the source starts, or the source is free.\<close>

definition wake_source :: "string \<Rightarrow> bash \<Rightarrow> bash" where
  "wake_source s b =
     (case dget (pending b) s of
        Some (i # is) \<Rightarrow>
          (upd i (\<lambda>j. j\<lparr>j_state := Running, j_phase := Spawning\<rparr>) b)\<lparr>pending := dset s is (pending b),
             jobs := jobs b @ [i]\<rparr>
      | _ \<Rightarrow> b\<lparr>busy := filter (\<lambda>x. x \<noteq> s) (busy b)\<rparr>)"

text \<open>
  The end of a job: finish, send its result, wake the source.  The result goes to the window, if the requester still
  waits for it, or to the bus; after an unexpected exception of the driving task it goes to the bus, and a window that is
  open stays open.
\<close>

definition end_by :: "(nat \<Rightarrow> pyval \<Rightarrow> bash \<Rightarrow> bash) \<Rightarrow> pyfloat \<Rightarrow> nat \<Rightarrow> pyval \<Rightarrow> bash \<Rightarrow> bash" where
  "end_by send now i error b =
     (let b1 = finish_job i (upd i (\<lambda>j. j\<lparr>j_phase := Over\<rparr>) b);
          j = all_jobs b1 ! i in
      wake_source (j_source j) (send i (result now j error) b1))"

definition end_job :: "pyfloat \<Rightarrow> nat \<Rightarrow> pyval \<Rightarrow> bash \<Rightarrow> bash" where
  "end_job = end_by deliver_job"

definition crash_job :: "pyfloat \<Rightarrow> nat \<Rightarrow> pyval \<Rightarrow> bash \<Rightarrow> bash" where
  "crash_job = end_by tell"

section \<open>Requests\<close>

text \<open>The error branch: the request is answered and nothing changes.\<close>

definition refuse :: "pyval \<Rightarrow> string \<Rightarrow> (bash, pyval option) sx" where
  "refuse ev m = bind (lift (bash_error ev m)) (\<lambda>r. ret (Some r))"

text \<open>The outcome of a run request: an answer, or \<open>None\<close> while the requester waits for the window.\<close>

definition start_job :: "pyfloat \<Rightarrow> string \<Rightarrow> pyval \<Rightarrow> string \<Rightarrow> pyval \<Rightarrow> pyfloat \<Rightarrow> pyfloat
    \<Rightarrow> (bash, pyval option) sx" where
  "start_job now source call cmd cwd timeout deadline =
     bind (asks (\<lambda>b. b)) (\<lambda>b.
     let i = length (all_jobs b);
         queued = source \<in> set (busy b);
         j = \<lparr>j_id = ''j'' @ digits i, j_source = source, j_call = call, j_cmd = cmd, j_cwd = cwd,
              j_created = now, j_deadline = flt_add now deadline, j_timeout = timeout, j_proc = None,
              j_buffer = [], j_trimmed = 0, j_state = (if queued then Queued else Running),
              j_window = \<not> queued, j_signalled = False, j_eof = False,
              j_phase = (if queued then InQueue else Spawning), j_stream = []\<rparr>
     in if queued
        then andthen (modify (\<lambda>b. b\<lparr>all_jobs := all_jobs b @ [j],
               pending := dset source ((case dget (pending b) source of None \<Rightarrow> [] | Some q \<Rightarrow> q) @ [i]) (pending b)\<rparr>))
             (ret (Some VOID))
        else andthen (modify (\<lambda>b. b\<lparr>all_jobs := all_jobs b @ [j], jobs := jobs b @ [i],
               busy := busy b @ [source]\<rparr>))
             (ret None))"

definition on_run :: "pyfloat \<Rightarrow> pyval \<Rightarrow> (bash, pyval option) sx" where
  "on_run now ev =
     bind (lift (py_item ev ''payload'')) (\<lambda>payload.
     bind (asks (\<lambda>b. b)) (\<lambda>b.
     if int (length (jobs b)) \<ge> max_jobs b then refuse ev ''too many running jobs''
     else bind (lift (py_get payload ''cmd'')) (\<lambda>cv.
       case cv of
         PStr cmd \<Rightarrow>
           if strip cmd = [] then refuse ev ''cmd missing''
           else
             bind (lift (py_get_or payload ''timeout'' (PFloat (default_timeout b)))) (\<lambda>tv.
             bind (lift (py_get_or payload ''deadline'' (PFloat (default_deadline b)))) (\<lambda>dv.
             case (num_of tv, num_of dv) of
               (Some timeout, Some deadline) \<Rightarrow>
                 if flt_lt (max_deadline b) deadline then refuse ev ''deadline above the limit''
                 else if \<not> (flt_le (Fin 0) timeout \<and> flt_le timeout deadline)
                 then refuse ev ''needs 0 <= timeout <= deadline''
                 else
                   bind (lift (item_key ev ''source'')) (\<lambda>source.
                   bind (lift (py_get payload ''tool_call_id'')) (\<lambda>call.
                   bind (lift (py_get payload ''cwd'')) (\<lambda>cwd.
                   start_job now source call cmd (py_or cwd (default_cwd b)) timeout deadline)))
             | _ \<Rightarrow> refuse ev ''timeout and deadline must be numbers''))
       | _ \<Rightarrow> refuse ev ''cmd missing'')))"

definition find_job :: "bash \<Rightarrow> nat list \<Rightarrow> string \<Rightarrow> nat option" where
  "find_job b is n = find (\<lambda>i. j_id (all_jobs b ! i) = n) is"

definition find_owned :: "pyval \<Rightarrow> (bash, nat option) sx" where
  "find_owned ev =
     bind (lift (py_item ev ''payload'')) (\<lambda>p.
     bind (lift (py_get p ''job_id'')) (\<lambda>iv.
     andthen (guard (hashable iv) TypeError)
     (bind (asks (\<lambda>b. case iv of
         PStr n \<Rightarrow> (case find_job b (jobs b) n of Some i \<Rightarrow> Some i | None \<Rightarrow> find_job b (completed b) n)
       | _ \<Rightarrow> None)) (\<lambda>found.
      case found of
        None \<Rightarrow> ret None
      | Some i \<Rightarrow>
          bind (lift (py_item ev ''source'')) (\<lambda>s.
          bind (asks (\<lambda>b. j_source (all_jobs b ! i))) (\<lambda>owner.
          ret (if PStr owner \<noteq> s then None else Some i)))))))"

definition with_owned :: "pyval \<Rightarrow> (nat \<Rightarrow> (bash, pyval option) sx) \<Rightarrow> (bash, pyval option) sx" where
  "with_owned ev f =
     bind (find_owned ev) (\<lambda>found.
       case found of None \<Rightarrow> refuse ev ''unknown job or not yours'' | Some i \<Rightarrow> f i)"

text \<open>
  Kill: the state is set before the process group is signalled; a job whose shell has not been
  started yet has no process to signal.
\<close>

definition kill_owned :: "pyval \<Rightarrow> nat \<Rightarrow> (bash, pyval option) sx" where
  "kill_owned ev i =
     bind (asks (\<lambda>b. all_jobs b ! i)) (\<lambda>j.
     if j_state j \<noteq> Running then refuse ev ''job is over''
     else andthen (modify (upd i (\<lambda>j. j\<lparr>j_state := Killed\<rparr>)))
       (if j_proc j = None then throw AttributeError
        else andthen (modify (upd i (\<lambda>j. j\<lparr>j_signalled := True\<rparr>))) (ret (Some VOID))))"

definition on_kill :: "pyval \<Rightarrow> (bash, pyval option) sx" where
  "on_kill ev = with_owned ev (kill_owned ev)"

definition extend_owned :: "pyval \<Rightarrow> nat \<Rightarrow> (bash, pyval option) sx" where
  "extend_owned ev i =
     bind (asks (\<lambda>b. all_jobs b ! i)) (\<lambda>j.
     if j_state j \<noteq> Running then refuse ev ''job is over''
     else bind (lift (py_item ev ''payload'')) (\<lambda>p.
       bind (lift (py_get p ''seconds'')) (\<lambda>sv.
       bind (asks max_deadline) (\<lambda>maxd.
       case num_of sv of
         None \<Rightarrow> refuse ev ''seconds must be positive''
       | Some extra \<Rightarrow>
           if flt_le extra (Fin 0) then refuse ev ''seconds must be positive''
           else if flt_lt maxd (flt_sub (flt_add (j_deadline j) extra) (j_created j))
           then refuse ev ''extended beyond the limit''
           else andthen (modify (upd i (\<lambda>j. j\<lparr>j_deadline := flt_add (j_deadline j) extra\<rparr>)))
             (ret (Some VOID))))))"

definition on_extend :: "pyval \<Rightarrow> (bash, pyval option) sx" where
  "on_extend ev = with_owned ev (extend_owned ev)"

definition status_owned :: "pyfloat \<Rightarrow> pyval \<Rightarrow> nat \<Rightarrow> (bash, pyval option) sx" where
  "status_owned now ev i =
     bind (asks (\<lambda>b. all_jobs b ! i)) (\<lambda>j.
     bind (lift (py_item ev ''payload'')) (\<lambda>p.
     bind (lift (py_get_or p ''offset'' (PInt 0))) (\<lambda>ov.
     let total = j_trimmed j + int (length (j_buffer j));
         reset = status_result now j [] (j_trimmed j) True False in
     ret (Some (case (case ov of PInt n \<Rightarrow> Some n | PBool c \<Rightarrow> Some (if c then 1 else 0) | _ \<Rightarrow> None) of
         None \<Rightarrow> reset
       | Some offset \<Rightarrow>
           if offset < j_trimmed j \<or> offset > total then reset
           else let chunk = take STATUS_CHUNK (drop (nat (offset - j_trimmed j)) (j_buffer j));
                    new_offset = offset + int (length chunk) in
                status_result now j chunk new_offset False (new_offset < total))))))"

definition on_status :: "pyfloat \<Rightarrow> pyval \<Rightarrow> (bash, pyval option) sx" where
  "on_status now ev = with_owned ev (status_owned now ev)"

definition bash_respond :: "pyfloat \<Rightarrow> pyval \<Rightarrow> (bash, pyval option) sx" where
  "bash_respond now ev =
     bind (lift (py_item ev ''payload'')) (\<lambda>p.
     bind (lift (py_get p ''command'')) (\<lambda>c.
     if \<not> hashable c then throw TypeError
     else if c = PStr ''bash_run'' then on_run now ev
     else if c = PStr ''bash_status'' then on_status now ev
     else if c = PStr ''bash_kill'' then on_kill ev
     else if c = PStr ''bash_extend'' then on_extend ev
     else refuse ev ''unknown command''))"

section \<open>The driving task and the deadline\<close>

text \<open>\<^verbatim>\<open>buffer[-cap:]\<close>\<close>

definition tail :: "int \<Rightarrow> string \<Rightarrow> string" where
  "tail cap s = (if cap > 0 then drop (length s - nat cap) s
     else if cap = 0 then s else drop (nat (- cap)) s)"

definition append_output :: "int \<Rightarrow> string \<Rightarrow> job \<Rightarrow> job" where
  "append_output cap chunk j =
     (let buf = j_buffer j @ chunk; j1 = j\<lparr>j_stream := j_stream j @ chunk\<rparr> in
      if int (length buf) > cap
      then j1\<lparr>j_trimmed := j_trimmed j + (int (length buf) - cap), j_buffer := tail cap buf\<rparr>
      else j1\<lparr>j_buffer := buf\<rparr>)"

text \<open>The shell has been started: the window opens, or the job goes to the background at once.\<close>

definition spawned :: "nat \<Rightarrow> bash \<Rightarrow> bash" where
  "spawned i b =
     (let b1 = upd i (\<lambda>j. j\<lparr>j_proc := Some Alive\<rparr>) b; j = all_jobs b1 ! i in
      if flt_lt (Fin 0) (j_timeout j) then upd i (\<lambda>j. j\<lparr>j_phase := InWindow\<rparr>) b1
      else upd i (\<lambda>j. j\<lparr>j_phase := Background\<rparr>) (deliver_job i (backgrounded j) b1))"

definition window_over :: "nat \<Rightarrow> bash \<Rightarrow> bash" where
  "window_over i b =
     upd i (\<lambda>j. j\<lparr>j_phase := Background, j_eof := False\<rparr>) (deliver_job i (backgrounded (all_jobs b ! i)) b)"

text \<open>The output ends: the job is marked done unless a kill or the deadline came first.\<close>

definition eof_seen :: "nat \<Rightarrow> bash \<Rightarrow> bash" where
  "eof_seen i b = upd i (\<lambda>j. j\<lparr>j_eof := True, j_state := (if j_state j = Running then Done else j_state j)\<rparr>) b"

text \<open>The deadline: a running job with a live process is killed, a queued one is withdrawn.\<close>

definition deadline_reached :: "pyfloat \<Rightarrow> nat \<Rightarrow> bash \<Rightarrow> bash" where
  "deadline_reached now i b =
     (let j = all_jobs b ! i in
      if j_state j = Running \<and> j_proc j = Some Alive
      then upd i (\<lambda>j. j\<lparr>j_state := Expired, j_signalled := True\<rparr>) b
      else if j_state j = Queued
      then (let b1 = upd i (\<lambda>j. j\<lparr>j_state := Expired, j_phase := Over\<rparr>)
                (b\<lparr>pending := dset (j_source j)
                    (remove1 i (case dget (pending b) (j_source j) of None \<Rightarrow> [] | Some q \<Rightarrow> q)) (pending b)\<rparr>) in
            tell i (result now (all_jobs b1 ! i) PNone) b1)
      else b)"

inductive bstep :: "bash \<Rightarrow> bash \<Rightarrow> bool" where
  Request: "bash_respond (Fin t) ev b = (r, b') \<Longrightarrow> bstep b b'"
| Spawned: "i < length (all_jobs b) \<Longrightarrow> j_phase (all_jobs b ! i) = Spawning \<Longrightarrow> bstep b (spawned i b)"
| SpawnFails: "i < length (all_jobs b) \<Longrightarrow> j_phase (all_jobs b ! i) = Spawning
    \<Longrightarrow> bstep b (end_job (Fin t) i (PStr m) b)"
| Output: "i < length (all_jobs b) \<Longrightarrow> j_phase (all_jobs b ! i) \<in> {InWindow, Background}
    \<Longrightarrow> bstep b (upd i (append_output (output_cap b) chunk) b)"
| WindowOver: "i < length (all_jobs b) \<Longrightarrow> j_phase (all_jobs b ! i) = InWindow \<Longrightarrow> bstep b (window_over i b)"
| Eof: "i < length (all_jobs b) \<Longrightarrow> j_phase (all_jobs b ! i) \<in> {InWindow, Background}
    \<Longrightarrow> bstep b (eof_seen i b)"
| Reaped: "i < length (all_jobs b) \<Longrightarrow> j_phase (all_jobs b ! i) \<in> {InWindow, Background}
    \<Longrightarrow> bstep b (upd i (\<lambda>j. j\<lparr>j_proc := Some (Exited c)\<rparr>) b)"
| Exit: "i < length (all_jobs b) \<Longrightarrow> j_phase (all_jobs b ! i) \<in> {InWindow, Background} \<Longrightarrow> j_eof (all_jobs b ! i)
    \<Longrightarrow> bstep b (end_job (Fin t) i PNone (upd i (\<lambda>j. j\<lparr>j_proc := Some (Exited c)\<rparr>) b))"
| Crash: "i < length (all_jobs b) \<Longrightarrow> j_phase (all_jobs b ! i) \<in> {InWindow, Background}
    \<Longrightarrow> bstep b (crash_job (Fin t) i (PStr m) (upd i (\<lambda>j. j\<lparr>j_signalled := True\<rparr>) b))"
| Deadline: "i < length (all_jobs b) \<Longrightarrow> flt_le (j_deadline (all_jobs b ! i)) (Fin t)
    \<Longrightarrow> bstep b (deadline_reached (Fin t) i b)"

interpretation bp: trans_sys "\<lambda>b. \<exists>mj t d m cap cc cwd. bash_init mj t d m cap cc cwd = Inr b" bstep .

section \<open>The pool\<close>

definition active :: "job \<Rightarrow> bool" where
  "active j \<longleftrightarrow> j_phase j \<in> {Spawning, InWindow, Background}"

text \<open>
  The running pool is exactly the jobs whose task is driving them, at most the limit and at most
  one of each source; a source is busy exactly while it has one; the queues hold exactly the jobs
  that are waiting, each under its source, and only for sources that are busy.
\<close>

definition pool_ok :: "bash \<Rightarrow> bool" where
  "pool_ok b \<longleftrightarrow> distinct (jobs b)
     \<and> (\<forall>i. i \<in> set (jobs b) \<longleftrightarrow> i < length (all_jobs b) \<and> active (all_jobs b ! i))
     \<and> (jobs b = [] \<or> int (length (jobs b)) \<le> max_jobs b)
     \<and> inj_on (\<lambda>i. j_source (all_jobs b ! i)) (set (jobs b))
     \<and> set (busy b) = (\<lambda>i. j_source (all_jobs b ! i)) ` set (jobs b)"

definition waiting :: "bash \<Rightarrow> string \<Rightarrow> nat list" where
  "waiting b s = (case dget (pending b) s of None \<Rightarrow> [] | Some q \<Rightarrow> q)"

definition queues_ok :: "bash \<Rightarrow> bool" where
  "queues_ok b \<longleftrightarrow> (\<forall>s. distinct (waiting b s) \<and> (waiting b s \<noteq> [] \<longrightarrow> s \<in> set (busy b))
     \<and> set (waiting b s) = {i. i < length (all_jobs b) \<and> j_phase (all_jobs b ! i) = InQueue
          \<and> j_source (all_jobs b ! i) = s})
     \<and> (\<forall>i < length (all_jobs b). j_phase (all_jobs b ! i) = InQueue \<longleftrightarrow> j_state (all_jobs b ! i) = Queued)"

text \<open>Results delivered for a job.\<close>

definition is_result :: "pyval \<Rightarrow> bool" where
  "is_result ev \<longleftrightarrow> rbind (py_item ev ''payload'') (\<lambda>p. py_item p ''command'') = Inr (PStr ''bash_result'')"

definition results :: "nat \<Rightarrow> bash \<Rightarrow> pyval list" where
  "results i b = map snd (filter (\<lambda>t. fst t = i \<and> is_result (snd t)) (told b))"

definition results_ok :: "bash \<Rightarrow> bool" where
  "results_ok b \<longleftrightarrow> (\<forall>i. length (results i b)
     = (if i < length (all_jobs b) \<and> j_phase (all_jobs b ! i) = Over then 1 else 0))"

definition bash_ok :: "bash \<Rightarrow> bool" where
  "bash_ok b \<longleftrightarrow> pool_ok b \<and> queues_ok b \<and> results_ok b"

lemma is_result_simps [simp]: "is_result (result now j e)" "\<not> is_result (backgrounded j)"
  by (simp_all add: is_result_def result_def backgrounded_def)

lemma nth_upd: "i < length (all_jobs b) \<Longrightarrow> all_jobs (upd i f b) ! k = (if k = i then f (all_jobs b ! i) else all_jobs b ! k)"
  by (simp add: upd_def nth_list_update)

lemma upd_fields [simp]:
  "length (all_jobs (upd i f b)) = length (all_jobs b)" "jobs (upd i f b) = jobs b"
  "busy (upd i f b) = busy b" "pending (upd i f b) = pending b" "told (upd i f b) = told b"
  "max_jobs (upd i f b) = max_jobs b" "completed (upd i f b) = completed b"
  "completed_cap (upd i f b) = completed_cap b" "output_cap (upd i f b) = output_cap b"
  "max_deadline (upd i f b) = max_deadline b"
  by (simp_all add: upd_def)

text \<open>A change of a job that moves it between no two of: waiting, driven, over.\<close>

definition quiet_change :: "job \<Rightarrow> job \<Rightarrow> bool" where
  "quiet_change j j' \<longleftrightarrow> j_source j' = j_source j \<and> active j' = active j
     \<and> (j_phase j' = Over \<longleftrightarrow> j_phase j = Over) \<and> (j_phase j' = InQueue \<longleftrightarrow> j_phase j = InQueue)
     \<and> (j_state j' = Queued \<longleftrightarrow> j_state j = Queued)"

lemma bash_ok_quiet:
  assumes "bash_ok b" and "i < length (all_jobs b)" and "quiet_change (all_jobs b ! i) (f (all_jobs b ! i))"
  shows "bash_ok (upd i f b)"
proof -
  have src: "j_source (all_jobs (upd i f b) ! k) = j_source (all_jobs b ! k)"
    and act: "active (all_jobs (upd i f b) ! k) = active (all_jobs b ! k)"
    and ov: "j_phase (all_jobs (upd i f b) ! k) = Over \<longleftrightarrow> j_phase (all_jobs b ! k) = Over"
    and inq: "j_phase (all_jobs (upd i f b) ! k) = InQueue \<longleftrightarrow> j_phase (all_jobs b ! k) = InQueue"
    and qd: "j_state (all_jobs (upd i f b) ! k) = Queued \<longleftrightarrow> j_state (all_jobs b ! k) = Queued" for k
    using assms(2,3) by (auto simp: nth_upd quiet_change_def)
  have w: "waiting (upd i f b) = waiting b" by (simp add: waiting_def fun_eq_iff)
  have "pool_ok (upd i f b)" using assms(1) by (simp add: bash_ok_def pool_ok_def src act)
  moreover have "queues_ok (upd i f b)" using assms(1) by (simp add: bash_ok_def queues_ok_def w src inq qd)
  moreover have "results_ok (upd i f b)" using assms(1) by (simp add: bash_ok_def results_ok_def results_def ov)
  ultimately show ?thesis by (simp add: bash_ok_def)
qed

lemma bash_ok_tell:
  assumes "bash_ok b" and "\<not> is_result ev"
  shows "bash_ok (tell i ev b)"
proof -
  have w: "waiting (tell i ev b) = waiting b" by (simp add: waiting_def tell_def fun_eq_iff)
  have "pool_ok (tell i ev b)" using assms(1) by (simp add: bash_ok_def pool_ok_def tell_def)
  moreover have "queues_ok (tell i ev b)"
    using assms(1) unfolding queues_ok_def bash_ok_def w by (simp add: tell_def)
  moreover have "results_ok (tell i ev b)"
    using assms by (simp add: bash_ok_def results_ok_def results_def tell_def)
  ultimately show ?thesis by (simp add: bash_ok_def)
qed

text \<open>Results of a job count one more for it and nothing for the others.\<close>

lemma results_tell: "results k (tell i ev b) = results k b @ (if k = i \<and> is_result ev then [ev] else [])"
  by (simp add: results_def tell_def)

text \<open>A new job at the end of the list leaves what is known of the others.\<close>

lemma pool_ok_cong:
  assumes "pool_ok b" and "jobs b' = jobs b" and "busy b' = busy b" and "max_jobs b' = max_jobs b"
    and "\<And>i. i \<in> set (jobs b) \<Longrightarrow> j_source (all_jobs b' ! i) = j_source (all_jobs b ! i)"
    and "\<And>i. i < length (all_jobs b') \<and> active (all_jobs b' ! i) \<longleftrightarrow> i < length (all_jobs b) \<and> active (all_jobs b ! i)"
  shows "pool_ok b'"
proof -
  have "inj_on (\<lambda>i. j_source (all_jobs b' ! i)) (set (jobs b)) = inj_on (\<lambda>i. j_source (all_jobs b ! i)) (set (jobs b))"
    by (rule inj_on_cong) (rule assms(5))
  then have "inj_on (\<lambda>i. j_source (all_jobs b' ! i)) (set (jobs b))"
    using assms(1) by (simp add: pool_ok_def)
  moreover have "(\<lambda>i. j_source (all_jobs b' ! i)) ` set (jobs b) = (\<lambda>i. j_source (all_jobs b ! i)) ` set (jobs b)"
    using assms(5) by (intro image_cong) auto
  ultimately show ?thesis using assms(1-4,6) by (simp add: pool_ok_def)
qed

definition add_job :: "job \<Rightarrow> bash \<Rightarrow> bash" where
  "add_job j b = b\<lparr>all_jobs := all_jobs b @ [j]\<rparr>"

lemma nth_add_job:
  "i < length (all_jobs b) \<Longrightarrow> all_jobs (add_job j b) ! i = all_jobs b ! i"
  "all_jobs (add_job j b) ! length (all_jobs b) = j" "length (all_jobs (add_job j b)) = Suc (length (all_jobs b))"
  by (simp_all add: add_job_def nth_append)

lemma results_add_job:
  "results_ok b \<Longrightarrow> j_phase j \<noteq> Over \<Longrightarrow> told b' = told b \<Longrightarrow> all_jobs b' = all_jobs b @ [j] \<Longrightarrow> results_ok b'"
  unfolding results_ok_def by (simp add: results_def nth_append less_Suc_eq)

lemma start_queued:
  assumes ok: "bash_ok b" and j: "j_phase j = InQueue" "j_state j = Queued" "j_source j = s" and bs: "s \<in> set (busy b)"
  shows "bash_ok ((add_job j b)\<lparr>pending := dset s (waiting b s @ [length (all_jobs b)]) (pending b)\<rparr>)" (is "bash_ok ?b")
proof -
  let ?n = "length (all_jobs b)"
  have nth: "i < ?n \<Longrightarrow> all_jobs ?b ! i = all_jobs b ! i" "all_jobs ?b ! ?n = j" "length (all_jobs ?b) = Suc ?n" for i
    by (simp_all add: nth_add_job)
  have w: "waiting ?b s' = (if s' = s then waiting b s @ [?n] else waiting b s')" for s'
    by (simp add: waiting_def)
  have lt: "i \<in> set (jobs b) \<Longrightarrow> i < ?n" for i using ok by (simp add: bash_ok_def pool_ok_def)
  have "pool_ok ?b"
  proof (rule pool_ok_cong)
    show "pool_ok b" using ok by (simp add: bash_ok_def)
    show "i < length (all_jobs ?b) \<and> active (all_jobs ?b ! i) \<longleftrightarrow> i < length (all_jobs b) \<and> active (all_jobs b ! i)" for i
      using nth j by (cases "i = ?n") (auto simp: active_def less_Suc_eq)
  qed (use nth lt in \<open>auto simp: add_job_def\<close>)
  moreover have "queues_ok ?b"
    unfolding queues_ok_def
  proof (intro conjI allI impI)
    fix s'
    have q: "distinct (waiting b s')" "waiting b s' \<noteq> [] \<Longrightarrow> s' \<in> set (busy b)"
      "set (waiting b s') = {i. i < ?n \<and> j_phase (all_jobs b ! i) = InQueue \<and> j_source (all_jobs b ! i) = s'}"
      using ok by (auto simp: bash_ok_def queues_ok_def)
    show "distinct (waiting ?b s')" using q(1,3) by (auto simp: w)
    show "waiting ?b s' \<noteq> [] \<Longrightarrow> s' \<in> set (busy ?b)" using q(2) bs unfolding w by (auto simp: add_job_def split: if_splits)
    show "set (waiting ?b s') = {i. i < length (all_jobs ?b) \<and> j_phase (all_jobs ?b ! i) = InQueue \<and> j_source (all_jobs ?b ! i) = s'}"
      using q(3) nth j by (auto simp: w less_Suc_eq split: if_splits)
  next
    fix i assume "i < length (all_jobs ?b)"
    then show "j_phase (all_jobs ?b ! i) = InQueue \<longleftrightarrow> j_state (all_jobs ?b ! i) = Queued"
      using nth j ok by (cases "i = ?n") (auto simp: bash_ok_def queues_ok_def less_Suc_eq)
  qed
  moreover have "results_ok ?b"
    by (rule results_add_job [of b j]) (use ok j in \<open>simp_all add: bash_ok_def add_job_def\<close>)
  ultimately show ?thesis by (simp add: bash_ok_def)
qed

lemma start_running:
  assumes ok: "bash_ok b" and j: "j_phase j = Spawning" "j_state j = Running" "j_source j = s" and bs: "s \<notin> set (busy b)"
    and lim: "int (length (jobs b)) < max_jobs b"
  shows "bash_ok ((add_job j b)\<lparr>jobs := jobs b @ [length (all_jobs b)], busy := busy b @ [s]\<rparr>)" (is "bash_ok ?b")
proof -
  let ?n = "length (all_jobs b)"
  have nth: "i < ?n \<Longrightarrow> all_jobs ?b ! i = all_jobs b ! i" "all_jobs ?b ! ?n = j" "length (all_jobs ?b) = Suc ?n" for i
    by (simp_all add: nth_add_job)
  have w: "waiting ?b = waiting b" by (simp add: waiting_def add_job_def fun_eq_iff)
  have pk: "distinct (jobs b)" "\<And>i. i \<in> set (jobs b) \<longleftrightarrow> i < ?n \<and> active (all_jobs b ! i)"
    "inj_on (\<lambda>i. j_source (all_jobs b ! i)) (set (jobs b))"
    "set (busy b) = (\<lambda>i. j_source (all_jobs b ! i)) ` set (jobs b)"
    using ok by (simp_all add: bash_ok_def pool_ok_def)
  have src: "j_source (all_jobs ?b ! i) = j_source (all_jobs b ! i)" if "i \<in> set (jobs b)" for i
    using that pk(2) nth(1) by simp
  have "pool_ok ?b"
    unfolding pool_ok_def
  proof (intro conjI allI)
    show "distinct (jobs ?b)" using pk(1,2) by simp
    show "i \<in> set (jobs ?b) \<longleftrightarrow> i < length (all_jobs ?b) \<and> active (all_jobs ?b ! i)" for i
      using pk(2) nth j by (cases "i = ?n") (auto simp: active_def less_Suc_eq)
    show "jobs ?b = [] \<or> int (length (jobs ?b)) \<le> max_jobs ?b" using lim by (simp add: add_job_def)
    have img: "(\<lambda>i. j_source (all_jobs ?b ! i)) ` set (jobs b) = set (busy b)"
      using src pk(4) by (metis (no_types, lifting) image_cong)
    show "set (busy ?b) = (\<lambda>i. j_source (all_jobs ?b ! i)) ` set (jobs ?b)" using img nth(2) j(3) by simp
    have "inj_on (\<lambda>i. j_source (all_jobs ?b ! i)) (set (jobs b))"
      using pk(3) src by (metis (no_types, lifting) inj_on_cong)
    then show "inj_on (\<lambda>i. j_source (all_jobs ?b ! i)) (set (jobs ?b))"
      using img nth(2) j(3) bs pk(2) by simp
  qed
  moreover have "queues_ok ?b"
    unfolding queues_ok_def w
  proof (intro conjI allI impI)
    fix s'
    have q: "distinct (waiting b s')" "waiting b s' \<noteq> [] \<Longrightarrow> s' \<in> set (busy b)"
      "set (waiting b s') = {i. i < ?n \<and> j_phase (all_jobs b ! i) = InQueue \<and> j_source (all_jobs b ! i) = s'}"
      using ok by (auto simp: bash_ok_def queues_ok_def)
    show "distinct (waiting b s')" by (rule q(1))
    show "waiting b s' \<noteq> [] \<Longrightarrow> s' \<in> set (busy ?b)" using q(2) by simp
    show "set (waiting b s') = {i. i < length (all_jobs ?b) \<and> j_phase (all_jobs ?b ! i) = InQueue \<and> j_source (all_jobs ?b ! i) = s'}"
      using q(3) nth j by (auto simp: less_Suc_eq)
  next
    fix i assume "i < length (all_jobs ?b)"
    then show "j_phase (all_jobs ?b ! i) = InQueue \<longleftrightarrow> j_state (all_jobs ?b ! i) = Queued"
      using nth j ok by (cases "i = ?n") (auto simp: bash_ok_def queues_ok_def less_Suc_eq)
  qed
  moreover have "results_ok ?b"
    by (rule results_add_job [of b j]) (use ok j in \<open>simp_all add: bash_ok_def add_job_def\<close>)
  ultimately show ?thesis by (simp add: bash_ok_def)
qed

lemma start_job_ok:
  assumes ok: "bash_ok b" and lim: "int (length (jobs b)) < max_jobs b"
    and run: "start_job now source call cmd cwd timeout deadline b = (r, b')"
  shows "bash_ok b'"
proof (cases "source \<in> set (busy b)")
  case True
  then obtain j where "b' = (add_job j b)\<lparr>pending := dset source (waiting b source @ [length (all_jobs b)]) (pending b)\<rparr>"
    and "j_phase j = InQueue" "j_state j = Queued" "j_source j = source"
    using run by (auto simp: start_job_def Let_def sx_defs waiting_def add_job_def)
  with start_queued [OF ok _ _ _ True] show ?thesis by blast
next
  case False
  then obtain j where "b' = (add_job j b)\<lparr>jobs := jobs b @ [length (all_jobs b)], busy := busy b @ [source]\<rparr>"
    and "j_phase j = Spawning" "j_state j = Running" "j_source j = source"
    using run by (auto simp: start_job_def Let_def sx_defs add_job_def)
  with start_running [OF ok _ _ _ False lim] show ?thesis by blast
qed

text \<open>Between the end of a job and the waking of its source, the source is busy without a job.\<close>

definition freed :: "string \<Rightarrow> bash \<Rightarrow> bool" where
  "freed s b \<longleftrightarrow> distinct (jobs b)
     \<and> (\<forall>i. i \<in> set (jobs b) \<longleftrightarrow> i < length (all_jobs b) \<and> active (all_jobs b ! i))
     \<and> int (length (jobs b)) < max_jobs b
     \<and> inj_on (\<lambda>i. j_source (all_jobs b ! i)) (set (jobs b))
     \<and> s \<notin> (\<lambda>i. j_source (all_jobs b ! i)) ` set (jobs b)
     \<and> set (busy b) = insert s ((\<lambda>i. j_source (all_jobs b ! i)) ` set (jobs b))
     \<and> queues_ok b \<and> results_ok b"

lemma freed_end:
  assumes ok: "bash_ok b" and i: "i < length (all_jobs b)" "active (all_jobs b ! i)" and ev: "is_result ev"
    and s: "s = j_source (all_jobs b ! i)"
  shows "freed s (tell i ev (upd i (\<lambda>j. j\<lparr>j_window := h j\<rparr>) (finish_job i (upd i (\<lambda>j. j\<lparr>j_phase := Over\<rparr>) b))))" (is "freed s ?b")
proof -
  have nth: "j_source (all_jobs ?b ! k) = j_source (all_jobs b ! k)" "j_state (all_jobs ?b ! k) = j_state (all_jobs b ! k)"
    "j_phase (all_jobs ?b ! k) = (if k = i then Over else j_phase (all_jobs b ! k))" for k
    using i(1) by (simp_all add: tell_def finish_job_def upd_def nth_list_update)
  have len: "length (all_jobs ?b) = length (all_jobs b)"
    and flds: "jobs ?b = filter (\<lambda>k. k \<noteq> i) (jobs b)" "busy ?b = busy b" "max_jobs ?b = max_jobs b"
    by (simp_all add: tell_def finish_job_def upd_def)
  have w: "waiting ?b = waiting b"
    by (simp add: waiting_def tell_def finish_job_def upd_def fun_eq_iff)
  have pk: "distinct (jobs b)" "\<And>i. i \<in> set (jobs b) \<longleftrightarrow> i < length (all_jobs b) \<and> active (all_jobs b ! i)"
    "inj_on (\<lambda>i. j_source (all_jobs b ! i)) (set (jobs b))"
    "set (busy b) = (\<lambda>i. j_source (all_jobs b ! i)) ` set (jobs b)" "jobs b = [] \<or> int (length (jobs b)) \<le> max_jobs b"
    using ok by (simp_all add: bash_ok_def pool_ok_def)
  have mem: "i \<in> set (jobs b)" using pk(2) i by simp
  have "length (filter (\<lambda>k. k \<noteq> i) (jobs b)) < length (jobs b)"
    using mem by (intro length_filter_less [of i]) auto
  then have lim: "int (length (jobs ?b)) < max_jobs ?b" using pk(5) mem flds by auto
  have act: "active (all_jobs ?b ! k) \<longleftrightarrow> k \<noteq> i \<and> active (all_jobs b ! k)" for k
    by (simp add: active_def nth)
  have "queues_ok ?b"
    unfolding queues_ok_def w nth len flds using ok i(2)
    by (auto simp: bash_ok_def queues_ok_def active_def)
  moreover have "results_ok ?b"
  proof -
    have "results k ?b = results k b @ (if k = i then [ev] else [])" for k
      using ev by (simp add: results_def tell_def finish_job_def upd_def)
    moreover have "j_phase (all_jobs b ! i) \<noteq> Over" using i(2) by (auto simp: active_def)
    ultimately show ?thesis using ok i(1) by (auto simp: bash_ok_def results_ok_def nth len)
  qed
  ultimately show ?thesis
    unfolding freed_def nth(1) act len using pk flds lim mem s
    by (auto simp: inj_on_def)
qed

lemma wake_ok:
  assumes "freed s b"
  shows "bash_ok (wake_source s b)"
proof (cases "waiting b s")
  case Nil
  then have eq: "wake_source s b = b\<lparr>busy := filter (\<lambda>x. x \<noteq> s) (busy b)\<rparr>"
    by (auto simp: wake_source_def waiting_def split: option.splits list.splits)
  have w: "waiting (b\<lparr>busy := x\<rparr>) = waiting b" for x by (simp add: waiting_def fun_eq_iff)
  have "pool_ok (wake_source s b)" using assms unfolding eq by (auto simp: freed_def pool_ok_def)
  moreover have "queues_ok (wake_source s b)"
    using assms Nil unfolding eq queues_ok_def w by (auto simp: freed_def queues_ok_def)
  moreover have "results_ok (wake_source s b)"
    using assms unfolding eq by (simp add: freed_def results_ok_def results_def)
  ultimately show ?thesis by (simp add: bash_ok_def)
next
  case (Cons i rest)
  let ?b = "wake_source s b"
  have eq: "?b = (upd i (\<lambda>j. j\<lparr>j_state := Running, j_phase := Spawning\<rparr>) b)\<lparr>pending := dset s rest (pending b), jobs := jobs b @ [i]\<rparr>"
    using Cons by (auto simp: wake_source_def waiting_def split: option.splits)
  have q: "distinct (i # rest)" "set (i # rest) = {i. i < length (all_jobs b) \<and> j_phase (all_jobs b ! i) = InQueue \<and> j_source (all_jobs b ! i) = s}"
    using assms Cons unfolding freed_def queues_ok_def by (metis (no_types, lifting))+
  have i: "i < length (all_jobs b)" "j_phase (all_jobs b ! i) = InQueue" "j_source (all_jobs b ! i) = s"
    using q(2) by auto
  have nth: "j_source (all_jobs ?b ! k) = j_source (all_jobs b ! k)"
    "j_state (all_jobs ?b ! k) = (if k = i then Running else j_state (all_jobs b ! k))"
    "j_phase (all_jobs ?b ! k) = (if k = i then Spawning else j_phase (all_jobs b ! k))" for k
    using i(1) by (simp_all add: eq upd_def nth_list_update)
  have len: "length (all_jobs ?b) = length (all_jobs b)"
    and flds: "jobs ?b = jobs b @ [i]" "busy ?b = busy b" "max_jobs ?b = max_jobs b" by (simp_all add: eq)
  have act: "active (all_jobs ?b ! k) \<longleftrightarrow> k = i \<or> active (all_jobs b ! k)" for k
    by (simp add: active_def nth)
  have ni: "i \<notin> set (jobs b)" using assms i(2) by (auto simp: freed_def active_def)
  have w: "waiting ?b s' = (if s' = s then rest else waiting b s')" for s' by (simp add: eq waiting_def)
  have "pool_ok ?b"
    unfolding pool_ok_def nth(1) act len flds using assms ni i by (auto simp: freed_def)
  moreover have "queues_ok ?b"
    unfolding queues_ok_def
  proof (intro conjI allI impI)
    fix s'
    have o: "distinct (waiting b s')" "waiting b s' \<noteq> [] \<Longrightarrow> s' \<in> set (busy b)"
      "set (waiting b s') = {i. i < length (all_jobs b) \<and> j_phase (all_jobs b ! i) = InQueue \<and> j_source (all_jobs b ! i) = s'}"
      using assms by (auto simp: freed_def queues_ok_def)
    show "distinct (waiting ?b s')" using o(1) q(1) by (simp add: w)
    show "waiting ?b s' \<noteq> [] \<Longrightarrow> s' \<in> set (busy ?b)"
      using o(2) assms unfolding w flds by (auto simp: freed_def split: if_splits)
    show "set (waiting ?b s') = {i. i < length (all_jobs ?b) \<and> j_phase (all_jobs ?b ! i) = InQueue \<and> j_source (all_jobs ?b ! i) = s'}"
      unfolding w nth len using o(3) q i by auto
  next
    fix k assume "k < length (all_jobs ?b)"
    then show "j_phase (all_jobs ?b ! k) = InQueue \<longleftrightarrow> j_state (all_jobs ?b ! k) = Queued"
      unfolding nth using assms len by (auto simp: freed_def queues_ok_def)
  qed
  moreover have "results_ok ?b"
  proof -
    have "results k ?b = results k b" for k by (simp add: results_def eq)
    then show ?thesis using assms i by (auto simp: freed_def results_ok_def nth len)
  qed
  ultimately show ?thesis by (simp add: bash_ok_def)
qed

lemma end_by_ok:
  assumes "bash_ok b" and "i < length (all_jobs b)" and "active (all_jobs b ! i)"
    and send: "\<And>ev b. send i ev b = tell i ev (upd i (\<lambda>j. j\<lparr>j_window := h j\<rparr>) b)"
  shows "bash_ok (end_by send now i e b)"
proof -
  let ?b1 = "finish_job i (upd i (\<lambda>j. j\<lparr>j_phase := Over\<rparr>) b)"
  have "j_source (all_jobs ?b1 ! i) = j_source (all_jobs b ! i)"
    using assms(2) by (simp add: finish_job_def upd_def)
  then show ?thesis
    using wake_ok [OF freed_end [OF assms(1,2,3) is_result_simps(1), OF refl]]
    by (simp add: end_by_def send Let_def)
qed

lemma end_job_ok:
  assumes "bash_ok b" and "i < length (all_jobs b)" and "active (all_jobs b ! i)"
  shows "bash_ok (end_job now i e b)" "bash_ok (crash_job now i e b)"
  unfolding end_job_def crash_job_def
  using end_by_ok [OF assms, of deliver_job "\<lambda>_. False"] end_by_ok [OF assms, of tell j_window]
  by (simp_all add: deliver_job_def upd_def)

text \<open>
  After an unexpected exception while the requester waits for its window, the result is on the bus and the job is over, but
  nothing closes the window: the handler of the request waits for it without end.
\<close>

lemma crash_leaves_window:
  assumes "i < length (all_jobs b)"
  shows "j_window (all_jobs (crash_job now i e b) ! i) = j_window (all_jobs b ! i)"
proof -
  have "j_window (all_jobs (wake_source s c) ! k) = j_window (all_jobs c ! k)" if "k < length (all_jobs c)" for s c k
  proof -
    have "j_window (xs[y := (xs ! y)\<lparr>j_state := Running, j_phase := Spawning\<rparr>] ! k) = j_window (xs ! k)" if "k < length xs" for xs y
      using that by (cases "y = k") simp_all
    then show ?thesis using that by (auto simp: wake_source_def upd_def split: option.split list.split)
  qed
  then show ?thesis using assms by (simp add: crash_job_def end_by_def Let_def tell_def finish_job_def upd_def)
qed

lemma deadline_ok:
  assumes ok: "bash_ok b" and i: "i < length (all_jobs b)"
  shows "bash_ok (deadline_reached now i b)"
proof -
  let ?j = "all_jobs b ! i"
  have iq: "j_phase (all_jobs b ! k) = InQueue \<longleftrightarrow> j_state (all_jobs b ! k) = Queued" if "k < length (all_jobs b)" for k
    using ok that by (simp add: bash_ok_def queues_ok_def)
  consider "j_state ?j = Running" "j_proc ?j = Some Alive" | "j_state ?j = Queued"
    | "\<not> (j_state ?j = Running \<and> j_proc ?j = Some Alive)" "j_state ?j \<noteq> Queued" by blast
  then show ?thesis
  proof cases
    case 1
    have "quiet_change ?j (?j\<lparr>j_state := Expired, j_signalled := True\<rparr>)"
      using 1 by (simp add: quiet_change_def active_def)
    from bash_ok_quiet [OF ok i, of "\<lambda>j. j\<lparr>j_state := Expired, j_signalled := True\<rparr>", OF this] show ?thesis
      using 1 by (simp add: deadline_reached_def Let_def)
  next
    case 2
    let ?s = "j_source ?j"
    let ?b1 = "upd i (\<lambda>j. j\<lparr>j_state := Expired, j_phase := Over\<rparr>)
        (b\<lparr>pending := dset ?s (remove1 i (waiting b ?s)) (pending b)\<rparr>)"
    let ?b = "tell i (result now (all_jobs ?b1 ! i) PNone) ?b1"
    have eq: "deadline_reached now i b = ?b"
      using 2 by (simp add: deadline_reached_def Let_def waiting_def)
    have ph: "j_phase ?j = InQueue" using iq [OF i] 2 by simp
    have nth: "j_source (all_jobs ?b ! k) = j_source (all_jobs b ! k)"
      "j_state (all_jobs ?b ! k) = (if k = i then Expired else j_state (all_jobs b ! k))"
      "j_phase (all_jobs ?b ! k) = (if k = i then Over else j_phase (all_jobs b ! k))" for k
      using i by (simp_all add: upd_def tell_def nth_list_update)
    have len: "length (all_jobs ?b) = length (all_jobs b)"
      and flds: "jobs ?b = jobs b" "busy ?b = busy b" "max_jobs ?b = max_jobs b" by (simp_all add: tell_def)
    have act: "active (all_jobs ?b ! k) \<longleftrightarrow> active (all_jobs b ! k)" for k
      using ph by (auto simp: active_def nth)
    have w: "waiting ?b s' = (if s' = ?s then remove1 i (waiting b ?s) else waiting b s')" for s'
      by (simp add: waiting_def tell_def upd_def)
    have "pool_ok ?b" using ok unfolding pool_ok_def nth(1) act len flds bash_ok_def by simp
    moreover have "queues_ok ?b"
      unfolding queues_ok_def
    proof (intro conjI allI impI)
      fix s'
      have o: "distinct (waiting b s')" "waiting b s' \<noteq> [] \<Longrightarrow> s' \<in> set (busy b)"
        "set (waiting b s') = {i. i < length (all_jobs b) \<and> j_phase (all_jobs b ! i) = InQueue \<and> j_source (all_jobs b ! i) = s'}"
        using ok by (auto simp: bash_ok_def queues_ok_def)
      show "distinct (waiting ?b s')" using o(1) by (auto simp: w)
      show "waiting ?b s' \<noteq> [] \<Longrightarrow> s' \<in> set (busy ?b)" using o(2) unfolding w flds
        by (metis remove1.simps(1))
      show "set (waiting ?b s') = {i. i < length (all_jobs ?b) \<and> j_phase (all_jobs ?b ! i) = InQueue \<and> j_source (all_jobs ?b ! i) = s'}"
      proof (rule set_eqI)
        fix k
        have mem: "k \<in> set (waiting b s') \<longleftrightarrow> k < length (all_jobs b) \<and> j_phase (all_jobs b ! k) = InQueue \<and> j_source (all_jobs b ! k) = s'"
          unfolding o(3) by simp
        have "k \<in> set (waiting ?b s') \<longleftrightarrow> k \<in> set (waiting b s') \<and> k \<noteq> i"
          using o(1) mem by (cases "s' = ?s") (auto simp: w)
        then show "k \<in> set (waiting ?b s') \<longleftrightarrow> k \<in> {i. i < length (all_jobs ?b) \<and> j_phase (all_jobs ?b ! i) = InQueue \<and> j_source (all_jobs ?b ! i) = s'}"
          unfolding mem mem_Collect_eq nth len by simp
      qed
    next
      fix k assume "k < length (all_jobs ?b)"
      then show "j_phase (all_jobs ?b ! k) = InQueue \<longleftrightarrow> j_state (all_jobs ?b ! k) = Queued"
        unfolding nth using iq len by auto
    qed
    moreover have "results_ok ?b"
    proof -
      have "results k ?b = results k b @ (if k = i then [result now (all_jobs ?b1 ! i) PNone] else [])" for k
        by (simp add: results_tell) (simp add: results_def upd_def)
      then show ?thesis using ok i ph by (auto simp: bash_ok_def results_ok_def nth len)
    qed
    ultimately show ?thesis unfolding eq by (simp add: bash_ok_def)
  next
    case 3
    then show ?thesis using ok by (auto simp: deadline_reached_def Let_def)
  qed
qed

text \<open>The requests.\<close>

lemma refuse_state [simp]: "snd (refuse ev m b) = b"
  by (simp add: refuse_def sx_defs split: sum.splits)

lemma on_run_cases:
  assumes "on_run now ev b = (r, b')"
  shows "b' = b \<or> int (length (jobs b)) < max_jobs b \<and> (\<exists>s call cmd cwd t d. flt_le (Fin 0) t \<and> flt_le t d
     \<and> \<not> flt_lt (max_deadline b) d \<and> item_key ev ''source'' = Inr s
     \<and> start_job now s call cmd cwd t d b = (r, b'))"
proof -
  have ref: "refuse ev m b = (r, b') \<Longrightarrow> b' = b" for m using refuse_state [of ev m b] by simp
  show ?thesis
  proof (cases "int (length (jobs b)) \<ge> max_jobs b")
    case True
    then show ?thesis using assms ref
      by (auto simp: on_run_def bind_def lift_def asks_def split: sum.splits)
  next
    case False
    then show ?thesis using assms ref
      by (auto simp: on_run_def bind_def lift_def asks_def split: sum.splits pyval.splits if_splits option.splits)
        blast
  qed
qed

text \<open>
  A control request finds a job only for the source that created it; what it does to the job is a
  change of its state or its deadline.
\<close>

lemma find_owned_run:
  assumes "find_owned ev b = (r, b')"
  shows "b' = b" and "r = Inr (Some i) \<Longrightarrow> py_item ev ''source'' = Inr (PStr (j_source (all_jobs b ! i)))"
  using assms by (auto simp: find_owned_def sx_defs split: sum.splits option.splits if_splits pyval.splits)

lemma with_owned_run:
  assumes "with_owned ev f b = (r, b')"
  shows "b' = b \<or> (\<exists>i. py_item ev ''source'' = Inr (PStr (j_source (all_jobs b ! i))) \<and> f i b = (r, b'))"
proof -
  obtain q b1 where q: "find_owned ev b = (q, b1)" by (cases "find_owned ev b")
  note fo = find_owned_run [OF q]
  have ref: "refuse ev m b = (r, b') \<Longrightarrow> b' = b" for m using refuse_state [of ev m b] by simp
  show ?thesis
    using assms q fo ref by (auto simp: with_owned_def bind_def split: sum.splits option.splits)
qed

text \<open>The three control operations on a job of the requester's.\<close>

lemma kill_owned_run:
  assumes "kill_owned ev i b = (r, b')" and "b' \<noteq> b"
  shows "j_state (all_jobs b ! i) = Running
    \<and> (\<exists>sig. b' = upd i (\<lambda>j. j\<lparr>j_state := Killed, j_signalled := sig\<rparr>) b)"
proof -
  have "refuse ev ''job is over'' b \<noteq> (r, b')"
    using refuse_state [of ev "''job is over''" b] assms(2) by (metis snd_conv)
  then have run: "j_state (all_jobs b ! i) = Running"
    using assms(1) by (auto simp: kill_owned_def split: if_splits)
  have two: "upd i (\<lambda>j. j\<lparr>j_signalled := True\<rparr>) (upd i (\<lambda>j. j\<lparr>j_state := Killed\<rparr>) b)
      = upd i (\<lambda>j. j\<lparr>j_state := Killed, j_signalled := True\<rparr>) b"
    by (cases "i < length (all_jobs b)") (simp_all add: upd_def list_update_beyond)
  have one: "upd i (\<lambda>j. j\<lparr>j_state := Killed\<rparr>) b = upd i (\<lambda>j. j\<lparr>j_state := Killed, j_signalled := j_signalled (all_jobs b ! i)\<rparr>) b"
    by (simp add: upd_def)
  show ?thesis
    using assms(1) run unfolding kill_owned_def bind_asks two [symmetric]
    by (auto simp: two sx_defs split: if_splits) (metis one)
qed

lemma extend_owned_run:
  assumes "extend_owned ev i b = (r, b')" and "b' \<noteq> b"
  shows "j_state (all_jobs b ! i) = Running \<and> (\<exists>x. b' = upd i (\<lambda>j. j\<lparr>j_deadline := flt_add (j_deadline j) x\<rparr>) b
    \<and> \<not> flt_lt (max_deadline b) (flt_sub (flt_add (j_deadline (all_jobs b ! i)) x) (j_created (all_jobs b ! i))))"
proof -
  have ref: "refuse ev m b = (r, b') \<Longrightarrow> False" for m using refuse_state [of ev m b] assms(2) by auto
  show ?thesis
    using assms ref unfolding extend_owned_def bind_asks
    by (auto simp: bind_def lift_def ret_def asks_def split: sum.splits option.splits if_splits)
qed

lemma status_owned_state: "snd (status_owned now ev i b) = b"
  by (simp add: status_owned_def Let_def sx_defs split: sum.splits)

text \<open>What a request can do: start a job, or change the state or the deadline of one of the sender's.\<close>

lemma respond_cases:
  assumes "bash_respond now ev b = (r, b')"
  obtains (same) "b' = b" | (run) "on_run now ev b = (r, b')"
  | (control) i f where "b' = upd i f b" and "py_item ev ''source'' = Inr (PStr (j_source (all_jobs b ! i)))"
    and "j_state (all_jobs b ! i) = Running"
    and "(\<exists>sig. f = (\<lambda>j. j\<lparr>j_state := Killed, j_signalled := sig\<rparr>)) \<or>
      (\<exists>x. f = (\<lambda>j. j\<lparr>j_deadline := flt_add (j_deadline j) x\<rparr>) \<and> \<not> flt_lt (max_deadline b)
         (flt_sub (flt_add (j_deadline (all_jobs b ! i)) x) (j_created (all_jobs b ! i))))"
proof -
  have ref: "refuse ev m b = (r, b') \<Longrightarrow> b' = b" for m using refuse_state [of ev m b] by simp
  from assms ref consider "b' = b" | "on_run now ev b = (r, b')" | "on_status now ev b = (r, b')"
    | "on_kill ev b = (r, b')" | "on_extend ev b = (r, b')"
    by (auto simp: bash_respond_def bind_def lift_def throw_def split: sum.splits if_splits)
  then show thesis
  proof cases
    case 3
    then show ?thesis using with_owned_run [of ev "status_owned now ev" b r b'] status_owned_state [of now ev _ b] same
      unfolding on_status_def by (metis snd_conv)
  next
    case 4
    show ?thesis
    proof (cases "b' = b")
      case False
      with 4 obtain i where "py_item ev ''source'' = Inr (PStr (j_source (all_jobs b ! i)))" "kill_owned ev i b = (r, b')"
        using with_owned_run unfolding on_kill_def by blast
      then show ?thesis using kill_owned_run [of ev i b r b'] False control by blast
    qed (rule same)
  next
    case 5
    show ?thesis
    proof (cases "b' = b")
      case False
      with 5 obtain i where "py_item ev ''source'' = Inr (PStr (j_source (all_jobs b ! i)))" "extend_owned ev i b = (r, b')"
        using with_owned_run unfolding on_extend_def by blast
      then show ?thesis using extend_owned_run [of ev i b r b'] False control by blast
    qed (rule same)
  qed (use same run in blast)+
qed

lemma upd_outside: "\<not> i < length (all_jobs b) \<Longrightarrow> upd i f b = b"
  by (simp add: upd_def list_update_beyond)

lemma respond_ok:
  assumes "bash_respond now ev b = (r, b')" and ok: "bash_ok b"
  shows "bash_ok b'"
  using assms(1)
proof (cases rule: respond_cases)
  case same
  then show ?thesis using ok by simp
next
  case run
  then show ?thesis using on_run_cases [OF run] ok start_job_ok [OF ok] by blast
next
  case (control i f)
  then have "quiet_change (all_jobs b ! i) (f (all_jobs b ! i))"
    by (auto simp: quiet_change_def active_def)
  then show ?thesis using bash_ok_quiet [OF ok, of i f] control(1) upd_outside [of i b f] ok by metis
qed

lemma deliver_nth:
  "i < length (all_jobs b) \<Longrightarrow> all_jobs (deliver_job i ev b) ! i = (all_jobs b ! i)\<lparr>j_window := False\<rparr>"
  "length (all_jobs (deliver_job i ev b)) = length (all_jobs b)"
  by (simp_all add: deliver_job_def tell_def upd_def)

lemma deliver_quiet:
  "bash_ok b \<Longrightarrow> i < length (all_jobs b) \<Longrightarrow> \<not> is_result ev \<Longrightarrow> bash_ok (deliver_job i ev b)"
  unfolding deliver_job_def
  by (intro bash_ok_tell bash_ok_quiet) (auto simp: quiet_change_def active_def)

lemma bstep_ok: "bstep b b' \<Longrightarrow> bash_ok b \<Longrightarrow> bash_ok b'"
proof (induction rule: bstep.induct)
  case (Request t ev b r b')
  then show ?case by (rule respond_ok)
next
  case (Spawned i b)
  have 1: "bash_ok (upd i (\<lambda>j. j\<lparr>j_proc := Some Alive\<rparr>) b)"
    using Spawned by (intro bash_ok_quiet) (auto simp: quiet_change_def active_def)
  let ?b = "upd i (\<lambda>j. j\<lparr>j_proc := Some Alive\<rparr>) b"
  have len: "i < length (all_jobs ?b)" and ph: "j_phase (all_jobs ?b ! i) = Spawning"
    using Spawned by (simp_all add: nth_upd)
  have 2: "bash_ok (deliver_job i (backgrounded (all_jobs ?b ! i)) ?b)"
    by (rule deliver_quiet [OF 1 len]) simp
  have "bash_ok (upd i (\<lambda>j. j\<lparr>j_phase := InWindow\<rparr>) ?b)"
    by (rule bash_ok_quiet [OF 1 len]) (use ph in \<open>auto simp: quiet_change_def active_def\<close>)
  moreover have "bash_ok (upd i (\<lambda>j. j\<lparr>j_phase := Background\<rparr>) (deliver_job i (backgrounded (all_jobs ?b ! i)) ?b))"
    by (rule bash_ok_quiet [OF 2]) (use len ph in \<open>auto simp: quiet_change_def active_def deliver_nth\<close>)
  ultimately show ?case unfolding spawned_def Let_def by simp
next
  case (SpawnFails i b t m)
  then show ?case by (intro end_job_ok) (auto simp: active_def)
next
  case (Output i b chunk)
  then show ?case by (intro bash_ok_quiet) (auto simp: quiet_change_def active_def append_output_def Let_def)
next
  case (WindowOver i b)
  then show ?case unfolding window_over_def
    by (intro bash_ok_quiet deliver_quiet) (auto simp: quiet_change_def active_def deliver_nth)
next
  case (Eof i b)
  then show ?case unfolding eof_seen_def
    by (intro bash_ok_quiet) (auto simp: quiet_change_def active_def)
next
  case (Reaped i b c)
  then show ?case by (intro bash_ok_quiet) (auto simp: quiet_change_def active_def)
next
  case (Exit i b t c)
  then show ?case
    by (intro end_job_ok bash_ok_quiet) (auto simp: quiet_change_def active_def nth_upd)
next
  case (Crash i b t m)
  then show ?case
    by (intro end_job_ok bash_ok_quiet) (auto simp: quiet_change_def active_def nth_upd)
next
  case (Deadline i b t)
  then show ?case by (intro deadline_ok)
qed

lemma reach_bash_ok: "bp.reach b \<Longrightarrow> bash_ok b"
proof (erule bp.reach_invariant)
  fix b assume "\<exists>mj t d m cap cc cwd. bash_init mj t d m cap cc cwd = Inr b"
  then show "bash_ok b"
    by (auto simp: bash_init_def bash_ok_def pool_ok_def queues_ok_def results_ok_def results_def waiting_def
        split: if_splits)
qed (rule bstep_ok)

text \<open>
  C15. The pool is bounded and serial: in every state of the device at most \<^verbatim>\<open>max_jobs\<close> jobs run, and
  no two of them belong to the same source, however requests, output, kills, deadlines and failures
  interleave.
\<close>

theorem bash_pool_bounded:
  assumes "bp.reach b"
  shows "(jobs b = [] \<or> int (length (jobs b)) \<le> max_jobs b)
    \<and> distinct (map (\<lambda>i. j_source (all_jobs b ! i)) (jobs b))"
  using reach_bash_ok [OF assms] by (auto simp: bash_ok_def pool_ok_def distinct_map)

text \<open>
  C16. Each job is answered by exactly one final result: none while it waits or runs, one once it is
  over, whether it finished, failed to start, was killed or expired.
\<close>

theorem bash_one_result:
  assumes "bp.reach b" and "i < length (all_jobs b)"
  shows "length (results i b) = (if j_phase (all_jobs b ! i) = Over then 1 else 0)"
  using reach_bash_ok [OF assms(1)] assms(2) by (simp add: bash_ok_def results_ok_def)

section \<open>Ownership\<close>

lemma start_job_adds:
  "start_job now s call cmd cwd t d b = (r, b') \<Longrightarrow> \<exists>j. all_jobs b' = all_jobs b @ [j] \<and> j_source j = s
     \<and> j_created j = now \<and> j_deadline j = flt_add now d \<and> j_buffer j = [] \<and> j_trimmed j = 0 \<and> j_stream j = []
     \<and> max_deadline b' = max_deadline b \<and> output_cap b' = output_cap b"
  by (auto simp: start_job_def Let_def sx_defs split: if_splits)

text \<open>
  C17. Jobs belong to the source that created them: a request changes no job created by another
  source, and every job it adds belongs to the sender.
\<close>

theorem bash_ownership:
  assumes "bash_respond now ev b = (r, b')" and "item_key ev ''source'' = Inr s"
    and "i < length (all_jobs b')" and "i < length (all_jobs b) \<longrightarrow> j_source (all_jobs b ! i) \<noteq> s"
  shows "if i < length (all_jobs b) then all_jobs b' ! i = all_jobs b ! i else j_source (all_jobs b' ! i) = s"
  using assms(1)
proof (cases rule: respond_cases)
  case same
  then show ?thesis using assms(3) by simp
next
  case run
  then consider "b' = b" | call cmd cwd t d where "start_job now s call cmd cwd t d b = (r, b')"
    using on_run_cases [OF run] assms(2) by auto
  then show ?thesis
  proof cases
    case 1
    then show ?thesis using assms(3) by simp
  next
    case 2
    then obtain j where "all_jobs b' = all_jobs b @ [j]" "j_source j = s"
      using start_job_adds [OF 2] by blast
    then show ?thesis using assms(3) by (auto simp: nth_append less_Suc_eq)
  qed
next
  case (control k f)
  have "j_source (all_jobs b ! k) = s"
    using control(2) assms(2) by (simp add: item_key_def)
  then show ?thesis using assms(3,4) control(1)
    by (cases "k < length (all_jobs b)") (auto simp: nth_upd upd_outside)
qed

section \<open>The deadline\<close>


section \<open>Reading the output\<close>

text \<open>The buffer is the end of the stream from the trimmed position on.\<close>

definition buffered :: "int \<Rightarrow> job \<Rightarrow> bool" where
  "buffered cap j \<longleftrightarrow> 0 \<le> j_trimmed j \<and> j_trimmed j \<le> int (length (j_stream j))
     \<and> j_buffer j = drop (nat (j_trimmed j)) (j_stream j) \<and> int (length (j_buffer j)) \<le> cap"

lemma buffered_cut:
  "m \<le> length s \<Longrightarrow> int (length s - m) \<le> cap \<Longrightarrow>
     buffered cap (j\<lparr>j_stream := s, j_trimmed := int m, j_buffer := drop m s\<rparr>)"
  by (simp add: buffered_def)

lemma append_buffered:
  assumes "cap > 0" and "buffered cap j"
  shows "buffered cap (append_output cap chunk j)"
proof -
  let ?n = "nat (j_trimmed j)"
  have b: "j_buffer j = drop ?n (j_stream j)" "?n \<le> length (j_stream j)" "0 \<le> j_trimmed j"
    using assms(2) by (auto simp: buffered_def)
  then have buf: "j_buffer j @ chunk = drop ?n (j_stream j @ chunk)" by simp
  show ?thesis
  proof (cases "int (length (j_buffer j @ chunk)) > cap")
    case True
    let ?m = "length (j_buffer j @ chunk) - nat cap"
    have "tail cap (j_buffer j @ chunk) = drop ?m (drop ?n (j_stream j @ chunk))"
      using assms(1) buf by (simp add: tail_def)
    also have "\<dots> = drop (?m + ?n) (j_stream j @ chunk)" by (simp only: drop_drop add.commute)
    finally have t: "tail cap (j_buffer j @ chunk) = drop (?m + ?n) (j_stream j @ chunk)" .
    have m: "int (?m + ?n) = j_trimmed j + (int (length (j_buffer j @ chunk)) - cap)"
      using True assms(1) b(3) by simp
    have len: "length (j_buffer j @ chunk) = length (j_stream j @ chunk) - ?n" using buf by simp
    have "append_output cap chunk j = j\<lparr>j_stream := j_stream j @ chunk,
        j_trimmed := int (?m + ?n), j_buffer := drop (?m + ?n) (j_stream j @ chunk)\<rparr>"
      using True m t by (simp add: append_output_def Let_def)
    moreover have "?m + ?n \<le> length (j_stream j @ chunk)" "int (length (j_stream j @ chunk) - (?m + ?n)) \<le> cap"
      using len b assms(1) True by simp_all
    ultimately show ?thesis by (simp only: buffered_cut)
  next
    case False
    then show ?thesis using b buf by (simp add: append_output_def Let_def buffered_def)
  qed
qed

text \<open>What of a job only a request or new output can change.\<close>

definition facts :: "job \<Rightarrow> pyfloat \<times> pyfloat \<times> string \<times> string \<times> int" where
  "facts j = (j_deadline j, j_created j, j_stream j, j_buffer j, j_trimmed j)"

definition same_facts :: "bash \<Rightarrow> bash \<Rightarrow> bool" where
  "same_facts b b' \<longleftrightarrow> map facts (all_jobs b') = map facts (all_jobs b)
     \<and> max_deadline b' = max_deadline b \<and> output_cap b' = output_cap b"

lemma same_facts_upd: "(\<And>j. facts (f j) = facts j) \<Longrightarrow> same_facts b (upd i f b)"
  by (cases "i < length (all_jobs b)") (simp_all add: same_facts_def upd_def map_update list_update_beyond,
      metis length_map list_update_id nth_map)

lemma same_facts_trans: "same_facts a b \<Longrightarrow> same_facts b c \<Longrightarrow> same_facts a c"
  by (simp add: same_facts_def)

lemma same_facts_refl: "same_facts b b"
  by (simp add: same_facts_def)

lemma same_facts_other:
  "same_facts b (tell i ev b)" "same_facts b (finish_job i b)" "same_facts b (b\<lparr>pending := p\<rparr>)"
  "same_facts b (b\<lparr>busy := x\<rparr>)" "same_facts b (b\<lparr>pending := p, jobs := js\<rparr>)"
  by (simp_all add: same_facts_def tell_def finish_job_def)

lemma same_facts_deliver: "same_facts b (deliver_job i ev b)"
  unfolding deliver_job_def
  by (rule same_facts_trans [OF same_facts_upd same_facts_other(1)]) (simp add: facts_def)

lemma same_facts_wake: "same_facts b (wake_source s b)"
  unfolding wake_source_def
  by (auto split: option.splits list.splits intro!: same_facts_other same_facts_trans [OF same_facts_upd same_facts_other(5)]
      simp: facts_def)

lemma same_facts_end: "same_facts b (end_job now i e b)" "same_facts b (crash_job now i e b)"
proof -
  let ?b = "upd i (\<lambda>j. j\<lparr>j_phase := Over\<rparr>) b"
  have "same_facts b ?b" by (rule same_facts_upd) (simp add: facts_def)
  then have 1: "same_facts b (finish_job i ?b)" by (rule same_facts_trans [OF _ same_facts_other(2)])
  show "same_facts b (end_job now i e b)" unfolding end_job_def end_by_def Let_def
    by (rule same_facts_trans [OF same_facts_trans [OF 1 same_facts_deliver] same_facts_wake])
  show "same_facts b (crash_job now i e b)" unfolding crash_job_def end_by_def Let_def
    by (rule same_facts_trans [OF same_facts_trans [OF 1 same_facts_other(1)] same_facts_wake])
qed

lemma same_facts_deadline: "same_facts b (deadline_reached now i b)"
proof -
  have 1: "same_facts b (upd i (\<lambda>j. j\<lparr>j_state := Expired, j_signalled := True\<rparr>) b)"
    by (rule same_facts_upd) (simp add: facts_def)
  have "same_facts c (upd i (\<lambda>j. j\<lparr>j_state := Expired, j_phase := Over\<rparr>) c)" for c
    by (rule same_facts_upd) (simp add: facts_def)
  then have 2: "same_facts b (tell i ev (upd i (\<lambda>j. j\<lparr>j_state := Expired, j_phase := Over\<rparr>) (b\<lparr>pending := p\<rparr>)))" for ev p
    by (rule same_facts_trans [OF same_facts_trans [OF same_facts_other(3) _] same_facts_other(1)])
  show ?thesis using 1 2 same_facts_refl by (simp add: deadline_reached_def Let_def)
qed

text \<open>The steps that are neither a request nor output.\<close>

lemma bstep_facts:
  assumes "bstep b b'"
  shows "same_facts b b' \<or> (\<exists>t ev r. bash_respond (Fin t) ev b = (r, b'))
    \<or> (\<exists>i chunk. i < length (all_jobs b) \<and> b' = upd i (append_output (output_cap b) chunk) b)"
  using assms
proof (induction rule: bstep.induct)
  case (Spawned i b)
  have "same_facts b (upd i (\<lambda>j. j\<lparr>j_proc := Some Alive\<rparr>) b)" by (rule same_facts_upd) (simp add: facts_def)
  then have "same_facts b (spawned i b)" unfolding spawned_def Let_def
    by (auto intro!: same_facts_trans [OF _ same_facts_upd] same_facts_trans [OF _ same_facts_deliver] simp: facts_def)
  then show ?case by blast
next
  case (WindowOver i b)
  have "same_facts b (window_over i b)" unfolding window_over_def
    by (rule same_facts_trans [OF same_facts_deliver same_facts_upd]) (simp add: facts_def)
  then show ?case by blast
next
  case (Exit i b t c)
  have "same_facts b (upd i (\<lambda>j. j\<lparr>j_proc := Some (Exited c)\<rparr>) b)" by (rule same_facts_upd) (simp add: facts_def)
  then show ?case using same_facts_trans [OF _ same_facts_end(1)] by blast
next
  case (Crash i b t m)
  have "same_facts b (upd i (\<lambda>j. j\<lparr>j_signalled := True\<rparr>) b)" by (rule same_facts_upd) (simp add: facts_def)
  then show ?case using same_facts_trans [OF _ same_facts_end(2)] by blast
next
  case (Eof i b)
  have "same_facts b (eof_seen i b)" unfolding eof_seen_def by (rule same_facts_upd) (simp add: facts_def)
  then show ?case by blast
next
  case (Reaped i b c)
  have "same_facts b (upd i (\<lambda>j. j\<lparr>j_proc := Some (Exited c)\<rparr>) b)" by (rule same_facts_upd) (simp add: facts_def)
  then show ?case by blast
qed (blast intro: same_facts_end same_facts_deadline)+

text \<open>Invariants over these facts.\<close>

definition timed :: "bash \<Rightarrow> bool" where
  "timed b \<longleftrightarrow> max_deadline b \<noteq> NaN \<and> (\<forall>j \<in> set (all_jobs b). (\<exists>t. j_created j = Fin t)
     \<and> \<not> flt_lt (max_deadline b) (flt_sub (j_deadline j) (j_created j)))"

definition streams_ok :: "bash \<Rightarrow> bool" where
  "streams_ok b \<longleftrightarrow> (output_cap b > 0 \<longrightarrow> (\<forall>j \<in> set (all_jobs b). buffered (output_cap b) j))"

lemma facts_invariant:
  assumes "same_facts b b'" and "\<And>j j'. facts j = facts j' \<Longrightarrow> P j = P j'" and "\<forall>j \<in> set (all_jobs b). P j"
  shows "\<forall>j \<in> set (all_jobs b'). P j"
proof
  fix j assume "j \<in> set (all_jobs b')"
  then have "facts j \<in> set (map facts (all_jobs b))" using assms(1) by (metis image_eqI list.set_map same_facts_def)
  then obtain j' where "j' \<in> set (all_jobs b)" "facts j = facts j'" by auto
  then show "P j" using assms(2) [of j j'] assms(3) by blast
qed

lemma flt_add_sub: "flt_sub (flt_add (Fin t) d) (Fin t) = d"
  by (cases d) (simp_all add: flt_sub_def)

lemma set_upd: "j \<in> set (all_jobs (upd i f b)) \<Longrightarrow> j \<in> set (all_jobs b) \<or> i < length (all_jobs b) \<and> j = f (all_jobs b ! i)"
  by (cases "i < length (all_jobs b)") (auto simp: upd_def list_update_beyond dest: set_update_subset_insert [THEN subsetD])

lemma timed_step: "bstep b b' \<Longrightarrow> timed b \<Longrightarrow> timed b'"
proof -
  assume st: "bstep b b'" and b: "timed b"
  let ?P = "\<lambda>m j. (\<exists>t. j_created j = Fin t) \<and> \<not> flt_lt m (flt_sub (j_deadline j) (j_created j))"
  have job: "?P (max_deadline b) j" if "j \<in> set (all_jobs b)" for j using b that by (simp add: timed_def)
  from bstep_facts [OF st] consider "same_facts b b'" | t ev r where "bash_respond (Fin t) ev b = (r, b')"
    | i chunk where "i < length (all_jobs b)" "b' = upd i (append_output (output_cap b) chunk) b" by blast
  then show "timed b'"
  proof cases
    case 1
    then show ?thesis using facts_invariant [OF 1, of "?P (max_deadline b)"] b
      by (auto simp: timed_def same_facts_def facts_def)
  next
    case 2
    then show ?thesis
    proof (cases rule: respond_cases)
      case same
      then show ?thesis using b by simp
    next
      case run
      then show ?thesis using on_run_cases [OF run] b
        by (auto simp: timed_def flt_add_sub dest!: start_job_adds)
    next
      case (control i f)
      have "?P (max_deadline b) (f (all_jobs b ! i))" if "i < length (all_jobs b)"
        using job [OF nth_mem [OF that]] control(4) by auto
      then show ?thesis using b control(1) set_upd [of _ i f b] by (auto simp: timed_def)
    qed
  next
    case 3
    then have "?P (max_deadline b) (append_output (output_cap b) chunk (all_jobs b ! i))"
      using job [OF nth_mem [OF 3(1)]] by (auto simp: append_output_def Let_def)
    then show ?thesis using b 3(2) set_upd [of _ i "append_output (output_cap b) chunk" b] by (auto simp: timed_def)
  qed
qed

lemma streams_step: "bstep b b' \<Longrightarrow> streams_ok b \<Longrightarrow> streams_ok b'"
proof -
  assume st: "bstep b b'" and b: "streams_ok b"
  from bstep_facts [OF st] consider "same_facts b b'" | t ev r where "bash_respond (Fin t) ev b = (r, b')"
    | i chunk where "i < length (all_jobs b)" "b' = upd i (append_output (output_cap b) chunk) b" by blast
  then show "streams_ok b'"
  proof cases
    case 1
    have same: "output_cap b' = output_cap b" using 1 by (simp add: same_facts_def)
    have inv: "buffered c j = buffered c j'" if "facts j = facts j'" for c j j'
    proof -
      have "j_trimmed j = j_trimmed j'" "j_stream j = j_stream j'" "j_buffer j = j_buffer j'"
        using that by (simp_all add: facts_def)
      then show ?thesis unfolding buffered_def by (simp only:)
    qed
    show ?thesis unfolding streams_ok_def same
      using facts_invariant [OF 1, of "buffered (output_cap b)"] inv b unfolding streams_ok_def by blast
  next
    case 2
    then show ?thesis
    proof (cases rule: respond_cases)
      case same
      then show ?thesis using b by simp
    next
      case run
      then show ?thesis using on_run_cases [OF run] b
        by (auto simp: streams_ok_def buffered_def dest!: start_job_adds)
    next
      case (control i f)
      have "buffered c (f j) = buffered c j" for c j
        using control(4) by (auto simp: buffered_def)
      then show ?thesis using b control(1) set_upd [of _ i f b] nth_mem [of i "all_jobs b"]
        by (fastforce simp: streams_ok_def)
    qed
  next
    case 3
    then show ?thesis using b append_buffered [of "output_cap b" "all_jobs b ! i" chunk]
        set_upd [of _ i "append_output (output_cap b) chunk" b] by (auto simp: streams_ok_def)
  qed
qed

lemma reach_timed: "bp.reach b \<Longrightarrow> timed b \<and> streams_ok b"
proof (erule bp.reach_invariant)
  fix b assume "\<exists>mj t d m cap cc cwd. bash_init mj t d m cap cc cwd = Inr b"
  then show "timed b \<and> streams_ok b"
    by (auto simp: bash_init_def timed_def streams_ok_def split: if_splits elim: flt_le.elims)
qed (use timed_step streams_step in blast)

text \<open>
  The device's hard limit: in every state the deadline of a job, counted from its creation, is
  within \<^verbatim>\<open>max_deadline\<close>, extensions included; the only deadline outside it is one that is not a
  number.
\<close>

lemma bash_deadline_bounded:
  assumes "bp.reach b" and "j \<in> set (all_jobs b)"
  shows "j_deadline j = NaN \<or> flt_le (flt_sub (j_deadline j) (j_created j)) (max_deadline b)"
proof -
  obtain t where t: "j_created j = Fin t" and l: "\<not> flt_lt (max_deadline b) (flt_sub (j_deadline j) (j_created j))"
    and m: "max_deadline b \<noteq> NaN"
    using reach_timed [OF assms(1)] assms(2) by (auto simp: timed_def)
  show ?thesis
  proof (cases "j_deadline j = NaN")
    case False
    then have "flt_sub (j_deadline j) (j_created j) \<noteq> NaN"
      using t by (cases "j_deadline j") (simp_all add: flt_sub_def)
    then show ?thesis using l m flt_not_lt by blast
  qed simp
qed

text \<open>
  Reading the output by offset: for a job of a device with a positive output cap, a status
  request with an offset inside what is still buffered returns the bytes of the job's output from
  that offset on, as many as fit, and the offset to continue from; trimming is invisible.
\<close>

lemma status_reads_stream:
  assumes "bp.reach b" and "output_cap b > 0" and "i < length (all_jobs b)"
    and "j_trimmed (all_jobs b ! i) \<le> int n" and "n \<le> length (j_stream (all_jobs b ! i))"
  shows "status_owned now (PDict [(''payload'', PDict [(''offset'', PInt (int n))])]) i b
    = (let chunk = take STATUS_CHUNK (drop n (j_stream (all_jobs b ! i))) in
       (Inr (Some (status_result now (all_jobs b ! i) chunk (int (n + length chunk)) False
          (n + length chunk < length (j_stream (all_jobs b ! i))))), b))"
proof -
  let ?j = "all_jobs b ! i"
  have bf: "buffered (output_cap b) ?j"
    using reach_timed [OF assms(1)] assms(2,3) by (auto simp: streams_ok_def)
  then have total: "j_trimmed ?j + int (length (j_buffer ?j)) = int (length (j_stream ?j))"
    and sl: "drop (nat (int n - j_trimmed ?j)) (j_buffer ?j) = drop n (j_stream ?j)"
    using assms(4) by (auto simp: buffered_def nat_diff_distrib)
  have less: "(int n + int m < int l) = (n + m < l)" for m l :: nat by linarith
  show ?thesis
    using assms(4,5) total sl by (simp add: status_owned_def Let_def sx_defs less)
qed


section \<open>A device at work\<close>

text \<open>Alice runs a command, it is started, prints three bytes and exits; then she runs another.\<close>

definition ex_bash :: bash where
  "ex_bash = \<lparr>max_jobs = 1, default_timeout = Fin 1, default_deadline = Fin 10, max_deadline = Fin 100,
     output_cap = 2, completed_cap = 5, default_cwd = PNone, all_jobs = [], jobs = [], completed = [],
     pending = [], busy = [], told = []\<rparr>"

definition ex_run :: pyval where
  "ex_run = PDict [(''source'', PStr ''alice''), (''payload'', PDict [(''command'', PStr ''bash_run''), (''cmd'', PStr ''ls'')])]"

lemma ex_bash_reach: "bp.reach ex_bash"
proof (rule bp.reach_start)
  have "bash_init 1 (Fin 1) (Fin 10) (Fin 100) 2 5 PNone = Inr ex_bash"
    by (simp add: bash_init_def ex_bash_def)
  then show "\<exists>mj t d m cap cc cwd. bash_init mj t d m cap cc cwd = Inr ex_bash" by blast
qed

definition ex_job :: job where
  "ex_job = \<lparr>j_id = ''j0'', j_source = ''alice'', j_call = PNone, j_cmd = ''ls'', j_cwd = PNone,
     j_created = Fin 0, j_deadline = Fin 10, j_timeout = Fin 1, j_proc = None, j_buffer = [], j_trimmed = 0,
     j_state = Running, j_window = True, j_signalled = False, j_eof = False, j_phase = Spawning, j_stream = []\<rparr>"

definition ex_started :: bash where
  "ex_started = ex_bash\<lparr>all_jobs := [ex_job], jobs := [0], busy := [''alice'']\<rparr>"

lemma ex_started_run: "bash_respond (Fin 0) ex_run ex_bash = (Inr None, ex_started)"
  by code_simp

lemma ex_started_reach: "bp.reach ex_started"
  by (rule bp.reach_step [OF ex_bash_reach Request [OF ex_started_run]])

definition ex_printed :: bash where
  "ex_printed = ex_started\<lparr>all_jobs := [ex_job\<lparr>j_proc := Some Alive, j_phase := InWindow,
     j_buffer := ''bc'', j_trimmed := 1, j_stream := ''abc''\<rparr>]\<rparr>"

lemmas ex_bash_defs = ex_printed_def ex_started_def ex_bash_def ex_job_def

lemma ex_printed_reach: "bp.reach ex_printed"
proof -
  have "bstep ex_started (spawned 0 ex_started)" by (rule Spawned) (simp_all add: ex_bash_defs)
  then have 1: "bp.reach (spawned 0 ex_started)" by (rule bp.reach_step [OF ex_started_reach])
  have 2: "upd 0 (append_output 2 ''abc'') (spawned 0 ex_started) = ex_printed"
    by (simp add: ex_bash_defs spawned_def upd_def append_output_def tail_def Let_def)
  have "length (all_jobs (spawned 0 ex_started)) = 1" "output_cap (spawned 0 ex_started) = 2"
    "j_phase (all_jobs (spawned 0 ex_started) ! 0) = InWindow"
    by (simp_all add: ex_bash_defs spawned_def upd_def)
  then show ?thesis using bp.reach_step [OF 1 Output [of 0 "spawned 0 ex_started" "''abc''"]] 2 by simp
qed

lemma ex_printed_eval:
  "length (all_jobs ex_printed) = 1" "j_phase (all_jobs ex_printed ! 0) = InWindow" "output_cap ex_printed = 2"
  "j_trimmed (all_jobs ex_printed ! 0) = 1" "j_stream (all_jobs ex_printed ! 0) = ''abc''"
  "j_source (all_jobs ex_printed ! 0) = ''alice''" "max_deadline ex_printed = Fin 100"
  "j_deadline (all_jobs ex_printed ! 0) = Fin 10" "jobs ex_printed = [0]" "max_jobs ex_printed = 1"
  by (simp_all add: ex_bash_defs)

theorem bash_pool_bounded_witness:
  "bp.reach ex_printed \<and> jobs ex_printed = [0] \<and> int (length (jobs ex_printed)) \<le> max_jobs ex_printed"
  using bash_pool_bounded [OF ex_printed_reach] ex_printed_reach by (simp add: ex_printed_eval)

theorem bash_one_result_witness: "bp.reach ex_printed \<and> results 0 ex_printed = []"
  using bash_one_result [OF ex_printed_reach, of 0] ex_printed_reach by (simp add: ex_printed_eval)

text \<open>Bob's kill of Alice's job leaves it as it is.\<close>

theorem bash_ownership_witness:
  "all_jobs (snd (bash_respond (Fin 1) (PDict [(''source'', PStr ''bob''), (''payload'',
     PDict [(''command'', PStr ''bash_kill''), (''job_id'', PStr ''j0'')])]) ex_printed)) ! 0 = all_jobs ex_printed ! 0"
proof -
  let ?ev = "PDict [(''source'', PStr ''bob''), (''payload'', PDict [(''command'', PStr ''bash_kill''), (''job_id'', PStr ''j0'')])]"
  obtain r b' where run: "bash_respond (Fin 1) ?ev ex_printed = (r, b')" by (meson surj_pair)
  have "0 < length (all_jobs b')" using run
  proof (cases rule: respond_cases)
    case run
    then show ?thesis using on_run_cases [OF run] by (auto simp: ex_printed_eval dest!: start_job_adds)
  qed (simp_all add: ex_printed_eval)
  moreover have "item_key ?ev ''source'' = Inr ''bob''" by (simp add: item_key_def)
  ultimately show ?thesis using bash_ownership [OF run, of "''bob''" 0] run by (simp add: ex_printed_eval)
qed

lemma bash_deadline_bounded_example:
  "flt_le (flt_sub (j_deadline (all_jobs ex_printed ! 0)) (j_created (all_jobs ex_printed ! 0))) (Fin 100)"
proof -
  have "all_jobs ex_printed ! 0 \<in> set (all_jobs ex_printed)" by (rule nth_mem) (simp add: ex_printed_eval)
  from bash_deadline_bounded [OF ex_printed_reach this] show ?thesis by (simp add: ex_printed_eval)
qed

lemma status_reads_stream_example:
  "status_owned (Fin 2) (PDict [(''payload'', PDict [(''offset'', PInt 2)])]) 0 ex_printed
     = (Inr (Some (status_result (Fin 2) (all_jobs ex_printed ! 0) ''c'' 3 False False)), ex_printed)"
  using status_reads_stream [OF ex_printed_reach, of 0 2 "Fin 2"] by (simp add: ex_printed_eval STATUS_CHUNK_def Let_def)

section \<open>Corners of the code\<close>

text \<open>
  An extension by a value that is not a number passes the limit check, and the job's deadline
  becomes one that never comes; a kill of a job that is still being spawned marks it and then
  fails on the missing process; with an output cap of zero nothing is ever cut from the buffer.
\<close>

lemma extend_nan_unbounded:
  "j_deadline (all_jobs (snd (bash_respond (Fin 1) (PDict [(''source'', PStr ''alice''), (''payload'',
     PDict [(''command'', PStr ''bash_extend''), (''job_id'', PStr ''j0''), (''seconds'', PFloat NaN)])]) ex_printed)) ! 0) = NaN"
  by code_simp

lemma kill_before_spawn_fails:
  "fst (bash_respond (Fin 1) (PDict [(''source'', PStr ''alice''), (''payload'',
     PDict [(''command'', PStr ''bash_kill''), (''job_id'', PStr ''j0'')])]) ex_started) = Inl AttributeError"
  by code_simp

lemma zero_cap_keeps_everything: "j_buffer (append_output 0 chunk j) = j_buffer j @ chunk"
  by (simp add: append_output_def tail_def Let_def)

end
