(* ===== verification/Lifecycle.thy ===== *)
theory Lifecycle
  imports Prelude
begin

text \<open>
  State machines given by a table of allowed transitions: the interface that the agents' and the
  tasks' life cycles share.  A table lists the successors of each state; the states it calls
  terminal have none.  The search for a path through the table is here too, because it is the same
  for every table.
\<close>

section \<open>Paths through a table\<close>

fun path :: "('s \<Rightarrow> 's list) \<Rightarrow> 's \<Rightarrow> 's list \<Rightarrow> bool" where
  "path tab s [] = True"
| "path tab s (t # ts) = (t \<in> set (tab s) \<and> path tab t ts)"

abbreviation edge :: "('s \<Rightarrow> 's list) \<Rightarrow> 's \<Rightarrow> 's \<Rightarrow> bool" where
  "edge tab s t \<equiv> t \<in> set (tab s)"

lemma path_append: "path tab s (xs @ ys) \<longleftrightarrow> path tab s xs \<and> path tab (last (s # xs)) ys"
  by (induction xs arbitrary: s) auto

lemma path_reaches: "path tab s xs \<Longrightarrow> (edge tab)\<^sup>*\<^sup>* s (last (s # xs))"
proof (induction xs arbitrary: s)
  case (Cons t ts)
  then have "edge tab s t" "(edge tab)\<^sup>*\<^sup>* t (last (t # ts))" by simp_all
  then show ?case using converse_rtranclp_into_rtranclp [of "edge tab"] by fastforce
qed simp

text \<open>Two tables with the same successors, in whatever order, have the same paths.\<close>

lemma path_cong: "(\<And>s. set (tab s) = set (tab' s)) \<Longrightarrow> path tab s xs = path tab' s xs"
  by (induction xs arbitrary: s) auto

section \<open>Terminal states\<close>

locale transition_table =
  fixes tab :: "'s \<Rightarrow> 's list" and terminal :: "'s \<Rightarrow> bool"
  assumes terminal_stuck: "terminal s \<Longrightarrow> tab s = []"
begin

lemma terminal_absorbing: "(edge tab)\<^sup>*\<^sup>* s t \<Longrightarrow> terminal s \<Longrightarrow> t = s"
  by (induction rule: rtranclp_induct) (auto simp: terminal_stuck)

lemma terminal_path: "terminal s \<Longrightarrow> path tab s xs \<longleftrightarrow> xs = []"
  by (cases xs) (auto simp: terminal_stuck)

lemma path_live: "path tab s xs \<Longrightarrow> x \<in> set (butlast (s # xs)) \<Longrightarrow> \<not> terminal x"
proof (induction xs arbitrary: s)
  case (Cons t ts)
  then show ?case using terminal_stuck [of s] by auto
qed simp

end


section \<open>Breadth-first search\<close>

text \<open>
  The search of the source: the successors of a state are visited in the order a set happens to
  iterate, which is the argument \<open>succ\<close>; nothing below depends on that order.
\<close>

fun scan :: "'s \<Rightarrow> 's list \<Rightarrow> 's list \<Rightarrow> 's list \<Rightarrow> ('s \<times> 's list) list
    \<Rightarrow> 's list + ('s list \<times> ('s \<times> 's list) list)" where
  "scan target p [] vis q = Inr (vis, q)"
| "scan target p (n # ns) vis q =
     (if n \<in> set vis then scan target p ns vis q
      else if n = target then Inl (p @ [n])
      else scan target p ns (n # vis) (q @ [(n, p @ [n])]))"

lemma scan_measure:
  fixes vis :: "'s::finite list"
  shows "scan target p ns vis q = Inr (vis', q') \<Longrightarrow>
    length q' + card (- set vis') = length q + card (- set vis)"
proof (induction target p ns vis q rule: scan.induct)
  case (2 target p n ns vis q)
  have "card (- set (n # vis)) = card (- set vis) - 1" if "n \<notin> set vis"
    using that by (simp add: Compl_insert)
  moreover have "card (- set vis) > 0" if "n \<notin> set vis"
    using that by (metis ComplI card_gt_0_iff empty_iff finite)
  ultimately show ?case using 2 by (auto split: if_splits)
qed simp

function bfs :: "('s::finite \<Rightarrow> 's list) \<Rightarrow> 's \<Rightarrow> 's list \<Rightarrow> ('s \<times> 's list) list \<Rightarrow> 's list option" where
  "bfs succ target vis [] = None"
| "bfs succ target vis ((c, p) # q) =
     (case scan target p (succ c) vis q of
        Inl r \<Rightarrow> Some r
      | Inr (vis', q') \<Rightarrow> bfs succ target vis' q')"
  by pat_completeness auto
termination
  by (relation "measure (\<lambda>(succ, target, vis, q). length q + card (- set vis))")
    (auto dest: scan_measure)

text \<open>
  The search's invariant: the queue holds states with a path to each, and every visited state is
  either still queued or has all its successors visited.
\<close>

definition queued_paths :: "('s \<Rightarrow> 's list) \<Rightarrow> 's \<Rightarrow> ('s \<times> 's list) list \<Rightarrow> bool" where
  "queued_paths succ s q \<longleftrightarrow> (\<forall>(c, p) \<in> set q. path succ s p \<and> last (s # p) = c)"

definition frontier :: "('s \<Rightarrow> 's list) \<Rightarrow> 's list \<Rightarrow> ('s \<times> 's list) list \<Rightarrow> bool" where
  "frontier succ vis q \<longleftrightarrow> (\<forall>v \<in> set vis. v \<in> fst ` set q \<or> set (succ v) \<subseteq> set vis)"

lemma scan_result:
  assumes "path succ s p" and "last (s # p) = c" and "set ns \<subseteq> set (succ c)"
    and "queued_paths succ s q"
  shows "case scan target p ns vis q of
      Inl r \<Rightarrow> path succ s r \<and> r \<noteq> [] \<and> last r = target
    | Inr (vis', q') \<Rightarrow> queued_paths succ s q' \<and> set vis' = set vis \<union> set ns
        \<and> (target \<notin> set vis \<longrightarrow> target \<notin> set vis') \<and> set q \<subseteq> set q'
        \<and> set vis' - set vis \<subseteq> fst ` set q'"
  using assms
proof (induction target p ns vis q rule: scan.induct)
  case (2 target p n ns vis q)
  have step: "path succ s (p @ [n])" using 2(3-5) by (simp add: path_append)
  then have "queued_paths succ s (q @ [(n, p @ [n])])" using 2(6) by (auto simp: queued_paths_def)
  note new = this
  consider "n \<in> set vis" | "n \<notin> set vis" "n = target" | "n \<notin> set vis" "n \<noteq> target" by blast
  then show ?case
  proof cases
    case 1
    then show ?thesis using 2(1) [OF 1 2(3,4) _ 2(6)] 2(5) by (auto split: sum.splits prod.splits)
  next
    case 2
    then show ?thesis using step by simp
  next
    case 3
    let ?call = "scan target p ns (n # vis) (q @ [(n, p @ [n])])"
    have eq: "scan target p (n # ns) vis q = ?call" using 3 by simp
    have "set ns \<subseteq> set (succ c)" using 2(5) by simp
    note IH = 2(2) [OF 3 2(3,4) this new]
    show ?thesis
    proof (cases ?call)
      case (Inl r)
      then show ?thesis unfolding eq using IH by simp
    next
      case (Inr w)
      then obtain vis' q' where w: "?call = Inr (vis', q')" by (cases w) simp
      have f: "queued_paths succ s q'" "set vis' = set (n # vis) \<union> set ns"
        "target \<notin> set (n # vis) \<longrightarrow> target \<notin> set vis'" "set (q @ [(n, p @ [n])]) \<subseteq> set q'"
        "set vis' - set (n # vis) \<subseteq> fst ` set q'"
        using IH unfolding w sum.case prod.case by blast+
      from f(4) have "n \<in> fst ` set q'" by force
      then have "set vis' - set vis \<subseteq> fst ` set q'" using f(5) by auto
      moreover have "target \<notin> set vis \<longrightarrow> target \<notin> set vis'" using f(3) 3(2) by simp
      ultimately show ?thesis unfolding eq w using f(1,2,4) by simp
    qed
  qed
qed auto

lemma bfs_result:
  assumes "queued_paths succ s q" and "frontier succ vis q" and "target \<notin> set vis"
  shows "case bfs succ target vis q of
      Some r \<Rightarrow> path succ s r \<and> r \<noteq> [] \<and> last r = target
    | None \<Rightarrow> \<exists>V. set vis \<subseteq> V \<and> target \<notin> V \<and> (\<forall>v \<in> V. set (succ v) \<subseteq> V)"
  using assms
proof (induction succ target vis q rule: bfs.induct)
  case (1 succ target vis)
  then show ?case by (auto simp: frontier_def intro!: exI [of _ "set vis"])
next
  case (2 succ target vis c p q)
  have "path succ s p" "last (s # p) = c" "queued_paths succ s q"
    using 2(2) by (auto simp: queued_paths_def)
  note res = scan_result [OF this(1,2) order_refl this(3), of target vis]
  show ?case
  proof (cases "scan target p (succ c) vis q")
    case (Inl r)
    then show ?thesis using res by simp
  next
    case (Inr w)
    then obtain vis' q' where w: "scan target p (succ c) vis q = Inr (vis', q')" by (cases w) simp
    note fr = 2(3)
    have r: "queued_paths succ s q'" "set vis' = set vis \<union> set (succ c)" "target \<notin> set vis'"
      "set q \<subseteq> set q'" "set vis' - set vis \<subseteq> fst ` set q'"
      using res 2(4) unfolding w sum.case prod.case by blast+
    have "frontier succ vis' q'" unfolding frontier_def
    proof
      fix v assume "v \<in> set vis'"
      then consider "v \<in> set vis' - set vis" | "v \<in> set vis" by blast
      then show "v \<in> fst ` set q' \<or> set (succ v) \<subseteq> set vis'"
      proof cases
        case 2
        then have "v = c \<or> v \<in> fst ` set q \<or> set (succ v) \<subseteq> set vis" using fr by (auto simp: frontier_def)
        moreover have "set (succ c) \<subseteq> set vis'" "fst ` set q \<subseteq> fst ` set q'" "set vis \<subseteq> set vis'"
          using r(2) image_mono [OF r(4)] by simp_all
        ultimately show ?thesis by fast
      next
        case 1
        then show ?thesis using r(5) by fast
      qed
    qed
    then have "case bfs succ target vis' q' of
        Some r \<Rightarrow> path succ s r \<and> r \<noteq> [] \<and> last r = target
      | None \<Rightarrow> \<exists>V. set vis' \<subseteq> V \<and> target \<notin> V \<and> (\<forall>v \<in> V. set (succ v) \<subseteq> V)"
      by (rule 2(1) [OF w refl r(1) _ r(3)])
    moreover have "set vis \<subseteq> set vis'" using r(2) by blast
    ultimately show ?thesis unfolding bfs.simps w
      by (cases "bfs succ target vis' q'") (simp_all, meson subset_trans)
  qed
qed

lemma closed_reach: "(edge succ)\<^sup>*\<^sup>* s t \<Longrightarrow> \<forall>v \<in> V. set (succ v) \<subseteq> V \<Longrightarrow> s \<in> V \<Longrightarrow> t \<in> V"
  by (induction rule: rtranclp_induct) auto

text \<open>
  Searching from a state finds a path exactly when the target is another state that can be reached.
\<close>

lemma bfs_found:
  assumes "s \<noteq> target" and "bfs succ target [s] [(s, [])] = Some r"
  shows "path succ s r \<and> r \<noteq> [] \<and> last r = target"
  using bfs_result [of succ s "[(s, [])]" "[s]" target] assms by (simp add: queued_paths_def frontier_def)

lemma bfs_complete:
  assumes "s \<noteq> target" and "(edge succ)\<^sup>*\<^sup>* s target"
  shows "bfs succ target [s] [(s, [])] \<noteq> None"
proof
  assume "bfs succ target [s] [(s, [])] = None"
  then obtain V where "s \<in> V" "target \<notin> V" "\<forall>v \<in> V. set (succ v) \<subseteq> V"
    using bfs_result [of succ s "[(s, [])]" "[s]" target] assms by (auto simp: queued_paths_def frontier_def)
  then show False using closed_reach [OF assms(2)] by blast
qed

lemma scan_visited: "target \<in> set vis \<Longrightarrow> \<exists>vis' q'. scan target p ns vis q = Inr (vis', q') \<and> target \<in> set vis'"
  by (induction target p ns vis q rule: scan.induct) auto

lemma bfs_start: "target \<in> set vis \<Longrightarrow> bfs succ target vis q = None"
proof (induction succ target vis q rule: bfs.induct)
  case (2 succ target vis c p q)
  then show ?case using scan_visited [OF 2(2), of p "succ c" q] by auto
qed simp

lemma bfs_iff: "bfs succ target [s] [(s, [])] \<noteq> None \<longleftrightarrow> s \<noteq> target \<and> (edge succ)\<^sup>*\<^sup>* s target"
proof (cases "s = target")
  case True
  then show ?thesis using bfs_start [of target "[s]"] by (simp del: bfs.simps)
next
  case False
  have "(edge succ)\<^sup>*\<^sup>* s target" if r: "bfs succ target [s] [(s, [])] = Some r" for r
    using path_reaches [of succ s r] bfs_found [OF False r] by simp
  then show ?thesis using False bfs_complete [OF False] by blast
qed

end
