(* ===== verification/AgentState.thy ===== *)
theory AgentState
  imports Lifecycle
begin

text \<open>
  The life cycle of an agent in the archived engine (\<^verbatim>\<open>legacy/agent_state.py\<close>): the states, the
  table of allowed transitions, the append-only audit log and the state machine that consults the
  one and writes the other.  Several machines share one log, as in the engine; a fleet is that log
  with the machines that write to it.  The clock is an argument.
\<close>

section \<open>States and table\<close>

datatype agent_state =
  CREATED | INITIALIZED | READY | IDLE | PROCESSING | WAITING | WAITING_FOR_LLM | WAITING_FOR_TOOL
| WAITING_FOR_CHILD | WAITING_FOR_MAIL | WAITING_FOR_LOCK | WAITING_FOR_HUMAN | WAITING_FOR_EXTERNAL
| BLOCKED | PAUSED | FAILED | TERMINATED

definition WAITING_STATES :: "agent_state list" where
  "WAITING_STATES = [WAITING, WAITING_FOR_LLM, WAITING_FOR_TOOL, WAITING_FOR_CHILD, WAITING_FOR_MAIL,
     WAITING_FOR_LOCK, WAITING_FOR_HUMAN, WAITING_FOR_EXTERNAL]"

definition PHASE_LIFECYCLE :: "agent_state list" where
  "PHASE_LIFECYCLE = [CREATED, INITIALIZED, READY]"

definition PHASE_RUNNING :: "agent_state list" where
  "PHASE_RUNNING = [IDLE, PROCESSING] @ WAITING_STATES @ [BLOCKED, PAUSED, FAILED]"

definition PHASE_TERMINAL :: "agent_state list" where
  "PHASE_TERMINAL = [TERMINATED]"

definition is_running :: "agent_state \<Rightarrow> bool" where
  "is_running s \<longleftrightarrow> s \<in> set PHASE_RUNNING"

definition is_terminal_state :: "agent_state \<Rightarrow> bool" where
  "is_terminal_state s \<longleftrightarrow> s \<in> set PHASE_TERMINAL"

fun TRANSITION_TABLE :: "agent_state \<Rightarrow> agent_state list" where
  "TRANSITION_TABLE CREATED = [INITIALIZED]"
| "TRANSITION_TABLE INITIALIZED = [READY]"
| "TRANSITION_TABLE READY = [IDLE, PROCESSING, TERMINATED]"
| "TRANSITION_TABLE IDLE = [READY, PROCESSING, PAUSED, FAILED, TERMINATED]"
| "TRANSITION_TABLE PROCESSING = [WAITING, WAITING_FOR_LLM, WAITING_FOR_TOOL, WAITING_FOR_CHILD,
     WAITING_FOR_MAIL, WAITING_FOR_LOCK, WAITING_FOR_HUMAN, WAITING_FOR_EXTERNAL, BLOCKED, IDLE, FAILED, PAUSED]"
| "TRANSITION_TABLE WAITING = [PROCESSING, BLOCKED, FAILED, PAUSED]"
| "TRANSITION_TABLE WAITING_FOR_LLM = [PROCESSING, BLOCKED, FAILED, PAUSED]"
| "TRANSITION_TABLE WAITING_FOR_TOOL = [PROCESSING, BLOCKED, FAILED, PAUSED]"
| "TRANSITION_TABLE WAITING_FOR_CHILD = [PROCESSING, BLOCKED, FAILED, PAUSED]"
| "TRANSITION_TABLE WAITING_FOR_MAIL = [PROCESSING, BLOCKED, FAILED, PAUSED]"
| "TRANSITION_TABLE WAITING_FOR_LOCK = [PROCESSING, BLOCKED, FAILED, PAUSED]"
| "TRANSITION_TABLE WAITING_FOR_HUMAN = [PROCESSING, BLOCKED, FAILED, PAUSED]"
| "TRANSITION_TABLE WAITING_FOR_EXTERNAL = [PROCESSING, BLOCKED, FAILED, PAUSED]"
| "TRANSITION_TABLE BLOCKED = [IDLE, PROCESSING, FAILED, TERMINATED]"
| "TRANSITION_TABLE PAUSED = [IDLE, PROCESSING, READY, WAITING, WAITING_FOR_LLM, WAITING_FOR_TOOL,
     WAITING_FOR_CHILD, WAITING_FOR_MAIL, WAITING_FOR_LOCK, WAITING_FOR_HUMAN, WAITING_FOR_EXTERNAL, BLOCKED,
     FAILED, TERMINATED]"
| "TRANSITION_TABLE FAILED = [IDLE, TERMINATED, PROCESSING]"
| "TRANSITION_TABLE TERMINATED = []"

interpretation agent_cycle: transition_table TRANSITION_TABLE is_terminal_state
  by unfold_locales (simp add: is_terminal_state_def PHASE_TERMINAL_def)

section \<open>The audit log and the machine\<close>

record audit_entry =
  timestamp :: string
  agent_id :: string
  from_state :: agent_state
  to_state :: agent_state
  at_tick :: "int option"
  reason :: string
  metadata :: "(string, pyval) dict"

type_synonym audit_log = "audit_entry list"

text \<open>The keyword arguments of a transition: \<^verbatim>\<open>tick\<close>, \<^verbatim>\<open>reason\<close> and \<^verbatim>\<open>metadata\<close>.\<close>

type_synonym kwargs = "int option \<times> string \<times> (string, pyval) dict option"

definition record_entry :: "string \<Rightarrow> string \<Rightarrow> agent_state \<Rightarrow> agent_state \<Rightarrow> kwargs \<Rightarrow> audit_log
    \<Rightarrow> audit_entry \<times> audit_log" where
  "record_entry now a s t kw lg =
     (case kw of (tick, why, meta) \<Rightarrow>
       let e = \<lparr>timestamp = now, agent_id = a, from_state = s, to_state = t, at_tick = tick, reason = why,
                metadata = (case meta of None \<Rightarrow> [] | Some m \<Rightarrow> m)\<rparr>
       in (e, lg @ [e]))"

definition for_agent :: "audit_log \<Rightarrow> string \<Rightarrow> audit_entry list" where
  "for_agent lg a = filter (\<lambda>e. agent_id e = a) lg"

definition last_for_agent :: "audit_log \<Rightarrow> string \<Rightarrow> audit_entry option" where
  "last_for_agent lg a = (case rev (for_agent lg a) of [] \<Rightarrow> None | e # _ \<Rightarrow> Some e)"

record machine =
  m_agent_id :: string
  m_state :: agent_state
  transition_count :: nat

datatype transition_error = InvalidTransitionError string agent_state agent_state

definition new_machine :: "string \<Rightarrow> string \<Rightarrow> agent_state \<Rightarrow> audit_log \<Rightarrow> machine \<times> audit_log" where
  "new_machine now a initial lg =
     (\<lparr>m_agent_id = a, m_state = initial, transition_count = 0\<rparr>,
      if initial \<noteq> CREATED
      then snd (record_entry now a CREATED initial (None, ''initialized with non-default state'', None) lg)
      else lg)"

definition can_transition_to :: "machine \<Rightarrow> agent_state \<Rightarrow> bool" where
  "can_transition_to m target \<longleftrightarrow> target \<in> set (TRANSITION_TABLE (m_state m))"

definition transition :: "string \<Rightarrow> agent_state \<Rightarrow> kwargs \<Rightarrow> machine \<times> audit_log
    \<Rightarrow> (transition_error + audit_entry) \<times> machine \<times> audit_log" where
  "transition now target kw w =
     (case w of (m, lg) \<Rightarrow>
      if \<not> can_transition_to m target
      then (Inl (InvalidTransitionError (m_agent_id m) (m_state m) target), m, lg)
      else let m' = m\<lparr>m_state := target, transition_count := transition_count m + 1\<rparr>;
               (e, lg') = record_entry now (m_agent_id m) (m_state m) target kw lg
           in (Inr e, m', lg'))"

text \<open>The named transitions.\<close>

definition initialize where "initialize now = transition now INITIALIZED"
definition mark_ready where "mark_ready now = transition now READY"
definition start where "start now = transition now IDLE"
definition begin_processing where "begin_processing now = transition now PROCESSING"
definition wait where "wait now = transition now WAITING"
definition wait_for_llm where "wait_for_llm now = transition now WAITING_FOR_LLM"
definition wait_for_tool where "wait_for_tool now = transition now WAITING_FOR_TOOL"
definition wait_for_child where "wait_for_child now = transition now WAITING_FOR_CHILD"
definition wait_for_mail where "wait_for_mail now = transition now WAITING_FOR_MAIL"
definition wait_for_lock where "wait_for_lock now = transition now WAITING_FOR_LOCK"
definition wait_for_human where "wait_for_human now = transition now WAITING_FOR_HUMAN"
definition wait_for_external where "wait_for_external now = transition now WAITING_FOR_EXTERNAL"
definition wake_up where "wake_up now = transition now READY"
definition block where "block now = transition now BLOCKED"
definition resume_from_wait where "resume_from_wait now = transition now PROCESSING"
definition resolve_block where "resolve_block now = transition now IDLE"
definition finish_processing where "finish_processing now = transition now IDLE"
definition pause where "pause now = transition now PAUSED"
definition unpause where "unpause now target = transition now target"
definition fail where "fail now = transition now FAILED"
definition recover where "recover now = transition now IDLE"
definition terminate_agent where "terminate_agent now = transition now TERMINATED"

lemmas named_transitions = initialize_def mark_ready_def start_def begin_processing_def wait_def
  wait_for_llm_def wait_for_tool_def wait_for_child_def wait_for_mail_def wait_for_lock_def wait_for_human_def
  wait_for_external_def wake_up_def block_def resume_from_wait_def resolve_block_def finish_processing_def
  pause_def unpause_def fail_def recover_def terminate_agent_def

section \<open>A fleet of machines on one log\<close>

record fleet =
  machines :: "(string, machine) dict"
  shared_log :: audit_log

inductive fstep :: "fleet \<Rightarrow> fleet \<Rightarrow> bool" where
  Create: "dget (machines f) a = None \<Longrightarrow> new_machine now a s (shared_log f) = (m, lg)
    \<Longrightarrow> fstep f \<lparr>machines = dset a m (machines f), shared_log = lg\<rparr>"
| Transition: "dget (machines f) a = Some m \<Longrightarrow> transition now target kw (m, shared_log f) = (r, m', lg)
    \<Longrightarrow> fstep f \<lparr>machines = dset a m' (machines f), shared_log = lg\<rparr>"

interpretation fleets: trans_sys "\<lambda>f. f = \<lparr>machines = [], shared_log = []\<rparr>" fstep .

text \<open>
  The trail of an agent: the states its entries lead through, each entry leaving the state the one
  before it reached.
\<close>

fun trail :: "agent_state \<Rightarrow> audit_entry list \<Rightarrow> agent_state option" where
  "trail s [] = Some s"
| "trail s (e # es) = (if from_state e = s then trail (to_state e) es else None)"

definition legal :: "audit_entry \<Rightarrow> bool" where
  "legal e \<longleftrightarrow> to_state e \<in> set (TRANSITION_TABLE (from_state e))"

lemma trail_append: "trail s (xs @ ys) = (case trail s xs of None \<Rightarrow> None | Some t \<Rightarrow> trail t ys)"
  by (induction xs arbitrary: s) auto

text \<open>What the log says of one agent, given its machine.\<close>

definition agrees :: "machine \<Rightarrow> audit_entry list \<Rightarrow> bool" where
  "agrees m es \<longleftrightarrow> trail CREATED es = Some (m_state m)
     \<and> (\<exists>pre post. es = pre @ post \<and> length pre \<le> 1 \<and> length post = transition_count m \<and> (\<forall>e \<in> set post. legal e))"

definition fleet_ok :: "fleet \<Rightarrow> bool" where
  "fleet_ok f \<longleftrightarrow> (\<forall>a. dget (machines f) a = None \<longrightarrow> for_agent (shared_log f) a = [])
     \<and> (\<forall>a m. dget (machines f) a = Some m \<longrightarrow> m_agent_id m = a \<and> agrees m (for_agent (shared_log f) a))"

lemma agrees_new:
  "new_machine now a s lg = (m, lg') \<Longrightarrow> for_agent lg a = [] \<Longrightarrow> agrees m (for_agent lg' a)"
  by (auto simp: new_machine_def record_entry_def for_agent_def agrees_def Let_def
      intro: exI [of _ "[_]"])

lemma agrees_transition:
  assumes "transition now target kw (m, lg) = (r, m', lg')" and "agrees m (for_agent lg (m_agent_id m))"
  shows "agrees m' (for_agent lg' (m_agent_id m)) \<and> m_agent_id m' = m_agent_id m"
proof (cases "can_transition_to m target")
  case True
  obtain tick why meta where kw: "kw = (tick, why, meta)" by (cases kw)
  let ?es = "for_agent lg (m_agent_id m)"
  from assms(2) obtain pre post where p: "?es = pre @ post" "length pre \<le> 1"
    "length post = transition_count m" "\<forall>e \<in> set post. legal e" and t: "trail CREATED ?es = Some (m_state m)"
    by (auto simp: agrees_def)
  obtain e where e: "for_agent lg' (m_agent_id m) = ?es @ [e]" "from_state e = m_state m" "to_state e = target"
    "m' = m\<lparr>m_state := target, transition_count := transition_count m + 1\<rparr>"
    using assms(1) True kw by (auto simp: transition_def record_entry_def Let_def for_agent_def)
  have "trail CREATED (?es @ [e]) = Some target" using t e by (simp add: trail_append)
  moreover have "legal e" using True e by (simp add: can_transition_to_def legal_def)
  ultimately show ?thesis using e p unfolding agrees_def
    by (intro conjI exI [of _ pre] exI [of _ "post @ [e]"]) auto
next
  case False
  then show ?thesis using assms by (simp add: transition_def)
qed

lemma other_agent:
  "b \<noteq> a \<Longrightarrow> new_machine now a s lg = (m, lg') \<Longrightarrow> for_agent lg' b = for_agent lg b"
  "b \<noteq> m_agent_id m \<Longrightarrow> transition now target kw (m, lg) = (r, m', lg') \<Longrightarrow> for_agent lg' b = for_agent lg b"
  by (auto simp: new_machine_def transition_def record_entry_def for_agent_def Let_def
      split: prod.splits if_splits)

lemma new_machine_id: "new_machine now a s lg = (m, lg') \<Longrightarrow> m_agent_id m = a"
  by (auto simp: new_machine_def)

lemma fleet_step: "fstep f f' \<Longrightarrow> fleet_ok f \<Longrightarrow> fleet_ok f'"
proof (induction rule: fstep.induct)
  case (Create f a now s m lg)
  have "for_agent (shared_log f) a = []"
    using Create(1,3) by (auto simp: fleet_ok_def)
  then show ?case
    using Create(3) agrees_new [OF Create(2)] new_machine_id [OF Create(2)] other_agent(1) [OF _ Create(2)]
    by (auto simp: fleet_ok_def)
next
  case (Transition f a m now target kw r m' lg)
  then have m: "m_agent_id m = a" "agrees m (for_agent (shared_log f) a)"
    by (auto simp: fleet_ok_def)
  then show ?case
    using Transition(3) agrees_transition [OF Transition(2)] other_agent(2) [OF _ Transition(2)]
    by (auto simp: fleet_ok_def)
qed

lemma reach_fleet_ok: "fleets.reach f \<Longrightarrow> fleet_ok f"
proof (erule fleets.reach_invariant)
  fix f :: fleet assume "f = \<lparr>machines = [], shared_log = []\<rparr>"
  then show "fleet_ok f" by (simp add: fleet_ok_def for_agent_def)
qed (rule fleet_step)

text \<open>
  C18. The audit trail tells the truth: for every machine of a fleet, whatever transitions were tried
  on it and on the others, the log's entries for its agent, replayed from \<^verbatim>\<open>created\<close>, chain up to the
  state the machine is in; they are as many as the machine counts, each allowed by the table, after
  at most one entry for an unusual initial state.
\<close>

theorem audit_replays:
  assumes "fleets.reach f" and "dget (machines f) a = Some m"
  shows "trail CREATED (for_agent (shared_log f) a) = Some (m_state m)
    \<and> (\<exists>k \<le> 1. length (drop k (for_agent (shared_log f) a)) = transition_count m
         \<and> (\<forall>e \<in> set (drop k (for_agent (shared_log f) a)). legal e))"
proof -
  have "agrees m (for_agent (shared_log f) a)"
    using reach_fleet_ok [OF assms(1)] assms(2) by (auto simp: fleet_ok_def)
  then obtain pre post where p: "for_agent (shared_log f) a = pre @ post" "length pre \<le> 1"
    "length post = transition_count m" "\<forall>e \<in> set post. legal e"
    "trail CREATED (for_agent (shared_log f) a) = Some (m_state m)"
    by (auto simp: agrees_def)
  then show ?thesis by (intro conjI exI [of _ "length pre"]) auto
qed

definition ex_fleet :: fleet where
  "ex_fleet = \<lparr>machines = [(''a'', \<lparr>m_agent_id = ''a'', m_state = PROCESSING, transition_count = 1\<rparr>)],
     shared_log = [\<lparr>timestamp = ''t0'', agent_id = ''a'', from_state = CREATED, to_state = IDLE, at_tick = None,
         reason = ''initialized with non-default state'', metadata = []\<rparr>,
       \<lparr>timestamp = ''t1'', agent_id = ''a'', from_state = IDLE, to_state = PROCESSING, at_tick = Some 3,
         reason = ''work'', metadata = []\<rparr>]\<rparr>"

lemma ex_fleet_reach: "fleets.reach ex_fleet"
proof -
  let ?m = "\<lparr>m_agent_id = ''a'', m_state = IDLE, transition_count = 0\<rparr>"
  let ?f = "\<lparr>machines = dset ''a'' ?m [], shared_log = take 1 (shared_log ex_fleet)\<rparr>"
  have 0: "fleets.reach \<lparr>machines = [], shared_log = []\<rparr>" by (rule fleets.reach_start) simp
  have "new_machine ''t0'' ''a'' IDLE [] = (?m, take 1 (shared_log ex_fleet))"
    by (simp add: new_machine_def record_entry_def ex_fleet_def Let_def)
  then have "fstep \<lparr>machines = [], shared_log = []\<rparr> ?f"
    using Create [of "\<lparr>machines = [], shared_log = []\<rparr>" "''a''"] by simp
  then have 1: "fleets.reach ?f" by (rule fleets.reach_step [OF 0])
  obtain r where "transition ''t1'' PROCESSING (Some 3, ''work'', None) (?m, shared_log ?f)
      = (r, \<lparr>m_agent_id = ''a'', m_state = PROCESSING, transition_count = 1\<rparr>, shared_log ex_fleet)"
    by (simp add: transition_def can_transition_to_def record_entry_def ex_fleet_def Let_def)
  then have "fstep ?f ex_fleet" using Transition [of ?f "''a''" ?m] by (simp add: ex_fleet_def)
  then show ?thesis by (rule fleets.reach_step [OF 1])
qed

theorem audit_replays_witness:
  "trail CREATED (for_agent (shared_log ex_fleet) ''a'') = Some PROCESSING"
  using audit_replays [OF ex_fleet_reach, of "''a''"] by (simp add: ex_fleet_def)

section \<open>Ending an agent\<close>

text \<open>A sequence of transitions, one after the other, as far as they are allowed.\<close>

fun drive :: "string \<Rightarrow> kwargs \<Rightarrow> agent_state list \<Rightarrow> machine \<times> audit_log \<Rightarrow> machine \<times> audit_log" where
  "drive now kw [] w = w"
| "drive now kw (t # ts) w = drive now kw ts (snd (transition now t kw w))"

lemma drive_path:
  "path TRANSITION_TABLE (m_state m) ts \<Longrightarrow> \<exists>m' lg'. drive now kw ts (m, lg) = (m', lg')
     \<and> m_state m' = last (m_state m # ts) \<and> length lg' = length lg + length ts"
proof (induction ts arbitrary: m lg)
  case (Cons t ts)
  obtain m1 lg1 where s: "snd (transition now t kw (m, lg)) = (m1, lg1)" by (meson surj_pair)
  then have m1: "m_state m1 = t" "length lg1 = length lg + 1"
    using Cons.prems by (auto simp: transition_def can_transition_to_def record_entry_def Let_def split: prod.splits)
  from Cons.IH [of m1 lg1] show ?case using Cons.prems m1 s by auto
qed simp

fun way_out :: "agent_state \<Rightarrow> agent_state list" where
  "way_out CREATED = [INITIALIZED, READY, TERMINATED]"
| "way_out INITIALIZED = [READY, TERMINATED]"
| "way_out PROCESSING = [IDLE, TERMINATED]"
| "way_out TERMINATED = []"
| "way_out s = (if TERMINATED \<in> set (TRANSITION_TABLE s) then [TERMINATED] else [BLOCKED, TERMINATED])"

lemma way_out_path: "path TRANSITION_TABLE s (way_out s) \<and> last (s # way_out s) = TERMINATED \<and> length (way_out s) \<le> 3"
  by (cases s) simp_all

text \<open>
  Every agent can be brought to its end, and only once: from whatever state a machine is in there
  are at most three allowed transitions to \<^verbatim>\<open>terminated\<close>, all recorded; and a terminated machine refuses
  every transition, leaving itself and the log as they are.
\<close>

theorem agent_termination:
  "\<exists>ts m' lg'. length ts \<le> 3 \<and> drive now kw ts (m, lg) = (m', lg') \<and> m_state m' = TERMINATED
     \<and> length lg' = length lg + length ts
     \<and> transition now' t kw' (m', lg') = (Inl (InvalidTransitionError (m_agent_id m') TERMINATED t), m', lg')"
proof -
  obtain m' lg' where "drive now kw (way_out (m_state m)) (m, lg) = (m', lg')"
    "m_state m' = TERMINATED" "length lg' = length lg + length (way_out (m_state m))"
    using drive_path [of m "way_out (m_state m)" now kw lg] way_out_path [of "m_state m"] by auto
  moreover from this(2) have "transition now' t kw' (m', lg')
      = (Inl (InvalidTransitionError (m_agent_id m') TERMINATED t), m', lg')"
    by (simp add: transition_def can_transition_to_def)
  ultimately show ?thesis using way_out_path [of "m_state m"] by blast
qed

text \<open>
  Where the named transitions are narrower than their comments: a pause is announced for any running
  state and a failure too, but blocked, failed and paused agents cannot be paused, and a failed one
  cannot fail again.
\<close>

lemma pause_not_from_every_running_state:
  "is_running s \<and> \<not> (\<exists>e. fst (pause now kw (\<lparr>m_agent_id = a, m_state = s, transition_count = n\<rparr>, lg)) = Inr e)
     \<longleftrightarrow> s \<in> {BLOCKED, PAUSED, FAILED}"
  by (cases s) (auto simp: is_running_def PHASE_RUNNING_def WAITING_STATES_def pause_def transition_def
      can_transition_to_def Let_def split: prod.splits)

end
