(* ===== verification/Hierarchy.thy ===== *)
theory Hierarchy
  imports Prelude "HOL-Library.Multiset"
begin

text \<open>
  Hierarchies given by the children of a node, as the task tree and the tree of agents keep them:
  the nodes below a node, and the induction that follows a depth-first traversal with a stack.
\<close>

text \<open>A node and everything below it, where \<open>ch\<close> lists the children of a node.\<close>

abbreviation child_rel :: "(string \<Rightarrow> string list) \<Rightarrow> (string \<times> string) set" where
  "child_rel ch \<equiv> {(c, p). c \<in> set (ch p)}"

definition below :: "(string \<Rightarrow> string list) \<Rightarrow> string list \<Rightarrow> string set" where
  "below ch stack = {y. \<exists>x \<in> set stack. (y, x) \<in> (child_rel ch)\<^sup>*}"

lemma below_Nil [simp]: "below ch [] = {}"
  by (simp add: below_def)

lemma below_Cons: "below ch (x # rest) = insert x (below ch (rev (ch x) @ rest))"
proof -
  have "(y, x) \<in> (child_rel ch)\<^sup>* \<longleftrightarrow> y = x \<or> (\<exists>c \<in> set (ch x). (y, c) \<in> (child_rel ch)\<^sup>*)" for y
    by (auto elim: rtranclE intro: rtrancl_into_rtrancl)
  then show ?thesis by (auto simp: below_def)
qed

lemma below_append: "below ch (xs @ ys) = below ch xs \<union> below ch ys"
  by (auto simp: below_def)

text \<open>Induction along a depth-first traversal: popping a node and pushing its children gets smaller.\<close>

lemma stack_induct:
  assumes wf: "wf (child_rel ch)" and Nil: "P []"
    and Cons: "\<And>x rest. P rest \<Longrightarrow> P (rev (ch x) @ rest) \<Longrightarrow> P (x # rest)"
  shows "P stack"
proof (induction stack rule: wf_induct_rule [OF wf_inv_image [OF wf_mult [OF wf], of mset]])
  case (1 stack)
  show ?case
  proof (cases stack)
    case (Cons x rest)
    have "(mset rest + mset (ch x), mset rest + {#x#}) \<in> mult (child_rel ch)"
      by (rule one_step_implies_mult) auto
    moreover have "(mset rest + {#}, mset rest + {#x#}) \<in> mult (child_rel ch)"
      by (rule one_step_implies_mult) auto
    ultimately have "P rest" "P (rev (ch x) @ rest)" using 1 Cons by (simp_all add: inv_image_def add.commute)
    then show ?thesis using assms(3) Cons by simp
  qed (simp add: Nil)
qed

end
