(* ===== verification/Task.thy ===== *)
theory Task
  imports Lifecycle Hierarchy
begin

text \<open>
  The task tree of the archived engine (\<^verbatim>\<open>legacy/models/task.py\<close>, \<^verbatim>\<open>legacy/task_tree.py\<close>): tasks with
  their life cycle, and the tree with its maps from a task to its children, to the task it derives
  from and from an agent to its tasks.  Loops that follow these maps may run forever when a caller
  has tied them into a cycle, so they are partial functions; \<open>None\<close> is not returning.  Calendar times
  are integers.
\<close>

section \<open>Tasks\<close>

datatype task_status = DRAFT | ASSIGNED | ACCEPTED | IN_PROGRESS | BLOCKED | WAITING_FOR_CHILDREN
  | SUBMITTED | REVIEWING | COMPLETED | FAILED | CANCELLED | EXPIRED

datatype task_priority = LOW | NORMAL | HIGH | URGENT

lemma UNIV_task_status:
  "UNIV = {DRAFT, ASSIGNED, ACCEPTED, IN_PROGRESS, BLOCKED, WAITING_FOR_CHILDREN, SUBMITTED, REVIEWING,
     COMPLETED, FAILED, CANCELLED, EXPIRED}"
  using task_status.exhaust by blast

instance task_status :: finite
  by standard (simp add: UNIV_task_status)

fun TASK_TRANSITIONS :: "task_status \<Rightarrow> task_status list" where
  "TASK_TRANSITIONS DRAFT = [ASSIGNED, CANCELLED]"
| "TASK_TRANSITIONS ASSIGNED = [ACCEPTED, FAILED, CANCELLED, EXPIRED]"
| "TASK_TRANSITIONS ACCEPTED = [IN_PROGRESS, FAILED, CANCELLED, EXPIRED]"
| "TASK_TRANSITIONS IN_PROGRESS = [SUBMITTED, BLOCKED, WAITING_FOR_CHILDREN, FAILED, CANCELLED, EXPIRED]"
| "TASK_TRANSITIONS BLOCKED = [IN_PROGRESS, FAILED, CANCELLED, EXPIRED]"
| "TASK_TRANSITIONS WAITING_FOR_CHILDREN = [IN_PROGRESS, SUBMITTED, FAILED, CANCELLED, EXPIRED]"
| "TASK_TRANSITIONS SUBMITTED = [REVIEWING, COMPLETED, FAILED]"
| "TASK_TRANSITIONS REVIEWING = [COMPLETED, FAILED, IN_PROGRESS]"
| "TASK_TRANSITIONS COMPLETED = []"
| "TASK_TRANSITIONS FAILED = []"
| "TASK_TRANSITIONS CANCELLED = []"
| "TASK_TRANSITIONS EXPIRED = []"

record artifact =
  artifact_type :: string
  artifact_path :: string
  artifact_version :: int
  artifact_description :: string

record task =
  task_id :: string
  title :: string
  description :: string
  assigner_agent_id :: string
  assignee_agent_id :: string
  derived_from :: "string option"
  child_task_ids :: "string list"
  status :: task_status
  priority :: task_priority
  deadline :: "int option"
  required_outputs :: "string list"
  artifacts :: "artifact list"
  created_at_tick :: int
  updated_at_tick :: int
  completed_at_tick :: "int option"
  task_metadata :: "(string, pyval) dict"

datatype task_error = TaskTreeError string | TaskNotFoundError string
  | TaskKeyError string
  | TaskInvalidTransition string task_status task_status | TaskValueError task_status task_status

definition task_can_transition_to :: "task \<Rightarrow> task_status \<Rightarrow> bool" where
  "task_can_transition_to k target \<longleftrightarrow> target \<in> set (TASK_TRANSITIONS (status k))"

definition transition_to :: "task_status \<Rightarrow> int \<Rightarrow> task \<Rightarrow> task_error + task" where
  "transition_to target tick k =
     (if \<not> task_can_transition_to k target then Inl (TaskValueError (status k) target)
      else let k' = k\<lparr>status := target, updated_at_tick := tick\<rparr>
           in Inr (if target = COMPLETED then k'\<lparr>completed_at_tick := Some tick\<rparr> else k'))"

definition is_terminal :: "task \<Rightarrow> bool" where
  "is_terminal k \<longleftrightarrow> status k \<in> {COMPLETED, FAILED, CANCELLED, EXPIRED}"

definition is_active :: "task \<Rightarrow> bool" where
  "is_active k \<longleftrightarrow> status k \<in> {ASSIGNED, ACCEPTED, IN_PROGRESS, BLOCKED, WAITING_FOR_CHILDREN}"

interpretation task_cycle: transition_table TASK_TRANSITIONS "\<lambda>s. s \<in> {COMPLETED, FAILED, CANCELLED, EXPIRED}"
  by unfold_locales auto

section \<open>The tree\<close>

record task_tree =
  tasks :: "(string, task) dict"
  children_map :: "(string, string list) dict"
  parent_map :: "(string, string option) dict"
  assignee_map :: "(string, string list) dict"

definition new_tree :: task_tree where
  "new_tree = \<lparr>tasks = [], children_map = [], parent_map = [], assignee_map = []\<rparr>"

text \<open>The task that \<^verbatim>\<open>create\<close> is asked for: its arguments, with the defaults filled in by the caller.\<close>

definition append_to :: "'k \<Rightarrow> 'v \<Rightarrow> ('k, 'v list) dict \<Rightarrow> ('k, 'v list) dict" where
  "append_to k v d = dset k ((case dget d k of None \<Rightarrow> [] | Some xs \<Rightarrow> xs) @ [v]) d"

definition create :: "task \<Rightarrow> int \<Rightarrow> task_tree \<Rightarrow> (task_error + task) \<times> task_tree" where
  "create args tick t =
     (if dget (tasks t) (task_id args) \<noteq> None then (Inl (TaskTreeError (task_id args)), t)
      else case derived_from args of
        Some p \<Rightarrow>
          if dget (tasks t) p = None then (Inl (TaskNotFoundError p), t)
          else let k = args\<lparr>created_at_tick := tick, updated_at_tick := tick\<rparr>
            in (Inr k, t\<lparr>tasks := dset (task_id k) k (tasks t), parent_map := dset (task_id k) (Some p) (parent_map t),
                 children_map := append_to p (task_id k) (children_map t),
                 assignee_map := append_to (assignee_agent_id k) (task_id k) (assignee_map t)\<rparr>)
      | None \<Rightarrow>
          let k = args\<lparr>created_at_tick := tick, updated_at_tick := tick\<rparr>
          in (Inr k, t\<lparr>tasks := dset (task_id k) k (tasks t), parent_map := dset (task_id k) None (parent_map t),
               assignee_map := append_to (assignee_agent_id k) (task_id k) (assignee_map t)\<rparr>))"

definition get_task :: "task_tree \<Rightarrow> string \<Rightarrow> task_error + task" where
  "get_task t x = (case dget (tasks t) x of None \<Rightarrow> Inl (TaskNotFoundError x) | Some k \<Rightarrow> Inr k)"

definition put_task :: "string \<Rightarrow> task \<Rightarrow> task_tree \<Rightarrow> task_tree" where
  "put_task x k t = t\<lparr>tasks := dset x k (tasks t)\<rparr>"

fun walk :: "int \<Rightarrow> task_status list \<Rightarrow> task \<Rightarrow> task_error + task" where
  "walk tick [] k = Inr k"
| "walk tick (s # ss) k = (case transition_to s tick k of Inl e \<Rightarrow> Inl e | Inr k' \<Rightarrow> walk tick ss k')"

text \<open>
  \<open>succ\<close> is the order in which the successors of a status are iterated: they are a set in the source,
  and the order in which a set is iterated is not specified.
\<close>

definition update_status :: "(task_status \<Rightarrow> task_status list) \<Rightarrow> string \<Rightarrow> task_status \<Rightarrow> int \<Rightarrow> bool
    \<Rightarrow> task_tree \<Rightarrow> (task_error + task) \<times> task_tree" where
  "update_status succ x target tick allow_walk t =
     (case get_task t x of
        Inl e \<Rightarrow> (Inl e, t)
      | Inr k \<Rightarrow>
          if task_can_transition_to k target
          then (case transition_to target tick k of Inl e \<Rightarrow> (Inl e, t) | Inr k' \<Rightarrow> (Inr k', put_task x k' t))
          else if \<not> allow_walk then (Inl (TaskInvalidTransition x (status k) target), t)
          else case bfs succ target [status k] [(status k, [])] of
            None \<Rightarrow> (Inl (TaskInvalidTransition x (status k) target), t)
          | Some p \<Rightarrow> (case walk tick p k of Inl e \<Rightarrow> (Inl e, t) | Inr k' \<Rightarrow> (Inr k', put_task x k' t)))"

definition add_child :: "string \<Rightarrow> string \<Rightarrow> task_tree \<Rightarrow> (task_error + unit) \<times> task_tree" where
  "add_child p c t =
     (if dget (tasks t) p = None then (Inl (TaskNotFoundError p), t)
      else if dget (tasks t) c = None then (Inl (TaskNotFoundError c), t)
      else let kids = (case dget (children_map t) p of None \<Rightarrow> [] | Some xs \<Rightarrow> xs)
           in (Inr (), t\<lparr>children_map := dset p (if c \<in> set kids then kids else kids @ [c]) (children_map t),
                 parent_map := dset c (Some p) (parent_map t)\<rparr>))"

definition child_map_children :: "(string, string list) dict \<Rightarrow> string \<Rightarrow> string list" where
  "child_map_children ch x = (case dget ch x of None \<Rightarrow> [] | Some xs \<Rightarrow> xs)"

definition child_ids :: "task_tree \<Rightarrow> string \<Rightarrow> task_error + string list" where
  "child_ids t x = (if dget (tasks t) x = None then Inl (TaskNotFoundError x)
     else Inr (child_map_children (children_map t) x))"

definition children :: "task_tree \<Rightarrow> string \<Rightarrow> task_error + task list" where
  "children t x = (if dget (tasks t) x = None then Inl (TaskNotFoundError x)
     else Inr (List.map_filter (dget (tasks t)) (child_map_children (children_map t) x)))"

text \<open>\<^verbatim>\<open>parent_map.get(x)\<close>: a missing key and an explicit \<^verbatim>\<open>None\<close> look the same.\<close>

definition parent_id :: "task_tree \<Rightarrow> string \<Rightarrow> string option" where
  "parent_id t x = (case dget (parent_map t) x of Some p \<Rightarrow> p | None \<Rightarrow> None)"

definition parent :: "task_tree \<Rightarrow> string \<Rightarrow> task_error + task option" where
  "parent t x = (if dget (tasks t) x = None then Inl (TaskNotFoundError x)
     else Inr (case parent_id t x of None \<Rightarrow> None | Some p \<Rightarrow> dget (tasks t) p))"

definition get_assignee_tasks :: "task_tree \<Rightarrow> string \<Rightarrow> task list" where
  "get_assignee_tasks t a = List.map_filter (dget (tasks t)) (child_map_children (assignee_map t) a)"

definition get_active_tasks :: "task_tree \<Rightarrow> task list" where
  "get_active_tasks t = filter is_active (dvals (tasks t))"

definition get_expired_tasks :: "int \<Rightarrow> task_tree \<Rightarrow> task list" where
  "get_expired_tasks now t =
     filter (\<lambda>k. (case deadline k of None \<Rightarrow> False | Some d \<Rightarrow> d < now) \<and> \<not> is_terminal k) (dvals (tasks t))"

definition expire_task :: "string \<Rightarrow> int \<Rightarrow> task_tree \<Rightarrow> (task_error + task) \<times> task_tree" where
  "expire_task x tick t =
     (case get_task t x of
        Inl e \<Rightarrow> (Inl e, t)
      | Inr k \<Rightarrow> if is_terminal k then (Inr k, t)
          else case transition_to EXPIRED tick k of Inl e \<Rightarrow> (Inl e, t) | Inr k' \<Rightarrow> (Inr k', put_task x k' t))"

text \<open>The top of a stack is the head of the list: extending it pushes the children in order.\<close>

partial_function (option) cancel_loop ::
  "(string, string list) dict \<Rightarrow> int \<Rightarrow> string list \<Rightarrow> task list \<Rightarrow> (string, task) dict
    \<Rightarrow> ((task_error + task list) \<times> (string, task) dict) option" where
  "cancel_loop ch tick stack acc ts =
     (case stack of
        [] \<Rightarrow> Some (Inr acc, ts)
      | x # rest \<Rightarrow>
          (case dget ts x of
             None \<Rightarrow> cancel_loop ch tick rest acc ts
           | Some k \<Rightarrow>
               if is_terminal k
               then cancel_loop ch tick (rev (child_map_children ch x) @ rest) acc ts
               else case transition_to CANCELLED tick k of
                   Inl e \<Rightarrow> Some (Inl e, ts)
                 | Inr k' \<Rightarrow> cancel_loop ch tick (rev (child_map_children ch x) @ rest) (acc @ [k']) (dset x k' ts)))"

definition cancel_task :: "string \<Rightarrow> int \<Rightarrow> task_tree \<Rightarrow> ((task_error + task list) \<times> task_tree) option" where
  "cancel_task x tick t =
     (case cancel_loop (children_map t) tick [x] [] (tasks t) of
        None \<Rightarrow> None
      | Some (r, ts) \<Rightarrow> Some (r, t\<lparr>tasks := ts\<rparr>))"

text \<open>A child that is not a task ends these walks with a \<^verbatim>\<open>KeyError\<close>.\<close>

partial_function (option) subtree_loop ::
  "(string, string list) dict \<Rightarrow> (string, task) dict \<Rightarrow> string list \<Rightarrow> task list \<Rightarrow> (task_error + task list) option" where
  "subtree_loop ch ts stack acc =
     (case stack of
        [] \<Rightarrow> Some (Inr acc)
      | x # rest \<Rightarrow>
          (case dget ts x of
             None \<Rightarrow> Some (Inl (TaskKeyError x))
           | Some k \<Rightarrow> subtree_loop ch ts (rev (child_map_children ch x) @ rest) (acc @ [k])))"

definition subtree :: "task_tree \<Rightarrow> string \<Rightarrow> (task_error + task list) option" where
  "subtree t x = (if dget (tasks t) x = None then Some (Inl (TaskNotFoundError x))
     else subtree_loop (children_map t) (tasks t) [x] [])"

partial_function (option) ancestors_loop :: "task_tree \<Rightarrow> string option \<Rightarrow> task list \<Rightarrow> (task_error + task list) option" where
  "ancestors_loop t current acc =
     (case current of
        None \<Rightarrow> Some (Inr acc)
      | Some x \<Rightarrow> (case dget (tasks t) x of
           None \<Rightarrow> Some (Inl (TaskKeyError x))
         | Some k \<Rightarrow> ancestors_loop t (parent_id t x) (acc @ [k])))"

definition ancestors :: "task_tree \<Rightarrow> string \<Rightarrow> (task_error + task list) option" where
  "ancestors t x = (if dget (tasks t) x = None then Some (Inl (TaskNotFoundError x))
     else ancestors_loop t (parent_id t x) [])"

partial_function (option) is_ancestor_loop :: "task_tree \<Rightarrow> string \<Rightarrow> string option \<Rightarrow> bool option" where
  "is_ancestor_loop t a current =
     (case current of
        None \<Rightarrow> Some False
      | Some x \<Rightarrow> if x = a then Some True else is_ancestor_loop t a (parent_id t x))"

definition is_ancestor :: "task_tree \<Rightarrow> string \<Rightarrow> string \<Rightarrow> bool option" where
  "is_ancestor t a d = (if dget (tasks t) a = None \<or> dget (tasks t) d = None then Some False
     else is_ancestor_loop t a (Some d))"


section \<open>Walking the table\<close>

lemma no_self_loop: "s \<notin> set (TASK_TRANSITIONS s)"
  by (cases s) simp_all

lemma walk_path:
  "path TASK_TRANSITIONS (status k) p \<Longrightarrow> p \<noteq> [] \<Longrightarrow>
     walk tick p k = Inr (k\<lparr>status := last p, updated_at_tick := tick,
       completed_at_tick := (if COMPLETED \<in> set p then Some tick else completed_at_tick k)\<rparr>)"
proof (induction p arbitrary: k)
  case (Cons s ss)
  let ?k = "k\<lparr>status := s, updated_at_tick := tick\<rparr>"
  let ?k' = "if s = COMPLETED then ?k\<lparr>completed_at_tick := Some tick\<rparr> else ?k"
  have 1: "transition_to s tick k = Inr ?k'"
    using Cons.prems by (simp add: transition_to_def task_can_transition_to_def Let_def)
  show ?case
  proof (cases ss)
    case Nil
    then show ?thesis using 1 by simp
  next
    case (Cons s' ss')
    have "status ?k' = s" by simp
    then have "walk tick ss ?k' = Inr (?k'\<lparr>status := last ss, updated_at_tick := tick,
        completed_at_tick := (if COMPLETED \<in> set ss then Some tick else completed_at_tick ?k')\<rparr>)"
      using Cons.IH [of ?k'] \<open>path TASK_TRANSITIONS (status k) (s # ss)\<close> Cons by simp
    then show ?thesis using 1 Cons by simp
  qed
qed simp

lemma completed_last:
  assumes "path TASK_TRANSITIONS s p" and "COMPLETED \<in> set p"
  shows "last p = COMPLETED"
proof -
  obtain xs ys where p: "p = xs @ COMPLETED # ys" using assms(2) by (meson split_list)
  then have "path TASK_TRANSITIONS COMPLETED ys" using assms(1) by (simp add: path_append)
  then show ?thesis using p by (cases ys) auto
qed

text \<open>
  C19. A walk through intermediate states reaches the requested status exactly when some sequence of
  allowed transitions does, in whatever order the table is iterated; the task then carries that
  status, the tick, and a completion tick exactly when it was completed.  When the status cannot be
  reached, or is the one the task already has, the call fails and nothing changes.
\<close>

theorem update_status_walk:
  assumes "\<And>s. set (succ s) = set (TASK_TRANSITIONS s)" and "dget (tasks t) x = Some k"
  shows "update_status succ x target tick True t =
    (if target \<noteq> status k \<and> (edge TASK_TRANSITIONS)\<^sup>*\<^sup>* (status k) target
     then let k' = k\<lparr>status := target, updated_at_tick := tick,
                completed_at_tick := (if target = COMPLETED then Some tick else completed_at_tick k)\<rparr>
          in (Inr k', put_task x k' t)
     else (Inl (TaskInvalidTransition x (status k) target), t))"
proof -
  have same: "(edge succ)\<^sup>*\<^sup>* = (edge TASK_TRANSITIONS)\<^sup>*\<^sup>*" using assms(1) by simp
  have walked: "walk tick p k = Inr (k\<lparr>status := target, updated_at_tick := tick,
        completed_at_tick := (if target = COMPLETED then Some tick else completed_at_tick k)\<rparr>)"
    if p: "path TASK_TRANSITIONS (status k) p" "p \<noteq> []" "last p = target" for p
    using walk_path [OF p(1,2), of tick] completed_last [OF p(1)] p(2,3) by (metis last_in_set)
  consider "task_can_transition_to k target" | "\<not> task_can_transition_to k target" "target = status k"
    | "\<not> task_can_transition_to k target" "target \<noteq> status k" by blast
  then show ?thesis
  proof cases
    case 1
    then have "path TASK_TRANSITIONS (status k) [target]" by (simp add: task_can_transition_to_def)
    then have "transition_to target tick k = Inr (k\<lparr>status := target, updated_at_tick := tick,
        completed_at_tick := (if target = COMPLETED then Some tick else completed_at_tick k)\<rparr>)"
      using walked [of "[target]"] by (auto split: sum.splits)
    moreover have "target \<noteq> status k" "(edge TASK_TRANSITIONS)\<^sup>*\<^sup>* (status k) target"
      using 1 no_self_loop [of "status k"] r_into_rtranclp [of "edge TASK_TRANSITIONS"]
      by (auto simp: task_can_transition_to_def)
    ultimately show ?thesis using 1 assms(2) by (simp add: update_status_def get_task_def Let_def)
  next
    case 2
    then show ?thesis using assms(2) bfs_start [of target "[status k]" succ]
      by (simp add: update_status_def get_task_def del: bfs.simps)
  next
    case 3
    show ?thesis
    proof (cases "bfs succ target [status k] [(status k, [])]")
      case None
      then have "\<not> (edge TASK_TRANSITIONS)\<^sup>*\<^sup>* (status k) target"
        using bfs_iff [of succ target "status k"] 3(2) same by metis
      then show ?thesis using None 3 assms(2) by (simp add: update_status_def get_task_def del: bfs.simps)
    next
      case (Some p)
      have p: "path succ (status k) p" "p \<noteq> []" "last p = target"
        using bfs_found [OF _ Some] 3(2) by auto
      then have "path TASK_TRANSITIONS (status k) p" using path_cong [of succ TASK_TRANSITIONS, OF assms(1)] by simp
      note w = walked [OF this p(2,3)]
      have "(edge TASK_TRANSITIONS)\<^sup>*\<^sup>* (status k) target"
        using bfs_iff [of succ target "status k"] Some same by (metis option.distinct(1))
      then show ?thesis using Some w 3 assms(2)
        by (simp add: update_status_def get_task_def Let_def del: bfs.simps)
    qed
  qed
qed


theorem update_status_walk_witness:
  "fst (update_status (\<lambda>s. rev (TASK_TRANSITIONS s)) ''t1'' COMPLETED 7 True
     (new_tree\<lparr>tasks := [(''t1'', \<lparr>task_id = ''t1'', title = ''x'', description = '''', assigner_agent_id = ''a'',
        assignee_agent_id = ''b'', derived_from = None, child_task_ids = [], status = ASSIGNED, priority = NORMAL,
        deadline = None, required_outputs = [], artifacts = [], created_at_tick = 0, updated_at_tick = 0,
        completed_at_tick = None, task_metadata = []\<rparr>)]\<rparr>))
   = Inr \<lparr>task_id = ''t1'', title = ''x'', description = '''', assigner_agent_id = ''a'',
        assignee_agent_id = ''b'', derived_from = None, child_task_ids = [], status = COMPLETED, priority = NORMAL,
        deadline = None, required_outputs = [], artifacts = [], created_at_tick = 0, updated_at_tick = 7,
        completed_at_tick = Some 7, task_metadata = []\<rparr>"
proof -
  let ?k = "\<lparr>task_id = ''t1'', title = ''x'', description = '''', assigner_agent_id = ''a'',
        assignee_agent_id = ''b'', derived_from = None, child_task_ids = [], status = ASSIGNED, priority = NORMAL,
        deadline = None, required_outputs = [], artifacts = [], created_at_tick = 0, updated_at_tick = 0,
        completed_at_tick = None, task_metadata = []\<rparr>"
  have "path TASK_TRANSITIONS ASSIGNED [ACCEPTED, IN_PROGRESS, SUBMITTED, COMPLETED]" by simp
  from path_reaches [OF this] have "(edge TASK_TRANSITIONS)\<^sup>*\<^sup>* ASSIGNED COMPLETED" by simp
  then show ?thesis
    using update_status_walk [of "\<lambda>s. rev (TASK_TRANSITIONS s)" "new_tree\<lparr>tasks := [(''t1'', ?k)]\<rparr>" "''t1''" ?k COMPLETED 7]
    by (simp add: Let_def)
qed

section \<open>The tree stays a forest\<close>

text \<open>
  What the operations of the tree keep, when parents are given at creation: both maps describe the
  same relation between tasks, and a task's parent was there before it.
\<close>

abbreviation kids :: "task_tree \<Rightarrow> string \<Rightarrow> string list" where
  "kids t \<equiv> child_map_children (children_map t)"

definition forest :: "task_tree \<Rightarrow> bool" where
  "forest t \<longleftrightarrow> dwf (tasks t)
     \<and> (\<forall>x p. parent_id t x = Some p \<longleftrightarrow> x \<in> set (kids t p))
     \<and> (\<forall>x p. parent_id t x = Some p \<longrightarrow> dget (tasks t) x \<noteq> None \<and> dget (tasks t) p \<noteq> None)
     \<and> (\<exists>rank :: string \<Rightarrow> nat. \<forall>x p. parent_id t x = Some p \<longrightarrow> rank p < rank x)"

inductive tstep :: "task_tree \<Rightarrow> task_tree \<Rightarrow> bool" where
  Create: "create args tick t = (r, t') \<Longrightarrow> tstep t t'"
| Update: "(\<And>s. set (succ s) = set (TASK_TRANSITIONS s)) \<Longrightarrow> update_status succ x target tick w t = (r', t') \<Longrightarrow> tstep t t'"
| Expire: "expire_task x tick t = (r', t') \<Longrightarrow> tstep t t'"
| Cancel: "cancel_task x tick t = Some (r'', t') \<Longrightarrow> tstep t t'"

interpretation task_trees: trans_sys "\<lambda>t. t = new_tree" tstep .

text \<open>Most operations only replace tasks that are there.\<close>

definition same_shape :: "task_tree \<Rightarrow> task_tree \<Rightarrow> bool" where
  "same_shape t t' \<longleftrightarrow> (\<exists>ts. t' = t\<lparr>tasks := ts\<rparr> \<and> dkeys ts = dkeys (tasks t))"

lemma same_shape_put: "dget (tasks t) x \<noteq> None \<Longrightarrow> same_shape t (put_task x k t)"
  by (auto simp: same_shape_def put_task_def dkeys_dset)

lemma same_shape_refl: "same_shape t t"
  by (auto simp: same_shape_def intro: exI [of _ "tasks t"])

lemma forest_same_shape: "same_shape t t' \<Longrightarrow> forest t \<Longrightarrow> forest t'"
proof -
  assume "same_shape t t'" and f: "forest t"
  then obtain ts where t': "t' = t\<lparr>tasks := ts\<rparr>" and k: "dkeys ts = dkeys (tasks t)" by (auto simp: same_shape_def)
  have "dget ts x = None \<longleftrightarrow> dget (tasks t) x = None" for x using k by (metis dkeys_iff)
  moreover have "dwf ts" using f k by (simp add: forest_def dwf_def dkeys_def)
  moreover have "parent_id t' x = parent_id t x" for x by (simp add: t' parent_id_def)
  moreover have "kids t' = kids t" "tasks t' = ts" by (simp_all add: t')
  ultimately show "forest t'" using f unfolding forest_def by metis
qed

lemma cancel_keys:
  assumes "cancel_loop ch tick stack acc ts = Some y"
  shows "dkeys (snd y) = dkeys ts"
proof (rule cancel_loop.raw_induct [where P = "\<lambda>ch tick stack acc ts y. dkeys (snd y) = dkeys ts", OF _ assms])
  fix rec ch tick stack acc ts and y :: "(task_error + task list) \<times> (string, task) dict"
  assume IH: "\<And>ch tick stack acc ts y. rec ch tick stack acc ts = Some y \<Longrightarrow> dkeys (snd y) = dkeys ts"
    and "(case stack of [] \<Rightarrow> Some (Inr acc, ts)
      | x # rest \<Rightarrow> (case dget ts x of None \<Rightarrow> rec ch tick rest acc ts
           | Some k \<Rightarrow> if is_terminal k then rec ch tick (rev (child_map_children ch x) @ rest) acc ts
               else case transition_to CANCELLED tick k of Inl e \<Rightarrow> Some (Inl e, ts)
                 | Inr k' \<Rightarrow> rec ch tick (rev (child_map_children ch x) @ rest) (acc @ [k']) (dset x k' ts))) = Some y"
  then show "dkeys (snd y) = dkeys ts"
    by (auto simp: dkeys_dset split: list.splits option.splits if_splits sum.splits dest!: IH)
qed

lemma cancel_shape: "cancel_task x tick t = Some (r, t') \<Longrightarrow> same_shape t t'"
  by (auto simp: cancel_task_def same_shape_def dest!: cancel_keys split: option.splits)

lemma forest_create:
  assumes "create args tick t = (r, t')" and f: "forest t"
  shows "forest t'"
proof (cases "t' = t")
  case False
  let ?x = "task_id args"
  have new: "dget (tasks t) ?x = None" using assms(1) False by (auto simp: create_def split: if_splits)
  obtain rank where rank: "\<And>x p. parent_id t x = Some p \<Longrightarrow> rank p < (rank x :: nat)"
    using f unfolding forest_def by blast
  let ?k = "args\<lparr>created_at_tick := tick, updated_at_tick := tick\<rparr>"
  have k: "tasks t' = dset ?x ?k (tasks t)" "parent_map t' = dset ?x (derived_from args) (parent_map t)"
    "\<And>p. kids t' p = kids t p @ (if derived_from args = Some p then [?x] else [])"
    "\<And>p. derived_from args = Some p \<Longrightarrow> dget (tasks t) p \<noteq> None"
    using assms(1) False
    by (auto simp: create_def Let_def append_to_def child_map_children_def split: if_splits option.splits)
  have pid: "parent_id t' y = (if y = ?x then derived_from args else parent_id t y)" for y
    by (simp add: parent_id_def k(2))
  have old: "parent_id t ?x = None" "parent_id t y \<noteq> Some ?x" for y
    using f new unfolding forest_def by (metis not_None_eq)+
  have "\<exists>rank :: string \<Rightarrow> nat. \<forall>y p. parent_id t' y = Some p \<longrightarrow> rank p < rank y"
  proof (intro exI allI impI)
    fix y p assume "parent_id t' y = Some p"
    then show "(rank(?x := (case derived_from args of None \<Rightarrow> 0 | Some p \<Rightarrow> Suc (rank p)))) p
        < (rank(?x := (case derived_from args of None \<Rightarrow> 0 | Some p \<Rightarrow> Suc (rank p)))) y"
      using pid [of y] old(2) [of y] rank [of y p] k(4) [of p] new by (auto split: if_splits)
  qed
  moreover have "dwf (tasks t')" using f k(1) by (simp add: forest_def dwf_dset)
  moreover have "parent_id t' y = Some p \<longleftrightarrow> y \<in> set (kids t' p)" for y p
  proof -
    have iff: "parent_id t y = Some p \<longleftrightarrow> y \<in> set (kids t p)" using f unfolding forest_def by blast
    show ?thesis using iff pid [of y] k(3) [of p] old(1) by (cases "y = ?x") auto
  qed
  moreover have "parent_id t' y = Some p \<Longrightarrow> dget (tasks t') y \<noteq> None \<and> dget (tasks t') p \<noteq> None" for y p
    using f pid [of y] k(1) k(4) [of p] by (fastforce simp: forest_def split: if_splits)
  ultimately show ?thesis unfolding forest_def by blast
qed (use f in simp)

lemma update_shape: "update_status succ x target tick w t = (r, t') \<Longrightarrow> same_shape t t'"
  by (auto simp: update_status_def get_task_def same_shape_put same_shape_refl
      split: option.splits sum.splits if_splits simp del: bfs.simps)

lemma expire_shape: "expire_task x tick t = (r, t') \<Longrightarrow> same_shape t t'"
  by (auto simp: expire_task_def get_task_def same_shape_put same_shape_refl
      split: option.splits sum.splits if_splits)

lemma forest_step: "tstep t t' \<Longrightarrow> forest t \<Longrightarrow> forest t'"
  by (induction rule: tstep.induct)
    (blast intro: forest_create forest_same_shape update_shape expire_shape cancel_shape)+

lemma reach_forest: "task_trees.reach t \<Longrightarrow> forest t"
proof (erule task_trees.reach_invariant)
  fix t assume "t = new_tree"
  then show "forest t" by (simp add: forest_def new_tree_def dwf_def parent_id_def child_map_children_def)
qed (rule forest_step)


lemma reach_maps_agree:
  assumes "task_trees.reach t"
  shows "(parent_id t x = Some p \<longleftrightarrow> x \<in> set (kids t p))
    \<and> (parent_id t x = Some p \<longrightarrow> dget (tasks t) x \<noteq> None \<and> dget (tasks t) p \<noteq> None)
    \<and> \<not> (\<lambda>c p. parent_id t c = Some p)\<^sup>+\<^sup>+ x x"
proof -
  have f: "forest t" by (rule reach_forest [OF assms])
  then obtain rank where rank: "\<And>x p. parent_id t x = Some p \<Longrightarrow> rank p < (rank x :: nat)"
    unfolding forest_def by blast
  have "rank y < rank x" if "(\<lambda>c p. parent_id t c = Some p)\<^sup>+\<^sup>+ x y" for x y
    using that by (induction rule: tranclp_induct) (auto dest: rank intro: less_trans)
  then show ?thesis using f unfolding forest_def by blast
qed

section \<open>Following the tree downwards and upwards\<close>

lemma forest_wf:
  assumes "forest t"
  shows "wf (child_rel (kids t))"
proof -
  obtain rank where rank: "\<And>x p. parent_id t x = Some p \<Longrightarrow> rank p < (rank x :: nat)"
    using assms unfolding forest_def by blast
  have k: "c \<in> set (kids t p) \<longleftrightarrow> parent_id t c = Some p" for c p using assms unfolding forest_def by blast
  have "child_rel (kids t) \<subseteq> set (dkeys (tasks t)) \<times> set (dkeys (tasks t))"
    using assms unfolding forest_def by fastforce
  then have "finite (child_rel (kids t))" by (rule finite_subset) simp
  moreover have "acyclic (child_rel (kids t))"
  proof (rule acyclicI, intro allI notI)
    fix x assume "(x, x) \<in> (child_rel (kids t))\<^sup>+"
    moreover have "rank b < rank a" if "(a, b) \<in> (child_rel (kids t))\<^sup>+" for a b
      using that by (induction rule: trancl_induct) (auto simp: k dest: rank intro: less_trans)
    ultimately show False by blast
  qed
  ultimately show ?thesis by (rule finite_acyclic_wf)
qed

lemma subtree_loop_spec:
  assumes "wf (child_rel (child_map_children ch))"
    and "\<And>p c. c \<in> set (child_map_children ch p) \<Longrightarrow> dget ts c \<noteq> None"
  shows "(\<forall>x \<in> set stack. dget ts x \<noteq> None) \<longrightarrow> (\<exists>ks. \<forall>acc. subtree_loop ch ts stack acc = Some (Inr (acc @ ks))
    \<and> Some ` set ks = dget ts ` below (child_map_children ch) stack)"
proof (induction stack rule: stack_induct [OF assms(1)])
  case 1
  show ?case by (intro impI exI [of _ "[]"]) (simp add: subtree_loop.simps)
next
  case (2 x rest)
  show ?case
  proof
    assume here: "\<forall>y \<in> set (x # rest). dget ts y \<noteq> None"
    then obtain k where k: "dget ts x = Some k" by auto
    have "\<forall>y \<in> set (rev (child_map_children ch x) @ rest). dget ts y \<noteq> None"
      using here assms(2) [of _ x] by auto
    from mp [OF 2(2) this] obtain ks where
      ks: "\<forall>acc. subtree_loop ch ts (rev (child_map_children ch x) @ rest) acc = Some (Inr (acc @ ks))
        \<and> Some ` set ks = dget ts ` below (child_map_children ch) (rev (child_map_children ch x) @ rest)" by (rule exE)
    then have l: "subtree_loop ch ts (rev (child_map_children ch x) @ rest) acc = Some (Inr (acc @ ks))" for acc
      by simp
    have b: "Some ` set ks = dget ts ` below (child_map_children ch) (rev (child_map_children ch x) @ rest)"
      using ks by simp
    have "subtree_loop ch ts (x # rest) acc = Some (Inr (acc @ k # ks))" for acc
      unfolding subtree_loop.simps [of ch ts "x # rest"] by (simp add: k l)
    moreover have "Some ` set (k # ks) = dget ts ` below (child_map_children ch) (x # rest)"
      unfolding below_Cons using b k by simp
    ultimately show "\<exists>ks. \<forall>acc. subtree_loop ch ts (x # rest) acc = Some (Inr (acc @ ks))
        \<and> Some ` set ks = dget ts ` below (child_map_children ch) (x # rest)"
      by (intro exI [of _ "k # ks"]) simp
  qed
qed


lemma ancestor_loop_spec:
  assumes "forest t"
  shows "is_ancestor_loop t a (Some d) = Some ((d, a) \<in> (child_rel (kids t))\<^sup>*)"
proof -
  obtain rank where rank: "\<And>x p. parent_id t x = Some p \<Longrightarrow> rank p < (rank x :: nat)"
    using assms unfolding forest_def by blast
  have k: "c \<in> set (kids t p) \<longleftrightarrow> parent_id t c = Some p" for c p using assms unfolding forest_def by blast
  show ?thesis
  proof (induction "rank d" arbitrary: d rule: less_induct)
    case less
    show ?case
    proof (cases "d = a")
      case False
      have step: "is_ancestor_loop t a (Some d) = is_ancestor_loop t a (parent_id t d)"
        using False by (simp add: is_ancestor_loop.simps [of t a "Some d"])
      show ?thesis
      proof (cases "parent_id t d")
        case None
        then have "(d, a) \<notin> (child_rel (kids t))\<^sup>*" using False k by (auto elim: converse_rtranclE)
        then show ?thesis using step None by (simp add: is_ancestor_loop.simps [of t a None])
      next
        case (Some p)
        have "(d, a) \<in> (child_rel (kids t))\<^sup>* \<longleftrightarrow> (p, a) \<in> (child_rel (kids t))\<^sup>*"
          using Some False k by (auto elim: converse_rtranclE intro: converse_rtrancl_into_rtrancl)
        then show ?thesis using step Some less rank by simp
      qed
    qed (simp add: is_ancestor_loop.simps)
  qed
qed

lemma ancestors_loop_total:
  assumes "forest t"
  shows "(\<forall>x. c = Some x \<longrightarrow> dget (tasks t) x \<noteq> None) \<Longrightarrow> \<exists>ks. ancestors_loop t c acc = Some (Inr ks)"
proof -
  obtain rank where rank: "\<And>x p. parent_id t x = Some p \<Longrightarrow> rank p < (rank x :: nat)"
    using assms unfolding forest_def by blast
  have here: "parent_id t x = Some p \<Longrightarrow> dget (tasks t) p \<noteq> None" for x p using assms unfolding forest_def by blast
  have some: "dget (tasks t) x \<noteq> None \<Longrightarrow> \<exists>ks. ancestors_loop t (Some x) acc = Some (Inr ks)" for x
  proof (induction "rank x" arbitrary: x acc rule: less_induct)
    case less
    then obtain k where "dget (tasks t) x = Some k" by blast
    then have step: "ancestors_loop t (Some x) acc = ancestors_loop t (parent_id t x) (acc @ [k])"
      by (simp add: ancestors_loop.simps [of t "Some x"])
    show ?case
    proof (cases "parent_id t x")
      case None
      then show ?thesis using step by (simp add: ancestors_loop.simps [of t None])
    next
      case (Some p)
      then show ?thesis using step less(1) [OF rank [OF Some] here [OF Some]] by simp
    qed
  qed
  assume "\<forall>x. c = Some x \<longrightarrow> dget (tasks t) x \<noteq> None"
  then show ?thesis using some by (cases c) (auto simp: ancestors_loop.simps [of t None])
qed

text \<open>Every task is filed under its own id.\<close>

definition keyed :: "(string, task) dict \<Rightarrow> bool" where
  "keyed ts \<longleftrightarrow> (\<forall>x k. dget ts x = Some k \<longrightarrow> task_id k = x)"

lemma transition_id: "transition_to s tick k = Inr k' \<Longrightarrow> task_id k' = task_id k"
  by (auto simp: transition_to_def Let_def split: if_splits)

lemma walk_id: "walk tick ss k = Inr k' \<Longrightarrow> task_id k' = task_id k"
  by (induction ss arbitrary: k) (auto split: sum.splits dest: transition_id)

lemma keyed_put: "keyed (tasks t) \<Longrightarrow> dget (tasks t) x = Some k \<Longrightarrow> task_id k' = task_id k \<Longrightarrow> keyed (tasks (put_task x k' t))"
  by (auto simp: keyed_def put_task_def)

lemma keyed_put_step:
  "keyed (tasks t) \<Longrightarrow> dget (tasks t) x = Some k \<Longrightarrow> Inr k' = transition_to s tick k \<Longrightarrow> keyed (tasks (put_task x k' t))"
  "keyed (tasks t) \<Longrightarrow> dget (tasks t) x = Some k \<Longrightarrow> Inr k' = walk tick ss k \<Longrightarrow> keyed (tasks (put_task x k' t))"
  using keyed_put transition_id walk_id by metis+

lemma cancel_keyed:
  assumes "cancel_loop ch tick stack acc ts = Some y"
  shows "keyed ts \<longrightarrow> keyed (snd y)"
proof (rule cancel_loop.raw_induct [where P = "\<lambda>ch tick stack acc ts y. keyed ts \<longrightarrow> keyed (snd y)", OF _ assms])
  fix rec ch tick stack acc ts and y :: "(task_error + task list) \<times> (string, task) dict"
  assume IH: "\<And>ch tick stack acc ts y. rec ch tick stack acc ts = Some y \<Longrightarrow> keyed ts \<longrightarrow> keyed (snd y)"
    and run: "(case stack of [] \<Rightarrow> Some (Inr acc, ts)
      | x # rest \<Rightarrow> (case dget ts x of None \<Rightarrow> rec ch tick rest acc ts
           | Some k \<Rightarrow> if is_terminal k then rec ch tick (rev (child_map_children ch x) @ rest) acc ts
               else case transition_to CANCELLED tick k of Inl e \<Rightarrow> Some (Inl e, ts)
                 | Inr k' \<Rightarrow> rec ch tick (rev (child_map_children ch x) @ rest) (acc @ [k']) (dset x k' ts))) = Some y"
  show "keyed ts \<longrightarrow> keyed (snd y)"
  proof
    assume ts: "keyed ts"
    have new: "keyed (dset x k' ts)" if "dget ts x = Some k" "transition_to CANCELLED tick k = Inr k'" for x k k'
      using ts that by (auto simp: keyed_def dest: transition_id)
    have "rec ch tick stack acc ts' = Some y \<Longrightarrow> keyed ts' \<Longrightarrow> keyed (snd y)" for ch tick stack acc ts'
      using IH by blast
    then show "keyed (snd y)" using run ts
      by (auto split: list.splits option.splits if_splits sum.splits dest: new)
  qed
qed

lemma keyed_step: "tstep t t' \<Longrightarrow> keyed (tasks t) \<Longrightarrow> keyed (tasks t')"
proof (induction rule: tstep.induct)
  case (Create args tick t r t')
  then show ?case by (auto simp: create_def Let_def keyed_def split: if_splits option.splits)
next
  case (Update succ x target tick w t r' t')
  then show ?case
    by (auto simp: update_status_def get_task_def split: option.splits sum.splits if_splits simp del: bfs.simps
        intro: keyed_put_step)
next
  case (Expire x tick t r' t')
  then show ?case
    by (auto simp: expire_task_def get_task_def split: option.splits sum.splits if_splits intro: keyed_put_step)
next
  case (Cancel x tick t r'' t')
  then show ?case by (auto simp: cancel_task_def split: option.splits dest!: cancel_keyed)
qed

lemma reach_keyed: "task_trees.reach t \<Longrightarrow> keyed (tasks t)"
proof (erule task_trees.reach_invariant)
  fix t assume "t = new_tree"
  then show "keyed (tasks t)" by (simp add: keyed_def new_tree_def)
qed (rule keyed_step)

lemma below_here:
  assumes "forest t" and "dget (tasks t) x \<noteq> None" and "y \<in> below (kids t) [x]"
  shows "dget (tasks t) y \<noteq> None"
proof -
  have "(y, x) \<in> (child_rel (kids t))\<^sup>*" using assms(3) by (simp add: below_def)
  then show ?thesis
  proof (cases rule: converse_rtranclE)
    case (step z)
    then have "parent_id t y = Some z" using assms(1) unfolding forest_def by auto
    then show ?thesis using assms(1) unfolding forest_def by blast
  qed (use assms(2) in simp)
qed

lemma reach_subtree:
  assumes "task_trees.reach t" and "dget (tasks t) a \<noteq> None"
  shows "\<exists>ks. subtree t a = Some (Inr ks) \<and>
    (\<forall>d. dget (tasks t) d \<noteq> None \<longrightarrow> is_ancestor t a d = Some (d \<in> task_id ` set ks)
       \<and> (\<exists>as. ancestors t d = Some (Inr as)))"
proof -
  have f: "forest t" by (rule reach_forest [OF assms(1)])
  have id: "task_id k = x" if "dget (tasks t) x = Some k" for x k
    using reach_keyed [OF assms(1)] that by (simp add: keyed_def)
  have here: "c \<in> set (kids t p) \<Longrightarrow> dget (tasks t) c \<noteq> None" for p c using f unfolding forest_def by blast
  have "\<exists>ks. \<forall>acc. subtree_loop (children_map t) (tasks t) [a] acc = Some (Inr (acc @ ks))
      \<and> Some ` set ks = dget (tasks t) ` below (kids t) [a]"
    by (rule subtree_loop_spec [OF forest_wf [OF f], THEN mp]) (use assms(2) here in auto)
  then obtain ks where ks: "subtree_loop (children_map t) (tasks t) [a] [] = Some (Inr ks)"
    and img: "Some ` set ks = dget (tasks t) ` below (kids t) [a]" by (metis append_Nil)
  have "d \<in> task_id ` set ks \<longleftrightarrow> d \<in> below (kids t) [a]" if d: "dget (tasks t) d \<noteq> None" for d
  proof
    assume "d \<in> task_id ` set ks"
    then obtain k where k: "k \<in> set ks" "task_id k = d" by blast
    then have "Some k \<in> dget (tasks t) ` below (kids t) [a]" using img by blast
    then obtain y where "y \<in> below (kids t) [a]" "dget (tasks t) y = Some k" by force
    then show "d \<in> below (kids t) [a]" using id [of y k] k(2) by simp
  next
    assume "d \<in> below (kids t) [a]"
    moreover obtain k where "dget (tasks t) d = Some k" using d by blast
    ultimately have "k \<in> set ks" using img by (metis image_iff option.inject)
    then show "d \<in> task_id ` set ks" using id [OF \<open>dget (tasks t) d = Some k\<close>] by force
  qed
  moreover have "is_ancestor t a d = Some (d \<in> below (kids t) [a])" if "dget (tasks t) d \<noteq> None" for d
    using ancestor_loop_spec [OF f, of a d] that assms(2) by (auto simp: is_ancestor_def below_def)
  moreover have "\<exists>as. ancestors t d = Some (Inr as)" if "dget (tasks t) d \<noteq> None" for d
  proof -
    have "\<forall>x. parent_id t d = Some x \<longrightarrow> dget (tasks t) x \<noteq> None" using f unfolding forest_def by blast
    then show ?thesis using ancestors_loop_total [OF f, of "parent_id t d" "[]"] that by (simp add: ancestors_def)
  qed
  ultimately show ?thesis using ks assms(2) by (intro exI [of _ ks]) (simp add: subtree_def)
qed

text \<open>
  C20. In every tree built by creating, updating, expiring and cancelling tasks, the two maps agree
  and lead only to tasks of the tree, and no task is its own ancestor: the tasks form a forest.  Looking
  down and looking up agree, and both return: the subtree of a task is computed, it lists exactly the tasks
  that have it as an ancestor by the upward walk (itself included), and the ancestors of any task are
  computed too.
\<close>

theorem task_tree_forest:
  assumes "task_trees.reach t"
  shows "(parent_id t x = Some p \<longleftrightarrow> x \<in> set (kids t p))
    \<and> (parent_id t x = Some p \<longrightarrow> dget (tasks t) x \<noteq> None \<and> dget (tasks t) p \<noteq> None)
    \<and> \<not> (\<lambda>c p. parent_id t c = Some p)\<^sup>+\<^sup>+ x x
    \<and> (dget (tasks t) a \<noteq> None \<longrightarrow> (\<exists>ks. subtree t a = Some (Inr ks) \<and>
         (\<forall>d. dget (tasks t) d \<noteq> None \<longrightarrow> is_ancestor t a d = Some (d \<in> task_id ` set ks)
            \<and> (\<exists>as. ancestors t d = Some (Inr as)))))"
  using reach_maps_agree [OF assms] reach_subtree [OF assms] by blast

section \<open>Cancelling\<close>

definition cancelled :: "int \<Rightarrow> task \<Rightarrow> task" where
  "cancelled tick k = (if is_terminal k then k else k\<lparr>status := CANCELLED, updated_at_tick := tick\<rparr>)"

definition under_review :: "task \<Rightarrow> bool" where
  "under_review k \<longleftrightarrow> status k \<in> {SUBMITTED, REVIEWING}"

lemma cancel_transition:
  "\<not> is_terminal k \<Longrightarrow> transition_to CANCELLED tick k
     = (if under_review k then Inl (TaskValueError (status k) CANCELLED) else Inr (cancelled tick k))"
  by (cases "status k") (simp_all add: transition_to_def task_can_transition_to_def under_review_def
      is_terminal_def cancelled_def Let_def)

lemma cancelled_simps [simp]: "is_terminal (cancelled tick k)" "cancelled tick' (cancelled tick k) = cancelled tick k"
  by (simp_all add: cancelled_def is_terminal_def)

lemma under_review_not_terminal: "under_review k \<Longrightarrow> \<not> is_terminal k"
  by (auto simp: under_review_def is_terminal_def)

lemma under_review_cancelled: "under_review (cancelled tick k) \<longleftrightarrow> under_review k \<and> is_terminal k"
  by (auto simp: cancelled_def under_review_def is_terminal_def)

text \<open>What the loop leaves in the tasks when it runs to its end.\<close>

definition cancel_below :: "int \<Rightarrow> string set \<Rightarrow> (string, task) dict \<Rightarrow> string \<Rightarrow> task option" where
  "cancel_below tick D ts y = (if y \<in> D then map_option (cancelled tick) (dget ts y) else dget ts y)"

definition cancel_post :: "int \<Rightarrow> string set \<Rightarrow> task list \<Rightarrow> (string, task) dict \<Rightarrow> task_error + task list
    \<Rightarrow> (string, task) dict \<Rightarrow> bool" where
  "cancel_post tick D acc ts r ts' \<longleftrightarrow>
     (if \<exists>y \<in> D. \<exists>k. dget ts y = Some k \<and> under_review k then \<exists>s. r = Inl (TaskValueError s CANCELLED)
      else (\<exists>cs. r = Inr (acc @ cs) \<and> set cs = cancelled tick ` {k. \<exists>y \<in> D. dget ts y = Some k \<and> \<not> is_terminal k})
        \<and> dget ts' = cancel_below tick D ts)"

lemma cancel_post_skip:
  assumes "cancel_post tick D acc ts r ts'" and "\<And>k. dget ts x = Some k \<Longrightarrow> is_terminal k"
  shows "cancel_post tick (insert x D) acc ts r ts'"
proof -
  have rev: "(\<exists>y \<in> insert x D. \<exists>k. dget ts y = Some k \<and> under_review k) = (\<exists>y \<in> D. \<exists>k. dget ts y = Some k \<and> under_review k)"
    using assms(2) under_review_not_terminal by blast
  have set: "{k. \<exists>y \<in> insert x D. dget ts y = Some k \<and> \<not> is_terminal k} = {k. \<exists>y \<in> D. dget ts y = Some k \<and> \<not> is_terminal k}"
    using assms(2) by blast
  have "map_option (cancelled tick) (dget ts x) = dget ts x"
    using assms(2) by (cases "dget ts x") (simp_all add: cancelled_def)
  then have eq: "cancel_below tick (insert x D) ts = cancel_below tick D ts"
    by (auto simp: cancel_below_def fun_eq_iff)
  show ?thesis using assms(1) unfolding cancel_post_def rev set eq .
qed

lemma cancel_post_step:
  assumes "cancel_post tick D (acc @ [cancelled tick k]) (dset x (cancelled tick k) ts) r ts'"
    and k: "dget ts x = Some k" "\<not> is_terminal k" "\<not> under_review k"
  shows "cancel_post tick (insert x D) acc ts r ts'"
proof -
  let ?ts = "dset x (cancelled tick k) ts"
  have rev: "(\<exists>y \<in> D. \<exists>j. dget ?ts y = Some j \<and> under_review j) = (\<exists>y \<in> insert x D. \<exists>j. dget ts y = Some j \<and> under_review j)"
    using k by (auto simp: under_review_cancelled) (metis option.inject)
  have set: "{j. \<exists>y \<in> insert x D. dget ts y = Some j \<and> \<not> is_terminal j}
      = insert k {j. \<exists>y \<in> D - {x}. dget ts y = Some j \<and> \<not> is_terminal j}"
    using k by auto
  have set': "{j. \<exists>y \<in> D. dget ?ts y = Some j \<and> \<not> is_terminal j} = {j. \<exists>y \<in> D - {x}. dget ts y = Some j \<and> \<not> is_terminal j}"
    by auto
  have eq: "cancel_below tick D ?ts = cancel_below tick (insert x D) ts"
    using k(1) by (auto simp: cancel_below_def fun_eq_iff)
  have "\<exists>cs'. r = Inr (acc @ cs') \<and> set cs' = cancelled tick ` {j. \<exists>y \<in> insert x D. dget ts y = Some j \<and> \<not> is_terminal j}"
    if "\<exists>cs. r = Inr ((acc @ [cancelled tick k]) @ cs)
      \<and> set cs = cancelled tick ` {j. \<exists>y \<in> D. dget ?ts y = Some j \<and> \<not> is_terminal j}"
  proof -
    from that obtain cs where "r = Inr (acc @ cancelled tick k # cs)"
      "set cs = cancelled tick ` {j. \<exists>y \<in> D. dget ?ts y = Some j \<and> \<not> is_terminal j}" by auto
    then show ?thesis unfolding set set' by (intro exI [of _ "cancelled tick k # cs"]) simp
  qed
  then show ?thesis using assms(1) unfolding cancel_post_def rev eq by presburger
qed

lemma cancel_loop_spec:
  assumes "wf (child_rel (child_map_children ch))"
  shows "\<forall>acc ts. (\<forall>p c. c \<in> set (child_map_children ch p) \<longrightarrow> dget ts p \<noteq> None) \<longrightarrow>
    (\<exists>r ts'. cancel_loop ch tick stack acc ts = Some (r, ts')
       \<and> cancel_post tick (below (child_map_children ch) stack) acc ts r ts')"
proof (induction stack rule: stack_induct [OF assms])
  case 1
  show ?case by (simp add: cancel_loop.simps [of ch tick "[]"] cancel_below_def cancel_post_def fun_eq_iff)
next
  case (2 x rest)
  let ?ch = "child_map_children ch"
  note step = cancel_loop.simps [of ch tick "x # rest"]
  show ?case
  proof (intro allI impI)
    fix acc and ts :: "(string, task) dict"
    assume kids: "\<forall>p c. c \<in> set (?ch p) \<longrightarrow> dget ts p \<noteq> None"
    have go: "\<exists>r ts'. cancel_loop ch tick (rev (?ch x) @ rest) acc' u = Some (r, ts')
        \<and> cancel_post tick (below ?ch (rev (?ch x) @ rest)) acc' u r ts'"
      if "\<And>y. dget u y = None \<longleftrightarrow> dget ts y = None" for acc' u
      using 2(2) kids that by metis
    show "\<exists>r ts'. cancel_loop ch tick (x # rest) acc ts = Some (r, ts')
        \<and> cancel_post tick (below ?ch (x # rest)) acc ts r ts'"
    proof (cases "dget ts x")
      case None
      then have "?ch x = []" using kids by (metis list.set_intros(1) neq_Nil_conv)
      moreover have "cancel_loop ch tick (x # rest) acc ts = cancel_loop ch tick rest acc ts"
        unfolding step using None by simp
      ultimately show ?thesis unfolding below_Cons using go [of ts acc] cancel_post_skip [of tick _ acc ts _ _ x] None
        by auto
    next
      case (Some k)
      consider "is_terminal k" | "under_review k" "\<not> is_terminal k" | "\<not> is_terminal k" "\<not> under_review k" by blast
      then show ?thesis
      proof cases
        case 1
        then have "cancel_loop ch tick (x # rest) acc ts = cancel_loop ch tick (rev (?ch x) @ rest) acc ts"
          unfolding step using Some by simp
        then show ?thesis unfolding below_Cons using go [of ts acc] cancel_post_skip [of tick _ acc ts _ _ x] Some 1
          by auto
      next
        case 2
        then have "cancel_loop ch tick (x # rest) acc ts = Some (Inl (TaskValueError (status k) CANCELLED), ts)"
          unfolding step using Some by (simp add: cancel_transition)
        then show ?thesis unfolding below_Cons using 2 Some by (auto simp: cancel_post_def)
      next
        case 3
        then have "cancel_loop ch tick (x # rest) acc ts
            = cancel_loop ch tick (rev (?ch x) @ rest) (acc @ [cancelled tick k]) (dset x (cancelled tick k) ts)"
          unfolding step using Some by (simp add: cancel_transition)
        moreover have "dget (dset x (cancelled tick k) ts) y = None \<longleftrightarrow> dget ts y = None" for y
          using Some by simp
        ultimately show ?thesis unfolding below_Cons
          using go [of "dset x (cancelled tick k) ts" "acc @ [cancelled tick k]"] cancel_post_step [OF _ Some 3]
          by metis
      qed
    qed
  qed
qed

text \<open>
  C21. Cancelling a task returns, and cascades: in a tree built by the operations, if nothing at or
  below the task is under review, every task at or below it that is not over becomes cancelled at
  this tick and is returned, and no other task changes.  If something is under review the call fails
  with a refused transition.
\<close>

theorem cancel_cascades:
  assumes "task_trees.reach t"
  shows "\<exists>r t'. cancel_task x tick t = Some (r, t') \<and>
    (if \<exists>y \<in> below (kids t) [x]. \<exists>k. dget (tasks t) y = Some k \<and> under_review k
     then \<exists>s. r = Inl (TaskValueError s CANCELLED)
     else (\<exists>cs. r = Inr cs \<and> set cs = cancelled tick ` {k. \<exists>y \<in> below (kids t) [x]. dget (tasks t) y = Some k \<and> \<not> is_terminal k})
       \<and> (\<forall>y. dget (tasks t') y
            = (if y \<in> below (kids t) [x] then map_option (cancelled tick) (dget (tasks t) y) else dget (tasks t) y)))"
proof -
  have f: "forest t" by (rule reach_forest [OF assms])
  then have "\<forall>p c. c \<in> set (kids t p) \<longrightarrow> dget (tasks t) p \<noteq> None" unfolding forest_def by blast
  then obtain r ts' where run: "cancel_loop (children_map t) tick [x] [] (tasks t) = Some (r, ts')"
    and post: "cancel_post tick (below (kids t) [x]) [] (tasks t) r ts'"
    using cancel_loop_spec [OF forest_wf [OF f], of tick "[x]"] by blast
  have sel: "tasks (t\<lparr>tasks := ts'\<rparr>) = ts'" by simp
  show ?thesis
    by (rule exI [of _ r], rule exI [of _ "t\<lparr>tasks := ts'\<rparr>"], rule conjI, simp add: cancel_task_def run, unfold sel)
      (rule post [unfolded cancel_post_def cancel_below_def append_Nil fun_eq_iff])
qed


section \<open>A small tree\<close>

definition ex_args :: "string \<Rightarrow> string option \<Rightarrow> task_status \<Rightarrow> task" where
  "ex_args x p s = \<lparr>task_id = x, title = ''work'', description = '''', assigner_agent_id = ''a'',
     assignee_agent_id = ''b'', derived_from = p, child_task_ids = [], status = s, priority = NORMAL, deadline = Some 9,
     required_outputs = [], artifacts = [], created_at_tick = 0, updated_at_tick = 0, completed_at_tick = None,
     task_metadata = []\<rparr>"

definition ex_tree :: "task_status \<Rightarrow> task_tree" where
  "ex_tree s = snd (create (ex_args ''t2'' (Some ''t1'') s) 0 (snd (create (ex_args ''t1'' None IN_PROGRESS) 0 new_tree)))"

lemma ex_tree_reach: "task_trees.reach (ex_tree s)"
proof -
  have "tstep t (snd (create args tick t))" for args tick t by (rule Create [of args tick t "fst (create args tick t)"]) simp
  then show ?thesis unfolding ex_tree_def
    by (blast intro: task_trees.reach_step task_trees.reach_start)
qed

lemma ex_tree_eval:
  "tasks (ex_tree s) = [(''t1'', ex_args ''t1'' None IN_PROGRESS), (''t2'', ex_args ''t2'' (Some ''t1'') s)]"
  "children_map (ex_tree s) = [(''t1'', [''t2''])]" "parent_map (ex_tree s) = [(''t1'', None), (''t2'', Some ''t1'')]"
  by (simp_all add: ex_tree_def create_def new_tree_def ex_args_def append_to_def Let_def)

lemma ex_tree_below: "below (kids (ex_tree s)) [''t1''] = {''t1'', ''t2''}"
proof -
  have k: "kids (ex_tree s) ''t1'' = [''t2'']" "kids (ex_tree s) ''t2'' = []"
    by (simp_all add: child_map_children_def ex_tree_eval)
  show ?thesis by (simp add: below_Cons k)
qed

theorem task_tree_forest_witness:
  "task_trees.reach (ex_tree DRAFT) \<and> ''t2'' \<in> set (kids (ex_tree DRAFT) ''t1'')
     \<and> is_ancestor (ex_tree DRAFT) ''t1'' ''t2'' = Some True
     \<and> (\<exists>ks. subtree (ex_tree DRAFT) ''t1'' = Some (Inr ks) \<and> ''t2'' \<in> task_id ` set ks)"
proof -
  have t: "dget (tasks (ex_tree DRAFT)) ''t1'' \<noteq> None" "dget (tasks (ex_tree DRAFT)) ''t2'' \<noteq> None"
    by (simp_all add: ex_tree_eval)
  have "parent_id (ex_tree DRAFT) ''t2'' = Some ''t1''" by (simp add: parent_id_def ex_tree_eval)
  moreover have "is_ancestor (ex_tree DRAFT) ''t1'' ''t2'' = Some True"
    by (simp add: is_ancestor_def ex_tree_eval is_ancestor_loop.simps parent_id_def)
  ultimately show ?thesis
    using task_tree_forest [OF ex_tree_reach, of DRAFT "''t2''" "''t1''" "''t1''"] t ex_tree_reach [of DRAFT] by auto
qed

theorem cancel_cascades_witness:
  "\<exists>cs t'. cancel_task ''t1'' 5 (ex_tree ACCEPTED) = Some (Inr cs, t')
     \<and> map_option status (dget (tasks t') ''t2'') = Some CANCELLED"
proof -
  have none: "(\<exists>y \<in> below (kids (ex_tree ACCEPTED)) [''t1'']. \<exists>k. dget (tasks (ex_tree ACCEPTED)) y = Some k \<and> under_review k) = False"
    by (simp add: ex_tree_below ex_tree_eval ex_args_def under_review_def)
  have t2: "''t2'' \<in> below (kids (ex_tree ACCEPTED)) [''t1'']" by (simp add: ex_tree_below)
  from cancel_cascades [OF ex_tree_reach, of "''t1''" 5 ACCEPTED, unfolded none if_False]
  obtain r t' where r: "cancel_task ''t1'' 5 (ex_tree ACCEPTED) = Some (r, t')" "\<exists>cs. r = Inr cs"
    "\<forall>y. dget (tasks t') y = (if y \<in> below (kids (ex_tree ACCEPTED)) [''t1'']
       then map_option (cancelled 5) (dget (tasks (ex_tree ACCEPTED)) y) else dget (tasks (ex_tree ACCEPTED)) y)"
    by blast
  have "dget (tasks t') ''t2'' = map_option (cancelled 5) (dget (tasks (ex_tree ACCEPTED)) ''t2'')"
    using r(3) [THEN spec, of "''t2''"] t2 by simp
  with r(1,2) show ?thesis by (auto simp: ex_tree_eval ex_args_def cancelled_def is_terminal_def)
qed

section \<open>Corners of the code\<close>

text \<open>
  A child under review stops the cascade half-way: its parent is already cancelled when the call
  fails.  A task past its deadline that is a draft or under review is reported as expired, but
  expiring it fails.
\<close>

lemma cancel_stops_half_way:
  "map_option (\<lambda>(r, t'). (r, map_option status (dget (tasks t') ''t1''))) (cancel_task ''t1'' 5 (ex_tree SUBMITTED))
     = Some (Inl (TaskValueError SUBMITTED CANCELLED), Some CANCELLED)"
  by (simp add: cancel_task_def cancel_loop.simps ex_tree_eval ex_args_def is_terminal_def transition_to_def
      task_can_transition_to_def child_map_children_def Let_def)

lemma expired_cannot_expire:
  "status ` set (get_expired_tasks 10 (ex_tree SUBMITTED)) = {IN_PROGRESS, SUBMITTED}"
  "fst (expire_task ''t2'' 5 (ex_tree SUBMITTED)) = Inl (TaskValueError SUBMITTED EXPIRED)"
  by (simp_all add: get_expired_tasks_def expire_task_def get_task_def ex_tree_eval ex_args_def is_terminal_def
      transition_to_def task_can_transition_to_def dvals_def)

text \<open>
  Two tasks made each other's parent by \<^verbatim>\<open>add_child\<close> leave the ancestors of either without an end.
\<close>

lemma add_child_ties_a_knot:
  assumes "t = snd (add_child ''t2'' ''t1'' (ex_tree DRAFT))"
  shows "ancestors t ''t1'' = None"
proof -
  have t: "parent_id t ''t1'' = Some ''t2''" "parent_id t ''t2'' = Some ''t1''"
    by (simp_all add: assms parent_id_def add_child_def ex_tree_eval Let_def)
  have "c \<in> {Some ''t1'', Some ''t2''} \<longrightarrow> False" if run: "ancestors_loop t c acc = Some y" for c acc y
  proof -
    have "t' = t \<and> c \<in> {Some ''t1'', Some ''t2''} \<longrightarrow> False" if "ancestors_loop t' c acc = Some y" for t' c acc y
    proof (rule ancestors_loop.raw_induct [where P = "\<lambda>t' c acc y. t' = t \<and> c \<in> {Some ''t1'', Some ''t2''} \<longrightarrow> False", OF _ that])
      fix rec t' c acc and y :: "task_error + task list"
      assume IH: "\<And>t' c acc y. rec t' c acc = Some y \<Longrightarrow> t' = t \<and> c \<in> {Some ''t1'', Some ''t2''} \<longrightarrow> False"
        and "(case c of None \<Rightarrow> Some (Inr acc) | Some x \<Rightarrow> (case dget (tasks t') x of
           None \<Rightarrow> Some (Inl (TaskKeyError x)) | Some k \<Rightarrow> rec t' (parent_id t' x) (acc @ [k]))) = Some y"
      moreover have "dget (tasks t) ''t1'' \<noteq> None" "dget (tasks t) ''t2'' \<noteq> None"
        by (simp_all add: assms add_child_def ex_tree_eval Let_def)
      ultimately show "t' = t \<and> c \<in> {Some ''t1'', Some ''t2''} \<longrightarrow> False"
        using t IH [of t] by (auto split: option.splits)
    qed
    then show ?thesis using run by blast
  qed
  then have "ancestors_loop t (Some ''t2'') [] = None" by (metis insertCI not_None_eq)
  moreover have "dget (tasks t) ''t1'' \<noteq> None" by (simp add: assms add_child_def ex_tree_eval Let_def)
  ultimately show ?thesis by (simp add: ancestors_def t)
qed

end
