(* ===== verification/Transaction.thy ===== *)
theory Transaction
  imports PyString "HOL-Library.List_Lexorder" "HOL-Library.Char_ord"
begin

text \<open>
  The transaction buffer of the archived engine (\<^verbatim>\<open>legacy/transaction.py\<close>): effects staged by agents
  during a tick are validated, conflicts between agents are resolved, and what is left is committed;
  a rollback takes it back.  The source keeps references to the same effect objects in several lists;
  here an effect lives in one place and the lists hold its id, which is never reused.  The checks the
  caller passes to the validation are arguments.
\<close>

section \<open>Effects\<close>

datatype effect_type = EMAIL_SEND | EMAIL_DELIVER | FILE_WRITE | FILE_PATCH | FILE_DELETE | KB_CREATE | KB_WRITE
  | KB_DELETE | LOCK_ACQUIRE | LOCK_RELEASE | TASK_CREATE | TASK_UPDATE | STATE_TRANSITION | RECORD_UPSERT
  | RECORD_DELTA | RULE_ADVANCE | MEMORY_ENTRY_WRITE | MEMORY_ENTRY_EVICT | MEMORY_ENTRY_FOLD
  | MEMORY_RECALL_CONFIG | MEMORY_RECALL | MEMORY_PIN

fun effect_value :: "effect_type \<Rightarrow> string" where
  "effect_value EMAIL_SEND = ''email_send''"
| "effect_value EMAIL_DELIVER = ''email_deliver''"
| "effect_value FILE_WRITE = ''file_write''"
| "effect_value FILE_PATCH = ''file_patch''"
| "effect_value FILE_DELETE = ''file_delete''"
| "effect_value KB_CREATE = ''kb_create''"
| "effect_value KB_WRITE = ''kb_write''"
| "effect_value KB_DELETE = ''kb_delete''"
| "effect_value LOCK_ACQUIRE = ''lock_acquire''"
| "effect_value LOCK_RELEASE = ''lock_release''"
| "effect_value TASK_CREATE = ''task_create''"
| "effect_value TASK_UPDATE = ''task_update''"
| "effect_value STATE_TRANSITION = ''state_transition''"
| "effect_value RECORD_UPSERT = ''record_upsert''"
| "effect_value RECORD_DELTA = ''record_delta''"
| "effect_value RULE_ADVANCE = ''rule_advance''"
| "effect_value MEMORY_ENTRY_WRITE = ''memory_entry_write''"
| "effect_value MEMORY_ENTRY_EVICT = ''memory_entry_evict''"
| "effect_value MEMORY_ENTRY_FOLD = ''memory_entry_fold''"
| "effect_value MEMORY_RECALL_CONFIG = ''memory_recall_config''"
| "effect_value MEMORY_RECALL = ''memory_recall''"
| "effect_value MEMORY_PIN = ''memory_pin''"

definition EXTERNAL_EFFECT_TYPES :: "effect_type list" where
  "EXTERNAL_EFFECT_TYPES = [EMAIL_SEND, EMAIL_DELIVER, FILE_WRITE, FILE_PATCH, FILE_DELETE]"

datatype invert_kind = RESTORE_PREVIOUS | REMOVE_CREATED | UNREGISTER | IRREVERSIBLE

text \<open>
  How each type of effect is undone; the prose that the source stores beside each kind, and that
  nothing reads, is left out.
\<close>

fun INVERT_CONTRACT :: "effect_type \<Rightarrow> invert_kind" where
  "INVERT_CONTRACT EMAIL_SEND = UNREGISTER"
| "INVERT_CONTRACT EMAIL_DELIVER = IRREVERSIBLE"
| "INVERT_CONTRACT LOCK_ACQUIRE = REMOVE_CREATED"
| "INVERT_CONTRACT TASK_CREATE = REMOVE_CREATED"
| "INVERT_CONTRACT MEMORY_RECALL = REMOVE_CREATED"
| "INVERT_CONTRACT _ = RESTORE_PREVIOUS"

datatype effect_status = STAGED | VALIDATED | COMMITTED | FAILED | ROLLED_BACK

record effect =
  effect_id :: string
  effect_type :: effect_type
  agent_id :: string
  resource :: string
  data :: "(string, pyval) dict"
  expected_version :: "int option"
  lock_token :: "string option"
  status :: effect_status
  error :: "string option"
  side_effect :: bool
  group_id :: string
  atomicity :: string
  invert_data :: "(string, pyval) dict"

record conflict_resolution =
  winner :: string
  losers :: "string list"
  cr_reason :: string

record buffer =
  effects :: "(string, effect) dict"
  counter :: nat
  committed :: "string list"
  resolutions :: "conflict_resolution list"
  outbox :: "string list"

definition new_buffer :: buffer where
  "new_buffer = \<lparr>effects = [], counter = 0, committed = [], resolutions = [], outbox = []\<rparr>"

section \<open>Staging\<close>

text \<open>\<^verbatim>\<open>f"eff.{n:06d}"\<close>\<close>

definition effect_name :: "nat \<Rightarrow> string" where
  "effect_name n = ''eff.'' @ padded n"

definition stage :: "effect_type \<Rightarrow> string \<Rightarrow> string \<Rightarrow> (string, pyval) dict option \<Rightarrow> int option \<Rightarrow> string option
    \<Rightarrow> string \<Rightarrow> string \<Rightarrow> buffer \<Rightarrow> effect \<times> buffer" where
  "stage ty a res dat ver tok grp atom b =
     (let n = counter b + 1;
          e = \<lparr>effect_id = effect_name n, effect_type = ty, agent_id = a, resource = res,
               data = (case dat of None \<Rightarrow> [] | Some d \<Rightarrow> d), expected_version = ver, lock_token = tok, status = STAGED,
               error = None, side_effect = ty \<in> set EXTERNAL_EFFECT_TYPES, group_id = grp, atomicity = atom,
               invert_data = []\<rparr>
      in (e, b\<lparr>counter := n, effects := dset (effect_name n) e (effects b)\<rparr>))"

definition get_effects :: "string option \<Rightarrow> buffer \<Rightarrow> effect list" where
  "get_effects a b = (case a of
       Some x \<Rightarrow> if x \<noteq> [] then filter (\<lambda>e. agent_id e = x) (dvals (effects b)) else dvals (effects b)
     | None \<Rightarrow> dvals (effects b))"

definition get_effects_for_resource :: "string \<Rightarrow> buffer \<Rightarrow> effect list" where
  "get_effects_for_resource res b = filter (\<lambda>e. resource e = res) (dvals (effects b))"

section \<open>Validation\<close>

record checks =
  check_version :: "(string \<Rightarrow> int \<Rightarrow> bool) option"
  check_lock :: "(string \<Rightarrow> string \<Rightarrow> string option \<Rightarrow> bool) option"
  check_permission :: "(string \<Rightarrow> string \<Rightarrow> string \<Rightarrow> bool) option"
  check_task :: "(effect \<Rightarrow> string option) option"

definition LOCKED_TYPES :: "effect_type list" where
  "LOCKED_TYPES = [KB_WRITE, KB_CREATE, KB_DELETE, FILE_WRITE, FILE_PATCH, FILE_DELETE]"

definition failed :: "string \<Rightarrow> effect \<Rightarrow> effect" where
  "failed m e = e\<lparr>status := FAILED, error := Some m\<rparr>"

text \<open>What the first loop does with one staged effect: the checks in order, the first that fails decides.\<close>

definition validate_effect :: "checks \<Rightarrow> effect \<Rightarrow> effect" where
  "validate_effect c e =
     (case (if effect_type e = TASK_UPDATE then Option.bind (check_task c) (\<lambda>f. f e) else None) of
        Some m \<Rightarrow> failed m e
      | None \<Rightarrow>
        if (case (expected_version e, check_version c) of (Some v, Some f) \<Rightarrow> \<not> f (resource e) v | _ \<Rightarrow> False)
        then failed (''Version conflict: expected '' @ str_int (the (expected_version e))) e
        else if effect_type e \<in> set LOCKED_TYPES
             \<and> (case check_lock c of Some f \<Rightarrow> \<not> f (resource e) (agent_id e) (lock_token e) | None \<Rightarrow> False)
        then failed ''Must hold lock to write'' e
        else if (case check_permission c of Some f \<Rightarrow> \<not> f (agent_id e) (resource e) (effect_value (effect_type e)) | None \<Rightarrow> False)
        then failed ''Permission denied'' e
        else e\<lparr>status := VALIDATED\<rparr>)"

fun validate_all_staged :: "checks \<Rightarrow> (string, effect) dict \<Rightarrow> (string, effect) dict \<times> string list" where
  "validate_all_staged c [] = ([], [])"
| "validate_all_staged c ((i, e) # d) =
     (let (d', fs) = validate_all_staged c d in
      if status e \<noteq> STAGED then ((i, e) # d', fs)
      else let e' = validate_effect c e
           in ((i, e') # d', if status e' = FAILED then i # fs else fs))"

text \<open>The groups in the order their first member was staged, and the failure of a group.\<close>

definition grouped :: "effect \<Rightarrow> bool" where
  "grouped e \<longleftrightarrow> group_id e \<noteq> [] \<and> atomicity e = ''group''"

definition group_ids :: "(string, effect) dict \<Rightarrow> string list" where
  "group_ids d = rev (remdups (rev (map group_id (filter grouped (dvals d)))))"

definition fail_group :: "string \<Rightarrow> (string, effect) dict \<Rightarrow> (string, effect) dict \<times> string list" where
  "fail_group g d =
     (let member = (\<lambda>e. grouped e \<and> group_id e = g) in
      if \<exists>e \<in> set (dvals d). member e \<and> status e = FAILED
      then (map (\<lambda>(i, e). (i, if member e \<and> status e \<noteq> FAILED
                 then failed (''group member failed (group '' @ g @ '')'') e else e)) d,
            map fst (filter (\<lambda>(i, e). member e \<and> status e \<noteq> FAILED) d))
      else (d, []))"

fun fail_groups :: "string list \<Rightarrow> (string, effect) dict \<Rightarrow> (string, effect) dict \<times> string list" where
  "fail_groups [] d = (d, [])"
| "fail_groups (g # gs) d =
     (let (d', fs) = fail_group g d; (d'', fs') = fail_groups gs d' in (d'', fs @ fs'))"

definition validate :: "checks \<Rightarrow> buffer \<Rightarrow> string list \<times> buffer" where
  "validate c b =
     (let (d, fs) = validate_all_staged c (effects b);
          (d', fs') = fail_groups (group_ids d) d
      in (fs @ fs', b\<lparr>effects := d'\<rparr>))"

section \<open>Conflicts\<close>

text \<open>The validated effects by resource, in the order of staging.\<close>

definition by_resource :: "(string, effect) dict \<Rightarrow> (string, string list) dict" where
  "by_resource d = fold (\<lambda>(i, e) m.
      if status e \<noteq> VALIDATED then m
      else dset (resource e) ((case dget m (resource e) of None \<Rightarrow> [] | Some is \<Rightarrow> is) @ [i]) m) d []"

definition agent_of :: "(string, effect) dict \<Rightarrow> string \<Rightarrow> string" where
  "agent_of d i = (case dget d i of Some e \<Rightarrow> agent_id e | None \<Rightarrow> [])"

definition sorted_agents :: "(string, effect) dict \<Rightarrow> string list \<Rightarrow> string list" where
  "sorted_agents d is = sort (remdups (map (agent_of d) is))"

definition agent_effects :: "(string, effect) dict \<Rightarrow> string list \<Rightarrow> string \<Rightarrow> string list" where
  "agent_effects d is a = sort (filter (\<lambda>i. agent_of d i = a) is)"

text \<open>A loser fails, and with it every effect of its group when it is bound to one.\<close>

definition fail_loser :: "string \<Rightarrow> string \<Rightarrow> (string, effect) dict \<Rightarrow> (string, effect) dict" where
  "fail_loser w i d =
     (case dget d i of
        None \<Rightarrow> d
      | Some l \<Rightarrow>
          let d' = dset i (failed (''Conflict: lost to agent '' @ w) l) d in
          if grouped l
          then map (\<lambda>(j, e). (j, if group_id e = group_id l \<and> status e \<noteq> FAILED
                 then failed (''group member lost conflict (group '' @ group_id l @ '')'') e else e)) d'
          else d')"

definition resolve_one :: "string list \<Rightarrow> (string, effect) dict \<Rightarrow> (string, effect) dict \<times> conflict_resolution list" where
  "resolve_one is d =
     (if length is \<le> 1 then (d, [])
      else case sorted_agents d is of
        w # others \<Rightarrow>
          if others = [] then (d, [])
          else let ls = concat (map (agent_effects d is) others) in
            (fold (fail_loser w) ls d,
             [\<lparr>winner = hd (agent_effects d is w), losers = ls,
               cr_reason = ''Deterministic resolution: agent '' @ w @ '' wins ('' @ digits (length ls) @ '' effects failed)''\<rparr>])
      | [] \<Rightarrow> (d, []))"

fun resolve_all :: "string list list \<Rightarrow> (string, effect) dict \<Rightarrow> (string, effect) dict \<times> conflict_resolution list" where
  "resolve_all [] d = (d, [])"
| "resolve_all (is # iss) d =
     (let (d', rs) = resolve_one is d; (d'', rs') = resolve_all iss d' in (d'', rs @ rs'))"

definition resolve_conflicts :: "buffer \<Rightarrow> conflict_resolution list \<times> buffer" where
  "resolve_conflicts b =
     (let (d, rs) = resolve_all (dvals (by_resource (effects b))) (effects b)
      in (rs, b\<lparr>effects := d, resolutions := resolutions b @ rs\<rparr>))"

section \<open>Commit and rollback\<close>

definition ready :: "buffer \<Rightarrow> string list" where
  "ready b = map fst (filter (\<lambda>(i, e). status e = VALIDATED) (effects b))"

definition commit :: "buffer \<Rightarrow> string list \<times> buffer" where
  "commit b =
     (ready b, b\<lparr>effects := map (\<lambda>(i, e). (i, if status e = VALIDATED then e\<lparr>status := COMMITTED\<rparr> else e)) (effects b),
        committed := committed b @ ready b,
        outbox := outbox b @ map fst (filter (\<lambda>(i, e). status e = VALIDATED \<and> side_effect e) (effects b))\<rparr>)"

definition rollback :: "buffer \<Rightarrow> string list \<times> buffer" where
  "rollback b =
     (committed b, b\<lparr>effects := map (\<lambda>(i, e). (i, if i \<in> set (committed b) then e\<lparr>status := ROLLED_BACK\<rparr> else e)) (effects b),
        committed := [], outbox := []\<rparr>)"

definition clear :: "buffer \<Rightarrow> buffer" where
  "clear b = b\<lparr>effects := [], committed := [], resolutions := [], outbox := []\<rparr>"

definition clear_outbox :: "buffer \<Rightarrow> string list \<times> buffer" where
  "clear_outbox b = (outbox b, b\<lparr>outbox := []\<rparr>)"

definition has_pending :: "buffer \<Rightarrow> bool" where
  "has_pending b \<longleftrightarrow> (\<exists>e \<in> set (dvals (effects b)). status e \<in> {STAGED, VALIDATED})"

definition count_status :: "effect_status \<Rightarrow> buffer \<Rightarrow> nat" where
  "count_status s b = length (filter (\<lambda>e. status e = s) (dvals (effects b)))"

definition summary :: "buffer \<Rightarrow> (string \<times> nat) list" where
  "summary b = [(''total_effects'', length (effects b)), (''staged'', count_status STAGED b),
     (''validated'', count_status VALIDATED b), (''committed'', length (committed b)),
     (''failed'', count_status FAILED b), (''conflicts'', length (resolutions b))]"


section \<open>Effects only ever fail\<close>

text \<open>
  What of an effect never changes, and the relation between the effects before and after an operation
  that may only make some of them fail.
\<close>

definition core :: "effect \<Rightarrow> effect_type \<times> string \<times> string \<times> (string, pyval) dict \<times> string \<times> string \<times> bool" where
  "core e = (effect_type e, agent_id e, resource e, data e, group_id e, atomicity e, side_effect e)"

definition only_fails :: "(string, effect) dict \<Rightarrow> (string, effect) dict \<Rightarrow> bool" where
  "only_fails d d' \<longleftrightarrow> dkeys d' = dkeys d \<and> (\<forall>i e. dget d i = Some e \<longrightarrow>
     (\<exists>e'. dget d' i = Some e' \<and> core e' = core e \<and> (status e' = status e \<or> status e' = FAILED)))"

lemma core_failed [simp]: "core (failed m e) = core e" "status (failed m e) = FAILED"
  by (simp_all add: failed_def core_def)

lemma core_grouped: "core e = core e' \<Longrightarrow> grouped e = grouped e' \<and> group_id e = group_id e' \<and> agent_id e = agent_id e'
    \<and> resource e = resource e' \<and> side_effect e = side_effect e'"
  by (simp add: core_def grouped_def)

lemma only_fails_refl: "only_fails d d"
  by (simp add: only_fails_def)

lemma only_fails_trans: "only_fails a b \<Longrightarrow> only_fails b c \<Longrightarrow> only_fails a c"
  unfolding only_fails_def by metis

lemma dget_map_vals: "dget (map (\<lambda>(i, e). (i, f i e)) d) j = map_option (f j) (dget d j)"
  by (induction d) auto

lemma dkeys_map_vals: "dkeys (map (\<lambda>(i, e). (i, f i e)) d) = dkeys d"
  by (induction d) (auto simp: dkeys_def)

lemma only_fails_map:
  "(\<And>i e. core (f i e) = core e \<and> (status (f i e) = status e \<or> status (f i e) = FAILED))
    \<Longrightarrow> only_fails d (map (\<lambda>(i, e). (i, f i e)) d)"
  by (simp add: only_fails_def dget_map_vals dkeys_map_vals)

lemma only_fails_set:
  "dget d i = Some e \<Longrightarrow> core e' = core e \<Longrightarrow> status e' = FAILED \<Longrightarrow> only_fails d (dset i e' d)"
  by (auto simp: only_fails_def dkeys_dset)

lemma fail_loser_only_fails: "only_fails d (fail_loser w i d)"
proof (cases "dget d i")
  case (Some l)
  let ?d = "dset i (failed (''Conflict: lost to agent '' @ w) l) d"
  have 1: "only_fails d ?d" by (rule only_fails_set [OF Some]) simp_all
  have "only_fails ?d (map (\<lambda>(j, e). (j, if group_id e = group_id l \<and> status e \<noteq> FAILED
      then failed (''group member lost conflict (group '' @ group_id l @ '')'') e else e)) ?d)"
    by (rule only_fails_map) simp
  then show ?thesis using 1 only_fails_trans [OF 1] by (simp add: fail_loser_def Some Let_def)
qed (simp add: fail_loser_def only_fails_refl)

lemma fold_loser_only_fails: "only_fails d (fold (fail_loser w) is d)"
  by (induction "is" arbitrary: d) (auto simp: only_fails_refl intro: only_fails_trans [OF fail_loser_only_fails])

text \<open>Once failed, an effect stays failed.\<close>

definition has_failed :: "(string, effect) dict \<Rightarrow> string \<Rightarrow> bool" where
  "has_failed d i \<longleftrightarrow> (\<forall>e. dget d i = Some e \<longrightarrow> status e = FAILED)"

lemma has_failed_mono: "only_fails d d' \<Longrightarrow> has_failed d i \<Longrightarrow> has_failed d' i"
  unfolding only_fails_def has_failed_def by (metis dkeys_iff not_None_eq option.inject)

lemma fail_loser_fails: "has_failed (fail_loser w i d) i"
  by (auto simp: fail_loser_def has_failed_def Let_def dget_map_vals split: option.splits)

lemma fold_loser_fails: "i \<in> set is \<Longrightarrow> has_failed (fold (fail_loser w) is d) i"
proof (induction "is" arbitrary: d)
  case (Cons j js)
  then show ?case using has_failed_mono [OF fold_loser_only_fails fail_loser_fails] by auto
qed simp

lemma agent_of_only_fails: "only_fails d d' \<Longrightarrow> agent_of d' = agent_of d"
proof
  fix i assume o: "only_fails d d'"
  show "agent_of d' i = agent_of d i"
  proof (cases "dget d i")
    case None
    then have "dget d' i = None" using o by (metis dkeys_iff only_fails_def)
    then show ?thesis using None by (simp add: agent_of_def)
  next
    case (Some e)
    then obtain e' where "dget d' i = Some e'" "core e' = core e" using o by (auto simp: only_fails_def)
    then show ?thesis using Some by (simp add: agent_of_def core_def)
  qed
qed

lemma sorted_agents_Min:
  assumes "is \<noteq> []"
  shows "sorted_agents d is = Min (agent_of d ` set is) # sorted_list_of_set (agent_of d ` set is - {Min (agent_of d ` set is)})"
proof -
  have "sorted_agents d is = sorted_list_of_set (agent_of d ` set is)"
    using sorted_list_of_set_sort_remdups [of "map (agent_of d) is"] by (simp add: sorted_agents_def)
  then show ?thesis using sorted_list_of_set_nonempty [of "agent_of d ` set is"] assms by simp
qed

lemma resolve_one_spec:
  assumes "resolve_one is d = (d', rs)"
  shows "only_fails d d' \<and> (\<forall>i \<in> set is. agent_of d i \<noteq> Min (agent_of d ` set is) \<longrightarrow> has_failed d' i)"
proof (cases "length is \<le> 1")
  case True
  then have "agent_of d i = Min (agent_of d ` set is)" if "i \<in> set is" for i
    using that by (cases "is") auto
  then show ?thesis using assms True by (auto simp: resolve_one_def only_fails_refl)
next
  case False
  let ?w = "Min (agent_of d ` set is)" and ?o = "sorted_list_of_set (agent_of d ` set is - {Min (agent_of d ` set is)})"
  have s: "sorted_agents d is = ?w # ?o" using False by (intro sorted_agents_Min) auto
  have o: "set ?o = agent_of d ` set is - {?w}" by simp
  show ?thesis
  proof (cases "?o = []")
    case True
    then have "agent_of d ` set is - {?w} = {}" using o by (metis empty_set)
    then have "agent_of d i = ?w" if "i \<in> set is" for i using that by blast
    then show ?thesis using assms False s True by (auto simp: resolve_one_def only_fails_refl)
  next
    case nonempty: False
    let ?ls = "concat (map (agent_effects d is) ?o)"
    have d': "d' = fold (fail_loser ?w) ?ls d"
      using assms False s nonempty by (simp add: resolve_one_def Let_def)
    have "i \<in> set ?ls" if "i \<in> set is" "agent_of d i \<noteq> ?w" for i
      using that by (auto simp: agent_effects_def)
    then show ?thesis unfolding d' using fold_loser_only_fails fold_loser_fails by blast
  qed
qed

lemma resolve_all_spec:
  "resolve_all iss d = (d', rs) \<Longrightarrow> only_fails d d'
     \<and> (\<forall>is \<in> set iss. \<forall>i \<in> set is. agent_of d i \<noteq> Min (agent_of d ` set is) \<longrightarrow> has_failed d' i)"
proof (induction iss arbitrary: d rs)
  case (Cons x iss)
  obtain d1 r1 where 1: "resolve_one x d = (d1, r1)" by (meson surj_pair)
  obtain r2 where 2: "resolve_all iss d1 = (d', r2)" using Cons.prems 1 by (auto split: prod.splits)
  note s1 = resolve_one_spec [OF 1] and s2 = Cons.IH [OF 2]
  have a: "agent_of d1 = agent_of d" using s1 agent_of_only_fails by blast
  have "only_fails d d'" using s1 s2 only_fails_trans by blast
  moreover have "\<forall>i \<in> set x. agent_of d i \<noteq> Min (agent_of d ` set x) \<longrightarrow> has_failed d' i"
    using s1 s2 has_failed_mono by blast
  moreover have "\<forall>is \<in> set iss. \<forall>i \<in> set is. agent_of d i \<noteq> Min (agent_of d ` set is) \<longrightarrow> has_failed d' i"
    using s2 unfolding a by blast
  ultimately show ?case by simp
qed (simp add: only_fails_refl)


section \<open>What the buffer keeps\<close>

lemma by_resource_snoc:
  "by_resource (d @ [(i, e)]) = (if status e \<noteq> VALIDATED then by_resource d
     else dset (resource e) ((case dget (by_resource d) (resource e) of None \<Rightarrow> [] | Some is \<Rightarrow> is) @ [i]) (by_resource d))"
  by (simp add: by_resource_def)

lemma by_resource_get:
  "dget (by_resource d) r = (let is = map fst (filter (\<lambda>(i, e). status e = VALIDATED \<and> resource e = r) d)
     in if is = [] then None else Some is)"
proof (induction d rule: rev_induct)
  case Nil
  show ?case by (simp add: by_resource_def)
next
  case (snoc p d)
  obtain i e where p: "p = (i, e)" by (cases p)
  show ?case using snoc by (auto simp: p by_resource_snoc Let_def split: option.splits if_splits)
qed

inductive txstep :: "buffer \<Rightarrow> buffer \<Rightarrow> bool" where
  Stage: "stage ty a res dat ver tok grp atom b = (e, b') \<Longrightarrow> txstep b b'"
| Validate: "validate c b = (fs, b') \<Longrightarrow> txstep b b'"
| Resolve: "resolve_conflicts b = (rs, b') \<Longrightarrow> txstep b b'"
| Commit: "commit b = (cs, b') \<Longrightarrow> txstep b b'"
| Rollback: "rollback b = (cs, b') \<Longrightarrow> txstep b b'"
| Clear: "txstep b (clear b)"
| ClearOutbox: "clear_outbox b = (cs, b') \<Longrightarrow> txstep b b'"

interpretation buffers: trans_sys "\<lambda>b. b = new_buffer" txstep .

text \<open>Names of effects are new.\<close>

lemma effect_name_inject: "effect_name m = effect_name n \<longleftrightarrow> m = n"
  by (simp add: effect_name_def)

text \<open>
  The buffer's invariant: names are fresh, what counts as committed is listed, nothing listed can be
  committed again, and only external effects that are listed wait in the outbox.
\<close>

definition buffer_ok :: "buffer \<Rightarrow> bool" where
  "buffer_ok b \<longleftrightarrow> dwf (effects b)
     \<and> (\<forall>i e. dget (effects b) i = Some e \<longrightarrow> (\<exists>n \<le> counter b. i = effect_name n))
     \<and> (\<forall>i e. dget (effects b) i = Some e \<and> status e = COMMITTED \<longrightarrow> i \<in> set (committed b))
     \<and> (\<forall>i \<in> set (committed b). \<exists>e. dget (effects b) i = Some e \<and> status e \<in> {COMMITTED, FAILED})
     \<and> (\<forall>i \<in> set (outbox b). i \<in> set (committed b) \<and> (\<exists>e. dget (effects b) i = Some e \<and> side_effect e))
     \<and> distinct (committed b) \<and> distinct (outbox b)"

lemma ok_change:
  assumes "buffer_ok b" and "dkeys d' = dkeys (effects b)"
    and "\<And>i e. dget (effects b) i = Some e \<Longrightarrow> \<exists>e'. dget d' i = Some e' \<and> side_effect e' = side_effect e
       \<and> (status e' = COMMITTED \<longrightarrow> status e = COMMITTED) \<and> (status e \<in> {COMMITTED, FAILED} \<longrightarrow> status e' \<in> {COMMITTED, FAILED})"
  shows "buffer_ok (b\<lparr>effects := d'\<rparr>)"
proof -
  have prior: "\<exists>e. dget (effects b) i = Some e" if "dget d' i = Some e'" for i e'
    using that assms(2) by (metis dkeys_iff not_None_eq)
  have "dwf d'" using assms(1,2) by (simp add: buffer_ok_def dwf_def dkeys_def)
  moreover have "\<forall>i e. dget d' i = Some e \<longrightarrow> (\<exists>n \<le> counter b. i = effect_name n)"
    using assms(1) prior unfolding buffer_ok_def by blast
  moreover have "\<forall>i e. dget d' i = Some e \<and> status e = COMMITTED \<longrightarrow> i \<in> set (committed b)"
    using assms(1,3) prior unfolding buffer_ok_def by (metis option.inject)
  moreover have "\<forall>i \<in> set (committed b). \<exists>e. dget d' i = Some e \<and> status e \<in> {COMMITTED, FAILED}"
    using assms(1,3) unfolding buffer_ok_def by metis
  moreover have "\<forall>i \<in> set (outbox b). i \<in> set (committed b) \<and> (\<exists>e. dget d' i = Some e \<and> side_effect e)"
    using assms(1,3) unfolding buffer_ok_def by metis
  ultimately show ?thesis using assms(1) unfolding buffer_ok_def by simp
qed

lemma ok_only_fails: "buffer_ok b \<Longrightarrow> only_fails (effects b) d' \<Longrightarrow> buffer_ok (b\<lparr>effects := d'\<rparr>)"
  by (rule ok_change) (auto simp: only_fails_def core_def dest!: spec)

lemma ok_resolutions: "buffer_ok (b\<lparr>resolutions := rs\<rparr>) = buffer_ok b"
  by (simp add: buffer_ok_def)

text \<open>The validation's first loop, effect by effect.\<close>

lemma validate_effect_core: "core (validate_effect c e) = core e \<and> status (validate_effect c e) \<in> {VALIDATED, FAILED}"
  by (auto simp: validate_effect_def core_def failed_def split: option.splits)

lemma validate_effect_status: "status (validate_effect c e) \<noteq> COMMITTED"
  using validate_effect_core [of c e] by auto

lemma validate_all_map:
  "fst (validate_all_staged c d) = map (\<lambda>(i, e). (i, if status e = STAGED then validate_effect c e else e)) d"
  by (induction c d rule: validate_all_staged.induct) (auto simp: Let_def split: prod.splits)

lemma fail_group_only_fails: "fail_group g d = (d', fs) \<Longrightarrow> only_fails d d'"
  by (auto simp: fail_group_def Let_def only_fails_refl split: if_splits intro!: only_fails_map)

lemma fail_groups_only_fails: "fail_groups gs d = (d', fs) \<Longrightarrow> only_fails d d'"
proof (induction gs arbitrary: d fs)
  case (Cons g gs)
  then show ?case by (auto split: prod.splits intro: only_fails_trans [OF fail_group_only_fails])
qed (simp add: only_fails_refl)

lemma picked_iff:
  "dwf d \<Longrightarrow> i \<in> set (map fst (filter (\<lambda>(i, e). P e) d)) \<longleftrightarrow> (\<exists>e. dget d i = Some e \<and> P e)"
  by (auto simp: dwf_def image_iff dest: map_of_SomeD)

lemma picked_distinct: "dwf d \<Longrightarrow> distinct (map fst (filter P d))"
  by (simp add: dwf_def distinct_map_filter)

lemma ready_iff: "dwf (effects b) \<Longrightarrow> i \<in> set (ready b) \<longleftrightarrow> (\<exists>e. dget (effects b) i = Some e \<and> status e = VALIDATED)"
  unfolding ready_def by (rule picked_iff)

lemma ok_add:
  assumes ok: "buffer_ok b" and new: "dget (effects b) i = None" and i: "i = effect_name (counter b + 1)"
    and e: "status e = STAGED"
  shows "buffer_ok (b\<lparr>counter := Suc (counter b), effects := dset i e (effects b)\<rparr>)"
proof -
  have out: "i \<notin> set (committed b)" using ok new by (auto simp: buffer_ok_def)
  have "\<forall>j f. dget (dset i e (effects b)) j = Some f \<longrightarrow> (\<exists>n \<le> Suc (counter b). j = effect_name n)"
  proof (intro allI impI)
    fix j f assume j: "dget (dset i e (effects b)) j = Some f"
    show "\<exists>n \<le> Suc (counter b). j = effect_name n"
    proof (cases "j = i")
      case True
      then show ?thesis using i by auto
    next
      case False
      then show ?thesis using ok j le_SucI unfolding buffer_ok_def by (metis dget_dset fun_upd_other)
    qed
  qed
  moreover have "\<forall>j f. dget (dset i e (effects b)) j = Some f \<and> status f = COMMITTED \<longrightarrow> j \<in> set (committed b)"
    using ok e unfolding buffer_ok_def by (auto split: if_splits)
  moreover have "\<forall>j \<in> set (committed b). \<exists>f. dget (dset i e (effects b)) j = Some f \<and> status f \<in> {COMMITTED, FAILED}"
    using ok out unfolding buffer_ok_def by auto
  moreover have "\<forall>j \<in> set (outbox b). j \<in> set (committed b) \<and> (\<exists>f. dget (dset i e (effects b)) j = Some f \<and> side_effect f)"
    using ok out unfolding buffer_ok_def by auto
  ultimately show ?thesis using ok unfolding buffer_ok_def by (simp add: dwf_dset)
qed

lemma rollback_none:
  assumes "buffer_ok b"
    and "dget (map (\<lambda>(i, e). (i, if i \<in> set (committed b) then e\<lparr>status := ROLLED_BACK\<rparr> else e)) (effects b)) i = Some e"
  shows "status e \<noteq> COMMITTED"
proof -
  obtain e0 where "dget (effects b) i = Some e0" "e = (if i \<in> set (committed b) then e0\<lparr>status := ROLLED_BACK\<rparr> else e0)"
    using assms(2) unfolding dget_map_vals by auto
  then show ?thesis using assms(1) by (auto simp: buffer_ok_def split: if_splits)
qed

lemma ok_step: "txstep b b' \<Longrightarrow> buffer_ok b \<Longrightarrow> buffer_ok b'"
proof (induction rule: txstep.induct)
  case (Stage ty a res dat ver tok grp atom b e b')
  let ?i = "effect_name (counter b + 1)"
  have new: "dget (effects b) ?i = None"
  proof (rule ccontr)
    assume "dget (effects b) ?i \<noteq> None"
    then obtain n where "n \<le> counter b" "?i = effect_name n" using Stage(2) unfolding buffer_ok_def by blast
    then show False by (simp add: effect_name_inject)
  qed
  obtain x where "b' = b\<lparr>counter := Suc (counter b), effects := dset ?i x (effects b)\<rparr>" "status x = STAGED"
    using Stage(1) by (auto simp: stage_def Let_def)
  then show ?case using ok_add [OF Stage(2) new refl] by simp
next
  case (Validate c b fs b')
  obtain d fs1 where 1: "validate_all_staged c (effects b) = (d, fs1)" by (meson surj_pair)
  then have d: "d = map (\<lambda>(i, e). (i, if status e = STAGED then validate_effect c e else e)) (effects b)"
    using validate_all_map by (metis fst_conv)
  have "buffer_ok (b\<lparr>effects := d\<rparr>)"
    using Validate(2) validate_effect_core [of c] unfolding d
    by (intro ok_change) (auto simp: dget_map_vals dkeys_map_vals core_def validate_effect_status)
  moreover obtain d' fs2 where 2: "fail_groups (group_ids d) d = (d', fs2)" by (meson surj_pair)
  ultimately have "buffer_ok (b\<lparr>effects := d\<rparr>\<lparr>effects := d'\<rparr>)"
    using ok_only_fails [of "b\<lparr>effects := d\<rparr>" d'] fail_groups_only_fails [OF 2] by simp
  then show ?case using Validate(1) 1 2 by (simp add: validate_def)
next
  case (Resolve b rs b')
  then obtain d where "resolve_all (dvals (by_resource (effects b))) (effects b) = (d, rs)"
    "b' = b\<lparr>effects := d, resolutions := resolutions b @ rs\<rparr>" by (auto simp: resolve_conflicts_def split: prod.splits)
  then show ?case using ok_only_fails [OF Resolve(2), of d] resolve_all_spec ok_resolutions by simp
next
  case (Commit b cs b')
  let ?d = "map (\<lambda>(i, e). (i, if status e = VALIDATED then e\<lparr>status := COMMITTED\<rparr> else e)) (effects b)"
  let ?o = "map fst (filter (\<lambda>(i, e). status e = VALIDATED \<and> side_effect e) (effects b))"
  have wf: "dwf (effects b)" using Commit(2) by (simp add: buffer_ok_def)
  note mem = ready_iff [OF wf]
  have o: "i \<in> set ?o \<longleftrightarrow> (\<exists>e. dget (effects b) i = Some e \<and> status e = VALIDATED \<and> side_effect e)" for i
    using picked_iff [OF wf, of i "\<lambda>e. status e = VALIDATED \<and> side_effect e"] by simp
  have d: "dget ?d i = map_option (\<lambda>e. if status e = VALIDATED then e\<lparr>status := COMMITTED\<rparr> else e) (dget (effects b) i)" for i
    by (rule dget_map_vals)
  have "dwf ?d" using wf dkeys_map_vals [of "\<lambda>i e. if status e = VALIDATED then e\<lparr>status := COMMITTED\<rparr> else e" "effects b"]
    unfolding dwf_def dkeys_def by metis
  moreover have "\<forall>i e. dget ?d i = Some e \<longrightarrow> (\<exists>n \<le> counter b. i = effect_name n)"
    using Commit(2) d unfolding buffer_ok_def by auto
  moreover have "\<forall>i e. dget ?d i = Some e \<and> status e = COMMITTED \<longrightarrow> i \<in> set (committed b @ ready b)"
    using Commit(2) d mem unfolding buffer_ok_def by (auto split: if_splits)
  moreover have "\<forall>i \<in> set (committed b @ ready b). \<exists>e. dget ?d i = Some e \<and> status e \<in> {COMMITTED, FAILED}"
    using Commit(2) d mem unfolding buffer_ok_def by fastforce
  moreover have "\<forall>i \<in> set (outbox b @ ?o). i \<in> set (committed b @ ready b) \<and> (\<exists>e. dget ?d i = Some e \<and> side_effect e)"
    using Commit(2) d mem o unfolding buffer_ok_def by fastforce
  moreover have fresh: "i \<notin> set (committed b)" if "i \<in> set (ready b)" for i
    using Commit(2) mem that unfolding buffer_ok_def by fastforce
  moreover have "distinct (committed b @ ready b)"
    using Commit(2) fresh picked_distinct [OF wf] unfolding buffer_ok_def ready_def by auto
  moreover have "distinct (outbox b @ ?o)"
  proof -
    have "i \<notin> set (outbox b)" if "i \<in> set ?o" for i
      using that o [of i] mem [of i] fresh [of i] Commit(2) unfolding buffer_ok_def by blast
    then show ?thesis using Commit(2) picked_distinct [OF wf] unfolding buffer_ok_def distinct_append by blast
  qed
  ultimately show ?case using Commit(1) unfolding commit_def buffer_ok_def by auto
next
  case (Rollback b cs b')
  let ?d = "map (\<lambda>(i, e). (i, if i \<in> set (committed b) then e\<lparr>status := ROLLED_BACK\<rparr> else e)) (effects b)"
  have none: "status e \<noteq> COMMITTED" if "dget ?d i = Some e" for i e
    using rollback_none [OF Rollback(2) that] .
  have keys: "dkeys ?d = dkeys (effects b)" by (rule dkeys_map_vals)
  then have "dwf ?d" using Rollback(2) unfolding buffer_ok_def dwf_def dkeys_def by metis
  moreover have "\<exists>n \<le> counter b. i = effect_name n" if i: "dget ?d i = Some e" for i e
  proof -
    obtain e0 where "dget (effects b) i = Some e0" using i unfolding dget_map_vals by blast
    then show ?thesis using Rollback(2) unfolding buffer_ok_def by blast
  qed
  moreover have "b' = b\<lparr>effects := ?d, committed := [], outbox := []\<rparr>"
    using Rollback(1) by (auto simp: rollback_def)
  ultimately show ?case using none unfolding buffer_ok_def by simp
next
  case (Clear b)
  then show ?case by (simp add: clear_def buffer_ok_def dwf_def)
next
  case (ClearOutbox b cs b')
  then show ?case by (auto simp: clear_outbox_def buffer_ok_def)
qed


lemma reach_buffer_ok: "buffers.reach b \<Longrightarrow> buffer_ok b"
proof (erule buffers.reach_invariant)
  fix b assume "b = new_buffer"
  then show "buffer_ok b" by (simp add: new_buffer_def buffer_ok_def dwf_def)
qed (rule ok_step)

text \<open>
  Conflicts are decided by agent, whatever the order of staging: when conflicts have been resolved
  in a buffer built by its operations, an effect that is still validated belongs to the least agent
  among those that had a validated effect on its resource; so no two agents are left with effects on
  the same resource.
\<close>

lemma conflicts_resolved:
  assumes "buffers.reach b" and "resolve_conflicts b = (rs, b')"
    and "dget (effects b') i = Some e'" and "status e' = VALIDATED"
  shows "agent_id e' = Min {agent_id e |j e. dget (effects b) j = Some e \<and> status e = VALIDATED \<and> resource e = resource e'}"
proof -
  let ?d = "effects b"
  have wf: "dwf ?d" using reach_buffer_ok [OF assms(1)] by (simp add: buffer_ok_def)
  obtain d where run: "resolve_all (dvals (by_resource ?d)) ?d = (d, rs)" and d: "effects b' = d"
    using assms(2) by (auto simp: resolve_conflicts_def split: prod.splits)
  note spec = resolve_all_spec [OF run]
  have "i \<in> set (dkeys d)" using assms(3) d by simp
  then have "i \<in> set (dkeys ?d)" using spec unfolding only_fails_def by metis
  then obtain e where e: "dget ?d i = Some e" by auto
  then obtain e2 where "dget d i = Some e2" "core e2 = core e" "status e2 = status e \<or> status e2 = FAILED"
    using spec unfolding only_fails_def by blast
  then have c: "core e' = core e" "status e = VALIDATED" using assms(3,4) d by auto
  let ?is = "map fst (filter (\<lambda>(i, e). status e = VALIDATED \<and> resource e = resource e') ?d)"
  have mem: "j \<in> set ?is \<longleftrightarrow> (\<exists>f. dget ?d j = Some f \<and> status f = VALIDATED \<and> resource f = resource e')" for j
    using picked_iff [OF wf, of j "\<lambda>e. status e = VALIDATED \<and> resource e = resource e'"] by simp
  have i: "i \<in> set ?is" using mem [of i] e c by (auto simp: core_def)
  then have "?is \<noteq> []" by (metis empty_iff empty_set)
  then have "dget (by_resource ?d) (resource e') = Some ?is" by (simp only: by_resource_get Let_def if_False)
  from map_of_SomeD [OF this] have "?is \<in> set (dvals (by_resource ?d))"
    unfolding dvals_def set_map by (rule image_eqI [rotated]) (simp only: snd_conv)
  moreover have "\<not> has_failed d i" using assms(3,4) d by (auto simp: has_failed_def)
  ultimately have "agent_of ?d i = Min (agent_of ?d ` set ?is)" using spec i by blast
  moreover have "agent_of ?d ` set ?is = {agent_id e |j e. dget ?d j = Some e \<and> status e = VALIDATED \<and> resource e = resource e'}"
  proof (intro subset_antisym subsetI)
    fix a assume "a \<in> agent_of ?d ` set ?is"
    then obtain j where "a = agent_of ?d j" "j \<in> set ?is" by blast
    then show "a \<in> {agent_id e |j e. dget ?d j = Some e \<and> status e = VALIDATED \<and> resource e = resource e'}"
      unfolding mem by (auto simp: agent_of_def) blast
  next
    fix a assume "a \<in> {agent_id e |j e. dget ?d j = Some e \<and> status e = VALIDATED \<and> resource e = resource e'}"
    then obtain j f where "dget ?d j = Some f" "status f = VALIDATED" "resource f = resource e'" "a = agent_id f" by blast
    then show "a \<in> agent_of ?d ` set ?is" using mem [of j] by (intro image_eqI [of _ _ j]) (simp_all add: agent_of_def)
  qed
  ultimately show ?thesis using e c by (simp add: agent_of_def core_def)
qed

section \<open>Groups commit or fail as one\<close>

definition group_closed :: "string \<Rightarrow> (string, effect) dict \<Rightarrow> bool" where
  "group_closed g d \<longleftrightarrow> (\<forall>i j e f. dget d i = Some e \<and> dget d j = Some f \<and> grouped e \<and> grouped f
     \<and> group_id e = g \<and> group_id f = g \<and> status e = FAILED \<longrightarrow> status f = FAILED)"

lemma fail_group_closed:
  assumes "fail_group g d = (d', fs)" and "dwf d"
  shows "group_closed g d' \<and> (h \<noteq> g \<longrightarrow> group_closed h d \<longrightarrow> group_closed h d')"
proof (cases "\<exists>e \<in> set (dvals d). (grouped e \<and> group_id e = g) \<and> status e = FAILED")
  case True
  then have d': "d' = map (\<lambda>(i, e). (i, if (grouped e \<and> group_id e = g) \<and> status e \<noteq> FAILED
      then failed (''group member failed (group '' @ g @ '')'') e else e)) d"
    using assms(1) by (auto simp: fail_group_def Let_def)
  have g: "dget d' i = map_option (\<lambda>e. if (grouped e \<and> group_id e = g) \<and> status e \<noteq> FAILED
      then failed (''group member failed (group '' @ g @ '')'') e else e) (dget d i)" for i
    unfolding d' by (rule dget_map_vals)
  have same: "grouped (failed m e) = grouped e" "group_id (failed m e) = group_id e" for m e
    by (simp_all add: failed_def grouped_def)
  have all: "status f = FAILED" if f: "dget d' j = Some f" "grouped f" "group_id f = g" for j f
  proof -
    from f(1) g [of j] obtain e where "dget d j = Some e" and
      e: "f = (if (grouped e \<and> group_id e = g) \<and> status e \<noteq> FAILED then failed (''group member failed (group '' @ g @ '')'') e else e)"
      by auto
    then show ?thesis using f(2,3) same by (cases "status e = FAILED") (auto split: if_splits)
  qed
  have other: "dget d j = Some f" if "dget d' j = Some f" "group_id f = h" "h \<noteq> g" for j f
    using that g [of j] same by (auto split: if_splits)
  have "group_closed g d'" using all unfolding group_closed_def by blast
  moreover have "group_closed h d'" if "h \<noteq> g" "group_closed h d"
    using that(2) other [OF _ _ that(1)] unfolding group_closed_def by metis
  ultimately show ?thesis by blast
next
  case False
  have "fail_group g d = (d, [])" unfolding fail_group_def Let_def using False by (rule if_not_P)
  then have "d' = d" using assms(1) by simp
  moreover have "group_closed g d" using False unfolding group_closed_def
    by (fastforce simp: dvals_def dest!: map_of_SomeD)
  ultimately show ?thesis by simp
qed


lemma fail_groups_closed:
  "fail_groups gs d = (d', fs) \<Longrightarrow> dwf d \<Longrightarrow> g \<in> set gs \<or> group_closed g d \<Longrightarrow> group_closed g d'"
proof (induction gs arbitrary: d fs)
  case (Cons h gs)
  obtain d1 f1 where 1: "fail_group h d = (d1, f1)" by (meson surj_pair)
  obtain f2 where 2: "fail_groups gs d1 = (d', f2)" using Cons.prems(1) 1 by (auto split: prod.splits)
  have "dwf d1" using fail_group_only_fails [OF 1] Cons.prems(2) by (simp add: only_fails_def dwf_def dkeys_def)
  moreover have "g \<in> set gs \<or> group_closed g d1"
    using fail_group_closed [OF 1 Cons.prems(2), of g] Cons.prems(3) by (cases "g = h") auto
  ultimately show ?case by (rule Cons.IH [OF 2])
qed simp

lemma group_ids_cover:
  "dget d i = Some e \<Longrightarrow> grouped e \<Longrightarrow> group_id e \<in> set (group_ids d)"
  by (force simp: group_ids_def dvals_def dest!: map_of_SomeD)

lemma not_a_group: "g \<notin> set (group_ids d) \<Longrightarrow> group_closed g d"
  using group_ids_cover by (fastforce simp: group_closed_def)

lemma fail_loser_closed:
  assumes "\<And>g. group_closed g d"
  shows "group_closed g (fail_loser w i d)"
proof (cases "dget d i")
  case (Some l)
  let ?l = "failed (''Conflict: lost to agent '' @ w) l"
  have gl: "grouped ?l = grouped l" "group_id ?l = group_id l" by (simp_all add: failed_def grouped_def)
  show ?thesis
  proof (cases "grouped l")
    case True
    let ?m = "''group member lost conflict (group '' @ group_id l @ '')''"
    have g': "dget (fail_loser w i d) j = map_option (\<lambda>e. if group_id e = group_id l \<and> status e \<noteq> FAILED
        then failed ?m e else e) (dget (dset i ?l d) j)" for j
      using Some True by (simp add: fail_loser_def Let_def dget_map_vals)
    have in_group: "status f = FAILED" if f: "dget (fail_loser w i d) j = Some f" "group_id f = group_id l" for j f
    proof -
      obtain e where "f = (if group_id e = group_id l \<and> status e \<noteq> FAILED then failed ?m e else e)"
        using f(1) unfolding g' by auto
      then show ?thesis using f(2) by (auto simp: failed_def split: if_splits)
    qed
    have out: "dget d j = Some f" if f: "dget (fail_loser w i d) j = Some f" "group_id f \<noteq> group_id l" for j f
    proof -
      obtain e where e: "dget (dset i ?l d) j = Some e"
        "f = (if group_id e = group_id l \<and> status e \<noteq> FAILED then failed ?m e else e)"
        using f(1) unfolding g' by auto
      then have "f = e" using f(2) by (auto simp: failed_def split: if_splits)
      then show ?thesis using e(1) f(2) gl(2) by (auto split: if_splits)
    qed
    show ?thesis using in_group out assms [of g] unfolding group_closed_def by metis
  next
    case False
    then have "fail_loser w i d = dset i ?l d" using Some by (simp add: fail_loser_def Let_def)
    moreover have "dget d j = Some f" if "dget (dset i ?l d) j = Some f" "grouped f" for j f
      using that gl(1) False by (auto split: if_splits)
    ultimately show ?thesis using assms [of g] unfolding group_closed_def by metis
  qed
qed (use assms in \<open>simp add: fail_loser_def\<close>)

lemma fold_loser_closed: "(\<And>g. group_closed g d) \<Longrightarrow> group_closed g (fold (fail_loser w) is d)"
  by (induction "is" arbitrary: d) (simp_all add: fail_loser_closed)

lemma resolve_one_closed:
  assumes "resolve_one is d = (d', rs)" and "\<And>g. group_closed g d"
  shows "group_closed g d'"
proof -
  have "d' = d \<or> (\<exists>w ls. d' = fold (fail_loser w) ls d)"
    using assms(1) by (auto simp: resolve_one_def Let_def split: if_splits list.splits)
  then show ?thesis using assms(2) fold_loser_closed by metis
qed

lemma resolve_all_closed: "resolve_all iss d = (d', rs) \<Longrightarrow> (\<And>g. group_closed g d) \<Longrightarrow> group_closed g d'"
proof (induction iss arbitrary: d rs)
  case (Cons x iss)
  obtain d1 r1 where 1: "resolve_one x d = (d1, r1)" by (meson surj_pair)
  then obtain r2 where "resolve_all iss d1 = (d', r2)" using Cons.prems(1) by (auto split: prod.splits)
  then show ?case using Cons.IH resolve_one_closed [OF 1 Cons.prems(2)] by blast
qed simp

text \<open>The life of the effects of one tick: after validation they are validated or failed.\<close>

definition decided :: "(string, effect) dict \<Rightarrow> bool" where
  "decided d \<longleftrightarrow> (\<forall>i e. dget d i = Some e \<longrightarrow> status e \<in> {VALIDATED, FAILED})"

lemma decided_mono: "decided d \<Longrightarrow> only_fails d d' \<Longrightarrow> decided d'"
proof -
  assume d: "decided d" and o: "only_fails d d'"
  have "status e' \<in> {VALIDATED, FAILED}" if e': "dget d' i = Some e'" for i e'
  proof -
    obtain e where "dget d i = Some e" using o e' unfolding only_fails_def by (metis dkeys_iff not_None_eq)
    then show ?thesis using d o e' unfolding only_fails_def decided_def by (metis insertCI option.inject)
  qed
  then show ?thesis by (simp add: decided_def)
qed

lemma validate_decides:
  assumes "\<And>i e. dget (effects b) i = Some e \<Longrightarrow> status e = STAGED" and "dwf (effects b)"
  shows "decided (effects (snd (validate c b))) \<and> group_closed g (effects (snd (validate c b)))
    \<and> dwf (effects (snd (validate c b)))"
proof -
  obtain d fs where 1: "validate_all_staged c (effects b) = (d, fs)" by (meson surj_pair)
  obtain d' fs' where 2: "fail_groups (group_ids d) d = (d', fs')" by (meson surj_pair)
  have d: "d = map (\<lambda>(i, e). (i, if status e = STAGED then validate_effect c e else e)) (effects b)"
    using validate_all_map 1 by (metis fst_conv)
  then have "dkeys d = dkeys (effects b)" by (simp add: dkeys_map_vals)
  then have wf: "dwf d" using assms(2) by (simp add: dwf_def dkeys_def)
  have "decided d" unfolding decided_def d dget_map_vals
    using assms(1) validate_effect_core by (auto split: if_splits)
  then have "decided d'" using decided_mono fail_groups_only_fails [OF 2] by blast
  moreover have "group_closed g d'" using fail_groups_closed [OF 2 wf] not_a_group by blast
  moreover have "dwf d'" using fail_groups_only_fails [OF 2] wf by (simp add: only_fails_def dwf_def dkeys_def)
  ultimately show ?thesis using 1 2 by (simp add: validate_def)
qed

text \<open>
  C22. Groups are atomic through the whole cycle: when the effects of a buffer have only been staged,
  and are then validated against any checks, resolved and committed, the members of a group that asks
  for it are all committed or none is.
\<close>

theorem groups_atomic:
  assumes "buffers.reach b" and "\<And>i e. dget (effects b) i = Some e \<Longrightarrow> status e = STAGED"
    and "b' = snd (commit (snd (resolve_conflicts (snd (validate c b)))))"
    and "dget (effects b') i = Some e" and "dget (effects b') j = Some f"
    and "grouped e" and "grouped f" and "group_id e = group_id f"
  shows "status e = COMMITTED \<longleftrightarrow> status f = COMMITTED"
proof -
  let ?b1 = "snd (validate c b)"
  have wf: "dwf (effects b)" using reach_buffer_ok [OF assms(1)] by (simp add: buffer_ok_def)
  obtain d rs where run: "resolve_all (dvals (by_resource (effects ?b1))) (effects ?b1) = (d, rs)" by (meson surj_pair)
  have v: "decided (effects ?b1) \<and> group_closed g (effects ?b1)" for g
    using validate_decides [of b, OF _ wf] assms(2) by blast
  have dec: "decided d" using v resolve_all_spec [OF run] decided_mono by blast
  have closed: "group_closed (group_id f) d" using v resolve_all_closed [OF run] by blast
  have eff: "effects b' = map (\<lambda>(i, e). (i, if status e = VALIDATED then e\<lparr>status := COMMITTED\<rparr> else e)) d"
    using assms(3) run by (simp add: resolve_conflicts_def commit_def)
  let ?up = "\<lambda>e. if status e = VALIDATED then e\<lparr>status := COMMITTED\<rparr> else e"
  obtain e0 where e0: "dget d i = Some e0" "e = ?up e0" using assms(4) unfolding eff dget_map_vals by auto
  obtain f0 where f0: "dget d j = Some f0" "f = ?up f0" using assms(5) unfolding eff dget_map_vals by auto
  have "grouped e0" "grouped f0" "group_id e0 = group_id f" "group_id f0 = group_id f"
    using assms(6-8) e0(2) f0(2) by (auto simp: grouped_def split: if_splits)
  then have "status e0 = FAILED \<longleftrightarrow> status f0 = FAILED"
    using closed e0(1) f0(1) unfolding group_closed_def by blast
  then show ?thesis using dec e0 f0 by (auto simp: decided_def)
qed

text \<open>
  Rollback leaves nothing behind: in every buffer built by its operations, what waits in the
  outbox is external and listed as committed, each once; and after a rollback no effect counts as
  committed, nothing is listed or waiting, and every effect that was not listed is as it was.
\<close>

lemma rollback_complete:
  assumes "buffers.reach b"
  shows "distinct (outbox b) \<and> (\<forall>i \<in> set (outbox b). i \<in> set (committed b) \<and> (\<exists>e. dget (effects b) i = Some e \<and> side_effect e))
    \<and> committed (snd (rollback b)) = [] \<and> outbox (snd (rollback b)) = []
    \<and> (\<forall>i e. dget (effects (snd (rollback b))) i = Some e \<longrightarrow> status e \<noteq> COMMITTED
         \<and> (i \<notin> set (committed b) \<longrightarrow> dget (effects b) i = Some e))"
proof -
  note ok = reach_buffer_ok [OF assms]
  have "dget (effects b) i = Some e" if "dget (effects (snd (rollback b))) i = Some e" "i \<notin> set (committed b)" for i e
    using that by (simp add: rollback_def dget_map_vals)
  moreover have "status e \<noteq> COMMITTED" if "dget (effects (snd (rollback b))) i = Some e" for i e
    using that rollback_none [OF ok] by (simp add: rollback_def)
  moreover have "committed (snd (rollback b)) = []" "outbox (snd (rollback b)) = []" by (simp_all add: rollback_def)
  ultimately show ?thesis using ok unfolding buffer_ok_def by blast
qed


section \<open>A tick\<close>

text \<open>
  Two agents write the same page; the second one's write belongs to a group with a task.
\<close>

definition ex_buffer :: buffer where
  "ex_buffer = snd (stage TASK_CREATE ''bob'' ''t1'' None None None ''g'' ''group''
     (snd (stage KB_WRITE ''bob'' ''page'' None None None ''g'' ''group''
     (snd (stage KB_WRITE ''alice'' ''page'' None (Some 3) None '''' ''per_effect'' new_buffer)))))"

definition ex_checks :: checks where
  "ex_checks = \<lparr>check_version = Some (\<lambda>r v. v = 3), check_lock = None, check_permission = None, check_task = None\<rparr>"

lemma ex_buffer_reach: "buffers.reach ex_buffer"
proof -
  have "txstep b (snd (stage ty a res dat ver tok grp atom b))" for ty a res dat ver tok grp atom b
    by (rule Stage [of ty a res dat ver tok grp atom b "fst (stage ty a res dat ver tok grp atom b)"]) simp
  note more = buffers.reach_step [OF _ this]
  show ?thesis unfolding ex_buffer_def by (intro more buffers.reach_start refl)
qed

lemma ex_validated_reach: "buffers.reach (snd (validate ex_checks ex_buffer))"
  by (rule buffers.reach_step [OF ex_buffer_reach Validate [of ex_checks ex_buffer "fst (validate ex_checks ex_buffer)"]]) simp

lemma conflicts_resolved_example:
  "\<exists>rs b' e'. resolve_conflicts (snd (validate ex_checks ex_buffer)) = (rs, b')
     \<and> dget (effects b') ''eff.000001'' = Some e' \<and> status e' = VALIDATED
     \<and> agent_id e' = Min {agent_id e |j e. dget (effects (snd (validate ex_checks ex_buffer))) j = Some e
          \<and> status e = VALIDATED \<and> resource e = resource e'}"
proof -
  obtain rs b' where run: "resolve_conflicts (snd (validate ex_checks ex_buffer)) = (rs, b')" by (meson surj_pair)
  have "map_option status (dget (effects (snd (resolve_conflicts (snd (validate ex_checks ex_buffer))))) ''eff.000001'') = Some VALIDATED"
    by code_simp
  then obtain e' where e': "dget (effects b') ''eff.000001'' = Some e'" "status e' = VALIDATED" using run by auto
  show ?thesis using conflicts_resolved [OF ex_validated_reach run e'] run e' by blast
qed

theorem groups_atomic_witness:
  "let b' = snd (commit (snd (resolve_conflicts (snd (validate ex_checks ex_buffer))))) in
   map_option status (dget (effects b') ''eff.000001'') = Some COMMITTED
   \<and> map_option status (dget (effects b') ''eff.000002'') = Some FAILED
   \<and> (\<forall>f. dget (effects b') ''eff.000003'' = Some f \<longrightarrow> status f \<noteq> COMMITTED)"
proof -
  let ?b = "snd (commit (snd (resolve_conflicts (snd (validate ex_checks ex_buffer)))))"
  have c: "map_option status (dget (effects ?b) ''eff.000001'') = Some COMMITTED"
    "map_option (\<lambda>e. (status e, group_id e, grouped e)) (dget (effects ?b) ''eff.000002'') = Some (FAILED, ''g'', True)"
    "map_option (\<lambda>e. (group_id e, grouped e)) (dget (effects ?b) ''eff.000003'') = Some (''g'', True)"
    by code_simp+
  have "list_all (\<lambda>(i, e). status e = STAGED) (effects ex_buffer)" by code_simp
  then have st: "status e = STAGED" if "dget (effects ex_buffer) i = Some e" for i e
    using that by (auto simp: list_all_iff dest!: map_of_SomeD)
  obtain e where e: "dget (effects ?b) ''eff.000002'' = Some e" "status e = FAILED" "group_id e = ''g''" "grouped e" using c(2) by auto
  obtain f where f: "dget (effects ?b) ''eff.000003'' = Some f" "group_id f = ''g''" "grouped f" using c(3) by auto
  have "status e = COMMITTED \<longleftrightarrow> status f = COMMITTED"
    using groups_atomic [OF ex_buffer_reach st refl e(1) f(1) e(4) f(3)] e(3) f(2) by simp
  then show ?thesis using c(1,2) e f by (auto simp: Let_def)
qed

lemma rollback_complete_example:
  "let b = snd (commit (snd (validate ex_checks ex_buffer))) in buffers.reach b \<and> committed b \<noteq> []
     \<and> committed (snd (rollback b)) = []"
proof -
  let ?v = "snd (validate ex_checks ex_buffer)"
  have r: "buffers.reach (snd (commit ?v))"
    by (rule buffers.reach_step [OF ex_validated_reach Commit [of ?v "fst (commit ?v)"]]) simp
  have "committed (snd (commit ?v)) \<noteq> []" by code_simp
  then show ?thesis using rollback_complete [OF r] r by (simp add: Let_def)
qed

section \<open>Corners of the code\<close>

text \<open>
  A group that fails late drags down members that were committed before: they are marked failed
  although their effect has been applied and they stay listed as committed.
\<close>

lemma committed_marked_failed:
  "let b1 = snd (commit (snd (validate ex_checks (snd (stage KB_WRITE ''bob'' ''p'' None None None ''g'' ''group'' new_buffer)))));
       b2 = snd (validate ex_checks (snd (stage KB_WRITE ''bob'' ''q'' None (Some 1) None ''g'' ''group'' b1)))
   in committed b2 = [''eff.000001''] \<and> map_option status (dget (effects b2) ''eff.000001'') = Some FAILED"
  by code_simp

text \<open>
  An effect that a lost conflict has already failed through its group still wins the next one: bob's
  group loses to alice, and carol then loses the second resource to bob, so nobody is left with it.
\<close>

lemma failed_effect_still_wins:
  "let b = snd (stage FILE_WRITE ''carol'' ''y'' None None None '''' ''per_effect''
        (snd (stage FILE_WRITE ''bob'' ''y'' None None None ''g'' ''group''
        (snd (stage FILE_WRITE ''bob'' ''x'' None None None ''g'' ''group''
        (snd (stage FILE_WRITE ''alice'' ''x'' None None None '''' ''per_effect'' new_buffer)))))));
       b' = snd (resolve_conflicts (snd (validate ex_checks b)))
   in map (\<lambda>(i, e). status e) (effects b') = [VALIDATED, FAILED, FAILED, FAILED]"
  by code_simp

end
