(* ===== verification/PredicateDSL.thy ===== *)
theory PredicateDSL
  imports PyString "HOL-Library.List_Lexorder" "HOL-Library.Char_ord"
begin

text \<open>
  The declarative predicates of the archived engine (\<^verbatim>\<open>legacy/predicate.py\<close>, level L0): nodes are
  operator lists in Python values, well formed or not; this theory has their evaluation with its
  audit trail, the static validator and the canonical form with its replay key.  The texts of
  messages are left out; errors keep their class and what they are about.  The hash and the text of
  a float are arguments.
\<close>

section \<open>Constants, errors and scalars\<close>

definition CMP_OPS :: "string list" where
  "CMP_OPS = [''=='', ''!='', ''<'', ''<='', ''>'', ''>='']"

definition KNOWN_OPS :: "string list" where
  "KNOWN_OPS = [''=='', ''!='', ''<'', ''<='', ''>'', ''>='', ''in'', ''all'', ''any'', ''exists'', ''count'',
     ''and'', ''or'', ''not'']"

definition ESCALATION_KEYWORDS :: "string list" where
  "ESCALATION_KEYWORDS = [''socket'', ''http'', ''url'', ''open'', ''write'', ''time'', ''clock'', ''random'',
     ''import'', ''exec'', ''eval'', ''subprocess'', ''os.'', ''requests'']"

datatype perr = PredicateSyntaxError | PredicateTypeError | PredicateEscalationError string bool | PyRaise exc

definition is_escalation_like :: "string \<Rightarrow> bool" where
  "is_escalation_like op = list_ex (\<lambda>k. substr k (lower op)) ESCALATION_KEYWORDS"

fun is_scalar :: "pyval \<Rightarrow> bool" where
  "is_scalar (PStr _) = True"
| "is_scalar (PInt _) = True"
| "is_scalar (PFloat _) = True"
| "is_scalar (PBool _) = True"
| "is_scalar _ = False"

fun is_number :: "pyval \<Rightarrow> bool" where
  "is_number (PInt _) = True"
| "is_number (PFloat _) = True"
| "is_number _ = False"

text \<open>Python's equality.  A NaN equals nothing, itself included.\<close>

definition flt_eq :: "pyfloat \<Rightarrow> pyfloat \<Rightarrow> bool" where
  "flt_eq a b \<longleftrightarrow> a = b \<and> a \<noteq> NaN"

fun py_eq :: "pyval \<Rightarrow> pyval \<Rightarrow> bool"
  and py_eq_list :: "pyval list \<Rightarrow> pyval list \<Rightarrow> bool"
  and py_eq_dict :: "(string \<times> pyval) list \<Rightarrow> (string \<times> pyval) list \<Rightarrow> bool" where
  "py_eq (PStr s) b = (b = PStr s)"
| "py_eq PNone b = (b = PNone)"
| "py_eq (PList l) b = (case b of PList m \<Rightarrow> py_eq_list l m | _ \<Rightarrow> False)"
| "py_eq (PDict d) b = (case b of PDict e \<Rightarrow> length d = length e \<and> py_eq_dict d e | _ \<Rightarrow> False)"
| "py_eq (PBool x) b = (case num_of b of Some y \<Rightarrow> flt_eq (Fin (if x then 1 else 0)) y | None \<Rightarrow> False)"
| "py_eq (PInt x) b = (case num_of b of Some y \<Rightarrow> flt_eq (Fin (of_int x)) y | None \<Rightarrow> False)"
| "py_eq (PFloat x) b = (case num_of b of Some y \<Rightarrow> flt_eq x y | None \<Rightarrow> False)"
| "py_eq_list [] m = (m = [])"
| "py_eq_list (x # l) m = (case m of [] \<Rightarrow> False | y # m' \<Rightarrow> py_eq x y \<and> py_eq_list l m')"
| "py_eq_dict [] e = True"
| "py_eq_dict ((k, x) # d) e = ((case dget e k of None \<Rightarrow> False | Some y \<Rightarrow> py_eq x y) \<and> py_eq_dict d e)"

fun is_bool :: "pyval \<Rightarrow> bool" where
  "is_bool (PBool _) = True"
| "is_bool _ = False"

definition strict_eq :: "pyval \<Rightarrow> pyval \<Rightarrow> bool" where
  "strict_eq a b = (if is_bool a \<or> is_bool b then is_bool a \<and> is_bool b \<and> py_eq a b else py_eq a b)"

text \<open>All six comparisons are computed before one is chosen, so a bound that has no order raises.\<close>

definition compare :: "string \<Rightarrow> pyval \<Rightarrow> pyval \<Rightarrow> perr + bool" where
  "compare op a b =
     (case (num_of a, num_of b) of
        (Some x, Some y) \<Rightarrow> Inr (if op = ''=='' then flt_eq x y else if op = ''!='' then \<not> flt_eq x y
          else if op = ''<'' then flt_lt x y else if op = ''<='' then flt_le x y
          else if op = ''>'' then flt_lt y x else flt_le y x)
      | _ \<Rightarrow> Inl (PyRaise TypeError))"

text \<open>\<^verbatim>\<open>val in lit\<close>\<close>

fun py_in :: "pyval \<Rightarrow> pyval \<Rightarrow> bool res" where
  "py_in v (PList l) = Inr (list_ex (py_eq v) l)"
| "py_in v (PStr s) = (case v of PStr t \<Rightarrow> Inr (substr t s) | _ \<Rightarrow> Inl TypeError)"
| "py_in v (PDict d) = py_in_strs v (dkeys d)"
| "py_in v _ = Inl TypeError"

section \<open>Evaluation\<close>

definition ebind :: "'e + 'a \<Rightarrow> ('a \<Rightarrow> 'e + 'b) \<Rightarrow> 'e + 'b" where
  "ebind r f = (case r of Inl e \<Rightarrow> Inl e | Inr x \<Rightarrow> f x)"

lemma ebind_simps [simp]: "ebind (Inl e) f = Inl e" "ebind (Inr x) f = f x"
  by (simp_all add: ebind_def)

lemma ebind_Inr: "ebind r f = Inr y \<longleftrightarrow> (\<exists>x. r = Inr x \<and> f x = Inr y)"
  by (cases r) simp_all

lemma ebind_cong [fundef_cong]: "r = r' \<Longrightarrow> (\<And>x. r' = Inr x \<Longrightarrow> f x = g x) \<Longrightarrow> ebind r f = ebind r' g"
  by (cases r') simp_all

text \<open>\<^verbatim>\<open>path.split(".")\<close>\<close>

fun split_dots :: "string \<Rightarrow> string list" where
  "split_dots [] = [[]]"
| "split_dots (c # s) = (if c = CHR ''.'' then [] # split_dots s
     else case split_dots s of p # ps \<Rightarrow> (c # p) # ps | [] \<Rightarrow> [[c]])"

fun follow :: "pyval \<Rightarrow> string list \<Rightarrow> pyval option" where
  "follow v [] = Some v"
| "follow (PDict d) (p # ps) = (case dget d p of None \<Rightarrow> None | Some w \<Rightarrow> follow w ps)"
| "follow _ (p # ps) = None"

text \<open>\<open>None\<close> inside is the missing marker.\<close>

definition resolve :: "pyval \<Rightarrow> pyval \<Rightarrow> perr + pyval option" where
  "resolve scope path =
     (case path of
        PStr p \<Rightarrow> Inr (if p = ''.'' then Some scope else follow scope (split_dots p))
      | _ \<Rightarrow> Inl (PyRaise AttributeError))"

record evaluation_step =
  s_op :: string
  s_path :: pyval
  s_result :: bool
  s_missing :: bool

abbreviation step :: "string \<Rightarrow> pyval \<Rightarrow> bool \<Rightarrow> evaluation_step" where
  "step op path r \<equiv> \<lparr>s_op = op, s_path = path, s_result = r, s_missing = False\<rparr>"

type_synonym outcome = "perr + bool \<times> evaluation_step list"

definition missing :: "string \<Rightarrow> pyval \<Rightarrow> outcome" where
  "missing op path = Inr (False, [\<lparr>s_op = op, s_path = path, s_result = False, s_missing = True\<rparr>])"

definition after :: "evaluation_step list \<Rightarrow> outcome \<Rightarrow> outcome" where
  "after st r = ebind r (\<lambda>(b, st'). Inr (b, st @ st'))"

definition eval_exists :: "pyval list \<Rightarrow> pyval \<Rightarrow> outcome" where
  "eval_exists args scope =
     (case args of
        [f] \<Rightarrow> ebind (resolve scope f) (\<lambda>v. Inr (v \<noteq> None,
          [\<lparr>s_op = ''exists'', s_path = f, s_result = v \<noteq> None, s_missing = (v = None)\<rparr>]))
      | _ \<Rightarrow> Inl PredicateTypeError)"

definition eval_count :: "pyval list \<Rightarrow> pyval \<Rightarrow> outcome" where
  "eval_count args scope =
     (case args of
        [f, cmp, num] \<Rightarrow> ebind (resolve scope f) (\<lambda>v.
          (case v of
             None \<Rightarrow> missing ''count'' f
           | Some (PList l) \<Rightarrow>
               (case py_in_strs cmp CMP_OPS of
                  Inl e \<Rightarrow> Inl (PyRaise e)
                | Inr False \<Rightarrow> Inl PredicateTypeError
                | Inr True \<Rightarrow> ebind (compare (case cmp of PStr c \<Rightarrow> c | _ \<Rightarrow> []) (PInt (int (length l))) num)
                    (\<lambda>r. Inr (r, [step ''count'' f r])))
           | Some _ \<Rightarrow> Inl PredicateTypeError))
      | _ \<Rightarrow> Inl PredicateTypeError)"

fun is_container :: "pyval \<Rightarrow> bool" where
  "is_container (PDict _) = True"
| "is_container (PList _) = True"
| "is_container _ = False"

definition eval_leaf :: "string \<Rightarrow> pyval list \<Rightarrow> pyval \<Rightarrow> outcome" where
  "eval_leaf op args scope =
     (case args of
        [f, lit] \<Rightarrow> ebind (resolve scope f) (\<lambda>v.
          (case v of
             None \<Rightarrow> missing op f
           | Some val \<Rightarrow>
               if op = ''=='' \<or> op = ''!='' then
                 if is_container val then Inl PredicateTypeError
                 else let r = (if op = ''=='' then strict_eq val lit else \<not> strict_eq val lit) in Inr (r, [step op f r])
               else if op = ''in'' then
                 (case py_in val lit of Inl _ \<Rightarrow> Inl PredicateTypeError | Inr r \<Rightarrow> Inr (r, [step ''in'' f r]))
               else if \<not> is_number val \<or> \<not> is_number lit then Inl PredicateTypeError
               else ebind (compare op val lit) (\<lambda>r. Inr (r, [step op f r]))))
      | _ \<Rightarrow> Inl PredicateTypeError)"

function (sequential) eval_node :: "pyval \<Rightarrow> pyval \<Rightarrow> outcome"
  and eval_list :: "string \<Rightarrow> pyval list \<Rightarrow> pyval \<Rightarrow> outcome"
  and eval_elems :: "string \<Rightarrow> pyval \<Rightarrow> pyval \<Rightarrow> pyval list \<Rightarrow> outcome" where
  "eval_node (PList (PStr op # args)) scope =
     (if op \<notin> set KNOWN_OPS then Inl (PredicateEscalationError op (is_escalation_like op))
      else if op = ''and'' \<or> op = ''or'' then (if args = [] then Inl PredicateTypeError else eval_list op args scope)
      else if op = ''not'' then
        (case args of
           [c] \<Rightarrow> ebind (eval_node c scope) (\<lambda>(r, st). Inr (\<not> r, st @ [step ''not'' (PStr []) (\<not> r)]))
         | _ \<Rightarrow> Inl PredicateTypeError)
      else if op = ''all'' \<or> op = ''any'' then
        (case args of
           [f, c] \<Rightarrow> ebind (resolve scope f) (\<lambda>v.
             (case v of
                None \<Rightarrow> missing op f
              | Some (PList l) \<Rightarrow> eval_elems op f c l
              | Some _ \<Rightarrow> Inl PredicateTypeError))
         | _ \<Rightarrow> Inl PredicateTypeError)
      else if op = ''exists'' then eval_exists args scope
      else if op = ''count'' then eval_count args scope
      else eval_leaf op args scope)"
| "eval_node n scope = Inl PredicateTypeError"
| "eval_list op [] scope = Inr (op = ''and'', [])"
| "eval_list op (c # cs) scope =
     ebind (eval_node c scope) (\<lambda>(r, st).
       if r = (op = ''and'') then after (st @ [step op (PStr []) r]) (eval_list op cs scope)
       else Inr (r, st @ [step op (PStr []) r]))"
| "eval_elems op f c [] = Inr (op = ''all'', [step op f (op = ''all'')])"
| "eval_elems op f c (x # xs) =
     ebind (eval_node c x) (\<lambda>(r, st).
       if r = (op = ''all'') then after st (eval_elems op f c xs)
       else Inr (r, st @ [step op f r]))"
  by pat_completeness auto
termination
  by (relation "inv_image (less_than <*lex*> less_than <*lex*> less_than)
      (\<lambda>x. case x of Inl (n, _) \<Rightarrow> (size n, 0, 0)
        | Inr (Inl (_, cs, _)) \<Rightarrow> (size_list size cs, 0, 0)
        | Inr (Inr (_, _, c, xs)) \<Rightarrow> (size c, 1, length xs))") auto


section \<open>The static validator\<close>

datatype verr = BadNode | Escalation string bool | NeedsChild string | NotArity | QuantArity string | ExistsArity
  | CountArity | InArity | CmpArity string | FieldNotStr pyval | DotOutside | BadField string | CountCmp pyval
  | BadSyntax | CountBound pyval | InSet | InMember pyval | LitScalar string pyval | LitNumber string pyval

text \<open>\<^verbatim>\<open>_FIELD_RE\<close>: dotted identifiers; the final \<^verbatim>\<open>$\<close> also matches before a last line break.\<close>

definition ident_start :: "char \<Rightarrow> bool" where
  "ident_start c = (let n = of_char c :: nat in 65 \<le> n \<and> n \<le> 90 \<or> 97 \<le> n \<and> n \<le> 122 \<or> n = 95)"

definition ident_char :: "char \<Rightarrow> bool" where
  "ident_char c = (let n = of_char c :: nat in ident_start c \<or> 48 \<le> n \<and> n \<le> 57)"

definition is_ident :: "string \<Rightarrow> bool" where
  "is_ident s = (case s of [] \<Rightarrow> False | c # cs \<Rightarrow> ident_start c \<and> list_all ident_char cs)"

definition field_re :: "string \<Rightarrow> bool" where
  "field_re s = (list_all is_ident (split_dots s)
     \<or> s \<noteq> [] \<and> last s = CHR 0x0A \<and> list_all is_ident (split_dots (butlast s)))"

type_synonym findings = "verr list \<times> string list \<times> string list"

definition check_field :: "pyval \<Rightarrow> bool \<Rightarrow> findings" where
  "check_field f in_quant =
     (case f of
        PStr p \<Rightarrow>
          if p = ''.'' then (if \<not> in_quant then ([DotOutside], [], []) else ([], [], [''.'']))
          else if field_re p then ([], [], [p]) else ([BadField p], [], [])
      | _ \<Rightarrow> ([FieldNotStr f], [], []))"

definition joined :: "findings \<Rightarrow> findings \<Rightarrow> findings" where
  "joined a b = (case (a, b) of ((e, ops, fs), (e', ops', fs')) \<Rightarrow> (e @ e', ops @ ops', fs @ fs'))"

definition noted :: "verr list \<Rightarrow> findings" where
  "noted es = (es, [], [])"

definition walk_count :: "pyval list \<Rightarrow> bool \<Rightarrow> exc + findings" where
  "walk_count args in_quant =
     (case args of
        [f, cmp, num] \<Rightarrow> ebind (py_in_strs cmp CMP_OPS) (\<lambda>ok.
          Inr (joined (check_field f in_quant)
            (noted ((if ok then [] else [CountCmp cmp]) @ (if is_number num then [] else [CountBound num])))))
      | _ \<Rightarrow> Inr (noted [CountArity]))"

definition walk_in :: "pyval list \<Rightarrow> bool \<Rightarrow> findings" where
  "walk_in args in_quant =
     (case args of
        [f, members] \<Rightarrow> joined (check_field f in_quant)
          (noted (case members of
             PList l \<Rightarrow> if l = [] then [InSet] else map InMember (filter (\<lambda>m. \<not> is_scalar m) l)
           | _ \<Rightarrow> [InSet]))
      | _ \<Rightarrow> noted [InArity])"

definition walk_leaf :: "string \<Rightarrow> pyval list \<Rightarrow> bool \<Rightarrow> findings" where
  "walk_leaf op args in_quant =
     (case args of
        [f, lit] \<Rightarrow> joined (check_field f in_quant)
          (noted ((if is_scalar lit then [] else [LitScalar op lit])
             @ (if op \<in> {''<'', ''<='', ''>'', ''>=''} \<and> \<not> is_number lit then [LitNumber op lit] else [])))
      | _ \<Rightarrow> noted [CmpArity op])"

text \<open>The walk over a node; a comparison operator that cannot be hashed makes it raise.\<close>

function (sequential) walk :: "pyval \<Rightarrow> bool \<Rightarrow> exc + findings"
  and walk_list :: "pyval list \<Rightarrow> bool \<Rightarrow> exc + findings" where
  "walk (PList (PStr op # args)) in_quant =
     (if op \<notin> set KNOWN_OPS then Inr (noted [Escalation op (is_escalation_like op)])
      else ebind
        (if op = ''and'' \<or> op = ''or'' then
           ebind (walk_list args in_quant) (\<lambda>r. Inr (joined (noted (if args = [] then [NeedsChild op] else [])) r))
         else if op = ''not'' then (case args of [c] \<Rightarrow> walk c in_quant | _ \<Rightarrow> Inr (noted [NotArity]))
         else if op = ''all'' \<or> op = ''any'' then
           (case args of
              [f, c] \<Rightarrow> ebind (walk c True) (\<lambda>r. Inr (joined (check_field f in_quant) r))
            | _ \<Rightarrow> Inr (noted [QuantArity op]))
         else if op = ''exists'' then
           (case args of [f] \<Rightarrow> Inr (check_field f in_quant) | _ \<Rightarrow> Inr (noted [ExistsArity]))
         else if op = ''count'' then walk_count args in_quant
         else if op = ''in'' then Inr (walk_in args in_quant)
         else Inr (walk_leaf op args in_quant))
        (\<lambda>r. Inr (joined ([], [op], []) r)))"
| "walk n in_quant = Inr (noted [BadNode])"
| "walk_list [] in_quant = Inr (noted [])"
| "walk_list (c # cs) in_quant =
     ebind (walk c in_quant) (\<lambda>r. ebind (walk_list cs in_quant) (\<lambda>r'. Inr (joined r r')))"
  by pat_completeness auto
termination
  by (relation "measure (\<lambda>x. case x of Inl (n, _) \<Rightarrow> size n | Inr (cs, _) \<Rightarrow> size_list size cs)") auto

section \<open>Canonical form and replay key\<close>

text \<open>\<^verbatim>\<open>json.dumps\<close> with its separators and key order; ASCII text.\<close>

definition hexdigit :: "nat \<Rightarrow> char" where
  "hexdigit n = (if n < 10 then char_of (48 + n) else char_of (87 + n))"

definition json_char :: "char \<Rightarrow> string" where
  "json_char c = (let n = of_char c :: nat; b = CHR 0x5C in
     if n = 0x22 \<or> n = 0x5C then [b, c]
     else if n = 0x0A then [b, CHR ''n''] else if n = 0x0D then [b, CHR ''r''] else if n = 0x09 then [b, CHR ''t'']
     else if n = 0x0C then [b, CHR ''f''] else if n = 0x08 then [b, CHR ''b'']
     else if 0x20 \<le> n \<and> n \<le> 0x7E then [c]
     else [b, CHR ''u'', CHR ''0'', CHR ''0'', hexdigit (n div 16), hexdigit (n mod 16)])"

definition json_str :: "string \<Rightarrow> string" where
  "json_str s = [CHR 0x22] @ concat (map json_char s) @ [CHR 0x22]"

definition join :: "string \<Rightarrow> string list \<Rightarrow> string" where
  "join sep ss = (case ss of [] \<Rightarrow> [] | x # xs \<Rightarrow> x @ concat (map (\<lambda>y. sep @ y) xs))"

fun json_text :: "string \<Rightarrow> string \<Rightarrow> bool \<Rightarrow> (pyfloat \<Rightarrow> string) \<Rightarrow> pyval \<Rightarrow> string" where
  "json_text sep col srt fr PNone = ''null''"
| "json_text sep col srt fr (PBool b) = (if b then ''true'' else ''false'')"
| "json_text sep col srt fr (PInt i) = str_int i"
| "json_text sep col srt fr (PFloat x) = fr x"
| "json_text sep col srt fr (PStr s) = json_str s"
| "json_text sep col srt fr (PList l) = ''['' @ join sep (map (json_text sep col srt fr) l) @ '']''"
| "json_text sep col srt fr (PDict d) =
     ''{'' @ join sep (map (\<lambda>(k, t). json_str k @ col @ t)
       ((if srt then sort_key fst else id) (map (\<lambda>(k, v). (k, json_text sep col srt fr v)) d))) @ ''}''"


text \<open>
  The members of a set without repetitions, keyed and sorted by their JSON text.  A tuple and a list
  are the same value here: both are lists to JSON.
\<close>

abbreviation dumps :: "(pyfloat \<Rightarrow> string) \<Rightarrow> pyval \<Rightarrow> string" where
  "dumps \<equiv> json_text '', '' '': '' False"

definition uniq_members :: "(pyfloat \<Rightarrow> string) \<Rightarrow> pyval list \<Rightarrow> pyval list" where
  "uniq_members fr ms = (let u = fold (\<lambda>m d. dset (dumps fr m) m d) ms [] in map (\<lambda>k. the (dget u k)) (sort (dkeys u)))"

fun canonical :: "(pyfloat \<Rightarrow> string) \<Rightarrow> pyval \<Rightarrow> pyval res"
  and canonical_list :: "(pyfloat \<Rightarrow> string) \<Rightarrow> pyval list \<Rightarrow> pyval list res"
  and canonical_kids :: "(pyfloat \<Rightarrow> string) \<Rightarrow> string \<Rightarrow> pyval list \<Rightarrow> pyval list res" where
  "canonical fr (PList l) =
     (case l of
        PStr op # args \<Rightarrow>
          if op = ''in'' \<and> length args = 2
          then rbind (py_list (args ! 1)) (\<lambda>ms. Inr (PList [PStr ''in'', args ! 0, PList (uniq_members fr ms)]))
          else if op = ''and'' \<or> op = ''or''
          then rbind (canonical_kids fr op args) (\<lambda>ks. Inr (PList (PStr op # ks)))
          else rbind (canonical_list fr l) (\<lambda>ks. Inr (PList ks))
      | _ \<Rightarrow> rbind (canonical_list fr l) (\<lambda>ks. Inr (PList ks)))"
| "canonical fr v = Inr v"
| "canonical_list fr [] = Inr []"
| "canonical_list fr (x # xs) = rbind (canonical fr x) (\<lambda>y. rbind (canonical_list fr xs) (\<lambda>ys. Inr (y # ys)))"
| "canonical_kids fr op [] = Inr []"
| "canonical_kids fr op (x # xs) =
     rbind (canonical fr x) (\<lambda>c. rbind (canonical_kids fr op xs) (\<lambda>ks.
       Inr ((case c of PList (PStr o' # cs) \<Rightarrow> if o' = op then cs else [c] | _ \<Rightarrow> [c]) @ ks)))"

definition replay_key :: "(pyfloat \<Rightarrow> string) \<Rightarrow> (string \<Rightarrow> string) \<Rightarrow> pyval \<Rightarrow> string res" where
  "replay_key fr sha256 n = rbind (canonical fr n) (\<lambda>c. Inr (sha256 (json_text '','' '':'' True fr c)))"

record predicate_evaluation =
  pe_value :: bool
  pe_steps :: "evaluation_step list"
  pe_replay_key :: string

definition first_failure :: "predicate_evaluation \<Rightarrow> evaluation_step option" where
  "first_failure e = find (\<lambda>s. \<not> s_result s) (pe_steps e)"

definition evaluate_traced :: "(pyfloat \<Rightarrow> string) \<Rightarrow> (string \<Rightarrow> string) \<Rightarrow> pyval \<Rightarrow> pyval \<Rightarrow> perr + predicate_evaluation" where
  "evaluate_traced fr sha256 n state =
     (case state of
        PDict _ \<Rightarrow> ebind (eval_node n state) (\<lambda>(v, st).
          (case replay_key fr sha256 n of
             Inl e \<Rightarrow> Inl (PyRaise e)
           | Inr k \<Rightarrow> Inr \<lparr>pe_value = v, pe_steps = st, pe_replay_key = k\<rparr>))
      | _ \<Rightarrow> Inl PredicateTypeError)"

record predicate_validation =
  pv_ok :: bool
  pv_errors :: "verr list"
  pv_replay_key :: string
  pv_ops :: "string list"
  pv_fields :: "string list"

definition validate :: "(pyfloat \<Rightarrow> string) \<Rightarrow> (string \<Rightarrow> string) \<Rightarrow> pyval \<Rightarrow> exc + predicate_validation" where
  "validate fr sha256 n =
     rbind (walk n False) (\<lambda>(errors, ops, fields).
       if errors \<noteq> [] then Inr \<lparr>pv_ok = False, pv_errors = errors, pv_replay_key = [], pv_ops = [], pv_fields = []\<rparr>
       else rbind (replay_key fr sha256 n) (\<lambda>k.
         Inr \<lparr>pv_ok = True, pv_errors = [], pv_replay_key = k, pv_ops = ops, pv_fields = rev (remdups (rev fields))\<rparr>))"


section \<open>Validated predicates are safe to evaluate\<close>

definition clean :: "exc + findings \<Rightarrow> bool" where
  "clean r \<longleftrightarrow> (\<exists>ops fs. r = Inr ([], ops, fs))"

definition safe :: "outcome \<Rightarrow> bool" where
  "safe r \<longleftrightarrow> (\<forall>e. r = Inl e \<longrightarrow> e = PredicateTypeError)"

lemma joined_nil: "fst (joined a b) = [] \<longleftrightarrow> fst a = [] \<and> fst b = []"
  by (cases a; cases b) (auto simp: joined_def)

lemma clean_fst: "clean r \<longleftrightarrow> (\<exists>x. r = Inr x \<and> fst x = [])"
  by (auto simp: clean_def)

lemma clean_join [simp]: "clean (ebind r (\<lambda>x. Inr (joined a x))) \<longleftrightarrow> fst a = [] \<and> clean r"
  by (cases r) (auto simp: clean_fst joined_nil)

lemma clean_Inr [simp]: "clean (Inr x) \<longleftrightarrow> fst x = []" "\<not> clean (Inl e)"
  by (simp_all add: clean_fst)

lemma noted_nil [simp]: "fst (noted es) = es"
  by (simp add: noted_def)

lemma clean_walk_Cons: "clean (walk_list (c # cs) q) \<longleftrightarrow> clean (walk c q) \<and> clean (walk_list cs q)"
  by (cases "walk c q"; cases "walk_list cs q") (auto simp: joined_nil)

lemma check_field_ok: "fst (check_field f q) = [] \<Longrightarrow> \<exists>p. f = PStr p"
  by (cases f) (simp_all add: check_field_def)

lemma resolve_str [simp]: "resolve scope (PStr p) = Inr (if p = ''.'' then Some scope else follow scope (split_dots p))"
  by (simp add: resolve_def)

lemma compare_safe: "is_number a \<Longrightarrow> is_number b \<Longrightarrow> \<exists>r. compare op a b = Inr r"
  by (cases a; cases b) (simp_all add: compare_def)

lemma safe_intros [simp]: "safe (Inr x)" "safe (Inl e) \<longleftrightarrow> e = PredicateTypeError" "safe (missing op f)"
  by (simp_all add: safe_def missing_def)

lemma safe_after [simp]: "safe (after st r) = safe r"
  by (cases r) (auto simp: after_def safe_def)

lemma safe_bind: "safe r \<Longrightarrow> (\<And>x. r = Inr x \<Longrightarrow> safe (f x)) \<Longrightarrow> safe (ebind r f)"
  by (cases r) (auto simp: safe_def)

lemma leaf_eq_safe: "op = ''=='' \<or> op = ''!='' \<Longrightarrow> safe (eval_leaf op [PStr p, lit] scope)"
  by (simp add: eval_leaf_def Let_def split: option.splits)

lemma leaf_ord_safe:
  assumes "op \<noteq> ''==''" "op \<noteq> ''!=''" "op \<noteq> ''in''"
  shows "safe (eval_leaf op [PStr p, lit] scope)"
proof -
  have "safe (ebind (compare op val lit) (\<lambda>r. Inr (r, [step op (PStr p) r])))" if "is_number val" "is_number lit" for val
    using compare_safe [OF that, of op] by auto
  then show ?thesis using assms by (auto simp: eval_leaf_def split: option.splits)
qed

lemma leaf_safe: "fst (walk_leaf op args q) = [] \<Longrightarrow> op \<noteq> ''in'' \<Longrightarrow> safe (eval_leaf op args scope)"
proof -
  assume w: "fst (walk_leaf op args q) = []" and op: "op \<noteq> ''in''"
  then obtain f lit where a: "args = [f, lit]" by (auto simp: walk_leaf_def split: list.splits)
  then have "fst (check_field f q) = []" using w by (simp add: walk_leaf_def joined_nil)
  then obtain p where "f = PStr p" using check_field_ok by blast
  then show ?thesis using leaf_eq_safe leaf_ord_safe op a by metis
qed

lemma in_safe: "fst (walk_in args q) = [] \<Longrightarrow> safe (eval_leaf ''in'' args scope)"
  by (auto simp: walk_in_def eval_leaf_def joined_nil dest!: check_field_ok
      split: list.splits if_splits option.splits pyval.splits sum.splits)

lemma count_safe: "clean (walk_count args q) \<Longrightarrow> safe (eval_count args scope)"
proof -
  assume c: "clean (walk_count args q)"
  then obtain f cmp num where a: "args = [f, cmp, num]" by (auto simp: walk_count_def split: list.splits)
  then obtain p where f: "f = PStr p" and n: "is_number num" and h: "py_in_strs cmp CMP_OPS = Inr True"
    using c by (cases "py_in_strs cmp CMP_OPS") (auto simp: walk_count_def joined_nil dest!: check_field_ok split: if_splits)
  have "safe (ebind (compare op (PInt (int k)) num) (\<lambda>r. Inr (r, [step ''count'' f r])))" for op k
    using compare_safe [of "PInt (int k)" num op] n by auto
  then have "safe (case v of None \<Rightarrow> missing ''count'' f
      | Some (PList l) \<Rightarrow> (case py_in_strs cmp CMP_OPS of Inl e \<Rightarrow> Inl (PyRaise e) | Inr False \<Rightarrow> Inl PredicateTypeError
          | Inr True \<Rightarrow> ebind (compare (case cmp of PStr c \<Rightarrow> c | _ \<Rightarrow> []) (PInt (int (length l))) num)
              (\<lambda>r. Inr (r, [step ''count'' f r])))
      | Some _ \<Rightarrow> Inl PredicateTypeError)" for v
    unfolding h by (cases v rule: option.exhaust; simp; rename_tac w; case_tac w; simp)
  then show ?thesis unfolding eval_count_def a list.case f resolve_str ebind_simps using f by blast
qed

lemma exists_safe: "fst (check_field f q) = [] \<Longrightarrow> safe (eval_exists [f] scope)"
  by (auto simp: eval_exists_def dest!: check_field_ok)

text \<open>What the walk accepts and what evaluation does, operator by operator.\<close>

lemma clean_ops:
  "clean (walk (PList (PStr ''and'' # args)) q) \<longleftrightarrow> args \<noteq> [] \<and> clean (walk_list args q)"
  "clean (walk (PList (PStr ''or'' # args)) q) \<longleftrightarrow> args \<noteq> [] \<and> clean (walk_list args q)"
  "clean (walk (PList (PStr ''not'' # args)) q) \<longleftrightarrow> (\<exists>c. args = [c] \<and> clean (walk c q))"
  "clean (walk (PList (PStr ''all'' # args)) q) \<longleftrightarrow> (\<exists>f c. args = [f, c] \<and> fst (check_field f q) = [] \<and> clean (walk c True))"
  "clean (walk (PList (PStr ''any'' # args)) q) \<longleftrightarrow> (\<exists>f c. args = [f, c] \<and> fst (check_field f q) = [] \<and> clean (walk c True))"
  "clean (walk (PList (PStr ''exists'' # args)) q) \<longleftrightarrow> (\<exists>f. args = [f] \<and> fst (check_field f q) = [])"
  "clean (walk (PList (PStr ''count'' # args)) q) \<longleftrightarrow> clean (walk_count args q)"
  "clean (walk (PList (PStr ''in'' # args)) q) \<longleftrightarrow> fst (walk_in args q) = []"
  by (simp_all add: KNOWN_OPS_def joined_nil split: list.splits)

lemma clean_cmp: "op \<in> set CMP_OPS \<Longrightarrow> clean (walk (PList (PStr op # args)) q) \<longleftrightarrow> fst (walk_leaf op args q) = []"
  by (auto simp: CMP_OPS_def KNOWN_OPS_def joined_nil)

lemma eval_ops:
  "eval_node (PList (PStr ''and'' # args)) scope = (if args = [] then Inl PredicateTypeError else eval_list ''and'' args scope)"
  "eval_node (PList (PStr ''or'' # args)) scope = (if args = [] then Inl PredicateTypeError else eval_list ''or'' args scope)"
  "eval_node (PList [PStr ''not'', c]) scope
     = ebind (eval_node c scope) (\<lambda>(r, st). Inr (\<not> r, st @ [step ''not'' (PStr []) (\<not> r)]))"
  "eval_node (PList (PStr ''exists'' # args)) scope = eval_exists args scope"
  "eval_node (PList (PStr ''count'' # args)) scope = eval_count args scope"
  "eval_node (PList (PStr ''in'' # args)) scope = eval_leaf ''in'' args scope"
  by (simp_all add: KNOWN_OPS_def)

definition eval_quant :: "string \<Rightarrow> pyval \<Rightarrow> pyval \<Rightarrow> pyval \<Rightarrow> outcome" where
  "eval_quant op f c scope = ebind (resolve scope f) (\<lambda>v.
     (case v of None \<Rightarrow> missing op f | Some (PList l) \<Rightarrow> eval_elems op f c l | Some _ \<Rightarrow> Inl PredicateTypeError))"

lemma eval_quants:
  "eval_node (PList [PStr ''all'', f, c]) scope = eval_quant ''all'' f c scope"
  "eval_node (PList [PStr ''any'', f, c]) scope = eval_quant ''any'' f c scope"
  by (simp_all add: KNOWN_OPS_def eval_quant_def)

lemma eval_cmp: "op \<in> set CMP_OPS \<Longrightarrow> eval_node (PList (PStr op # args)) scope = eval_leaf op args scope"
  by (auto simp: CMP_OPS_def KNOWN_OPS_def)

declare eval_node.simps(1) [simp del] and walk.simps(1) [simp del]

lemma op_cases:
  assumes "clean (walk n q)"
  obtains (conn) op args where "n = PList (PStr op # args)" "op = ''and'' \<or> op = ''or''" "args \<noteq> []" "clean (walk_list args q)"
  | (neg) c where "n = PList [PStr ''not'', c]" "clean (walk c q)"
  | (quant) op p c where "n = PList [PStr op, PStr p, c]" "op = ''all'' \<or> op = ''any''" "clean (walk c True)"
  | (exi) p where "n = PList [PStr ''exists'', PStr p]"
  | (cnt) args where "n = PList (PStr ''count'' # args)" "clean (walk_count args q)"
  | (mem) args where "n = PList (PStr ''in'' # args)" "fst (walk_in args q) = []"
  | (cmp) op args where "n = PList (PStr op # args)" "op \<in> set CMP_OPS" "fst (walk_leaf op args q) = []"
proof -
  obtain op args where n: "n = PList (PStr op # args)" and known: "op \<in> set KNOWN_OPS"
    using assms by (cases "(n, q)" rule: walk.cases) (auto simp: walk.simps(1) split: if_splits)
  then have "op \<in> set CMP_OPS \<or> op = ''and'' \<or> op = ''or'' \<or> op = ''not'' \<or> op = ''all'' \<or> op = ''any'' \<or> op = ''exists''
      \<or> op = ''count'' \<or> op = ''in''"
    by (auto simp: KNOWN_OPS_def CMP_OPS_def)
  then consider "op \<in> set CMP_OPS" | "op = ''and''" | "op = ''or''" | "op = ''not''" | "op = ''all''" | "op = ''any''"
    | "op = ''exists''" | "op = ''count''" | "op = ''in''" by metis
  then show thesis
  proof cases
    case 1
    have "fst (walk_leaf op args q) = []" using clean_cmp [OF 1] assms n by blast
    then show ?thesis by (rule cmp [OF n 1])
  next
    case 2
    then have "args \<noteq> [] \<and> clean (walk_list args q)" using assms n clean_ops(1) by simp
    then show ?thesis using conn [OF n] 2 by simp
  next
    case 3
    then have "args \<noteq> [] \<and> clean (walk_list args q)" using assms n clean_ops(2) by simp
    then show ?thesis using conn [OF n] 3 by simp
  next
    case 4
    then obtain c where "args = [c]" "clean (walk c q)" using assms n clean_ops(3) by auto
    then show ?thesis using neg [of c] n 4 by simp
  next
    case 5
    then obtain f c where "args = [f, c]" "fst (check_field f q) = []" "clean (walk c True)"
      using assms n clean_ops(4) by auto
    then show ?thesis using quant [of op _ c] n 5 check_field_ok [of f q] by auto
  next
    case 6
    then obtain f c where "args = [f, c]" "fst (check_field f q) = []" "clean (walk c True)"
      using assms n clean_ops(5) by auto
    then show ?thesis using quant [of op _ c] n 6 check_field_ok [of f q] by auto
  next
    case 7
    then obtain f where "args = [f]" "fst (check_field f q) = []" using assms n clean_ops(6) by auto
    then show ?thesis using exi n 7 check_field_ok [of f q] by auto
  next
    case 8
    then show ?thesis using cnt [of args] assms n clean_ops(7) by simp
  next
    case 9
    then show ?thesis using mem [of args] assms n clean_ops(8) by simp
  qed
qed

lemma list_safe:
  "(\<And>c. c \<in> set cs \<Longrightarrow> clean (walk c q) \<Longrightarrow> safe (eval_node c scope)) \<Longrightarrow> clean (walk_list cs q) \<Longrightarrow> safe (eval_list op cs scope)"
proof (induction cs)
  case (Cons c cs)
  have "safe (eval_node c scope)" "safe (eval_list op cs scope)"
    using Cons.IH Cons.prems clean_walk_Cons by auto
  then show ?case by (auto intro!: safe_bind)
qed simp

lemma elems_safe: "(\<And>scope. safe (eval_node c scope)) \<Longrightarrow> safe (eval_elems op f c xs)"
  by (induction xs) (auto intro!: safe_bind)

lemma eval_safe: "clean (walk n q) \<Longrightarrow> safe (eval_node n scope)"
proof (induction n arbitrary: q scope rule: measure_induct_rule [of size])
  case (less n)
  from less.prems show ?case
  proof (cases rule: op_cases)
    case (conn op args)
    have "safe (eval_list op args scope)"
    proof (rule list_safe [OF _ conn(4)])
      fix c assume "c \<in> set args" "clean (walk c q)"
      moreover from this(1) have "size c < size n" using conn(1) size_list_estimation' [of c args "size c" size] by auto
      ultimately show "safe (eval_node c scope)" using less.IH by blast
    qed
    then show ?thesis using conn by (auto simp: eval_ops)
  next
    case (neg c)
    then have "safe (eval_node c scope)" using less.IH [of c q] by simp
    then show ?thesis unfolding neg(1) eval_ops by (rule safe_bind) auto
  next
    case (quant op p c)
    have "safe (eval_elems op (PStr p) c xs)" for xs
      by (rule elems_safe) (use less.IH [of c True] quant in simp)
    then have "safe (case v of None \<Rightarrow> missing op (PStr p) | Some (PList l) \<Rightarrow> eval_elems op (PStr p) c l
        | Some _ \<Rightarrow> Inl PredicateTypeError)" for v
      by (cases v rule: option.exhaust; simp; rename_tac w; case_tac w; simp)
    then have "safe (eval_quant op (PStr p) c scope)"
      unfolding eval_quant_def resolve_str ebind_simps by blast
    then show ?thesis using quant(1,2) eval_quants by auto
  next
    case (exi p)
    show ?thesis unfolding exi eval_ops by (simp add: eval_exists_def)
  next
    case (cnt args)
    then show ?thesis unfolding cnt(1) eval_ops by (intro count_safe)
  next
    case (mem args)
    then show ?thesis unfolding mem(1) eval_ops by (intro in_safe)
  next
    case (cmp op args)
    then have "op \<noteq> ''in''" by (auto simp: CMP_OPS_def)
    then show ?thesis unfolding cmp(1) eval_cmp [OF cmp(2)] using leaf_safe cmp(3) by blast
  qed
qed

text \<open>
  C23. The validator is a gate: a predicate it accepts evaluates on every state to a value, with the
  replay key the validator announced, or fails with the type error of a field that does not fit its
  operator; it never escalates and never lets another exception escape.
\<close>

theorem validated_predicate_safe:
  assumes "validate fr sha256 n = Inr v" and "pv_ok v"
  shows "(\<exists>e. evaluate_traced fr sha256 n (PDict d) = Inr e \<and> pe_replay_key e = pv_replay_key v)
    \<or> evaluate_traced fr sha256 n (PDict d) = Inl PredicateTypeError"
proof -
  obtain ops fs k where w: "walk n False = Inr ([], ops, fs)" and k: "replay_key fr sha256 n = Inr k" "pv_replay_key v = k"
    using assms by (auto simp: validate_def rbind_Inr split: if_splits)
  then have "safe (eval_node n (PDict d))" by (intro eval_safe [of n False]) (simp add: clean_def)
  then show ?thesis using k by (cases "eval_node n (PDict d)") (auto simp: evaluate_traced_def safe_def)
qed

end
