(* ===== verification/PredicateParser.thy ===== *)
theory PredicateParser
  imports PredicateDSL
begin

text \<open>
  The text form of predicates (\<^verbatim>\<open>legacy/predicate.py\<close>): the tokens, the recursive-descent parser, and
  the entry points that accept a text or a node.  A text is a list of UTF-8 bytes; digits outside
  ASCII are not recognised here, and the number a float literal denotes is an argument.
\<close>

section \<open>Tokens\<close>

datatype token_kind = Lparen | Rparen | Lbrace | Rbrace | Comma | Cmp | Num | Str | Word

type_synonym token = "token_kind \<times> string"

definition is_digit :: "char \<Rightarrow> bool" where
  "is_digit c = (let n = of_char c :: nat in 48 \<le> n \<and> n \<le> 57)"

definition word_start :: "char \<Rightarrow> bool" where
  "word_start c = (ident_start c \<or> c = CHR ''.'')"

definition word_char :: "char \<Rightarrow> bool" where
  "word_char c = (ident_char c \<or> c = CHR ''.'')"

text \<open>The alternatives of \<^verbatim>\<open>_TOKEN_RE\<close> as functions from a text to what they match and what is left.\<close>

definition lex_ws :: "string \<Rightarrow> string option" where
  "lex_ws s = (let r = strip_front (length s) WHITESPACE s in if length r < length s then Some r else None)"

definition lex_cmp :: "string \<Rightarrow> (string \<times> string) option" where
  "lex_cmp s = (case s of
     c # d # r \<Rightarrow> if d = CHR ''='' \<and> c \<in> {CHR ''='', CHR ''!'', CHR ''<'', CHR ''>''} then Some ([c, d], r)
       else if c \<in> {CHR ''<'', CHR ''>''} then Some ([c], d # r) else None
   | [c] \<Rightarrow> if c \<in> {CHR ''<'', CHR ''>''} then Some ([c], []) else None
   | [] \<Rightarrow> None)"

definition lex_digits :: "string \<Rightarrow> (string \<times> string) option" where
  "lex_digits s = (if takeWhile is_digit s = [] then None else Some (takeWhile is_digit s, dropWhile is_digit s))"

definition lex_fraction :: "string \<Rightarrow> string \<times> string" where
  "lex_fraction s = (case s of
     c # r \<Rightarrow> (case lex_digits r of Some (ds, r') \<Rightarrow> if c = CHR ''.'' then (c # ds, r') else ([], s) | None \<Rightarrow> ([], s))
   | [] \<Rightarrow> ([], s))"

definition lex_exponent :: "string \<Rightarrow> string \<times> string" where
  "lex_exponent s = (case s of
     c # r \<Rightarrow>
       let (sg, r0) = (case r of d # r' \<Rightarrow> if d \<in> {CHR ''+'', CHR ''-''} then ([d], r') else ([], r) | [] \<Rightarrow> ([], r)) in
       (case lex_digits r0 of
          Some (ds, r') \<Rightarrow> if c \<in> {CHR ''e'', CHR ''E''} then (c # sg @ ds, r') else ([], s)
        | None \<Rightarrow> ([], s))
   | [] \<Rightarrow> ([], s))"

definition lex_num :: "string \<Rightarrow> (string \<times> string) option" where
  "lex_num s =
     (let (sg, r0) = (case s of c # r \<Rightarrow> if c = CHR ''-'' then ([c], r) else ([], s) | [] \<Rightarrow> ([], s)) in
      (case lex_digits r0 of
         None \<Rightarrow> None
       | Some (ds, r1) \<Rightarrow> (case lex_fraction r1 of (fs, r2) \<Rightarrow> (case lex_exponent r2 of (es, r3) \<Rightarrow>
           Some (sg @ ds @ fs @ es, r3)))))"

text \<open>The body of a string up to its closing quote; a backslash takes the next character with it, a line break excepted.\<close>

fun lex_body :: "char \<Rightarrow> string \<Rightarrow> (string \<times> string) option" where
  "lex_body q [] = None"
| "lex_body q (c # s) =
     (if c = q then Some ([c], s)
      else if c = CHR 0x5C then
        (case s of
           [] \<Rightarrow> None
         | d # s' \<Rightarrow> if d = CHR 0x0A then None
             else (case lex_body q s' of Some (b, r) \<Rightarrow> Some (c # d # b, r) | None \<Rightarrow> None))
      else (case lex_body q s of Some (b, r) \<Rightarrow> Some (c # b, r) | None \<Rightarrow> None))"

definition lex_str :: "string \<Rightarrow> (string \<times> string) option" where
  "lex_str s = (case s of
     q # r \<Rightarrow> if q \<in> {CHR 0x22, CHR 0x27} then map_option (\<lambda>(b, r'). (q # b, r')) (lex_body q r) else None
   | [] \<Rightarrow> None)"

definition lex_word :: "string \<Rightarrow> (string \<times> string) option" where
  "lex_word s = (case s of
     c # r \<Rightarrow> if word_start c then Some (c # takeWhile word_char r, dropWhile word_char r) else None
   | [] \<Rightarrow> None)"

definition lex_punct :: "string \<Rightarrow> (token \<times> string) option" where
  "lex_punct s = (case s of
     c # r \<Rightarrow> if c = CHR ''('' then Some ((Lparen, [c]), r) else if c = CHR '')'' then Some ((Rparen, [c]), r)
       else if c = CHR ''{'' then Some ((Lbrace, [c]), r) else if c = CHR ''}'' then Some ((Rbrace, [c]), r)
       else if c = CHR '','' then Some ((Comma, [c]), r) else None
   | [] \<Rightarrow> None)"

text \<open>One match of the expression: a token, or none for white space, and the rest of the text.\<close>

definition lex1 :: "string \<Rightarrow> (token option \<times> string) option" where
  "lex1 s =
     (case lex_ws s of
        Some r \<Rightarrow> Some (None, r)
      | None \<Rightarrow> (case lex_punct s of
        Some (t, r) \<Rightarrow> Some (Some t, r)
      | None \<Rightarrow> (case lex_cmp s of
        Some (m, r) \<Rightarrow> Some (Some (Cmp, m), r)
      | None \<Rightarrow> (case lex_num s of
        Some (m, r) \<Rightarrow> Some (Some (Num, m), r)
      | None \<Rightarrow> (case lex_str s of
        Some (m, r) \<Rightarrow> Some (Some (Str, m), r)
      | None \<Rightarrow> (case lex_word s of
        Some (m, r) \<Rightarrow> Some (Some (Word, m), r)
      | None \<Rightarrow> None))))))"

text \<open>Every match consumes something, so the loop over the text ends.\<close>

lemma lex_digits_shorter: "lex_digits s = Some (m, r) \<Longrightarrow> length r < length s"
  by (auto simp: lex_digits_def split: if_splits) (metis length_append length_greater_0_conv less_add_same_cancel2 takeWhile_dropWhile_id)

lemma lex_body_shorter: "lex_body q s = Some (m, r) \<Longrightarrow> length r < length s"
  by (induction q s arbitrary: m r rule: lex_body.induct) (force split: if_splits list.splits option.splits)+

lemma lex_fraction_shorter: "lex_fraction s = (m, r) \<Longrightarrow> length r \<le> length s"
  by (auto simp: lex_fraction_def dest!: lex_digits_shorter split: list.splits option.splits if_splits)

lemma lex_exponent_shorter: "lex_exponent s = (m, r) \<Longrightarrow> length r \<le> length s"
  by (auto simp: lex_exponent_def dest!: lex_digits_shorter split: list.splits option.splits if_splits)

lemma lex_num_shorter: "lex_num s = Some (m, r) \<Longrightarrow> length r < length s"
  by (auto simp: lex_num_def dest!: lex_digits_shorter lex_fraction_shorter lex_exponent_shorter
      split: list.splits option.splits prod.splits if_splits)

lemma lex1_shorter: "lex1 s = Some (t, r) \<Longrightarrow> length r < length s"
proof -
  assume "lex1 s = Some (t, r)"
  then consider "lex_ws s = Some r" | u where "lex_punct s = Some (u, r)" | m where "lex_cmp s = Some (m, r)"
    | m where "lex_num s = Some (m, r)" | m where "lex_str s = Some (m, r)" | m where "lex_word s = Some (m, r)"
    by (auto simp: lex1_def split: option.splits)
  then show ?thesis
  proof cases
    case 1
    then show ?thesis by (auto simp: lex_ws_def Let_def split: if_splits)
  next
    case 2
    then show ?thesis by (auto simp: lex_punct_def split: list.splits if_splits)
  next
    case 3
    then show ?thesis by (auto simp: lex_cmp_def split: list.splits if_splits)
  next
    case 4
    then show ?thesis by (rule lex_num_shorter)
  next
    case 5
    then show ?thesis by (auto simp: lex_str_def dest!: lex_body_shorter split: list.splits if_splits)
  next
    case 6
    then show ?thesis by (auto simp: lex_word_def less_Suc_eq_le intro: length_dropWhile_le split: list.splits if_splits)
  qed
qed

function tokenize :: "string \<Rightarrow> perr + token list" where
  "tokenize s =
     (if s = [] then Inr []
      else case lex1 s of
        None \<Rightarrow> Inl PredicateSyntaxError
      | Some (t, r) \<Rightarrow> ebind (tokenize r) (\<lambda>ts. Inr (case t of Some u \<Rightarrow> u # ts | None \<Rightarrow> ts)))"
  by pat_completeness auto
termination
  by (relation "measure length") (auto dest: lex1_shorter)

declare tokenize.simps [simp del]

section \<open>The parser\<close>

text \<open>
  A parser takes the tokens that are left and returns a result with the tokens after it.  Its only error
  is a syntax error.
\<close>

type_synonym 'a parsed = "perr + 'a \<times> token list"

definition next_token :: "token list \<Rightarrow> token parsed" where
  "next_token ts = (case ts of [] \<Rightarrow> Inl PredicateSyntaxError | t # r \<Rightarrow> Inr (t, r))"

definition expect :: "token_kind \<Rightarrow> token list \<Rightarrow> perr + token list" where
  "expect k ts = ebind (next_token ts) (\<lambda>(t, r). if fst t \<noteq> k then Inl PredicateSyntaxError else Inr r)"

definition parse_field :: "token list \<Rightarrow> string parsed" where
  "parse_field ts = ebind (next_token ts) (\<lambda>(t, r).
     if fst t \<noteq> Word then Inl PredicateSyntaxError
     else if snd t \<noteq> ''.'' \<and> \<not> field_re (snd t) then Inl PredicateSyntaxError
     else Inr (snd t, r))"

definition parse_cmp :: "token list \<Rightarrow> string parsed" where
  "parse_cmp ts = ebind (next_token ts) (\<lambda>(t, r). if fst t = Cmp then Inr (snd t, r) else Inl PredicateSyntaxError)"

text \<open>\<^verbatim>\<open>int\<close> of a number token, and the choice between \<^verbatim>\<open>int\<close> and \<^verbatim>\<open>float\<close>.\<close>

definition int_of_text :: "string \<Rightarrow> int" where
  "int_of_text s = (case s of c # r \<Rightarrow> if c = CHR ''-'' then - int (value_of r) else int (value_of s) | [] \<Rightarrow> 0)"

definition number :: "(string \<Rightarrow> pyfloat) \<Rightarrow> string \<Rightarrow> pyval" where
  "number to_float s = (if set s \<inter> {CHR ''.'', CHR ''e'', CHR ''E''} \<noteq> {} then PFloat (to_float s) else PInt (int_of_text s))"

definition parse_number :: "(string \<Rightarrow> pyfloat) \<Rightarrow> token list \<Rightarrow> pyval parsed" where
  "parse_number to_float ts = ebind (next_token ts) (\<lambda>(t, r).
     if fst t \<noteq> Num then Inl PredicateSyntaxError else Inr (number to_float (snd t), r))"

definition escape_map :: "char \<Rightarrow> char" where
  "escape_map c = (if c = CHR ''n'' then CHR 0x0A else if c = CHR ''t'' then CHR 0x09 else if c = CHR ''r'' then CHR 0x0D else c)"

fun unescape :: "string \<Rightarrow> string" where
  "unescape [] = []"
| "unescape [c] = [c]"
| "unescape (c # d # s) = (if c = CHR 0x5C then escape_map d # unescape s else c # unescape (d # s))"

definition parse_literal :: "(string \<Rightarrow> pyfloat) \<Rightarrow> token list \<Rightarrow> pyval parsed" where
  "parse_literal to_float ts = ebind (next_token ts) (\<lambda>((kind, value), r).
     if kind = Str then Inr (PStr (unescape (butlast (tl value))), r)
     else if kind = Num then Inr (number to_float value, r)
     else if kind = Word \<and> value = ''true'' then Inr (PBool True, r)
     else if kind = Word \<and> value = ''false'' then Inr (PBool False, r)
     else Inl PredicateSyntaxError)"

definition looks_like_call :: "token list \<Rightarrow> bool" where
  "looks_like_call ts = (case ts of _ # (k, _) # _ \<Rightarrow> k = Lparen | _ \<Rightarrow> False)"

lemma expect_shorter: "expect k ts = Inr r \<Longrightarrow> length r < length ts"
  by (auto simp: expect_def next_token_def split: list.splits if_splits)

lemma parse_field_shorter: "parse_field ts = Inr (f, r) \<Longrightarrow> length r < length ts"
  by (auto simp: parse_field_def next_token_def split: list.splits if_splits)

lemma parse_cmp_shorter: "parse_cmp ts = Inr (c, r) \<Longrightarrow> length r < length ts"
  by (auto simp: parse_cmp_def next_token_def split: list.splits if_splits)

lemma parse_number_shorter: "parse_number tf ts = Inr (v, r) \<Longrightarrow> length r < length ts"
  by (auto simp: parse_number_def next_token_def split: list.splits if_splits)

lemma parse_literal_shorter: "parse_literal tf ts = Inr (v, r) \<Longrightarrow> length r < length ts"
  by (auto simp: parse_literal_def next_token_def split: list.splits if_splits prod.splits)

lemmas token_shorter = expect_shorter parse_field_shorter parse_cmp_shorter parse_number_shorter parse_literal_shorter

text \<open>The members of a set, up to the last one.\<close>

function parse_members :: "(string \<Rightarrow> pyfloat) \<Rightarrow> token list \<Rightarrow> pyval list parsed" where
  "parse_members tf ts = ebind (parse_literal tf ts) (\<lambda>(m, r).
     (case r of
        (k, v) # r' \<Rightarrow> if k = Comma then ebind (parse_members tf r') (\<lambda>(ms, r''). Inr (m # ms, r'')) else Inr ([m], r)
      | [] \<Rightarrow> Inr ([m], r)))"
  by pat_completeness auto
termination
  by (relation "measure (\<lambda>(tf, ts). length ts)") (auto dest!: parse_literal_shorter)

declare parse_members.simps [simp del]

text \<open>The atoms that hold no other predicate.\<close>

definition parse_exists :: "token list \<Rightarrow> pyval parsed" where
  "parse_exists ts = ebind (expect Lparen ts) (\<lambda>r. ebind (parse_field r) (\<lambda>(f, r).
     ebind (expect Rparen r) (\<lambda>r. Inr (PList [PStr ''exists'', PStr f], r))))"

definition parse_count :: "(string \<Rightarrow> pyfloat) \<Rightarrow> token list \<Rightarrow> pyval parsed" where
  "parse_count tf ts = ebind (expect Lparen ts) (\<lambda>r. ebind (parse_field r) (\<lambda>(f, r).
     ebind (expect Rparen r) (\<lambda>r. ebind (parse_cmp r) (\<lambda>(c, r). ebind (parse_number tf r) (\<lambda>(n, r).
       Inr (PList [PStr ''count'', PStr f, PStr c, n], r))))))"

definition parse_leaf :: "(string \<Rightarrow> pyfloat) \<Rightarrow> token list \<Rightarrow> pyval parsed" where
  "parse_leaf tf ts = ebind (parse_field ts) (\<lambda>(f, r).
     (case r of
        (k, v) # r' \<Rightarrow>
          if k = Word \<and> v = ''in'' then
            ebind (expect Lbrace r') (\<lambda>r. ebind (parse_members tf r) (\<lambda>(ms, r).
              ebind (expect Rbrace r) (\<lambda>r. Inr (PList [PStr ''in'', PStr f, PList ms], r))))
          else ebind (parse_cmp r) (\<lambda>(c, r). ebind (parse_literal tf r) (\<lambda>(l, r). Inr (PList [PStr c, PStr f, l], r)))
      | [] \<Rightarrow> ebind (parse_cmp r) (\<lambda>(c, r). ebind (parse_literal tf r) (\<lambda>(l, r). Inr (PList [PStr c, PStr f, l], r)))))"

text \<open>Chains, terms and atoms.  The operators and terms of a chain are collected first, then nested to the left.\<close>

abbreviation nest :: "pyval \<Rightarrow> (string \<times> pyval) list \<Rightarrow> pyval" where
  "nest t ots \<equiv> foldl (\<lambda>node (op, t). PList [PStr op, node, t]) t ots"

function (sequential) parse_chain :: "(string \<Rightarrow> pyfloat) \<Rightarrow> token list \<Rightarrow> pyval parsed"
  and chain_rest :: "(string \<Rightarrow> pyfloat) \<Rightarrow> token list \<Rightarrow> (string \<times> pyval) list parsed"
  and parse_term :: "(string \<Rightarrow> pyfloat) \<Rightarrow> token list \<Rightarrow> pyval parsed"
  and parse_atom :: "(string \<Rightarrow> pyfloat) \<Rightarrow> token list \<Rightarrow> pyval parsed"
  and parse_preds :: "(string \<Rightarrow> pyfloat) \<Rightarrow> token list \<Rightarrow> pyval list parsed" where
  "parse_chain tf ts = ebind (parse_term tf ts) (\<lambda>(t, r). ebind (chain_rest tf r) (\<lambda>(ots, r'). Inr (nest t ots, r')))"
| "chain_rest tf [] = Inr ([], [])"
| "chain_rest tf ((k, w) # r) =
     (if k = Word \<and> (w = ''and'' \<or> w = ''or'')
      then ebind (parse_term tf r) (\<lambda>(t, r1). ebind (chain_rest tf r1) (\<lambda>(ots, r2). Inr ((w, t) # ots, r2)))
      else Inr ([], (k, w) # r))"
| "parse_term tf [] = parse_atom tf []"
| "parse_term tf ((k, w) # r) =
     (if k = Word \<and> w = ''not'' then ebind (parse_term tf r) (\<lambda>(p, r'). Inr (PList [PStr ''not'', p], r'))
      else parse_atom tf ((k, w) # r))"
| "parse_atom tf [] = Inl PredicateSyntaxError"
| "parse_atom tf ((k, w) # r) =
     (if k = Lparen then ebind (parse_chain tf r) (\<lambda>(p, r1). ebind (expect Rparen r1) (\<lambda>r2. Inr (p, r2)))
      else if k \<noteq> Word then Inl PredicateSyntaxError
      else let call = looks_like_call ((k, w) # r) in
        if (w = ''and'' \<or> w = ''or'') \<and> call then
          ebind (expect Lparen r) (\<lambda>r1. ebind (parse_preds tf r1) (\<lambda>(ps, r2).
            ebind (expect Rparen r2) (\<lambda>r3. Inr (PList (PStr w # ps), r3))))
        else if (w = ''all'' \<or> w = ''any'') \<and> call then
          ebind (expect Lparen r) (\<lambda>r1. ebind (parse_field r1) (\<lambda>(f, r2). ebind (expect Comma r2) (\<lambda>r3.
            ebind (parse_chain tf r3) (\<lambda>(p, r4). ebind (expect Rparen r4) (\<lambda>r5. Inr (PList [PStr w, PStr f, p], r5))))))
        else if w = ''exists'' \<and> call then parse_exists r
        else if w = ''count'' \<and> call then parse_count tf r
        else parse_leaf tf ((k, w) # r))"
| "parse_preds tf ts = ebind (parse_chain tf ts) (\<lambda>(p, r).
     (case r of
        (k, v) # r' \<Rightarrow> if k = Comma then ebind (parse_preds tf r') (\<lambda>(ps, r''). Inr (p # ps, r'')) else Inr ([p], r)
      | [] \<Rightarrow> Inr ([p], r)))"
  by pat_completeness auto

text \<open>Every parser consumes its tokens from the front; that is why the recursion ends.\<close>

text \<open>The ways a list of items separated by commas can be read.\<close>

lemma comma_split:
  assumes "ebind (item ts) (\<lambda>(p, r).
     (case r of
        (k, v) # r' \<Rightarrow> if k = Comma then ebind (items r') (\<lambda>(ps, r''). Inr (p # ps, r'')) else Inr ([p], r)
      | [] \<Rightarrow> Inr ([p], r))) = Inr (ps, u)"
  obtains (last) p where "item ts = Inr (p, u)" "ps = [p]"
  | (more) p v r' ps' where "item ts = Inr (p, (Comma, v) # r')" "items r' = Inr (ps', u)" "ps = p # ps'"
proof -
  obtain p r where p: "item ts = Inr (p, r)" using assms by (auto simp: ebind_Inr)
  with assms show thesis using last more by (cases r) (auto simp: ebind_Inr split: if_splits)
qed

lemma parse_members_shorter: "parse_members tf ts = Inr (ms, r) \<Longrightarrow> length r < length ts"
proof (induction tf ts arbitrary: ms r rule: parse_members.induct)
  case (1 tf ts)
  from "1.prems" [unfolded parse_members.simps [of tf ts]] show ?case
  proof (cases rule: comma_split)
    case (more p v r' ps')
    then have "length r < length r'" using "1.IH" by blast
    then show ?thesis using parse_literal_shorter [OF more(1)] by simp
  qed (rule parse_literal_shorter)
qed

lemma parse_exists_shorter: "parse_exists ts = Inr (p, r) \<Longrightarrow> length r < length ts"
  by (auto simp: parse_exists_def ebind_Inr dest!: token_shorter)

lemma parse_count_shorter: "parse_count tf ts = Inr (p, r) \<Longrightarrow> length r < length ts"
  by (auto simp: parse_count_def ebind_Inr dest!: token_shorter)

lemma parse_leaf_shorter: "parse_leaf tf ts = Inr (p, r) \<Longrightarrow> length r < length ts"
proof -
  assume p: "parse_leaf tf ts = Inr (p, r)"
  then obtain f u where f: "parse_field ts = Inr (f, u)" by (auto simp: parse_leaf_def ebind_Inr)
  with p show ?thesis
    by (cases u) (auto simp: parse_leaf_def ebind_Inr dest!: token_shorter parse_members_shorter split: if_splits)
qed

lemmas atom_shorter = parse_exists_shorter parse_count_shorter parse_leaf_shorter

text \<open>The ways an atom can be read.\<close>

lemma atom_split:
  assumes "(if kl then ebind (chain r) (\<lambda>(p, r1). ebind (expect Rparen r1) (\<lambda>r2. Inr (p, r2)))
      else if kw then Inl PredicateSyntaxError
      else let call = c in
        if A \<and> call then
          ebind (expect Lparen r) (\<lambda>r1. ebind (preds r1) (\<lambda>(ps, r2).
            ebind (expect Rparen r2) (\<lambda>r3. Inr (PList (PStr w # ps), r3))))
        else if Q \<and> call then
          ebind (expect Lparen r) (\<lambda>r1. ebind (parse_field r1) (\<lambda>(f, r2). ebind (expect Comma r2) (\<lambda>r3.
            ebind (chain r3) (\<lambda>(p, r4). ebind (expect Rparen r4) (\<lambda>r5. Inr (PList [PStr w, PStr f, p], r5))))))
        else if E \<and> call then parse_exists r
        else if N \<and> call then parse_count tf r
        else parse_leaf tf ts) = Inr (p, u)"
  obtains (group) r1 where "kl" "chain r = Inr (p, r1)" "expect Rparen r1 = Inr u"
  | (conn) r1 r2 ps where "\<not> kl" "\<not> kw" A c "expect Lparen r = Inr r1" "preds r1 = Inr (ps, r2)" "expect Rparen r2 = Inr u"
      "p = PList (PStr w # ps)"
  | (quant) r1 f r2 r3 q r4 where "\<not> kl" "\<not> kw" "\<not> (A \<and> c)" Q c "expect Lparen r = Inr r1" "parse_field r1 = Inr (f, r2)"
      "expect Comma r2 = Inr r3" "chain r3 = Inr (q, r4)" "expect Rparen r4 = Inr u" "p = PList [PStr w, PStr f, q]"
  | (exi) "parse_exists r = Inr (p, u)"
  | (cnt) "parse_count tf r = Inr (p, u)"
  | (leaf) "parse_leaf tf ts = Inr (p, u)"
proof -
  consider "kl" | "\<not> kl" "kw" | "\<not> kl" "\<not> kw" "A \<and> c" | "\<not> kl" "\<not> kw" "\<not> (A \<and> c)" "Q \<and> c"
    | "\<not> kl" "\<not> kw" "\<not> (A \<and> c)" "\<not> (Q \<and> c)" by blast
  then show thesis
  proof cases
    case 1
    then show thesis using assms group by (auto simp: ebind_Inr)
  next
    case 3
    then show thesis using assms conn by (auto simp: ebind_Inr Let_def)
  next
    case 4
    have "(if kl then a else if kw then b else let call = c in if A \<and> call then d else if Q \<and> call then e else z call) = e"
      for a b d e :: "pyval parsed" and z using 4 by simp
    from assms [unfolded this] show thesis using 4 quant by (auto simp: ebind_Inr)
  next
    case 5
    then show thesis using assms exi cnt leaf by (auto simp: Let_def split: if_splits)
  qed (use assms in simp)
qed

abbreviation parser_dom where
  "parser_dom \<equiv> parse_chain_chain_rest_parse_term_parse_atom_parse_preds_dom"

lemma parser_shorter:
  "parser_dom (Inl (Inl (tf, ts))) \<Longrightarrow> \<forall>p r. parse_chain tf ts = Inr (p, r) \<longrightarrow> length r < length ts"
  "parser_dom (Inl (Inr (tf, ts))) \<Longrightarrow> \<forall>p r. chain_rest tf ts = Inr (p, r) \<longrightarrow> length r \<le> length ts"
  "parser_dom (Inr (Inl (tf, ts))) \<Longrightarrow> \<forall>p r. parse_term tf ts = Inr (p, r) \<longrightarrow> length r < length ts"
  "parser_dom (Inr (Inr (Inl (tf, ts)))) \<Longrightarrow> \<forall>p r. parse_atom tf ts = Inr (p, r) \<longrightarrow> length r < length ts"
  "parser_dom (Inr (Inr (Inr (tf, ts)))) \<Longrightarrow> \<forall>p r. parse_preds tf ts = Inr (p, r) \<longrightarrow> length r < length ts"
proof (induction rule: parse_chain_chain_rest_parse_term_parse_atom_parse_preds.pinduct)
  case (1 tf ts)
  show ?case
  proof (intro allI impI)
    fix p r assume "parse_chain tf ts = Inr (p, r)"
    then obtain t u ots where t: "parse_term tf ts = Inr (t, u)" and o: "chain_rest tf u = Inr (ots, r)"
      using 1(1) by (auto simp: parse_chain.psimps ebind_Inr)
    have "length u < length ts" using 1(2) t by blast
    moreover have "length r \<le> length u" using 1(3) [OF t refl] o by blast
    ultimately show "length r < length ts" by simp
  qed
next
  case (3 tf k w r)
  show ?case
  proof (intro allI impI)
    fix ots q assume c: "chain_rest tf ((k, w) # r) = Inr (ots, q)"
    show "length q \<le> length ((k, w) # r)"
    proof (cases "k = Word \<and> (w = ''and'' \<or> w = ''or'')")
      case True
      then obtain t u ots' where t: "parse_term tf r = Inr (t, u)" and o: "chain_rest tf u = Inr (ots', q)"
        using c unfolding chain_rest.psimps(2) [OF 3(1)] if_P [OF True] by (auto simp: ebind_Inr)
      have "length u < length r" using 3(2) [OF True] t by blast
      moreover have "length q \<le> length u" using 3(3) [OF True t refl] o by blast
      ultimately show ?thesis by simp
    next
      case False
      then show ?thesis using c unfolding chain_rest.psimps(2) [OF 3(1)] if_not_P [OF False] by auto
    qed
  qed
next
  case (5 tf k w r)
  then show ?case by (auto simp: parse_term.psimps ebind_Inr split: if_splits)
next
  case (7 tf k w r)
  note IH = 7(2-4)
  show ?case
  proof (intro allI impI)
    fix p u assume "parse_atom tf ((k, w) # r) = Inr (p, u)"
    from this [unfolded parse_atom.psimps(2) [OF 7(1)]] show "length u < length ((k, w) # r)"
    proof (rule atom_split [where chain = "parse_chain tf" and preds = "parse_preds tf"], goal_cases)
      case (1 r1)
      then have "length r1 < length r" using IH(1) by blast
      then show ?case using expect_shorter [OF 1(3)] by simp
    next
      case (2 r1 r2 ps)
      have "length r2 < length r1" using IH(2) [OF 2(1,2) refl conjI [OF 2(3,4)] 2(5)] 2(6) by blast
      then show ?case using expect_shorter [OF 2(5)] expect_shorter [OF 2(7)] by simp
    next
      case (3 r1 f r2 r3 q r4)
      have "length r4 < length r3" using IH(3) [OF 3(1,2) refl 3(3) conjI [OF 3(4,5)] 3(6,7) refl 3(8)] 3(9) by blast
      then show ?case
        using expect_shorter [OF 3(6)] parse_field_shorter [OF 3(7)] expect_shorter [OF 3(8)] expect_shorter [OF 3(10)] by simp
    qed (auto dest!: atom_shorter)
  qed
next
  case (8 tf ts)
  show ?case
  proof (intro allI impI)
    fix ps u assume "parse_preds tf ts = Inr (ps, u)"
    from this [unfolded parse_preds.psimps [OF 8(1)]] show "length u < length ts"
    proof (cases rule: comma_split)
      case last
      then show ?thesis using 8(2) by blast
    next
      case (more p v r' ps')
      then have "length u < length r'" using 8(3) by blast
      then show ?thesis using 8(2) more(1) by fastforce
    qed
  qed
qed (simp_all add: chain_rest.psimps parse_term.psimps parse_atom.psimps)

termination parse_chain
  by (relation "measure (\<lambda>x. case x of
        Inl (Inl (_, ts)) \<Rightarrow> 4 * length ts + 2 | Inl (Inr (_, ts)) \<Rightarrow> 4 * length ts + 2
      | Inr (Inl (_, ts)) \<Rightarrow> 4 * length ts + 1 | Inr (Inr (Inl (_, ts))) \<Rightarrow> 4 * length ts
      | Inr (Inr (Inr (_, ts))) \<Rightarrow> 4 * length ts + 3)")
    (auto dest!: token_shorter parser_shorter)

declare parse_chain.simps [simp del] and parse_preds.simps [simp del] and chain_rest.simps [simp del]
  and parse_term.simps [simp del] and parse_atom.simps [simp del]

definition parse :: "(string \<Rightarrow> pyfloat) \<Rightarrow> string \<Rightarrow> perr + pyval" where
  "parse tf text =
     (if text = [] \<or> strip text = [] then Inl PredicateSyntaxError
      else ebind (tokenize text) (\<lambda>ts. ebind (parse_chain tf ts) (\<lambda>(n, r).
        if r \<noteq> [] then Inl PredicateSyntaxError else Inr n)))"

section \<open>Texts and nodes\<close>

text \<open>The entry points take either form.\<close>

datatype source = Text string | Node pyval

definition node_of :: "(string \<Rightarrow> pyfloat) \<Rightarrow> source \<Rightarrow> perr + pyval" where
  "node_of tf src = (case src of Text s \<Rightarrow> parse tf s | Node n \<Rightarrow> Inr n)"

definition evaluate :: "(string \<Rightarrow> pyfloat) \<Rightarrow> (pyfloat \<Rightarrow> string) \<Rightarrow> (string \<Rightarrow> string) \<Rightarrow> source \<Rightarrow> pyval \<Rightarrow> perr + bool" where
  "evaluate tf fr sha256 src state =
     ebind (node_of tf src) (\<lambda>n. ebind (evaluate_traced fr sha256 n state) (\<lambda>e. Inr (pe_value e)))"

definition validate_source :: "(string \<Rightarrow> pyfloat) \<Rightarrow> (pyfloat \<Rightarrow> string) \<Rightarrow> (string \<Rightarrow> string) \<Rightarrow> source
    \<Rightarrow> exc + predicate_validation" where
  "validate_source tf fr sha256 src =
     (case node_of tf src of
        Inl _ \<Rightarrow> Inr \<lparr>pv_ok = False, pv_errors = [BadSyntax], pv_replay_key = [], pv_ops = [], pv_fields = []\<rparr>
      | Inr n \<Rightarrow> validate fr sha256 n)"

section \<open>What the parser produces\<close>

text \<open>Nodes to which the validator can only object where it looks at scopes and at the type of a bound.\<close>

definition mild :: "verr \<Rightarrow> bool" where
  "mild e \<longleftrightarrow> e = DotOutside \<or> (\<exists>op l. e = LitNumber op l)"

definition acceptable :: "exc + findings \<Rightarrow> bool" where
  "acceptable r \<longleftrightarrow> (\<exists>x. r = Inr x \<and> list_all mild (fst x))"

definition well_formed :: "pyval \<Rightarrow> bool" where
  "well_formed n \<longleftrightarrow> (\<forall>q. acceptable (walk n q)) \<and> (\<forall>scope. safe (eval_node n scope))"

lemma fst_joined: "fst (joined a b) = fst a @ fst b"
  by (cases a; cases b) (simp add: joined_def)

lemma field_mild:
  assumes "p = ''.'' \<or> field_re p"
  shows "list_all mild (fst (check_field (PStr p) q))"
  using assms by (auto simp: check_field_def mild_def)

lemma parse_field_ok: "parse_field ts = Inr (f, r) \<Longrightarrow> f = ''.'' \<or> field_re f"
  by (auto simp: parse_field_def next_token_def split: list.splits if_splits)

lemma number_ok [simp]: "is_number (number tf s)"
  by (simp add: number_def)

lemma literal_ok: "parse_literal tf ts = Inr (v, r) \<Longrightarrow> is_scalar v"
proof -
  have "is_scalar (number tf s)" for s by (simp add: number_def)
  then show "parse_literal tf ts = Inr (v, r) \<Longrightarrow> is_scalar v"
    by (auto simp: parse_literal_def next_token_def split: list.splits if_splits)
qed

lemma parse_number_ok: "parse_number tf ts = Inr (v, r) \<Longrightarrow> is_number v"
  by (auto simp: parse_number_def next_token_def split: list.splits if_splits)

lemma members_ok: "parse_members tf ts = Inr (ms, r) \<Longrightarrow> ms \<noteq> [] \<and> list_all is_scalar ms"
proof (induction tf ts arbitrary: ms r rule: parse_members.induct)
  case (1 tf ts)
  from "1.prems" [unfolded parse_members.simps [of tf ts]] show ?case
  proof (cases rule: comma_split)
    case (more p v r' ps')
    then show ?thesis using "1.IH" [OF more(1)] literal_ok [OF more(1)] by simp
  qed (simp add: literal_ok)
qed

lemma acceptable_simps [simp]:
  "acceptable (Inr x) \<longleftrightarrow> list_all mild (fst x)" "\<not> acceptable (Inl e)"
  "acceptable (ebind r (\<lambda>x. Inr (joined a x))) \<longleftrightarrow> list_all mild (fst a) \<and> acceptable r"
proof -
  show "acceptable (Inr x) \<longleftrightarrow> list_all mild (fst x)" "\<not> acceptable (Inl e)" for x e by (simp_all add: acceptable_def)
  then show "acceptable (ebind r (\<lambda>x. Inr (joined a x))) \<longleftrightarrow> list_all mild (fst a) \<and> acceptable r"
    by (cases r) (simp_all add: fst_joined)
qed

lemma acceptable_list: "acceptable (walk_list cs q) \<longleftrightarrow> (\<forall>c \<in> set cs. acceptable (walk c q))"
proof (induction cs)
  case (Cons c cs)
  then show ?case by (cases "walk c q"; cases "walk_list cs q") (auto simp: fst_joined)
qed (simp add: noted_def)

lemma eval_list_safe: "(\<And>c. c \<in> set cs \<Longrightarrow> safe (eval_node c scope)) \<Longrightarrow> safe (eval_list op cs scope)"
proof (induction cs)
  case (Cons c cs)
  then have "safe (eval_node c scope)" "safe (eval_list op cs scope)" by simp_all
  then show ?case by (auto intro!: safe_bind)
qed simp

lemma check_field_True: "p = ''.'' \<or> field_re p \<Longrightarrow> fst (check_field (PStr p) True) = []"
  by (auto simp: check_field_def)

lemma wf_conn:
  assumes "op = ''and'' \<or> op = ''or''" and "ps \<noteq> []" and "list_all well_formed ps"
  shows "well_formed (PList (PStr op # ps))"
proof -
  have "safe (eval_list op ps scope)" for scope
    using assms(3) by (intro eval_list_safe) (simp add: list_all_iff well_formed_def)
  then have "safe (eval_node (PList (PStr op # ps)) scope)" for scope using assms(1,2) by (auto simp: eval_ops)
  moreover have "acceptable (walk (PList (PStr op # ps)) q)" for q
    using assms by (auto simp: well_formed_def walk.simps(1) KNOWN_OPS_def acceptable_list list_all_iff noted_def)
  ultimately show ?thesis by (simp add: well_formed_def)
qed

lemma wf_not: "well_formed p \<Longrightarrow> well_formed (PList [PStr ''not'', p])"
  by (auto simp: well_formed_def walk.simps(1) KNOWN_OPS_def eval_ops intro!: safe_bind)

lemma quant_safe: "(\<And>scope. safe (eval_node p scope)) \<Longrightarrow> safe (eval_quant op (PStr f) p scope)"
proof -
  assume "\<And>scope. safe (eval_node p scope)"
  then have "safe (case v of None \<Rightarrow> missing op (PStr f) | Some (PList l) \<Rightarrow> eval_elems op (PStr f) p l
      | Some _ \<Rightarrow> Inl PredicateTypeError)" for v
    using elems_safe by (cases v rule: option.exhaust; simp; rename_tac w; case_tac w; simp)
  then show ?thesis unfolding eval_quant_def resolve_str ebind_simps by blast
qed

lemma wf_quant:
  assumes "op = ''all'' \<or> op = ''any''" and "f = ''.'' \<or> field_re f" and "well_formed p"
  shows "well_formed (PList [PStr op, PStr f, p])"
proof -
  have "safe (eval_node (PList [PStr op, PStr f, p]) scope)" for scope
    using assms(1,3) quant_safe [of p] eval_quants unfolding well_formed_def by metis
  moreover have "acceptable (walk (PList [PStr op, PStr f, p]) q)" for q
    using assms field_mild [OF assms(2)] by (auto simp: well_formed_def walk.simps(1) KNOWN_OPS_def)
  ultimately show ?thesis by (simp add: well_formed_def)
qed

lemma wf_exists: "f = ''.'' \<or> field_re f \<Longrightarrow> well_formed (PList [PStr ''exists'', PStr f])"
  using field_mild [of f] by (simp add: well_formed_def walk.simps(1) KNOWN_OPS_def fst_joined eval_ops eval_exists_def)

lemma py_in_strs_str: "py_in_strs (PStr c) ss = Inr (c \<in> set ss)"
  by (auto simp: py_in_strs_def)

lemma wf_count:
  assumes "f = ''.'' \<or> field_re f" and "c \<in> set CMP_OPS" and "is_number n"
  shows "well_formed (PList [PStr ''count'', PStr f, PStr c, n])"
proof -
  have "clean (walk_count [PStr f, PStr c, n] True)"
    using assms check_field_True by (simp add: walk_count_def py_in_strs_str joined_nil)
  then have "safe (eval_node (PList [PStr ''count'', PStr f, PStr c, n]) scope)" for scope
    unfolding eval_ops by (rule count_safe)
  moreover have "acceptable (walk (PList [PStr ''count'', PStr f, PStr c, n]) q)" for q
    using assms field_mild [OF assms(1)] by (simp add: walk.simps(1) KNOWN_OPS_def walk_count_def py_in_strs_str fst_joined)
  ultimately show ?thesis by (simp add: well_formed_def)
qed

lemma wf_in:
  assumes "f = ''.'' \<or> field_re f" and "ms \<noteq> []" and "list_all is_scalar ms"
  shows "well_formed (PList [PStr ''in'', PStr f, PList ms])"
proof -
  have none: "filter (\<lambda>m. \<not> is_scalar m) ms = []" using assms(3) by (simp add: list_all_iff filter_empty_conv)
  then have "fst (walk_in [PStr f, PList ms] True) = []"
    using assms check_field_True by (simp add: walk_in_def joined_nil)
  then have "safe (eval_node (PList [PStr ''in'', PStr f, PList ms]) scope)" for scope unfolding eval_ops by (rule in_safe)
  moreover have "acceptable (walk (PList [PStr ''in'', PStr f, PList ms]) q)" for q
    using assms(2) none field_mild [OF assms(1)] by (simp add: walk.simps(1) KNOWN_OPS_def walk_in_def fst_joined)
  ultimately show ?thesis by (simp add: well_formed_def)
qed

lemma wf_cmp:
  assumes "f = ''.'' \<or> field_re f" and c: "c \<in> set CMP_OPS" and "is_scalar l"
  shows "well_formed (PList [PStr c, PStr f, l])"
proof -
  have "walk (PList [PStr c, PStr f, l]) q = ebind (Inr (walk_leaf c [PStr f, l] q)) (\<lambda>r. Inr (joined ([], [c], []) r))" for q
    using c by (auto simp: walk.simps(1) CMP_OPS_def KNOWN_OPS_def)
  moreover have "list_all mild (fst (walk_leaf c [PStr f, l] q))" for q
    using field_mild [OF assms(1), of q] assms(3) by (auto simp: walk_leaf_def fst_joined mild_def)
  moreover have "c \<noteq> ''in''" using c by (auto simp: CMP_OPS_def)
  then have "safe (eval_node (PList [PStr c, PStr f, l]) scope)" for scope
    using eval_cmp [OF c] leaf_eq_safe leaf_ord_safe by metis
  ultimately show ?thesis by (simp add: well_formed_def fst_joined)
qed

text \<open>Comparison tokens hold comparison operators.\<close>

definition tokens_ok :: "token list \<Rightarrow> bool" where
  "tokens_ok ts \<longleftrightarrow> (\<forall>c. (Cmp, c) \<in> set ts \<longrightarrow> c \<in> set CMP_OPS)"

lemma tokens_ok_Cons [simp]: "tokens_ok ((k, w) # ts) \<longleftrightarrow> (k = Cmp \<longrightarrow> w \<in> set CMP_OPS) \<and> tokens_ok ts"
  by (auto simp: tokens_ok_def)

lemma tokens_ok_Nil [simp]: "tokens_ok []"
  by (simp add: tokens_ok_def)

lemma token_ok:
  "expect k ts = Inr r \<Longrightarrow> tokens_ok ts \<Longrightarrow> tokens_ok r"
  "parse_field ts = Inr (f, r) \<Longrightarrow> tokens_ok ts \<Longrightarrow> tokens_ok r"
  "parse_cmp ts = Inr (c, r) \<Longrightarrow> tokens_ok ts \<Longrightarrow> tokens_ok r"
  "parse_number tf ts = Inr (v, r) \<Longrightarrow> tokens_ok ts \<Longrightarrow> tokens_ok r"
  "parse_literal tf ts = Inr (v, r) \<Longrightarrow> tokens_ok ts \<Longrightarrow> tokens_ok r"
  by (auto simp: expect_def parse_field_def parse_cmp_def parse_number_def parse_literal_def next_token_def
      split: list.splits if_splits)

lemma parse_cmp_ok: "parse_cmp ts = Inr (c, r) \<Longrightarrow> tokens_ok ts \<Longrightarrow> c \<in> set CMP_OPS"
  by (auto simp: parse_cmp_def next_token_def split: list.splits if_splits)

lemma members_tokens: "parse_members tf ts = Inr (ms, r) \<Longrightarrow> tokens_ok ts \<Longrightarrow> tokens_ok r"
proof (induction tf ts arbitrary: ms r rule: parse_members.induct)
  case (1 tf ts)
  from "1.prems"(1) [unfolded parse_members.simps [of tf ts]] show ?case
  proof (cases rule: comma_split)
    case (more p v r' ps')
    then show ?thesis using "1.IH" [OF more(1)] token_ok(5) [OF more(1)] "1.prems"(2) by simp
  qed (use token_ok(5) "1.prems"(2) in blast)
qed

abbreviation good :: "pyval \<Rightarrow> token list \<Rightarrow> bool" where
  "good p r \<equiv> well_formed p \<and> tokens_ok r"

lemma exists_good: "parse_exists ts = Inr (p, r) \<Longrightarrow> tokens_ok ts \<Longrightarrow> good p r"
  by (auto simp: parse_exists_def ebind_Inr intro!: wf_exists dest: parse_field_ok token_ok)

lemma count_good: "parse_count tf ts = Inr (p, r) \<Longrightarrow> tokens_ok ts \<Longrightarrow> good p r"
  by (auto simp: parse_count_def ebind_Inr intro!: wf_count dest: parse_field_ok parse_cmp_ok parse_number_ok token_ok)
    (metis token_ok)

lemma leaf_good:
  assumes "parse_leaf tf ts = Inr (p, r)" and "tokens_ok ts"
  shows "good p r"
proof -
  obtain f u where f: "parse_field ts = Inr (f, u)" using assms(1) by (auto simp: parse_leaf_def ebind_Inr)
  note ok = parse_field_ok [OF f] token_ok(2) [OF f assms(2)]
  consider (mem) v u1 u2 ms u3 where "u = (Word, v) # u1" "expect Lbrace u1 = Inr u2" "parse_members tf u2 = Inr (ms, u3)"
      "expect Rbrace u3 = Inr r" "p = PList [PStr ''in'', PStr f, PList ms]"
    | (cmp) c u1 l where "parse_cmp u = Inr (c, u1)" "parse_literal tf u1 = Inr (l, r)" "p = PList [PStr c, PStr f, l]"
    using assms(1) f by (cases u) (auto simp: parse_leaf_def ebind_Inr split: if_splits)
  then show ?thesis
  proof cases
    case mem
    then have "tokens_ok u2" using ok(2) token_ok(1) by fastforce
    then have "tokens_ok r" using members_tokens [OF mem(3)] token_ok(1) [OF mem(4)] by blast
    then show ?thesis using wf_in [OF ok(1)] members_ok [OF mem(3)] mem(5) by blast
  next
    case cmp
    then show ?thesis using ok wf_cmp [OF ok(1) parse_cmp_ok [OF cmp(1)] literal_ok [OF cmp(2)]] token_ok by blast
  qed
qed

lemma nest_good:
  "well_formed t \<Longrightarrow> list_all (\<lambda>(op, t). (op = ''and'' \<or> op = ''or'') \<and> well_formed t) ots \<Longrightarrow> well_formed (nest t ots)"
proof (induction ots arbitrary: t)
  case (Cons ot ots)
  obtain op u where ot: "ot = (op, u)" by (cases ot)
  then have "well_formed (PList [PStr op, t, u])" using Cons.prems by (intro wf_conn) auto
  then show ?case using Cons ot by simp
qed simp

lemma parser_good:
  "tokens_ok ts \<Longrightarrow> parse_chain tf ts = Inr (p, r) \<Longrightarrow> good p r"
  "tokens_ok ts \<Longrightarrow> chain_rest tf ts = Inr (ots, r)
     \<Longrightarrow> list_all (\<lambda>(op, t). (op = ''and'' \<or> op = ''or'') \<and> well_formed t) ots \<and> tokens_ok r"
  "tokens_ok ts \<Longrightarrow> parse_term tf ts = Inr (p, r) \<Longrightarrow> good p r"
  "tokens_ok ts \<Longrightarrow> parse_atom tf ts = Inr (p, r) \<Longrightarrow> good p r"
  "tokens_ok ts \<Longrightarrow> parse_preds tf ts = Inr (ps, r) \<Longrightarrow> ps \<noteq> [] \<and> list_all well_formed ps \<and> tokens_ok r"
proof (induction tf ts and tf ts and tf ts and tf ts and tf ts arbitrary: p r and ots r and p r and p r and ps r
    rule: parse_chain_chain_rest_parse_term_parse_atom_parse_preds.induct)
  case (1 tf ts)
  from 1(4) obtain t u ots where t: "parse_term tf ts = Inr (t, u)" and o: "chain_rest tf u = Inr (ots, r)" "p = nest t ots"
    by (auto simp: parse_chain.simps ebind_Inr)
  have "good t u" using 1(1) [OF 1(3) t] .
  then show ?case using 1(2) [OF t refl _ o(1)] nest_good o(2) by blast
next
  case (3 tf k w u)
  show ?case
  proof (cases "k = Word \<and> (w = ''and'' \<or> w = ''or'')")
    case True
    then obtain t u1 ots' where t: "parse_term tf u = Inr (t, u1)" and o: "chain_rest tf u1 = Inr (ots', r)" "ots = (w, t) # ots'"
      using 3(4) by (simp add: chain_rest.simps ebind_Inr) blast
    have "good t u1" using 3(1) [OF True _ t] 3(3) by simp
    then show ?thesis using 3(2) [OF True t refl _ o(1)] o(2) True by simp
  next
    case False
    then show ?thesis using 3(3,4) unfolding chain_rest.simps(2) if_not_P [OF False] by auto
  qed
next
  case (4 tf)
  then show ?case by (simp add: parse_term.simps)
next
  case (5 tf k w u)
  show ?case
  proof (cases "k = Word \<and> w = ''not''")
    case True
    then show ?thesis using 5(1) [OF True] 5(3,4) by (auto simp: parse_term.simps ebind_Inr intro: wf_not)
  next
    case False
    then show ?thesis using 5(2) [OF False 5(3)] 5(4) by (auto simp: parse_term.simps)
  qed
next
  case (7 tf k w u)
  have u: "tokens_ok u" using 7(4) by simp
  from 7(5) [unfolded parse_atom.simps(2)] show ?case
  proof (rule atom_split [where chain = "parse_chain tf" and preds = "parse_preds tf"], goal_cases)
    case (1 r1)
    then show ?case using 7(1) [OF 1(1) u 1(2)] token_ok(1) by blast
  next
    case (2 r1 r2 ps)
    have "ps \<noteq> [] \<and> list_all well_formed ps \<and> tokens_ok r2"
      using 7(2) [OF 2(1,2) refl conjI [OF 2(3,4)] 2(5) token_ok(1) [OF 2(5) u] 2(6)] .
    then show ?case using wf_conn [OF 2(3)] 2(8) token_ok(1) [OF 2(7)] by blast
  next
    case (3 r1 f r2 r3 q r4)
    have "tokens_ok r3" using token_ok(1) [OF 3(8)] token_ok(2) [OF 3(7)] token_ok(1) [OF 3(6) u] by blast
    then have "good q r4" using 7(3) [OF 3(1,2) refl 3(3) conjI [OF 3(4,5)] 3(6,7) refl 3(8) _ 3(9)] by blast
    then show ?case using wf_quant [OF 3(4) parse_field_ok [OF 3(7)]] 3(11) token_ok(1) [OF 3(10)] by blast
  next
    case 4
    then show ?case using exists_good u by blast
  next
    case 5
    then show ?case using count_good u by blast
  next
    case 6
    then show ?case using leaf_good 7(4) by blast
  qed
next
  case (8 tf ts)
  from 8(4) [unfolded parse_preds.simps [of tf ts]] show ?case
  proof (cases rule: comma_split)
    case (last p)
    then show ?thesis using 8(1) [OF 8(3)] by simp
  next
    case (more p v r' ps')
    then have "good p ((Comma, v) # r')" using 8(1) [OF 8(3)] by blast
    then show ?thesis using 8(2) [OF more(1) refl refl refl refl _ more(2)] more(3) by simp
  qed
qed (simp_all add: chain_rest.simps parse_atom.simps)

lemma lex_cmp_ok: "lex_cmp s = Some (m, r) \<Longrightarrow> m \<in> set CMP_OPS"
  by (auto simp: lex_cmp_def CMP_OPS_def split: list.splits if_splits)

lemma lex1_ok: "lex1 s = Some (Some (k, m), r) \<Longrightarrow> k = Cmp \<Longrightarrow> m \<in> set CMP_OPS"
  by (auto simp: lex1_def lex_punct_def dest: lex_cmp_ok split: option.splits list.splits if_splits)

lemma tokenize_ok: "tokenize s = Inr ts \<Longrightarrow> tokens_ok ts"
proof (induction s arbitrary: ts rule: tokenize.induct)
  case (1 s)
  show ?case
  proof (cases "s = []")
    case True
    then show ?thesis using "1.prems" by (simp add: tokenize.simps)
  next
    case False
    then obtain t r ts' where l: "lex1 s = Some (t, r)" "tokenize r = Inr ts'" and ts: "ts = (case t of Some u \<Rightarrow> u # ts' | None \<Rightarrow> ts')"
      using "1.prems" by (subst (asm) tokenize.simps) (auto simp: ebind_Inr split: option.splits)
    then have "tokens_ok ts'" using "1.IH" False by blast
    then show ?thesis using l(1) ts lex1_ok by (cases t) auto
  qed
qed

text \<open>
  A text cannot smuggle anything in: whatever text is parsed, the node that comes out is structurally
  sound (the validator can object to it only for a scope reference outside a quantifier or a bound that is
  not a number), and evaluating it on any state gives a value or a type error, never an escalation.
\<close>

lemma parsed_predicate_contained:
  assumes "parse tf text = Inr n"
  shows "(\<exists>es ops fs. walk n False = Inr (es, ops, fs) \<and> (\<forall>e \<in> set es. e = DotOutside \<or> (\<exists>op l. e = LitNumber op l)))
    \<and> (\<forall>e. eval_node n scope = Inl e \<longrightarrow> e = PredicateTypeError)"
proof -
  obtain ts where "tokenize text = Inr ts" "parse_chain tf ts = Inr (n, [])"
    using assms by (auto simp: parse_def ebind_Inr split: if_splits)
  then have "well_formed n" using parser_good(1) tokenize_ok by blast
  then have "acceptable (walk n False)" "safe (eval_node n scope)" by (simp_all add: well_formed_def)
  then show ?thesis by (auto simp: acceptable_def mild_def list_all_iff safe_def)
qed

lemma parsed_predicate_contained_example:
  "\<exists>n. parse (\<lambda>_. NaN) ''count(xs) >= 2 and name in {1, true}'' = Inr n \<and> (\<forall>e. eval_node n PNone = Inl e \<longrightarrow> e = PredicateTypeError)"
proof -
  have "parse (\<lambda>_. NaN) ''count(xs) >= 2 and name in {1, true}''
      = Inr (PList [PStr ''and'', PList [PStr ''count'', PStr ''xs'', PStr ''>='', PInt 2],
          PList [PStr ''in'', PStr ''name'', PList [PInt 1, PBool True]]])"
    by code_simp
  then show ?thesis using parsed_predicate_contained by blast
qed

end
