(* ===== verification/Canonical.thy ===== *)
theory Canonical
  imports PredicateDSL
begin

text \<open>
  The canonical form of a predicate keeps its meaning: flattening nested conjunctions and
  disjunctions, and sorting the members of a set by their JSON text, change neither the value nor the
  error of an evaluation.  This rests on the JSON texts of different scalars being different.
\<close>

section \<open>JSON texts tell scalars apart\<close>

lemma digits_chars: "c \<in> set (digits n) \<Longrightarrow> 48 \<le> (of_char c :: nat) \<and> (of_char c :: nat) \<le> 57"
proof (induction n rule: digits.induct)
  case (1 n)
  have d: "of_char (char_of (48 + m) :: char) = 48 + m" if "m < 10" for m :: nat using that by (simp add: of_char_of)
  show ?case using 1 by (subst (asm) digits.simps [of n]) (auto simp: d split: if_splits)
qed

lemma digits_not_Nil [simp]: "digits n \<noteq> []"
  by (subst digits.simps) simp

lemma str_int_head: "\<exists>c s. str_int i = c # s \<and> (c = CHR ''-'' \<or> 48 \<le> (of_char c :: nat) \<and> (of_char c :: nat) \<le> 57)"
proof (cases "i < 0")
  case False
  then obtain c s where "str_int i = c # s" "c \<in> set (digits (nat i))"
    by (cases "digits (nat i)") (auto simp: str_int_def)
  then show ?thesis using digits_chars by blast
qed (simp add: str_int_def)

lemma str_int_inject: "str_int i = str_int j \<Longrightarrow> i = j"
proof -
  have dash: "digits n \<noteq> CHR ''-'' # s" for n s using digits_chars [of "CHR ''-''" n] by auto
  assume e: "str_int i = str_int j"
  then consider "i < 0" "j < 0" "nat (- i) = nat (- j)" | "0 \<le> i" "0 \<le> j" "nat i = nat j"
    using dash dash [symmetric] by (auto simp: str_int_def digits_inject split: if_splits)
  then show "i = j" by cases auto
qed

text \<open>Reading back one encoded character.\<close>

definition unhex :: "char \<Rightarrow> nat" where
  "unhex c = (let n = of_char c :: nat in if n \<le> 57 then n - 48 else n - 87)"

fun json_read :: "string \<Rightarrow> (char \<times> string) option" where
  "json_read [] = None"
| "json_read (c # r) =
     (if c \<noteq> CHR 0x5C then Some (c, r)
      else case r of
        [] \<Rightarrow> None
      | e # r' \<Rightarrow>
          if e = CHR ''n'' then Some (CHR 0x0A, r') else if e = CHR ''r'' then Some (CHR 0x0D, r')
          else if e = CHR ''t'' then Some (CHR 0x09, r') else if e = CHR ''f'' then Some (CHR 0x0C, r')
          else if e = CHR ''b'' then Some (CHR 0x08, r')
          else if e = CHR ''u'' then
            (case r' of z # z' # h # l # r'' \<Rightarrow> Some (char_of (16 * unhex h + unhex l), r'') | _ \<Rightarrow> None)
          else Some (e, r'))"

lemma unhex_hexdigit: "k < 16 \<Longrightarrow> unhex (hexdigit k) = k"
  by (simp add: unhex_def hexdigit_def of_char_of)

lemma of_char_eq: "of_char c = (n :: nat) \<Longrightarrow> c = char_of n"
  by (metis char_of_char)

lemma char_code:
  "of_char c = (0x22 :: nat) \<Longrightarrow> c = CHR 0x22" "of_char c = (0x5C :: nat) \<Longrightarrow> c = CHR 0x5C" "of_char c = (0x0A :: nat) \<Longrightarrow> c = CHR 0x0A"
  "of_char c = (0x0D :: nat) \<Longrightarrow> c = CHR 0x0D" "of_char c = (0x09 :: nat) \<Longrightarrow> c = CHR 0x09" "of_char c = (0x0C :: nat) \<Longrightarrow> c = CHR 0x0C"
  "of_char c = (0x08 :: nat) \<Longrightarrow> c = CHR 0x08"
proof -
  have "of_char (CHR 0x22) = (0x22 :: nat)" "of_char (CHR 0x5C) = (0x5C :: nat)" "of_char (CHR 0x0A) = (0x0A :: nat)"
      "of_char (CHR 0x0D) = (0x0D :: nat)" "of_char (CHR 0x09) = (0x09 :: nat)" "of_char (CHR 0x0C) = (0x0C :: nat)"
      "of_char (CHR 0x08) = (0x08 :: nat)"
    by simp_all
  then show "of_char c = (0x22 :: nat) \<Longrightarrow> c = CHR 0x22" "of_char c = (0x5C :: nat) \<Longrightarrow> c = CHR 0x5C"
      "of_char c = (0x0A :: nat) \<Longrightarrow> c = CHR 0x0A" "of_char c = (0x0D :: nat) \<Longrightarrow> c = CHR 0x0D"
      "of_char c = (0x09 :: nat) \<Longrightarrow> c = CHR 0x09" "of_char c = (0x0C :: nat) \<Longrightarrow> c = CHR 0x0C"
      "of_char c = (0x08 :: nat) \<Longrightarrow> c = CHR 0x08"
    by (metis of_char_eq_iff)+
qed

lemma json_read_char: "json_read (json_char c @ r) = Some (c, r)"
proof -
  let ?n = "of_char c :: nat"
  consider "?n = 0x22" | "?n = 0x5C" | "?n = 0x0A" | "?n = 0x0D" | "?n = 0x09" | "?n = 0x0C" | "?n = 0x08"
    | "?n \<noteq> 0x22" "?n \<noteq> 0x5C" "0x20 \<le> ?n" "?n \<le> 0x7E"
    | "?n \<notin> {0x22, 0x5C, 0x0A, 0x0D, 0x09, 0x0C, 0x08}" "\<not> (0x20 \<le> ?n \<and> ?n \<le> 0x7E)" by force
  then show ?thesis
  proof cases
    case 8
    then have "c \<noteq> CHR 0x5C" by auto
    then show ?thesis using 8 by (simp add: json_char_def)
  next
    case 9
    have "16 * (?n div 16) + ?n mod 16 = ?n" by simp
    moreover have "?n div 16 < 16" by (rule less_mult_imp_div_less) (use nat_of_char_less_256 [of c] in simp)
    moreover have "json_char c = [CHR 0x5C, CHR ''u'', CHR ''0'', CHR ''0'', hexdigit (?n div 16), hexdigit (?n mod 16)]"
      using 9 unfolding json_char_def Let_def by (smt (verit, best) insertCI)
    ultimately show ?thesis by (simp add: unhex_hexdigit)
  qed (drule char_code, simp add: json_char_def Let_def)+
qed


lemma json_char_head: "\<exists>d s. json_char c = d # s \<and> d \<noteq> CHR 0x22"
proof (cases "c = CHR 0x22")
  case False
  then show ?thesis by (auto simp: json_char_def Let_def dest: of_char_eq)
qed (simp add: json_char_def Let_def)

lemma json_body_inject:
  "concat (map json_char s) @ [CHR 0x22] = concat (map json_char t) @ [CHR 0x22] \<Longrightarrow> s = t"
proof (induction s arbitrary: t)
  case Nil
  show ?case
  proof (cases t)
    case (Cons d t')
    obtain e r where "json_char d = e # r" "e \<noteq> CHR 0x22" using json_char_head by blast
    then show ?thesis using Nil.prems Cons by simp
  qed simp
next
  case (Cons c s)
  show ?case
  proof (cases t)
    case Nil
    then show ?thesis using Cons.prems json_char_head [of c] by auto
  next
    case (Cons d t')
    have "Some (c, concat (map json_char s) @ [CHR 0x22]) = Some (d, concat (map json_char t') @ [CHR 0x22])"
      using Cons.prems Cons json_read_char by (metis append.assoc concat.simps(2) list.map(2))
    then show ?thesis using Cons.IH [of t'] Cons by simp
  qed
qed

lemma json_str_inject: "json_str s = json_str t \<Longrightarrow> s = t"
  using json_body_inject by (simp add: json_str_def)

text \<open>
  What is used of the text of a float: different floats have different texts, and none of them is the
  text of an integer, a truth value or a string.
\<close>

definition float_texts :: "(pyfloat \<Rightarrow> string) \<Rightarrow> bool" where
  "float_texts fr \<longleftrightarrow> inj fr \<and> (\<forall>x. fr x \<notin> range str_int \<and> fr x \<notin> {''true'', ''false''} \<and> fr x \<notin> range json_str)"

lemma json_kinds:
  "str_int i \<noteq> json_str s" "str_int i \<noteq> ''true''" "str_int i \<noteq> ''false''" "json_str s \<noteq> ''true''" "json_str s \<noteq> ''false''"
  using str_int_head [of i] by (auto simp: json_str_def)

lemma float_text:
  assumes "float_texts fr"
  shows "fr x = fr y \<Longrightarrow> x = y" "fr x \<noteq> str_int i" "fr x \<noteq> ''true''" "fr x \<noteq> ''false''" "fr x \<noteq> json_str s"
proof -
  show "fr x = fr y \<Longrightarrow> x = y" using assms unfolding float_texts_def by (metis injD)
  show "fr x \<noteq> str_int i" "fr x \<noteq> json_str s" using assms unfolding float_texts_def by (metis rangeI)+
  show "fr x \<noteq> ''true''" "fr x \<noteq> ''false''" using assms unfolding float_texts_def by blast+
qed

lemma dumps_inject:
  assumes fr: "float_texts fr" and "is_scalar v" and "is_scalar w" and "dumps fr v = dumps fr w"
  shows "v = w"
proof -
  have str: "json_str s = dumps fr u \<Longrightarrow> is_scalar u \<Longrightarrow> u = PStr s" for s u
    using float_text(5) [OF fr] json_kinds json_str_inject
    by (cases u) (simp_all split: if_splits, metis+)
  have int: "str_int i = dumps fr u \<Longrightarrow> is_scalar u \<Longrightarrow> u = PInt i" for i u
    using float_text(2) [OF fr] json_kinds str_int_inject
    by (cases u) (simp_all split: if_splits, metis+)
  have flt: "fr x = dumps fr u \<Longrightarrow> is_scalar u \<Longrightarrow> u = PFloat x" for x u
    using float_text [OF fr] by (cases u) (simp_all split: if_splits)
  show ?thesis
  proof (cases v)
    case (PBool b)
    have ne: "''true'' \<noteq> fr x" "''false'' \<noteq> fr x" "''true'' \<noteq> str_int i" "''false'' \<noteq> str_int i"
        "''true'' \<noteq> json_str s" "''false'' \<noteq> json_str s" for x i s
      using float_text(3,4) [OF fr] json_kinds by metis+
    show ?thesis using PBool assms(3,4) by (cases w; simp split: if_splits; metis ne)
  qed (use assms(2-4) str int flt in simp_all)
qed

section \<open>The members of a set\<close>

lemma members_get:
  assumes "\<And>v w. v \<in> set ms \<Longrightarrow> w \<in> set ms \<Longrightarrow> dumps fr v = dumps fr w \<Longrightarrow> v = w"
  shows "dget (fold (\<lambda>m d. dset (dumps fr m) m d) ms []) k = Some m \<longleftrightarrow> m \<in> set ms \<and> dumps fr m = k"
  using assms
proof (induction ms rule: rev_induct)
  case (snoc x xs)
  have "dget (fold (\<lambda>m d. dset (dumps fr m) m d) xs []) k = Some m \<longleftrightarrow> m \<in> set xs \<and> dumps fr m = k"
    using snoc.prems by (intro snoc.IH) auto
  then show ?case using snoc.prems [of m x] by auto
qed simp

lemma uniq_members_set:
  assumes "float_texts fr" and "list_all is_scalar ms"
  shows "set (uniq_members fr ms) = set ms"
proof -
  let ?u = "fold (\<lambda>m d. dset (dumps fr m) m d) ms []"
  have g: "dget ?u k = Some m \<longleftrightarrow> m \<in> set ms \<and> dumps fr m = k" for k m
    by (rule members_get) (use assms dumps_inject in \<open>auto simp: list_all_iff\<close>)
  have keys: "set (dkeys ?u) = {k. \<exists>m. dget ?u k = Some m}" using pd.order_get [of ?u] by auto
  have "set (uniq_members fr ms) = {m. \<exists>k. dget ?u k = Some m}"
    unfolding uniq_members_def Let_def set_map set_sort keys by force
  then show ?thesis using g by auto
qed

section \<open>The value of an evaluation\<close>

definition val :: "outcome \<Rightarrow> perr + bool" where
  "val r = map_sum id fst r"

lemma val_simps [simp]: "val (Inl e) = Inl e" "val (Inr p) = Inr (fst p)"
  by (simp_all add: val_def)

text \<open>A conjunction or disjunction goes on to the next part while the parts have the neutral value.\<close>

definition goes_on :: "string \<Rightarrow> perr + bool \<Rightarrow> perr + bool \<Rightarrow> perr + bool" where
  "goes_on op a b = ebind a (\<lambda>r. if r = (op = ''and'') then b else Inr r)"

lemma val_after [simp]: "val (after st r) = val r"
  by (cases r) (auto simp: after_def)

lemma val_list_Cons: "val (eval_list op (c # cs) scope) = goes_on op (val (eval_node c scope)) (val (eval_list op cs scope))"
  by (cases "eval_node c scope") (auto simp: goes_on_def)

lemma val_list_append:
  "val (eval_list op (cs @ ks) scope) = goes_on op (val (eval_list op cs scope)) (val (eval_list op ks scope))"
proof (induction cs)
  case (Cons c cs)
  then show ?case
    by (cases "val (eval_node c scope)") (simp_all add: val_list_Cons goes_on_def del: eval_list.simps)
qed (simp add: goes_on_def)

lemma val_not: "val (eval_node (PList [PStr ''not'', c]) scope) = map_sum id Not (val (eval_node c scope))"
  by (cases "eval_node c scope") (auto simp: eval_ops)

lemma val_elems:
  assumes "\<And>scope. val (eval_node c scope) = val (eval_node c' scope)"
  shows "val (eval_elems op f c xs) = val (eval_elems op f c' xs)"
proof (induction xs)
  case (Cons x xs)
  have step: "val (eval_elems op f b (x # xs))
      = ebind (val (eval_node b x)) (\<lambda>r. if r = (op = ''all'') then val (eval_elems op f b xs) else Inr r)" for b
    by (cases "eval_node b x") auto
  show ?case unfolding step assms Cons.IH ..
qed simp

lemma val_quant:
  assumes "\<And>scope. val (eval_node c scope) = val (eval_node c' scope)"
  shows "val (eval_quant op (PStr p) c scope) = val (eval_quant op (PStr p) c' scope)"
proof -
  have "val (case v of None \<Rightarrow> missing op (PStr p) | Some (PList l) \<Rightarrow> eval_elems op (PStr p) c l | Some _ \<Rightarrow> Inl PredicateTypeError)
      = val (case v of None \<Rightarrow> missing op (PStr p) | Some (PList l) \<Rightarrow> eval_elems op (PStr p) c' l | Some _ \<Rightarrow> Inl PredicateTypeError)" for v
    using val_elems [OF assms] by (simp split: option.splits pyval.splits)
  then show ?thesis unfolding eval_quant_def resolve_str ebind_simps .
qed

section \<open>Canonical nodes\<close>

definition same_value :: "pyval \<Rightarrow> pyval \<Rightarrow> bool" where
  "same_value n c \<longleftrightarrow> (\<forall>scope. val (eval_node c scope) = val (eval_node n scope)) \<and> (\<forall>op. c \<noteq> PList [PStr op])"

abbreviation parts :: "string \<Rightarrow> pyval \<Rightarrow> pyval list" where
  "parts op c \<equiv> (case c of PList (PStr o' # cs) \<Rightarrow> if o' = op then cs else [c] | _ \<Rightarrow> [c])"

lemma parts_value:
  assumes "op = ''and'' \<or> op = ''or''" and "\<forall>op. c \<noteq> PList [PStr op]"
  shows "parts op c \<noteq> [] \<and> val (eval_list op (parts op c) scope) = val (eval_node c scope)"
proof (cases "\<exists>cs. c = PList (PStr op # cs)")
  case True
  then obtain cs where c: "c = PList (PStr op # cs)" "cs \<noteq> []" using assms(2) by auto
  then have "eval_node c scope = eval_list op cs scope" using assms(1) by (auto simp: eval_ops)
  then show ?thesis using c by simp
next
  case False
  then have p: "parts op c = [c]" by (auto split: pyval.splits list.splits)
  show ?thesis unfolding p val_list_Cons by (cases "val (eval_node c scope)") (auto simp: goes_on_def)
qed

lemma kids_value:
  assumes "op = ''and'' \<or> op = ''or''" and "\<And>x. x \<in> set args \<Longrightarrow> \<exists>c. canonical fr x = Inr c \<and> same_value x c"
  shows "\<exists>ks. canonical_kids fr op args = Inr ks \<and> (args \<noteq> [] \<longrightarrow> ks \<noteq> [])
    \<and> (\<forall>scope. val (eval_list op ks scope) = val (eval_list op args scope))"
  using assms(2)
proof (induction args)
  case (Cons x xs)
  obtain c where c: "canonical fr x = Inr c" "same_value x c" using Cons.prems by auto
  obtain ks where ks: "canonical_kids fr op xs = Inr ks" "\<And>scope. val (eval_list op ks scope) = val (eval_list op xs scope)"
    using Cons by auto
  have "parts op c \<noteq> []" and v: "val (eval_list op (parts op c) scope) = val (eval_node c scope)" for scope
    using parts_value [OF assms(1), of c] c(2) by (auto simp: same_value_def)
  then show ?case using c ks
    by (auto simp: val_list_append val_list_Cons same_value_def simp del: eval_list.simps)
qed simp

lemma canonical_scalar [simp]: "is_scalar v \<Longrightarrow> canonical fr v = Inr v"
  by (cases v) simp_all

lemma canonical_in: "canonical fr (PList [PStr ''in'', f, PList ms]) = Inr (PList [PStr ''in'', f, PList (uniq_members fr ms)])"
  by simp

lemma eval_in:
  "eval_leaf ''in'' [PStr p, PList ms] scope
     = (case (if p = ''.'' then Some scope else follow scope (split_dots p)) of
          None \<Rightarrow> missing ''in'' (PStr p)
        | Some v \<Rightarrow> Inr (list_ex (py_eq v) ms, [step ''in'' (PStr p) (list_ex (py_eq v) ms)]))"
  by (simp add: eval_leaf_def split: option.split)

lemma canonical_value:
  assumes "float_texts fr"
  shows "clean (walk n q) \<Longrightarrow> \<exists>c. canonical fr n = Inr c \<and> same_value n c"
proof (induction n arbitrary: q rule: measure_induct_rule [of size])
  case (less n)
  from less.prems show ?case
  proof (cases rule: op_cases)
    case (conn op args)
    have "\<exists>c. canonical fr x = Inr c \<and> same_value x c" if x: "x \<in> set args" for x
    proof -
      have "clean (walk x q)" using conn(4) x by (induction args) (auto simp: clean_walk_Cons simp del: walk_list.simps)
      moreover have "size x < size n" using conn(1) x size_list_estimation' [of x args "size x" size] by auto
      ultimately show ?thesis using less.IH by blast
    qed
    then obtain ks where ks: "canonical_kids fr op args = Inr ks" "ks \<noteq> []"
        "\<And>scope. val (eval_list op ks scope) = val (eval_list op args scope)"
      using kids_value [OF conn(2)] conn(3) by blast
    have "canonical fr n = Inr (PList (PStr op # ks))" using conn(1,2) ks(1) by auto
    moreover have "same_value n (PList (PStr op # ks))" using conn(1-3) ks(2,3) by (auto simp: same_value_def eval_ops)
    ultimately show ?thesis by blast
  next
    case (neg c)
    then obtain c' where "canonical fr c = Inr c'" "same_value c c'" using less.IH [of c q] by auto
    then show ?thesis using neg by (auto simp: same_value_def val_not)
  next
    case (quant op p c)
    then obtain c' where c': "canonical fr c = Inr c'" "\<And>scope. val (eval_node c' scope) = val (eval_node c scope)"
      using less.IH [of c True] by (auto simp: same_value_def)
    have "canonical fr n = Inr (PList [PStr op, PStr p, c'])" using quant(1,2) c'(1) by auto
    moreover have "same_value n (PList [PStr op, PStr p, c'])"
      using quant(1,2) val_quant [OF c'(2)] by (auto simp: same_value_def eval_quants)
    ultimately show ?thesis by blast
  next
    case (exi p)
    then show ?thesis by (simp add: same_value_def)
  next
    case (cnt args)
    then obtain f cmp num where a: "args = [f, cmp, num]" by (auto simp: walk_count_def split: list.splits)
    then have "is_scalar f" "is_number num" "py_in_strs cmp CMP_OPS = Inr True"
      using cnt(2) by (cases "py_in_strs cmp CMP_OPS"; auto simp: walk_count_def joined_nil dest!: check_field_ok split: if_splits)+
    moreover from this(3) have "is_scalar cmp" by (cases cmp) (auto simp: py_in_strs_def)
    moreover from \<open>is_number num\<close> have "is_scalar num" by (cases num) simp_all
    ultimately show ?thesis using cnt(1) a by (simp add: same_value_def)
  next
    case (mem args)
    then obtain p ms where a: "args = [PStr p, PList ms]" "list_all is_scalar ms"
      by (auto simp: walk_in_def joined_nil filter_empty_conv list_all_iff dest!: check_field_ok
          split: list.splits pyval.splits if_splits)
    have "list_ex (py_eq v) (uniq_members fr ms) = list_ex (py_eq v) ms" for v
      using uniq_members_set [OF assms a(2)] by (simp add: list_ex_iff)
    then show ?thesis using mem(1) a(1) by (simp add: same_value_def eval_ops eval_in split: option.split)
  next
    case (cmp op args)
    then obtain f lit where a: "args = [f, lit]" "is_scalar f" "is_scalar lit"
      by (auto simp: walk_leaf_def joined_nil dest!: check_field_ok split: list.splits if_splits)
    have "op \<noteq> ''in''" "op \<noteq> ''and''" "op \<noteq> ''or''" using cmp(2) by (auto simp: CMP_OPS_def)
    then show ?thesis using cmp(1) a by (simp add: same_value_def)
  qed
qed

text \<open>
  C24. The replay key may stand for the predicate: two accepted predicates with the same canonical form,
  whatever the nesting of their conjunctions and disjunctions and the order and repetitions of their sets,
  have the same value, or fail with the same error, on every state.
\<close>

theorem canonical_keeps_value:
  assumes fr: "float_texts fr"
    and n: "PredicateDSL.validate fr sha256 n = Inr v" "pv_ok v" and m: "PredicateDSL.validate fr sha256 m = Inr w" "pv_ok w"
    and eq: "canonical fr n = canonical fr m"
  shows "map_sum id pe_value (evaluate_traced fr sha256 n (PDict d)) = map_sum id pe_value (evaluate_traced fr sha256 m (PDict d))"
proof -
  have sound: "\<exists>c. canonical fr x = Inr c \<and> same_value x c"
    if "PredicateDSL.validate fr sha256 x = Inr u" "pv_ok u" for x u
    using that by (intro canonical_value [OF fr, of x False]) (auto simp: validate_def rbind_Inr clean_def split: if_splits)
  obtain c where c: "canonical fr n = Inr c" "canonical fr m = Inr c" "same_value n c" "same_value m c"
    using sound [OF n] sound [OF m] eq by auto
  have traced: "map_sum id pe_value (evaluate_traced fr sha256 x (PDict d)) = val (eval_node x (PDict d))"
    if "canonical fr x = Inr c" for x
    using that by (cases "eval_node x (PDict d)") (auto simp: evaluate_traced_def replay_key_def)
  show ?thesis using c(3,4) unfolding traced [OF c(1)] traced [OF c(2)] by (simp add: same_value_def)
qed

section \<open>Examples\<close>

text \<open>Texts that tell floats apart.\<close>

fun ex_float :: "pyfloat \<Rightarrow> string" where
  "ex_float (Fin q) = (case quotient_of q of (a, b) \<Rightarrow>
     ''x'' @ replicate (nat a) CHR ''p'' @ replicate (nat (- a)) CHR ''m'' @ replicate (nat b) CHR ''d'')"
| "ex_float PInf = ''Infinity''"
| "ex_float NInf = ''-Infinity''"
| "ex_float NaN = ''NaN''"

lemma ex_float_inj: "ex_float x = ex_float y \<Longrightarrow> x = y"
proof -
  have num: "a = c \<and> b = d" if "replicate (nat a) CHR ''p'' @ replicate (nat (- a)) CHR ''m'' @ replicate (nat b) CHR ''d''
      = replicate (nat c) CHR ''p'' @ replicate (nat (- c)) CHR ''m'' @ replicate (nat d) CHR ''d''" (is "?l = ?r")
    and "0 < b" "0 < d" for a b c d
  proof -
    have "length (filter ((=) z) ?l) = length (filter ((=) z) ?r)" for z using that(1) by simp
    from this [of "CHR ''p''"] this [of "CHR ''m''"] this [of "CHR ''d''"]
    have "nat a = nat c" "nat (- a) = nat (- c)" "nat b = nat d" by simp_all
    then show ?thesis using that(2,3) by linarith
  qed
  have fin: "q = r" if "ex_float (Fin q) = ex_float (Fin r)" for q r
  proof -
    have "quotient_of q = quotient_of r"
      using that num [of "fst (quotient_of q)" "snd (quotient_of q)" "fst (quotient_of r)" "snd (quotient_of r)"]
        quotient_of_denom_pos' [of q] quotient_of_denom_pos' [of r]
      by (cases "quotient_of q"; cases "quotient_of r") simp
    then show ?thesis by (rule quotient_of_inject)
  qed
  show "ex_float x = ex_float y \<Longrightarrow> x = y"
    by (cases x; cases y) (use fin in \<open>auto split: prod.splits\<close>)
qed

lemma ex_float_texts: "float_texts ex_float"
proof -
  have head: "ex_float x = ''-Infinity'' \<or> (\<exists>c s. ex_float x = c # s \<and> c \<in> {CHR ''x'', CHR ''I'', CHR ''N''})" for x
    by (cases x) (auto split: prod.splits)
  have minus: "digits k \<noteq> CHR ''I'' # s" for k s using digits_chars [of "CHR ''I''" k] by auto
  have "ex_float x \<noteq> str_int i" for x i
  proof (cases "ex_float x = ''-Infinity''")
    case True
    then show ?thesis using minus [of "nat (- i)"] str_int_head [of i] digits_chars [of "CHR ''-''" "nat i"]
      by (auto simp: str_int_def split: if_splits) (metis list.set_intros(1))
  next
    case False
    then show ?thesis using head [of x] str_int_head [of i] by auto
  qed
  moreover have "ex_float x \<noteq> json_str s" for x s using head [of x] by (auto simp: json_str_def)
  moreover have "ex_float x \<noteq> ''true''" "ex_float x \<noteq> ''false''" for x using head [of x] by auto
  ultimately show ?thesis using ex_float_inj unfolding float_texts_def by (auto intro: injI)
qed

definition ex_left :: pyval where
  "ex_left = PList [PStr ''and'', PList [PStr ''and'', PList [PStr ''exists'', PStr ''a''],
     PList [PStr ''in'', PStr ''a.b'', PList [PInt 2, PInt 1, PInt 2]]], PList [PStr ''=='', PStr ''c'', PBool True]]"

definition ex_right :: pyval where
  "ex_right = PList [PStr ''and'', PList [PStr ''exists'', PStr ''a''], PList [PStr ''and'',
     PList [PStr ''in'', PStr ''a.b'', PList [PInt 1, PInt 2]], PList [PStr ''=='', PStr ''c'', PBool True]]]"

definition ex_state :: "(string, pyval) dict" where
  "ex_state = [(''a'', PDict [(''b'', PInt 1)]), (''c'', PBool True)]"

lemma ex_left_valid: "PredicateDSL.validate ex_float id ex_left = Inr \<lparr>pv_ok = True, pv_errors = [],
    pv_replay_key = (case replay_key ex_float id ex_left of Inr k \<Rightarrow> k | Inl _ \<Rightarrow> []),
    pv_ops = [''and'', ''and'', ''exists'', ''in'', ''==''], pv_fields = [''a'', ''a.b'', ''c'']\<rparr>"
  by code_simp

lemma ex_right_valid: "PredicateDSL.validate ex_float id ex_right = Inr \<lparr>pv_ok = True, pv_errors = [],
    pv_replay_key = (case replay_key ex_float id ex_right of Inr k \<Rightarrow> k | Inl _ \<Rightarrow> []),
    pv_ops = [''and'', ''exists'', ''and'', ''in'', ''==''], pv_fields = [''a'', ''a.b'', ''c'']\<rparr>"
  by code_simp

theorem validated_predicate_safe_witness:
  "\<exists>e. evaluate_traced ex_float id ex_left (PDict ex_state) = Inr e
     \<and> pe_replay_key e = (case replay_key ex_float id ex_left of Inr k \<Rightarrow> k | Inl _ \<Rightarrow> [])"
proof -
  have "evaluate_traced ex_float id ex_left (PDict ex_state) \<noteq> Inl PredicateTypeError" by code_simp
  then show ?thesis using validated_predicate_safe [OF ex_left_valid, of ex_state] by simp
qed

theorem canonical_keeps_value_witness:
  "ex_left \<noteq> ex_right \<and> map_sum id pe_value (evaluate_traced ex_float id ex_left (PDict ex_state)) = Inr True
     \<and> map_sum id pe_value (evaluate_traced ex_float id ex_right (PDict ex_state)) = Inr True"
proof -
  have "canonical ex_float ex_left = canonical ex_float ex_right" by code_simp
  then have "map_sum id pe_value (evaluate_traced ex_float id ex_left (PDict ex_state))
      = map_sum id pe_value (evaluate_traced ex_float id ex_right (PDict ex_state))"
    by (intro canonical_keeps_value [OF ex_float_texts ex_left_valid _ ex_right_valid]) simp_all
  moreover have "map_sum id pe_value (evaluate_traced ex_float id ex_left (PDict ex_state)) = Inr True" by code_simp
  moreover have "ex_left \<noteq> ex_right" by (simp add: ex_left_def ex_right_def)
  ultimately show ?thesis by simp
qed

end
