(* ===== verification/PredicateText.thy ===== *)
theory PredicateText
  imports PredicateParser Canonical
begin

text \<open>
  Every predicate of the grammar has a text: a printer for nodes, and the proof that reading what it
  prints gives the node back.  Floats are left to their own texts; a field called \<^verbatim>\<open>not\<close> cannot start
  a comparison, because the parser takes it for the negation.
\<close>

section \<open>The nodes of the grammar and their tokens\<close>

definition field_ok :: "string \<Rightarrow> bool" where
  "field_ok f \<longleftrightarrow> f = ''.'' \<or> list_all is_ident (split_dots f)"

fun plain_literal :: "pyval \<Rightarrow> bool" where
  "plain_literal (PStr s) = True"
| "plain_literal (PInt i) = True"
| "plain_literal (PBool b) = True"
| "plain_literal _ = False"

inductive grammar :: "pyval \<Rightarrow> bool" where
  conn: "op = ''and'' \<or> op = ''or'' \<Longrightarrow> ps \<noteq> [] \<Longrightarrow> (\<And>p. p \<in> set ps \<Longrightarrow> grammar p) \<Longrightarrow> grammar (PList (PStr op # ps))"
| neg: "grammar p \<Longrightarrow> grammar (PList [PStr ''not'', p])"
| quant: "op = ''all'' \<or> op = ''any'' \<Longrightarrow> field_ok f \<Longrightarrow> grammar p \<Longrightarrow> grammar (PList [PStr op, PStr f, p])"
| exi: "field_ok f \<Longrightarrow> grammar (PList [PStr ''exists'', PStr f])"
| cnt: "field_ok f \<Longrightarrow> c \<in> set CMP_OPS \<Longrightarrow> grammar (PList [PStr ''count'', PStr f, PStr c, PInt i])"
| mem: "field_ok f \<Longrightarrow> f \<noteq> ''not'' \<Longrightarrow> ms \<noteq> [] \<Longrightarrow> list_all plain_literal ms \<Longrightarrow> grammar (PList [PStr ''in'', PStr f, PList ms])"
| cmp: "field_ok f \<Longrightarrow> f \<noteq> ''not'' \<Longrightarrow> c \<in> set CMP_OPS \<Longrightarrow> plain_literal l \<Longrightarrow> grammar (PList [PStr c, PStr f, l])"

definition escape_char :: "char \<Rightarrow> string" where
  "escape_char c = (if c = CHR 0x5C \<or> c = CHR 0x22 then [CHR 0x5C, c] else [c])"

definition quoted :: "string \<Rightarrow> string" where
  "quoted s = CHR 0x22 # concat (map escape_char s) @ [CHR 0x22]"

fun literal_token :: "pyval \<Rightarrow> token" where
  "literal_token (PStr s) = (Str, quoted s)"
| "literal_token (PInt i) = (Num, str_int i)"
| "literal_token (PBool b) = (Word, if b then ''true'' else ''false'')"
| "literal_token _ = (Word, [])"

fun commas :: "token list list \<Rightarrow> token list" where
  "commas [] = []"
| "commas [x] = x"
| "commas (x # y # xs) = x @ (Comma, '','') # commas (y # xs)"

definition field_of :: "pyval list \<Rightarrow> string" where
  "field_of args = (case args of PStr f # _ \<Rightarrow> f | _ \<Rightarrow> [])"

definition flat_tokens :: "string \<Rightarrow> pyval list \<Rightarrow> token list" where
  "flat_tokens op args =
     (if op = ''exists'' then [(Word, op), (Lparen, ''(''), (Word, field_of args), (Rparen, '')'')]
      else if op = ''count'' then [(Word, op), (Lparen, ''(''), (Word, field_of args), (Rparen, '')''),
        (Cmp, field_of (tl args)), literal_token (args ! 2)]
      else if op = ''in'' then (Word, field_of args) # (Word, op) # (Lbrace, ''{'')
        # commas (map (\<lambda>m. [literal_token m]) (case args ! 1 of PList ms \<Rightarrow> ms | _ \<Rightarrow> [])) @ [(Rbrace, ''}'')]
      else [(Word, field_of args), (Cmp, op), literal_token (args ! 1)])"

lemma size_arg: "x \<in> set args \<Longrightarrow> size x < size (PList (PStr op # args))"
  using size_list_estimation' [of x args "size x" size] by simp

function (sequential) node_tokens :: "pyval \<Rightarrow> token list" where
  "node_tokens (PList (PStr op # args)) =
     (if op = ''and'' \<or> op = ''or'' then (Word, op) # (Lparen, ''('') # commas (map node_tokens args) @ [(Rparen, '')'')]
      else if op = ''not'' then (Word, op) # concat (map node_tokens args)
      else if op = ''all'' \<or> op = ''any'' then
        (Word, op) # (Lparen, ''('') # (Word, field_of args) # (Comma, '','') # concat (map node_tokens (tl args)) @ [(Rparen, '')'')]
      else flat_tokens op args)"
| "node_tokens _ = []"
  by pat_completeness auto
termination
proof (relation "measure size", goal_cases)
  case (2 op args x)
  then show ?case unfolding in_measure by (intro size_arg)
next
  case (3 op args x)
  then show ?case unfolding in_measure by (intro size_arg)
next
  case (4 op args x)
  then have "x \<in> set args" by (cases args) simp_all
  then show ?case unfolding in_measure by (rule size_arg)
qed simp

declare node_tokens.simps(1) [simp del]

definition render :: "pyval \<Rightarrow> string" where
  "render n = concat (map (\<lambda>t. snd t @ '' '') (node_tokens n))"

section \<open>Reading the tokens back\<close>

lemma unescape_quoted: "unescape (concat (map escape_char s)) = s"
proof (induction s)
  case (Cons c s)
  show ?case
  proof (cases "c = CHR 0x5C \<or> c = CHR 0x22")
    case True
    then have "escape_char c = [CHR 0x5C, c]" "escape_map c = c" by (auto simp: escape_char_def escape_map_def)
    then show ?thesis using Cons by simp
  next
    case False
    then have "escape_char c = [c]" "c \<noteq> CHR 0x5C" by (simp_all add: escape_char_def)
    then show ?thesis using Cons by (cases "concat (map escape_char s)") simp_all
  qed
qed simp

lemma int_of_str_int: "int_of_text (str_int i) = i"
proof (cases "i < 0")
  case False
  obtain c s where d: "digits (nat i) = c # s" by (cases "digits (nat i)") auto
  then have "c \<noteq> CHR ''-''" using digits_chars [of c "nat i"] by auto
  then show ?thesis using False d value_of_digits [of "nat i"] by (simp add: int_of_text_def str_int_def del: value_of.simps)
qed (simp add: int_of_text_def str_int_def value_of_digits del: value_of.simps)

lemma number_str_int: "number tf (str_int i) = PInt i"
proof -
  have "c \<in> set (str_int i) \<Longrightarrow> c = CHR ''-'' \<or> c \<in> set (digits (nat (- i))) \<union> set (digits (nat i))" for c
    by (auto simp: str_int_def split: if_splits)
  then have "set (str_int i) \<inter> {CHR ''.'', CHR ''e'', CHR ''E''} = {}" using digits_chars by fastforce
  then show ?thesis by (simp add: number_def int_of_str_int)
qed

lemma literal_back: "plain_literal l \<Longrightarrow> parse_literal tf (literal_token l # r) = Inr (l, r)"
  by (cases l) (simp_all add: parse_literal_def next_token_def quoted_def unescape_quoted number_str_int)

lemma members_back:
  "ms \<noteq> [] \<Longrightarrow> list_all plain_literal ms
     \<Longrightarrow> parse_members tf (commas (map (\<lambda>m. [literal_token m]) ms) @ (Rbrace, v) # r) = Inr (ms, (Rbrace, v) # r)"
proof (induction ms rule: induct_list012)
  case (2 x)
  then show ?case by (simp add: parse_members.simps literal_back)
next
  case (3 x y zs)
  then have IH: "parse_members tf (commas (map (\<lambda>m. [literal_token m]) (y # zs)) @ (Rbrace, v) # r) = Inr (y # zs, (Rbrace, v) # r)"
    by simp
  have l: "parse_literal tf (literal_token x # q) = Inr (x, q)" for q using 3 literal_back by simp
  show ?case using IH by (subst parse_members.simps) (simp add: l)
qed simp

lemma field_back: "field_ok f \<Longrightarrow> parse_field ((Word, f) # r) = Inr (f, r)"
  by (auto simp: parse_field_def next_token_def field_ok_def field_re_def)

lemma expect_back [simp]: "expect k ((k, v) # r) = Inr r"
  by (simp add: expect_def next_token_def)

lemma cmp_back [simp]: "parse_cmp ((Cmp, c) # r) = Inr (c, r)"
  by (simp add: parse_cmp_def next_token_def)

lemma atom_term: "(k, w) \<noteq> (Word, ''not'') \<Longrightarrow> parse_term tf ((k, w) # r) = parse_atom tf ((k, w) # r)"
  by (auto simp: parse_term.simps)

lemma term_chain:
  assumes "parse_term tf ts = Inr (p, (k, v) # r)" and "k = Comma \<or> k = Rparen"
  shows "parse_chain tf ts = Inr (p, (k, v) # r)"
  using assms by (auto simp: parse_chain.simps chain_rest.simps)

lemma preds_back:
  assumes "ps \<noteq> []" and "\<And>p r. p \<in> set ps \<Longrightarrow> parse_term tf (node_tokens p @ r) = Inr (p, r)"
  shows "parse_preds tf (commas (map node_tokens ps) @ (Rparen, v) # r) = Inr (ps, (Rparen, v) # r)"
  using assms
proof (induction ps rule: induct_list012)
  case (2 x)
  then have "parse_chain tf (node_tokens x @ (Rparen, v) # r) = Inr (x, (Rparen, v) # r)" by (intro term_chain) simp_all
  then show ?case by (simp add: parse_preds.simps)
next
  case (3 x y zs)
  have IH: "parse_preds tf (commas (map node_tokens (y # zs)) @ (Rparen, v) # r) = Inr (y # zs, (Rparen, v) # r)"
    by (rule 3) (use 3(4) in auto)
  have l: "parse_chain tf (node_tokens x @ (Comma, w) # q) = Inr (x, (Comma, w) # q)" for w q
    by (rule term_chain) (use 3(4) [of x] in simp_all)
  show ?case using IH by (subst parse_preds.simps) (simp add: l)
qed simp

lemma tokens_ops:
  "node_tokens (PList (PStr ''and'' # ps)) = (Word, ''and'') # (Lparen, ''('') # commas (map node_tokens ps) @ [(Rparen, '')'')]"
  "node_tokens (PList (PStr ''or'' # ps)) = (Word, ''or'') # (Lparen, ''('') # commas (map node_tokens ps) @ [(Rparen, '')'')]"
  "node_tokens (PList [PStr ''not'', p]) = (Word, ''not'') # node_tokens p"
  "node_tokens (PList [PStr ''all'', PStr f, p])
     = (Word, ''all'') # (Lparen, ''('') # (Word, f) # (Comma, '','') # node_tokens p @ [(Rparen, '')'')]"
  "node_tokens (PList [PStr ''any'', PStr f, p])
     = (Word, ''any'') # (Lparen, ''('') # (Word, f) # (Comma, '','') # node_tokens p @ [(Rparen, '')'')]"
  "node_tokens (PList [PStr ''exists'', PStr f]) = [(Word, ''exists''), (Lparen, ''(''), (Word, f), (Rparen, '')'')]"
  "node_tokens (PList [PStr ''count'', PStr f, PStr c, PInt i])
     = [(Word, ''count''), (Lparen, ''(''), (Word, f), (Rparen, '')''), (Cmp, c), (Num, str_int i)]"
  "node_tokens (PList [PStr ''in'', PStr f, PList ms])
     = (Word, f) # (Word, ''in'') # (Lbrace, ''{'') # commas (map (\<lambda>m. [literal_token m]) ms) @ [(Rbrace, ''}'')]"
  by (simp_all add: node_tokens.simps(1) flat_tokens_def field_of_def)

lemma tokens_cmp: "c \<in> set CMP_OPS \<Longrightarrow> node_tokens (PList [PStr c, PStr f, l]) = [(Word, f), (Cmp, c), literal_token l]"
  by (auto simp: node_tokens.simps(1) flat_tokens_def field_of_def CMP_OPS_def)

lemma call_atom:
  "parse_atom tf ((Word, ''and'') # (Lparen, v) # r) = ebind (parse_preds tf r) (\<lambda>(ps, r2).
     ebind (expect Rparen r2) (\<lambda>r3. Inr (PList (PStr ''and'' # ps), r3)))"
  "parse_atom tf ((Word, ''or'') # (Lparen, v) # r) = ebind (parse_preds tf r) (\<lambda>(ps, r2).
     ebind (expect Rparen r2) (\<lambda>r3. Inr (PList (PStr ''or'' # ps), r3)))"
  "parse_atom tf ((Word, ''all'') # (Lparen, v) # r) = ebind (parse_field r) (\<lambda>(f, r2). ebind (expect Comma r2) (\<lambda>r3.
     ebind (parse_chain tf r3) (\<lambda>(p, r4). ebind (expect Rparen r4) (\<lambda>r5. Inr (PList [PStr ''all'', PStr f, p], r5)))))"
  "parse_atom tf ((Word, ''any'') # (Lparen, v) # r) = ebind (parse_field r) (\<lambda>(f, r2). ebind (expect Comma r2) (\<lambda>r3.
     ebind (parse_chain tf r3) (\<lambda>(p, r4). ebind (expect Rparen r4) (\<lambda>r5. Inr (PList [PStr ''any'', PStr f, p], r5)))))"
  "parse_atom tf ((Word, ''exists'') # (Lparen, v) # r) = parse_exists ((Lparen, v) # r)"
  "parse_atom tf ((Word, ''count'') # (Lparen, v) # r) = parse_count tf ((Lparen, v) # r)"
  by (simp_all add: parse_atom.simps looks_like_call_def)

lemma leaf_atom: "k \<noteq> Lparen \<Longrightarrow> parse_atom tf ((Word, f) # (k, v) # r) = parse_leaf tf ((Word, f) # (k, v) # r)"
  by (simp add: parse_atom.simps looks_like_call_def)

lemma term_back: "grammar n \<Longrightarrow> parse_term tf (node_tokens n @ r) = Inr (n, r)"
proof (induction arbitrary: r rule: grammar.induct)
  case (conn op ps)
  have "parse_preds tf (commas (map node_tokens ps) @ (Rparen, '')'') # r) = Inr (ps, (Rparen, '')'') # r)"
    by (rule preds_back) (use conn in blast)+
  then show ?case using conn(1) by (auto simp: tokens_ops atom_term call_atom)
next
  case (neg p)
  then show ?case by (simp add: tokens_ops parse_term.simps)
next
  case (quant op f p)
  have "parse_chain tf (node_tokens p @ (Rparen, '')'') # r) = Inr (p, (Rparen, '')'') # r)"
    by (rule term_chain) (simp_all add: quant.IH)
  then show ?case using quant(1) field_back [OF quant(2)] by (auto simp: tokens_ops atom_term call_atom)
next
  case (exi f)
  then show ?case by (simp add: tokens_ops atom_term call_atom parse_exists_def field_back)
next
  case (cnt f c i)
  then show ?case
    by (simp add: tokens_ops atom_term call_atom parse_count_def field_back parse_number_def next_token_def number_str_int)
next
  case (mem f ms)
  then show ?case by (simp add: tokens_ops atom_term leaf_atom parse_leaf_def field_back members_back)
next
  case (cmp f c l)
  then show ?case by (simp add: tokens_cmp atom_term leaf_atom parse_leaf_def field_back literal_back)
qed

lemma chain_back: "grammar n \<Longrightarrow> parse_chain tf (node_tokens n) = Inr (n, [])"
  using term_back [of n tf "[]"] by (simp add: parse_chain.simps chain_rest.simps)

section \<open>Reading the characters back\<close>

text \<open>A token that a following space closes.\<close>

definition lexable :: "token \<Rightarrow> bool" where
  "lexable t \<longleftrightarrow> (\<forall>r. lex1 (snd t @ CHR '' '' # r) = Some (Some t, CHR '' '' # r))"

definition black :: "char \<Rightarrow> bool" where
  "black c = (let n = of_char c :: nat in 0x21 \<le> n \<and> n < 0x80)"

lemma black_no_space: "black c \<Longrightarrow> w \<in> set WHITESPACE \<Longrightarrow> \<not> is_prefix w (c # s)"
  by (auto simp: WHITESPACE_def black_def)

lemma black_strip: "black c \<Longrightarrow> strip_front n WHITESPACE (c # s) = c # s"
  using black_no_space [of c _ s] by (cases n) (auto simp: find_None_iff [THEN iffD2] split: option.split)

lemma black_ws: "black c \<Longrightarrow> lex_ws (c # s) = None"
  unfolding lex_ws_def by (simp only: black_strip Let_def less_irrefl if_False)

lemma space_strip:
  "s = [] \<or> black (hd s) \<Longrightarrow> lex_ws (CHR '' '' # s) = Some s"
proof -
  assume s: "s = [] \<or> black (hd s)"
  have "find (\<lambda>w. is_prefix w (CHR '' '' # s)) WHITESPACE = Some [CHR '' '']" by (simp add: WHITESPACE_def)
  moreover have "strip_front n WHITESPACE s = s" for n
  proof (cases s)
    case Nil
    have "find (\<lambda>w. is_prefix w []) WHITESPACE = None" by (simp add: WHITESPACE_def)
    then show ?thesis using Nil by (cases n) simp_all
  next
    case (Cons c s')
    then show ?thesis using s black_strip by simp
  qed
  ultimately show ?thesis by (simp add: lex_ws_def)
qed

definition tidy :: "token \<Rightarrow> bool" where
  "tidy t \<longleftrightarrow> lexable t \<and> snd t \<noteq> [] \<and> black (hd (snd t))"

lemma tokenize_spaced:
  "list_all tidy ts \<Longrightarrow> tokenize (concat (map (\<lambda>t. snd t @ '' '') ts)) = Inr ts"
proof (induction ts)
  case (Cons t ts)
  let ?r = "concat (map (\<lambda>t. snd t @ '' '') ts)"
  have r: "?r = [] \<or> black (hd ?r)" using Cons.prems by (cases ts) (auto simp: tidy_def)
  have "lex1 (CHR '' '' # ?r) = Some (None, ?r)" by (simp add: lex1_def space_strip [OF r])
  then have "tokenize (CHR '' '' # ?r) = Inr ts" using Cons by (simp add: tokenize.simps [of "CHR '' '' # ?r"])
  moreover have "lex1 (snd t @ CHR '' '' # ?r) = Some (Some t, CHR '' '' # ?r)" using Cons.prems by (simp add: tidy_def lexable_def)
  ultimately show ?case by (simp add: tokenize.simps [of "snd t @ CHR '' '' # ?r"])
qed (simp add: tokenize.simps)

lemma punct_tidy: "t \<in> {(Lparen, ''(''), (Rparen, '')''), (Lbrace, ''{''), (Rbrace, ''}''), (Comma, '','')} \<Longrightarrow> tidy t"
  by (auto simp: tidy_def lexable_def lex1_def black_ws lex_punct_def black_def)

lemma cmp_tidy: "c \<in> set CMP_OPS \<Longrightarrow> tidy (Cmp, c)"
  by (auto simp: tidy_def CMP_OPS_def lexable_def lex1_def black_ws lex_punct_def lex_cmp_def black_def)

text \<open>What a first character rules out.\<close>

lemma head_kinds:
  assumes "c \<notin> {CHR ''('', CHR '')'', CHR ''{'', CHR ''}'', CHR '',''}" "c \<notin> {CHR ''='', CHR ''!'', CHR ''<'', CHR ''>''}"
  shows "lex_punct (c # s) = None" "lex_cmp (c # s) = None"
  using assms by (simp_all add: lex_punct_def lex_cmp_def split: list.split)

lemma no_number: "\<not> is_digit c \<Longrightarrow> c \<noteq> CHR ''-'' \<Longrightarrow> lex_num (c # s) = None"
  by (simp add: lex_num_def lex_digits_def)

lemma lex_digits_digits: "lex_digits (digits n @ CHR '' '' # r) = Some (digits n, CHR '' '' # r)"
proof -
  have d: "\<forall>c \<in> set (digits n). is_digit c" using digits_chars by (simp add: is_digit_def)
  moreover have "\<not> is_digit (CHR '' '')" by (simp add: is_digit_def)
  ultimately have "takeWhile is_digit (digits n @ CHR '' '' # r) = digits n" "dropWhile is_digit (digits n @ CHR '' '' # r) = CHR '' '' # r"
    by (simp_all add: takeWhile_append dropWhile_append)
  then show ?thesis by (simp add: lex_digits_def)
qed

lemma fraction_space: "lex_fraction (CHR '' '' # r) = ([], CHR '' '' # r)"
  by (simp add: lex_fraction_def split: option.split)

lemma exponent_space: "lex_exponent (CHR '' '' # r) = ([], CHR '' '' # r)"
  by (simp add: lex_exponent_def split: option.split list.split)

lemma int_tidy: "tidy (Num, str_int i)"
proof -
  obtain c s where c: "str_int i = c # s" "c = CHR ''-'' \<or> 48 \<le> (of_char c :: nat) \<and> (of_char c :: nat) \<le> 57"
    using str_int_head by blast
  then have b: "black c" by (auto simp: black_def)
  have "c \<notin> {CHR ''('', CHR '')'', CHR ''{'', CHR ''}'', CHR '',''}" "c \<notin> {CHR ''='', CHR ''!'', CHR ''<'', CHR ''>''}"
    using c(2) by auto
  note none = head_kinds [OF this]
  have "lex_num (str_int i @ CHR '' '' # r) = Some (str_int i, CHR '' '' # r)" for r
  proof (cases "i < 0")
    case True
    then show ?thesis by (simp add: str_int_def lex_num_def lex_digits_digits fraction_space exponent_space)
  next
    case False
    then have "c \<noteq> CHR ''-''" using c(1) digits_chars [of c "nat i"] by (auto simp: str_int_def)
    moreover have d: "digits (nat i) = c # s" "str_int i = digits (nat i)" using c(1) False by (simp_all add: str_int_def)
    ultimately show ?thesis using lex_digits_digits [of "nat i" r]
      unfolding d(2) lex_num_def by (simp add: d(1) fraction_space exponent_space)
  qed
  then have "lexable (Num, str_int i)" using c(1) black_ws [OF b] none by (simp add: lexable_def lex1_def)
  then show ?thesis using c(1) b by (simp add: tidy_def)
qed

lemma quoted_body: "lex_body (CHR 0x22) (concat (map escape_char s) @ CHR 0x22 # r) = Some (concat (map escape_char s) @ [CHR 0x22], r)"
  by (induction s) (simp_all add: escape_char_def)

lemma quoted_tidy: "tidy (Str, quoted s)"
proof -
  have b: "black (CHR 0x22)" by (simp add: black_def)
  have "lex_str (quoted s @ CHR '' '' # r) = Some (quoted s, CHR '' '' # r)" for r
    using quoted_body [of s "CHR '' '' # r"] by (simp add: lex_str_def quoted_def)
  then have "lexable (Str, quoted s)"
    using black_ws [OF b] head_kinds [of "CHR 0x22"] no_number [of "CHR 0x22"]
    by (simp add: lexable_def lex1_def quoted_def is_digit_def)
  then show ?thesis using b by (simp add: tidy_def quoted_def)
qed

definition is_word :: "string \<Rightarrow> bool" where
  "is_word w = (case w of [] \<Rightarrow> False | c # s \<Rightarrow> word_start c \<and> list_all word_char s)"

lemma word_tidy: "is_word w \<Longrightarrow> tidy (Word, w)"
proof -
  assume "is_word w"
  then obtain c s where w: "w = c # s" "word_start c" "list_all word_char s" by (auto simp: is_word_def split: list.splits)
  have b: "black c" using w(2) by (auto simp: word_start_def ident_start_def black_def Let_def)
  have h: "c \<notin> {CHR ''('', CHR '')'', CHR ''{'', CHR ''}'', CHR '',''}" "c \<notin> {CHR ''='', CHR ''!'', CHR ''<'', CHR ''>''}"
      "\<not> is_digit c" "c \<noteq> CHR ''-''" "c \<notin> {CHR 0x22, CHR 0x27}"
    using w(2) by (auto simp: word_start_def ident_start_def is_digit_def Let_def)
  have "\<not> word_char (CHR '' '')" by (simp add: word_char_def ident_char_def ident_start_def)
  then have "lex_word (w @ CHR '' '' # r) = Some (w, CHR '' '' # r)" for r
    using w by (simp add: lex_word_def takeWhile_append dropWhile_append list_all_iff)
  moreover have "lex_str (w @ CHR '' '' # r) = None" for r using w(1) h(5) by (simp add: lex_str_def)
  ultimately have "lexable (Word, w)"
    using w(1) black_ws [OF b] head_kinds [OF h(1,2)] no_number [OF h(3,4)] by (simp add: lexable_def lex1_def)
  then show ?thesis using w(1) b by (simp add: tidy_def)
qed

lemma ident_word_char: "ident_start c \<Longrightarrow> word_start c" "ident_char c \<Longrightarrow> word_char c" "word_start c \<Longrightarrow> word_char c"
  by (auto simp: word_start_def word_char_def ident_char_def Let_def)

lemma split_dots_not_Nil [simp]: "split_dots s \<noteq> []"
  by (cases s) (simp_all split: list.split)

lemma ident_chars: "is_ident w \<Longrightarrow> list_all ident_char w"
  by (auto simp: is_ident_def ident_char_def Let_def split: list.splits)

lemma split_dots_chars: "\<forall>w \<in> set (split_dots s). list_all ident_char w \<Longrightarrow> list_all word_char s"
proof (induction s)
  case (Cons c s)
  obtain p ps where p: "split_dots s = p # ps" by (cases "split_dots s") simp_all
  then show ?case using Cons by (auto simp: word_char_def split: if_splits)
qed simp

lemma field_word: "field_ok f \<Longrightarrow> is_word f"
proof (cases "f = ''.''")
  case False
  assume "field_ok f"
  then have f: "list_all is_ident (split_dots f)" using False by (simp add: field_ok_def)
  then have "list_all word_char f"
    by (intro split_dots_chars ballI ident_chars) (simp add: list_all_iff)
  moreover obtain c s where "f = c # s" using f by (cases f) (simp_all add: is_ident_def)
  moreover from this f have "word_start c"
    by (auto simp: is_ident_def word_start_def split: if_splits list.splits)
  ultimately show ?thesis by (simp add: is_word_def)
qed (simp add: is_word_def word_start_def)

lemma keyword_tidy:
  assumes "w \<in> set [''and'', ''or'', ''not'', ''all'', ''any'', ''exists'', ''count'', ''in'', ''true'', ''false'']"
  shows "tidy (Word, w)"
proof -
  have "list_all is_word [''and'', ''or'', ''not'', ''all'', ''any'', ''exists'', ''count'', ''in'', ''true'', ''false'']" by code_simp
  then show ?thesis using assms word_tidy unfolding list_all_iff by blast
qed

lemma fixed_tidy [simp]:
  "tidy (Word, ''and'')" "tidy (Word, ''or'')" "tidy (Word, ''not'')" "tidy (Word, ''all'')" "tidy (Word, ''any'')"
  "tidy (Word, ''exists'')" "tidy (Word, ''count'')" "tidy (Word, ''in'')" "tidy (Word, ''true'')" "tidy (Word, ''false'')"
  "tidy (Lparen, ''('')" "tidy (Rparen, '')'')" "tidy (Lbrace, ''{'')" "tidy (Rbrace, ''}'')" "tidy (Comma, '','')"
  by (rule keyword_tidy punct_tidy; simp)+

lemma literal_tidy: "plain_literal l \<Longrightarrow> tidy (literal_token l)"
  by (cases l) (simp_all add: quoted_tidy int_tidy)

lemma commas_tidy: "(\<And>x. x \<in> set xs \<Longrightarrow> list_all tidy x) \<Longrightarrow> list_all tidy (commas xs)"
  by (induction xs rule: commas.induct) simp_all

lemma node_tidy: "grammar n \<Longrightarrow> list_all tidy (node_tokens n)"
proof (induction rule: grammar.induct)
  case (conn op ps)
  have "list_all tidy (commas (map node_tokens ps))" by (rule commas_tidy) (use conn in auto)
  then show ?case using conn(1) by (auto simp: tokens_ops)
next
  case (quant op f p)
  then show ?case using word_tidy [OF field_word] by (auto simp: tokens_ops)
next
  case (mem f ms)
  have "list_all tidy (commas (map (\<lambda>m. [literal_token m]) ms))"
    by (rule commas_tidy) (use mem literal_tidy in \<open>auto simp: list_all_iff\<close>)
  then show ?case using mem word_tidy [OF field_word] by (simp add: tokens_ops)
next
  case (cmp f c l)
  then show ?case using word_tidy [OF field_word] cmp_tidy literal_tidy by (simp add: tokens_cmp)
qed (use word_tidy [OF field_word] cmp_tidy int_tidy in \<open>simp_all add: tokens_ops\<close>)

lemma grammar_tokens: "grammar n \<Longrightarrow> node_tokens n \<noteq> []"
  by (induction rule: grammar.induct) (auto simp: tokens_ops tokens_cmp)

lemma find_mem: "find P xs = Some w \<Longrightarrow> w \<in> set xs \<and> P w"
  by (auto simp: find_Some_iff)

text \<open>Stripping does not eat a visible first character.\<close>

lemma strip_back_keeps: "c \<in> set s \<Longrightarrow> black c \<Longrightarrow> c \<in> set (strip_front n (map rev WHITESPACE) s)"
proof (induction n arbitrary: s)
  case (Suc n)
  show ?case
  proof (cases "find (\<lambda>w. is_prefix w s) (map rev WHITESPACE)")
    case (Some w)
    then have w: "is_prefix w s" "w \<in> rev ` set WHITESPACE" using find_mem by fastforce+
    have "\<forall>w \<in> set WHITESPACE. \<forall>d \<in> set w. \<not> black d" by (simp add: WHITESPACE_def black_def)
    then have "c \<notin> set w" using w(2) Suc.prems(2) by auto
    moreover have "s = w @ drop (length w) s" using w(1) by (auto simp: is_prefix_iff)
    ultimately have "c \<in> set (drop (length w) s)" using Suc.prems(1) by (metis Un_iff set_append)
    then show ?thesis using Some Suc by simp
  qed (use Suc.prems in simp)
qed simp

lemma strip_keeps_black: "black c \<Longrightarrow> strip (c # s) \<noteq> []"
proof -
  assume b: "black c"
  have "c \<in> set (strip_front (length (c # s)) (map rev WHITESPACE) (rev (c # s)))" by (rule strip_back_keeps) (simp_all add: b)
  then show ?thesis unfolding strip_def Let_def black_strip [OF b] by (metis empty_iff list.set(1) rev_is_Nil_conv)
qed

text \<open>
  C25. Every predicate has a text: for each node of the grammar, whatever its nesting, strings and
  integers, parsing the text printed for it gives the node back.
\<close>

theorem parse_render:
  assumes "grammar n"
  shows "parse tf (render n) = Inr n"
proof -
  obtain t ts where t: "node_tokens n = t # ts" "tidy t" using node_tidy [OF assms] grammar_tokens [OF assms] by (cases "node_tokens n") auto
  then obtain c s where c: "render n = c # s" "black c" by (cases "snd t") (auto simp: tidy_def render_def)
  have "strip (render n) \<noteq> []"
    using strip_keeps_black [OF c(2)] c(1) by simp
  moreover have "tokenize (render n) = Inr (node_tokens n)"
    unfolding render_def by (rule tokenize_spaced [OF node_tidy [OF assms]])
  ultimately show ?thesis using c(1) by (simp add: parse_def chain_back [OF assms])
qed

definition ex_node :: pyval where
  "ex_node = PList [PStr ''all'', PStr ''items'', PList [PStr ''or'',
     PList [PStr ''not'', PList [PStr ''in'', PStr ''a.b'', PList [PStr [CHR 0x22, CHR 0x5C], PInt (- 12), PBool True]]],
     PList [PStr ''=='', PStr ''.'', PStr '' x ''], PList [PStr ''count'', PStr ''c'', PStr ''>='', PInt 3]]]"

lemma ex_node_grammar: "grammar ex_node"
proof -
  have f: "field_ok ''items''" "field_ok ''a.b''" "field_ok ''.''" "field_ok ''c''" by code_simp+
  have ops: "''=='' \<in> set CMP_OPS" "''>='' \<in> set CMP_OPS" by code_simp+
  have "grammar (PList [PStr ''not'', PList [PStr ''in'', PStr ''a.b'', PList [PStr [CHR 0x22, CHR 0x5C], PInt (- 12), PBool True]]])"
    by (rule grammar.neg, rule grammar.mem [OF f(2)]) simp_all
  moreover have "grammar (PList [PStr ''=='', PStr ''.'', PStr '' x ''])" by (rule grammar.cmp [OF f(3) _ ops(1)]) simp_all
  moreover have "grammar (PList [PStr ''count'', PStr ''c'', PStr ''>='', PInt 3])" by (rule grammar.cnt [OF f(4) ops(2)])
  ultimately show ?thesis unfolding ex_node_def by (intro grammar.quant [OF _ f(1)] grammar.conn) auto
qed

theorem parse_render_witness: "parse (\<lambda>_. NaN) (render ex_node) = Inr ex_node"
  by (rule parse_render [OF ex_node_grammar])

text \<open>
  A chain of the same connective is announced as one flat node, but is nested to the left; only the
  canonical form flattens it.
\<close>

lemma chain_not_flat:
  "parse (\<lambda>_. NaN) ''exists(a) and exists(b) and exists(c)''
     = Inr (PList [PStr ''and'', PList [PStr ''and'', PList [PStr ''exists'', PStr ''a''], PList [PStr ''exists'', PStr ''b'']],
         PList [PStr ''exists'', PStr ''c'']])"
  by code_simp

end
