(* ===== verification/Scheduler.thy ===== *)
theory Scheduler
  imports AgentState PyString
begin

text \<open>
  The event-driven scheduler of the archived engine (\<^verbatim>\<open>legacy/scheduler.py\<close> with the records of
  \<^verbatim>\<open>legacy/models/activation.py\<close>): wake events and their status, wake conditions, the choice of the
  agents that activate in a tick, activations, and the way a tick of the simulation drives them.
  Activations are objects shared between the table of the tick and the history, so both hold
  references into one store.  A deadline is a number of microseconds since the epoch, UTC.
\<close>

section \<open>Events, conditions, candidates and activations\<close>

datatype wake_event_type = NEW_EMAIL | TOOL_RESULT | CHILD_TASK_CHANGE | LOCK_AVAILABLE | RETRY_TIMER | HUMAN_MESSAGE
  | DEADLINE_APPROACHING | TIMER_EXPIRY | BOOTSTRAP | EXTERNAL_RESULT | SCHEDULE_TRIGGER | HUMAN_ACTION

record wake_condition =
  event_types :: "wake_event_type list"
  wake_at_tick :: int
  task_ids :: "string list"
  resources :: "string list"
  thread_ids :: "string list"
  sender_ids :: "string list"

definition new_condition :: wake_condition where
  "new_condition = \<lparr>event_types = [BOOTSTRAP], wake_at_tick = 0, task_ids = [], resources = [], thread_ids = [], sender_ids = []\<rparr>"

record wakeup_event =
  event_id :: string
  event_type :: wake_event_type
  target_agent_id :: string
  e_tick :: int
  visible_at_tick :: int
  source_agent_id :: string
  e_task_id :: string
  e_resource :: string
  e_thread_id :: string
  details :: "(string, pyval) dict"

datatype event_status = QUEUED | ELIGIBLE | CLAIMED | CONSUMED | DEFERRED | EXPIRED

record queued_event =
  q_event :: wakeup_event
  q_status :: event_status

record ready_candidate =
  c_agent_id :: string
  c_events :: "wakeup_event list"
  c_tick :: int

record activation =
  activation_id :: string
  a_agent_id :: string
  a_tick :: int
  wake_events :: "wakeup_event list"
  completed :: bool
  llm_calls :: int
  tool_calls :: int
  llm_invocation_id :: "string option"
  a_error :: "string option"

record execution_config =
  max_llm_calls_per_activation :: nat
  max_tool_calls_per_activation :: nat
  max_action_budget :: nat
  max_active_agents_per_tick :: nat

definition default_config :: execution_config where
  "default_config = \<lparr>max_llm_calls_per_activation = 1, max_tool_calls_per_activation = 8, max_action_budget = 32,
     max_active_agents_per_tick = 8\<rparr>"

section \<open>The scheduler\<close>

record scheduler =
  config :: execution_config
  wake_conditions :: "(string, wake_condition) dict"
  queue :: "queued_event list"
  store :: "activation list"
  this_tick :: "(string, nat) dict"
  history :: "nat list"
  activation_counter :: nat
  last_overflow :: "ready_candidate list"

definition new_scheduler :: "execution_config option \<Rightarrow> scheduler" where
  "new_scheduler c = \<lparr>config = (case c of None \<Rightarrow> default_config | Some x \<Rightarrow> x), wake_conditions = [], queue = [], store = [],
     this_tick = [], history = [], activation_counter = 0, last_overflow = []\<rparr>"

definition register_agent :: "string \<Rightarrow> wake_condition option \<Rightarrow> scheduler \<Rightarrow> scheduler" where
  "register_agent a c s = s\<lparr>wake_conditions := dset a (case c of None \<Rightarrow> new_condition | Some x \<Rightarrow> x) (wake_conditions s)\<rparr>"

definition update_wake_condition :: "string \<Rightarrow> wake_condition \<Rightarrow> scheduler \<Rightarrow> scheduler" where
  "update_wake_condition a c s = s\<lparr>wake_conditions := dset a c (wake_conditions s)\<rparr>"

definition get_wake_condition :: "scheduler \<Rightarrow> string \<Rightarrow> wake_condition option" where
  "get_wake_condition s a = dget (wake_conditions s) a"

definition enqueue_event :: "wakeup_event \<Rightarrow> scheduler \<Rightarrow> scheduler" where
  "enqueue_event e s =
     (let e' = (if visible_at_tick e < 0 then e\<lparr>visible_at_tick := e_tick e + 1\<rparr> else e) in
      s\<lparr>queue := queue s @ [\<lparr>q_event = e', q_status = QUEUED\<rparr>]\<rparr>)"

text \<open>The sort key of an agent: priority first, then the deadline, then the name.\<close>

definition NO_DEADLINE :: int where
  "NO_DEADLINE = 253402300799999999"

type_synonym urgency_fn = "string \<Rightarrow> int \<times> int option"

definition urgency_key :: "urgency_fn option \<Rightarrow> string \<Rightarrow> int \<times> int \<times> string" where
  "urgency_key u a =
     (case u of
        None \<Rightarrow> (0, NO_DEADLINE, a)
      | Some f \<Rightarrow> (case f a of (rank, deadline) \<Rightarrow> (- rank, case deadline of Some d \<Rightarrow> d | None \<Rightarrow> NO_DEADLINE, a)))"

definition matches :: "wake_condition \<Rightarrow> wakeup_event \<Rightarrow> int \<Rightarrow> bool" where
  "matches c e tick =
     (let visible = (if visible_at_tick e \<ge> 0 then visible_at_tick e else e_tick e + 1) in
      if tick < visible then False
      else if tick < wake_at_tick c then False
      else if event_type e \<notin> set (event_types c) then False
      else if task_ids c \<noteq> [] \<and> e_task_id e \<noteq> [] \<and> e_task_id e \<notin> set (task_ids c) then False
      else if resources c \<noteq> [] \<and> e_resource e \<noteq> [] \<and> e_resource e \<notin> set (resources c) then False
      else if thread_ids c \<noteq> [] \<and> e_thread_id e \<noteq> [] \<and> e_thread_id e \<notin> set (thread_ids c) then False
      else if sender_ids c \<noteq> [] \<and> source_agent_id e \<noteq> [] \<and> source_agent_id e \<notin> set (sender_ids c) then False
      else True)"

text \<open>Changing the status of the events with given names that are in given states.\<close>

definition restatus :: "event_status list \<Rightarrow> event_status \<Rightarrow> string list \<Rightarrow> queued_event list \<Rightarrow> queued_event list" where
  "restatus from to ids q = map (\<lambda>qe. if q_status qe \<in> set from \<and> event_id (q_event qe) \<in> set ids then qe\<lparr>q_status := to\<rparr> else qe) q"

definition claim_events :: "string list \<Rightarrow> scheduler \<Rightarrow> wakeup_event list \<times> scheduler" where
  "claim_events ids s =
     (map q_event (filter (\<lambda>qe. q_status qe = ELIGIBLE \<and> event_id (q_event qe) \<in> set ids) (queue s)),
      s\<lparr>queue := restatus [ELIGIBLE] CLAIMED ids (queue s)\<rparr>)"

definition defer_events :: "string list \<Rightarrow> scheduler \<Rightarrow> scheduler" where
  "defer_events ids s = s\<lparr>queue := restatus [CLAIMED] ELIGIBLE ids (queue s)\<rparr>"

definition consume_events :: "string list \<Rightarrow> scheduler \<Rightarrow> scheduler" where
  "consume_events ids s = s\<lparr>queue := restatus [CLAIMED] CONSUMED ids (queue s)\<rparr>"

definition requeue_events :: "string list \<Rightarrow> scheduler \<Rightarrow> scheduler" where
  "requeue_events ids s = s\<lparr>queue := restatus [CLAIMED, ELIGIBLE] QUEUED ids (queue s)\<rparr>"

definition UNSCHEDULABLE :: "agent_state list" where
  "UNSCHEDULABLE = [PAUSED, FAILED, TERMINATED, CREATED, INITIALIZED]"

text \<open>Whether an event that is eligible wakes its agent, and the events by agent.\<close>

definition wakes :: "int \<Rightarrow> (string, agent_state) dict \<Rightarrow> (string, wake_condition) dict \<Rightarrow> wakeup_event \<Rightarrow> bool" where
  "wakes tick states conds e =
     (case dget states (target_agent_id e) of
        None \<Rightarrow> False
      | Some st \<Rightarrow>
          if st \<in> set UNSCHEDULABLE then False
          else case dget conds (target_agent_id e) of None \<Rightarrow> False | Some c \<Rightarrow> matches c e tick)"

definition add_event :: "wakeup_event \<Rightarrow> (string, wakeup_event list) dict \<Rightarrow> (string, wakeup_event list) dict" where
  "add_event e d =
     (let a = target_agent_id e in dset a ((case dget d a of None \<Rightarrow> [] | Some es \<Rightarrow> es) @ [e]) d)"

definition promote :: "queued_event list \<Rightarrow> queued_event list" where
  "promote q = map (\<lambda>qe. if q_status qe = QUEUED then qe\<lparr>q_status := ELIGIBLE\<rparr> else qe) q"

definition compute_ready_set :: "int \<Rightarrow> (string, agent_state) dict \<Rightarrow> urgency_fn option \<Rightarrow> scheduler
    \<Rightarrow> ready_candidate list \<times> scheduler" where
  "compute_ready_set tick states u s =
     (let q = promote (queue s);
          es = map q_event (filter (\<lambda>qe. q_status qe = ELIGIBLE) q);
          ae = fold add_event (filter (wakes tick states (wake_conditions s)) es) [];
          cands = map (\<lambda>a. \<lparr>c_agent_id = a, c_events = the (dget ae a), c_tick = tick\<rparr>) (sort_key (urgency_key u) (dkeys ae));
          cap = max_active_agents_per_tick (config s);
          over = drop cap cands;
          s1 = s\<lparr>queue := q, last_overflow := over\<rparr>
      in (take cap cands, fold (\<lambda>c. requeue_events (map event_id (c_events c))) over s1))"

text \<open>\<^verbatim>\<open>f"act.{n:06d}"\<close>\<close>

definition activation_name :: "nat \<Rightarrow> string" where
  "activation_name n = ''act.'' @ padded n"

definition begin_activation :: "ready_candidate \<Rightarrow> int \<Rightarrow> scheduler \<Rightarrow> nat res \<times> scheduler" where
  "begin_activation c tick s =
     (if dget (this_tick s) (c_agent_id c) \<noteq> None then (Inl (ValueError ''already has an activation''), s)
      else
        let n = activation_counter s + 1;
            act = \<lparr>activation_id = activation_name n, a_agent_id = c_agent_id c, a_tick = tick, wake_events = c_events c,
                   completed = False, llm_calls = 0, tool_calls = 0, llm_invocation_id = None, a_error = None\<rparr>;
            (_, s1) = claim_events (map event_id (c_events c)) (s\<lparr>activation_counter := n\<rparr>);
            ref = length (store s1)
        in (Inr ref, s1\<lparr>store := store s1 @ [act], this_tick := dset (c_agent_id c) ref (this_tick s1)\<rparr>))"

definition complete_activation :: "string \<Rightarrow> bool \<Rightarrow> string option \<Rightarrow> int \<Rightarrow> int \<Rightarrow> string option \<Rightarrow> scheduler
    \<Rightarrow> nat res \<times> scheduler" where
  "complete_activation aid success err llm tool invocation s =
     (case find (\<lambda>r. activation_id (store s ! r) = aid) (dvals (this_tick s)) of
        None \<Rightarrow> (Inl (ValueError ''activation not found''), s)
      | Some r \<Rightarrow>
          let act = (store s ! r)\<lparr>completed := success, a_error := err, llm_calls := llm, tool_calls := tool,
                      llm_invocation_id := invocation\<rparr>;
              s1 = s\<lparr>store := (store s)[r := act]\<rparr>;
              ids = map event_id (wake_events act);
              s2 = (if success then consume_events ids s1 else defer_events ids s1)
          in (Inr r, s2\<lparr>history := history s2 @ [r]\<rparr>))"

definition end_tick :: "scheduler \<Rightarrow> scheduler" where
  "end_tick s = s\<lparr>queue := map (\<lambda>qe. if q_status qe = ELIGIBLE then qe\<lparr>q_status := EXPIRED\<rparr> else qe) (queue s), this_tick := []\<rparr>"

definition pending_event_count :: "scheduler \<Rightarrow> nat" where
  "pending_event_count s = length (filter (\<lambda>qe. q_status qe \<in> {QUEUED, ELIGIBLE, CLAIMED}) (queue s))"

definition clear :: "scheduler \<Rightarrow> scheduler" where
  "clear s = s\<lparr>queue := [], this_tick := [], history := [], activation_counter := 0\<rparr>"

section \<open>The scheduler in a tick of the simulation\<close>

text \<open>
  The tick asks for the ready set and begins an activation for each candidate; after the commit it
  completes them, as failed when the tick was rolled back, and then requeues their events.  An error
  of the scheduler would end the tick.
\<close>

fun begin_all :: "ready_candidate list \<Rightarrow> int \<Rightarrow> scheduler \<Rightarrow> unit res \<times> scheduler" where
  "begin_all [] tick s = (Inr (), s)"
| "begin_all (c # cs) tick s =
     (case begin_activation c tick s of
        (Inl e, s1) \<Rightarrow> (Inl e, s1)
      | (Inr _, s1) \<Rightarrow> begin_all cs tick s1)"

fun complete_all :: "ready_candidate list \<Rightarrow> bool \<Rightarrow> scheduler \<Rightarrow> unit res \<times> scheduler" where
  "complete_all [] success s = (Inr (), s)"
| "complete_all (c # cs) success s =
     (case dget (this_tick s) (c_agent_id c) of
        None \<Rightarrow> complete_all cs success s
      | Some r \<Rightarrow>
          (case complete_activation (activation_id (store s ! r)) success None 0 0 None s of
             (Inl e, s1) \<Rightarrow> (Inl e, s1)
           | (Inr _, s1) \<Rightarrow> complete_all cs success s1))"

definition requeue_all :: "ready_candidate list \<Rightarrow> scheduler \<Rightarrow> scheduler" where
  "requeue_all cs s =
     fold (\<lambda>c s. case dget (this_tick s) (c_agent_id c) of
         None \<Rightarrow> s
       | Some r \<Rightarrow> requeue_events (map event_id (wake_events (store s ! r))) s) cs s"

definition schedule_tick :: "int \<Rightarrow> (string, agent_state) dict \<Rightarrow> urgency_fn option \<Rightarrow> scheduler
    \<Rightarrow> (unit res \<times> ready_candidate list) \<times> scheduler" where
  "schedule_tick tick states u s =
     (case compute_ready_set tick states u s of (ready, s1) \<Rightarrow>
      (case begin_all ready tick s1 of (r, s2) \<Rightarrow> ((r, ready), s2)))"

definition finish_tick :: "ready_candidate list \<Rightarrow> bool \<Rightarrow> scheduler \<Rightarrow> unit res \<times> scheduler" where
  "finish_tick ready rolled_back s =
     (case complete_all ready (\<not> rolled_back) s of
        (Inl e, s1) \<Rightarrow> (Inl e, s1)
      | (Inr _, s1) \<Rightarrow> (Inr (), end_tick (if rolled_back then requeue_all ready s1 else s1)))"

section \<open>The ready set\<close>

definition waiting :: "queued_event \<Rightarrow> bool" where
  "waiting qe \<longleftrightarrow> q_status qe = QUEUED \<or> q_status qe = ELIGIBLE"

definition waiting_events :: "scheduler \<Rightarrow> wakeup_event list" where
  "waiting_events s = map q_event (filter waiting (queue s))"

lemma promoted_events: "map q_event (filter (\<lambda>qe. q_status qe = ELIGIBLE) (promote q)) = map q_event (filter waiting q)"
  by (induction q) (auto simp: promote_def waiting_def)

lemma add_events:
  "dget (fold add_event es []) a = (if filter (\<lambda>e. target_agent_id e = a) es = [] then None else Some (filter (\<lambda>e. target_agent_id e = a) es))"
  by (induction es rule: rev_induct) (auto simp: add_event_def Let_def)

lemma add_events_wf: "dwf (fold add_event es [])"
  by (induction es rule: rev_induct) (simp_all add: add_event_def Let_def dwf_dset dwf_def [of "[]"])

lemma add_events_keys: "set (dkeys (fold add_event es [])) = target_agent_id ` set es"
  by (auto simp: pd.order_get add_events filter_empty_conv)

lemma urgency_key_inject: "urgency_key u a = urgency_key u b \<longleftrightarrow> a = b"
  by (auto simp: urgency_key_def split: option.splits prod.splits)

lemma requeued_fields:
  "last_overflow (fold (\<lambda>c. requeue_events (f c)) cs s) = last_overflow s"
  "this_tick (fold (\<lambda>c. requeue_events (f c)) cs s) = this_tick s"
  "store (fold (\<lambda>c. requeue_events (f c)) cs s) = store s"
  "activation_counter (fold (\<lambda>c. requeue_events (f c)) cs s) = activation_counter s"
  by (induction cs arbitrary: s) (simp_all add: requeue_events_def)

lemma strict_order:
  assumes "distinct xs"
  shows "sorted_wrt (\<lambda>a b. urgency_key u a < urgency_key u b) (sort_key (urgency_key u) xs)"
proof -
  let ?ys = "sort_key (urgency_key u) xs"
  have "sorted (map (urgency_key u) ?ys)" by simp
  moreover have "distinct (map (urgency_key u) ?ys)"
    using assms by (simp add: distinct_map inj_on_def urgency_key_inject)
  ultimately have "sorted_wrt (<) (map (urgency_key u) ?ys)" by (simp add: strict_sorted_iff)
  then show ?thesis by (simp add: sorted_wrt_map)
qed

definition candidates :: "int \<Rightarrow> (string, agent_state) dict \<Rightarrow> urgency_fn option \<Rightarrow> scheduler \<Rightarrow> ready_candidate list" where
  "candidates tick states u s =
     (let es = filter (wakes tick states (wake_conditions s)) (waiting_events s) in
      map (\<lambda>a. \<lparr>c_agent_id = a, c_events = filter (\<lambda>e. target_agent_id e = a) es, c_tick = tick\<rparr>)
        (sort_key (urgency_key u) (dkeys (fold add_event es []))))"

lemma ready_split:
  assumes "compute_ready_set tick states u s = (cs, s')"
  shows "cs @ last_overflow s' = candidates tick states u s" and "cs = take (max_active_agents_per_tick (config s)) (candidates tick states u s)"
    and "last_overflow s' = drop (max_active_agents_per_tick (config s)) (candidates tick states u s)"
proof -
  let ?es = "filter (wakes tick states (wake_conditions s)) (waiting_events s)"
  have "the (dget (fold add_event ?es []) a) = filter (\<lambda>e. target_agent_id e = a) ?es"
    if "a \<in> set (sort_key (urgency_key u) (dkeys (fold add_event ?es [])))" for a
    using that by (auto simp: add_events_keys add_events filter_empty_conv)
  then have "map (\<lambda>a. \<lparr>c_agent_id = a, c_events = the (dget (fold add_event ?es []) a), c_tick = tick\<rparr>)
      (sort_key (urgency_key u) (dkeys (fold add_event ?es []))) = candidates tick states u s"
    by (simp add: candidates_def)
  then show "cs = take (max_active_agents_per_tick (config s)) (candidates tick states u s)"
    and o: "last_overflow s' = drop (max_active_agents_per_tick (config s)) (candidates tick states u s)"
    using assms by (auto simp: compute_ready_set_def Let_def promoted_events waiting_events_def requeued_fields)
  then show "cs @ last_overflow s' = candidates tick states u s" by simp
qed

lemma candidates_order:
  "sorted_wrt (\<lambda>c d. urgency_key u (c_agent_id c) < urgency_key u (c_agent_id d)) (candidates tick states u s)"
  using strict_order [OF add_events_wf [unfolded dwf_def, folded dkeys_def]] by (simp add: candidates_def Let_def sorted_wrt_map)

lemma candidates_agents:
  "c_agent_id ` set (candidates tick states u s) = target_agent_id ` {e \<in> set (waiting_events s). wakes tick states (wake_conditions s) e}"
  by (simp add: candidates_def Let_def add_events_keys image_image)

lemma candidates_events:
  "c \<in> set (candidates tick states u s) \<Longrightarrow> c_tick c = tick
     \<and> c_events c = filter (\<lambda>e. target_agent_id e = c_agent_id c \<and> wakes tick states (wake_conditions s) e) (waiting_events s)"
  by (auto simp: candidates_def Let_def conj_commute)

lemma candidates_distinct: "distinct (map c_agent_id (candidates tick states u s))"
  using add_events_wf by (simp add: candidates_def Let_def dwf_def dkeys_def comp_def)

text \<open>
  What the documentation of the scheduler asks for, apart from the code: an event is due for its agent when
  the agent can be scheduled, has a wake condition, and the event is visible, past the agent's wake tick, of
  a type the agent waits for, and inside every restriction the condition names; an event that does not
  carry a task, resource, thread or sender is not restricted by it.
\<close>

definition fits :: "string list \<Rightarrow> string \<Rightarrow> bool" where
  "fits allowed x \<longleftrightarrow> allowed = [] \<or> x = [] \<or> x \<in> set allowed"

definition due :: "int \<Rightarrow> (string, agent_state) dict \<Rightarrow> (string, wake_condition) dict \<Rightarrow> wakeup_event \<Rightarrow> bool" where
  "due tick states conds e \<longleftrightarrow> (\<exists>st c.
     dget states (target_agent_id e) = Some st \<and> st \<notin> {PAUSED, FAILED, TERMINATED, CREATED, INITIALIZED}
     \<and> dget conds (target_agent_id e) = Some c
     \<and> (if visible_at_tick e < 0 then e_tick e < tick else visible_at_tick e \<le> tick) \<and> wake_at_tick c \<le> tick
     \<and> event_type e \<in> set (event_types c)
     \<and> fits (task_ids c) (e_task_id e) \<and> fits (resources c) (e_resource e)
     \<and> fits (thread_ids c) (e_thread_id e) \<and> fits (sender_ids c) (source_agent_id e))"

lemma matches_fits:
  "matches c e tick \<longleftrightarrow> (if visible_at_tick e < 0 then e_tick e < tick else visible_at_tick e \<le> tick) \<and> wake_at_tick c \<le> tick
     \<and> event_type e \<in> set (event_types c)
     \<and> fits (task_ids c) (e_task_id e) \<and> fits (resources c) (e_resource e)
     \<and> fits (thread_ids c) (e_thread_id e) \<and> fits (sender_ids c) (source_agent_id e)"
  unfolding matches_def Let_def fits_def by auto

lemma wakes_due: "wakes tick states conds e \<longleftrightarrow> due tick states conds e"
  by (auto simp: wakes_def due_def matches_fits UNSCHEDULABLE_def split: option.splits)

text \<open>
  The order of the ranking: the higher rank comes first; of equal ranks, the earlier deadline, where no
  deadline is later than any; of equal deadlines, the smaller name.  Without ranks it is the names alone.
\<close>

definition by_when :: "int option \<Rightarrow> int" where
  "by_when d = (case d of Some t \<Rightarrow> t | None \<Rightarrow> 253402300799999999)"

definition ahead :: "urgency_fn option \<Rightarrow> string \<Rightarrow> string \<Rightarrow> bool" where
  "ahead u a b \<longleftrightarrow>
     (case u of
        None \<Rightarrow> a < b
      | Some f \<Rightarrow> fst (f b) < fst (f a)
          \<or> fst (f a) = fst (f b) \<and> (by_when (snd (f a)) < by_when (snd (f b))
              \<or> by_when (snd (f a)) = by_when (snd (f b)) \<and> a < b))"

lemma urgency_ahead: "urgency_key u a < urgency_key u b \<longleftrightarrow> ahead u a b"
  by (auto simp: urgency_key_def ahead_def by_when_def NO_DEADLINE_def split: option.splits prod.splits)


text \<open>An agent that is woken is chosen exactly when fewer woken agents are ahead of it than the tick has places.\<close>

definition woken_agents :: "int \<Rightarrow> (string, agent_state) dict \<Rightarrow> scheduler \<Rightarrow> string set" where
  "woken_agents tick states s = target_agent_id ` {e \<in> set (waiting_events s). due tick states (wake_conditions s) e}"

definition places_before :: "int \<Rightarrow> (string, agent_state) dict \<Rightarrow> urgency_fn option \<Rightarrow> scheduler \<Rightarrow> string \<Rightarrow> nat" where
  "places_before tick states u s a = card {b \<in> woken_agents tick states s. ahead u b a}"

lemma nth_mem_take: "distinct xs \<Longrightarrow> i < length xs \<Longrightarrow> xs ! i \<in> set (take n xs) \<longleftrightarrow> i < n"
  by (auto simp: in_set_conv_nth nth_eq_iff_index_eq)

lemma predecessors:
  assumes "sorted_wrt (\<lambda>x y. (f x :: 'b :: linorder) < f y) xs" and "distinct xs" and "i < length xs"
  shows "card {y \<in> set xs. f y < f (xs ! i)} = i"
proof -
  have "f (xs ! j) < f (xs ! i) \<longleftrightarrow> j < i" if "j < length xs" for j
    using sorted_wrt_nth_less [OF assms(1), of j i] sorted_wrt_nth_less [OF assms(1), of i j] that assms(3)
    by (cases j i rule: linorder_cases) auto
  then have "{y \<in> set xs. f y < f (xs ! i)} = nth xs ` {0 ..< i}"
    using assms(3) by (auto simp: set_conv_nth image_iff)
  then have "{y \<in> set xs. f y < f (xs ! i)} = set (take i xs)" using assms(3) by (simp add: nth_image)
  moreover have "card (set (take i xs)) = i" using assms(2,3) by (simp add: distinct_card)
  ultimately show ?thesis by simp
qed

lemma chosen_iff_place:
  assumes "a \<in> woken_agents tick states s" and "compute_ready_set tick states u s = (ready, s')"
  shows "a \<in> c_agent_id ` set ready \<longleftrightarrow> places_before tick states u s a < max_active_agents_per_tick (config s)"
proof -
  let ?names = "map c_agent_id (candidates tick states u s)" and ?cap = "max_active_agents_per_tick (config s)"
  have set: "set ?names = woken_agents tick states s"
    using candidates_agents [of tick states u s] by (simp add: woken_agents_def wakes_due)
  have dist: "distinct ?names" by (rule candidates_distinct)
  have ord: "sorted_wrt (\<lambda>x y. urgency_key u x < urgency_key u y) ?names"
    using candidates_order [of u tick states s] by (simp add: sorted_wrt_map)
  obtain i where i: "i < length ?names" "?names ! i = a" using assms(1) set by (metis in_set_conv_nth)
  have "places_before tick states u s a = i"
    using predecessors [OF ord dist i(1)] unfolding places_before_def set i(2) urgency_ahead .
  moreover have "c_agent_id ` set ready = set (take ?cap ?names)"
    using ready_split(2) [OF assms(2)] by (simp add: take_map)
  ultimately show ?thesis using nth_mem_take [OF dist i(1)] i(2) by simp
qed

section \<open>What a tick does to the events\<close>

abbreviation ids :: "ready_candidate list \<Rightarrow> string list" where
  "ids cs \<equiv> concat (map (\<lambda>c. map event_id (c_events c)) cs)"

lemma restatus_append: "restatus fr to (xs @ ys) q = restatus fr to ys (restatus fr to xs q)"
  by (induction q) (auto simp: restatus_def)

lemma restatus_Nil [simp]: "restatus fr to [] q = q"
  by (induction q) (auto simp: restatus_def)

lemma requeue_fold: "queue (fold (\<lambda>c. requeue_events (map event_id (c_events c))) cs s) = restatus [CLAIMED, ELIGIBLE] QUEUED (ids cs) (queue s)"
  by (induction cs arbitrary: s) (simp_all add: requeue_events_def restatus_append)

lemma ready_queue:
  "queue (snd (compute_ready_set tick states u s))
     = restatus [CLAIMED, ELIGIBLE] QUEUED (ids (last_overflow (snd (compute_ready_set tick states u s)))) (promote (queue s))"
  by (simp add: compute_ready_set_def Let_def requeue_fold requeued_fields)

lemma ready_fields:
  "this_tick (snd (compute_ready_set tick states u s)) = this_tick s"
  "store (snd (compute_ready_set tick states u s)) = store s"
  "activation_counter (snd (compute_ready_set tick states u s)) = activation_counter s"
  by (simp_all add: compute_ready_set_def Let_def requeued_fields)

text \<open>Beginning: one activation per candidate, with names of its own.\<close>

lemma activation_name_inject: "activation_name m = activation_name n \<longleftrightarrow> m = n"
  by (simp add: activation_name_def)

lemma dset_new: "dget d k = None \<Longrightarrow> dset k v d = d @ [(k, v)]"
  by (induction k v d rule: dset.induct) auto

definition opened :: "nat \<Rightarrow> int \<Rightarrow> ready_candidate \<Rightarrow> activation" where
  "opened n tick c = \<lparr>activation_id = activation_name n, a_agent_id = c_agent_id c, a_tick = tick, wake_events = c_events c,
     completed = False, llm_calls = 0, tool_calls = 0, llm_invocation_id = None, a_error = None\<rparr>"

fun opened_all :: "nat \<Rightarrow> int \<Rightarrow> ready_candidate list \<Rightarrow> activation list" where
  "opened_all n tick [] = []"
| "opened_all n tick (c # cs) = opened (Suc n) tick c # opened_all (Suc n) tick cs"

lemma begin_all_run:
  assumes "distinct (map c_agent_id cs)" and "\<And>c. c \<in> set cs \<Longrightarrow> dget (this_tick s) (c_agent_id c) = None"
  shows "begin_all cs tick s = (Inr (), s\<lparr>activation_counter := activation_counter s + length cs,
     queue := restatus [ELIGIBLE] CLAIMED (ids cs) (queue s), store := store s @ opened_all (activation_counter s) tick cs,
     this_tick := this_tick s @ zip (map c_agent_id cs) [length (store s) ..< length (store s) + length cs]\<rparr>)"
  using assms
proof (induction cs arbitrary: s)
  case (Cons c cs)
  let ?s = "s\<lparr>activation_counter := Suc (activation_counter s), queue := restatus [ELIGIBLE] CLAIMED (map event_id (c_events c)) (queue s),
      store := store s @ [opened (Suc (activation_counter s)) tick c], this_tick := this_tick s @ [(c_agent_id c, length (store s))]\<rparr>"
  have "begin_activation c tick s = (Inr (length (store s)), ?s)"
    using Cons.prems(2) [of c] by (simp add: begin_activation_def claim_events_def dset_new opened_def Let_def)
  moreover have "begin_all cs tick ?s = (Inr (), ?s\<lparr>activation_counter := activation_counter ?s + length cs,
     queue := restatus [ELIGIBLE] CLAIMED (ids cs) (queue ?s), store := store ?s @ opened_all (activation_counter ?s) tick cs,
     this_tick := this_tick ?s @ zip (map c_agent_id cs) [length (store ?s) ..< length (store ?s) + length cs]\<rparr>)"
  proof (rule Cons.IH)
    fix d assume d: "d \<in> set cs"
    then have "c_agent_id d \<noteq> c_agent_id c" using Cons.prems(1) by (metis distinct.simps(2) image_eqI list.set_map list.simps(9))
    then show "dget (this_tick ?s) (c_agent_id d) = None" using Cons.prems(2) [of d] d by (simp add: map_add_def)
  qed (use Cons.prems(1) in simp)
  ultimately show ?case by (simp add: restatus_append upt_rec)
qed simp

lemma opened_all_length [simp]: "length (opened_all n tick cs) = length cs"
  by (induction cs arbitrary: n) simp_all

lemma opened_all_nth: "i < length cs \<Longrightarrow> opened_all n tick cs ! i = opened (Suc (n + i)) tick (cs ! i)"
  by (induction cs arbitrary: n i) (simp_all add: nth_Cons split: nat.split)

text \<open>
  The table of the tick points to activations with different names, and each candidate's activation
  holds its events.
\<close>

definition tick_ok :: "ready_candidate list \<Rightarrow> scheduler \<Rightarrow> bool" where
  "tick_ok cs s \<longleftrightarrow> (\<forall>r \<in> set (dvals (this_tick s)). r < length (store s)
       \<and> (\<forall>r' \<in> set (dvals (this_tick s)). activation_id (store s ! r) = activation_id (store s ! r') \<longrightarrow> r = r'))
     \<and> (\<forall>c \<in> set cs. \<exists>r. dget (this_tick s) (c_agent_id c) = Some r \<and> wake_events (store s ! r) = c_events c)"

lemma tick_ok_begun:
  assumes "distinct (map c_agent_id cs)" and "this_tick s = []"
  shows "tick_ok cs (snd (begin_all cs tick s))"
proof -
  let ?s = "snd (begin_all cs tick s)" and ?n = "length (store s)"
  have run: "this_tick ?s = zip (map c_agent_id cs) [?n ..< ?n + length cs]"
      "store ?s = store s @ opened_all (activation_counter s) tick cs"
    using begin_all_run [OF assms(1), of s tick] assms(2) by simp_all
  have vals: "dvals (this_tick ?s) = [?n ..< ?n + length cs]" unfolding run(1) dvals_def by simp
  have at: "store ?s ! (?n + i) = opened (Suc (activation_counter s + i)) tick (cs ! i)" if "i < length cs" for i
    unfolding run(2) using that by (simp add: nth_append opened_all_nth)
  have name: "activation_id (store ?s ! r) = activation_name (Suc (activation_counter s + (r - ?n)))" if "r \<in> set (dvals (this_tick ?s))" for r
  proof -
    have "r - ?n < length cs" "?n + (r - ?n) = r" using that unfolding vals by auto
    then show ?thesis using at [of "r - ?n"] by (simp add: opened_def)
  qed
  have "\<exists>r. dget (this_tick ?s) (c_agent_id c) = Some r \<and> wake_events (store ?s ! r) = c_events c" if "c \<in> set cs" for c
  proof -
    obtain i where i: "i < length cs" "cs ! i = c" using \<open>c \<in> set cs\<close> by (auto simp: in_set_conv_nth)
    have "dget (this_tick ?s) (map c_agent_id cs ! i) = Some ([?n ..< ?n + length cs] ! i)"
      unfolding run(1) using assms(1) i(1) by (intro map_of_zip_nth) simp_all
    then show ?thesis using at [OF i(1)] i by (intro exI [of _ "?n + i"]) (simp add: opened_def)
  qed
  moreover have "r < length (store ?s)" if "r \<in> set (dvals (this_tick ?s))" for r
    using that unfolding vals run(2) by simp
  moreover have "r = r'" if "r \<in> set (dvals (this_tick ?s))" "r' \<in> set (dvals (this_tick ?s))"
      "activation_id (store ?s ! r) = activation_id (store ?s ! r')" for r r'
    using that(3) name [OF that(1)] name [OF that(2)] that(1,2) unfolding vals by (simp add: activation_name_inject) linarith
  ultimately show ?thesis unfolding tick_ok_def by blast
qed

lemma find_same: "x \<in> set xs \<Longrightarrow> P x \<Longrightarrow> (\<And>y. y \<in> set xs \<Longrightarrow> P y \<Longrightarrow> y = x) \<Longrightarrow> find P xs = Some x"
  by (cases "find P xs") (metis find_None_iff, metis find_Some_iff nth_mem)

lemma get_val: "dget d k = Some v \<Longrightarrow> v \<in> set (dvals d)"
  by (force simp: dvals_def dest: map_of_SomeD)

text \<open>Completing: the events of each candidate move together.\<close>

lemma complete_one:
  assumes "tick_ok cs s" and "c \<in> set cs" and "dget (this_tick s) (c_agent_id c) = Some r"
  shows "\<exists>s'. complete_activation (activation_id (store s ! r)) success None 0 0 None s = (Inr r, s') \<and> tick_ok cs s'
    \<and> queue s' = restatus [CLAIMED] (if success then CONSUMED else ELIGIBLE) (map event_id (c_events c)) (queue s)"
proof -
  have r: "r \<in> set (dvals (this_tick s))" using get_val [OF assms(3)] .
  have f: "find (\<lambda>x. activation_id (store s ! x) = activation_id (store s ! r)) (dvals (this_tick s)) = Some r"
    by (rule find_same [OF r]) (use assms(1) r in \<open>auto simp: tick_ok_def\<close>)
  have w: "wake_events (store s ! r) = c_events c" using assms by (auto simp: tick_ok_def)
  let ?act = "(store s ! r)\<lparr>completed := success, a_error := None, llm_calls := 0, tool_calls := 0, llm_invocation_id := None\<rparr>"
  let ?s = "s\<lparr>store := (store s)[r := ?act], history := history s @ [r],
     queue := restatus [CLAIMED] (if success then CONSUMED else ELIGIBLE) (map event_id (c_events c)) (queue s)\<rparr>"
  have same: "activation_id ((store s)[r := ?act] ! x) = activation_id (store s ! x)"
      "wake_events ((store s)[r := ?act] ! x) = wake_events (store s ! x)" for x
    using assms(1) r by (simp_all add: tick_ok_def nth_list_update)
  have "tick_ok cs ?s" using assms(1) by (simp add: tick_ok_def same)
  moreover have "complete_activation (activation_id (store s ! r)) success None 0 0 None s = (Inr r, ?s)"
    unfolding complete_activation_def f option.case Let_def by (simp add: consume_events_def defer_events_def w)
  ultimately show ?thesis by (intro exI [of _ ?s]) simp
qed

lemma complete_all_run:
  assumes "tick_ok cs s" and "set ds \<subseteq> set cs"
  shows "\<exists>s'. complete_all ds success s = (Inr (), s') \<and> tick_ok cs s'
    \<and> queue s' = restatus [CLAIMED] (if success then CONSUMED else ELIGIBLE) (ids ds) (queue s)"
  using assms
proof (induction ds arbitrary: s)
  case (Cons c ds)
  have c: "c \<in> set cs" using Cons.prems(2) by simp
  obtain r where r: "dget (this_tick s) (c_agent_id c) = Some r" using Cons.prems(1) c by (auto simp: tick_ok_def)
  obtain s1 where s1: "complete_activation (activation_id (store s ! r)) success None 0 0 None s = (Inr r, s1)" "tick_ok cs s1"
      "queue s1 = restatus [CLAIMED] (if success then CONSUMED else ELIGIBLE) (map event_id (c_events c)) (queue s)"
    using complete_one [OF Cons.prems(1) c r] by blast
  obtain s' where "complete_all ds success s1 = (Inr (), s')" "tick_ok cs s'"
      "queue s' = restatus [CLAIMED] (if success then CONSUMED else ELIGIBLE) (ids ds) (queue s1)"
    using Cons.IH [OF s1(2)] Cons.prems(2) by auto
  then show ?case using r s1(1,3) by (simp add: restatus_append)
qed simp

lemma requeue_all_run:
  assumes "tick_ok cs s" and "set ds \<subseteq> set cs"
  shows "queue (requeue_all ds s) = restatus [CLAIMED, ELIGIBLE] QUEUED (ids ds) (queue s)"
  using assms
proof (induction ds arbitrary: s)
  case (Cons c ds)
  obtain r where r: "dget (this_tick s) (c_agent_id c) = Some r" "wake_events (store s ! r) = c_events c"
    using Cons.prems by (auto simp: tick_ok_def)
  have "tick_ok cs (requeue_events (map event_id (c_events c)) s)"
    using Cons.prems(1) by (simp add: tick_ok_def requeue_events_def)
  then have "queue (requeue_all ds (requeue_events (map event_id (c_events c)) s))
      = restatus [CLAIMED, ELIGIBLE] QUEUED (ids ds) (queue (requeue_events (map event_id (c_events c)) s))"
    using Cons.IH Cons.prems(2) by simp
  then show ?case using r by (simp add: requeue_all_def requeue_events_def restatus_append)
qed (simp add: requeue_all_def)

text \<open>Which names the candidates hold, when names are unique.\<close>

lemma names_hit:
  assumes "distinct (map (\<lambda>qe. event_id (q_event qe)) (queue s))" and "qe \<in> set (queue s)"
    and "set cs \<subseteq> set (candidates tick states u s)"
  shows "event_id (q_event qe) \<in> set (ids cs)
    \<longleftrightarrow> waiting qe \<and> wakes tick states (wake_conditions s) (q_event qe) \<and> target_agent_id (q_event qe) \<in> c_agent_id ` set cs"
proof
  assume "event_id (q_event qe) \<in> set (ids cs)"
  then obtain c e where c: "c \<in> set cs" "e \<in> set (c_events c)" "event_id e = event_id (q_event qe)" by auto
  have ce: "c_events c = filter (\<lambda>e. target_agent_id e = c_agent_id c \<and> wakes tick states (wake_conditions s) e) (waiting_events s)"
    using candidates_events assms(3) c(1) by blast
  then obtain qe' where q: "qe' \<in> set (queue s)" "waiting qe'" "q_event qe' = e" using c(2) by (auto simp: waiting_events_def)
  then have "qe' = qe" using assms(1,2) c(3) by (auto simp: distinct_map dest: inj_onD)
  then show "waiting qe \<and> wakes tick states (wake_conditions s) (q_event qe) \<and> target_agent_id (q_event qe) \<in> c_agent_id ` set cs"
    using q c(1,2) unfolding ce by auto
next
  assume h: "waiting qe \<and> wakes tick states (wake_conditions s) (q_event qe) \<and> target_agent_id (q_event qe) \<in> c_agent_id ` set cs"
  then obtain c where c: "c \<in> set cs" "target_agent_id (q_event qe) = c_agent_id c" by auto
  have "c_events c = filter (\<lambda>e. target_agent_id e = c_agent_id c \<and> wakes tick states (wake_conditions s) e) (waiting_events s)"
    using candidates_events assms(3) c(1) by blast
  then have "q_event qe \<in> set (c_events c)" using h c(2) assms(2) by (auto simp: waiting_events_def)
  then show "event_id (q_event qe) \<in> set (ids cs)" using c(1) by auto
qed

lemma restatus_new: "list_all (\<lambda>qe. q_status qe = QUEUED) new \<Longrightarrow> QUEUED \<notin> set fr \<Longrightarrow> restatus fr to names (q @ new) = restatus fr to names q @ new"
  by (induction new) (auto simp: restatus_def)

text \<open>The steps of a tick as functions on the status alone.\<close>

definition move :: "event_status list \<Rightarrow> event_status \<Rightarrow> bool \<Rightarrow> event_status \<Rightarrow> event_status" where
  "move fr to hit st = (if st \<in> set fr \<and> hit then to else st)"

definition promoted :: "event_status \<Rightarrow> event_status" where
  "promoted st = (if st = QUEUED then ELIGIBLE else st)"

definition ended :: "event_status \<Rightarrow> event_status" where
  "ended st = (if st = ELIGIBLE then EXPIRED else st)"

lemma restatus_move: "restatus fr to names q = map (\<lambda>qe. qe\<lparr>q_status := move fr to (event_id (q_event qe) \<in> set names) (q_status qe)\<rparr>) q"
  by (simp add: restatus_def move_def)

lemma promote_move: "promote q = map (\<lambda>qe. qe\<lparr>q_status := promoted (q_status qe)\<rparr>) q"
  by (simp add: promote_def promoted_def)

lemma ended_move: "(if q_status qe = ELIGIBLE then qe\<lparr>q_status := EXPIRED\<rparr> else qe) = qe\<lparr>q_status := ended (q_status qe)\<rparr>"
  by (simp add: ended_def)

lemma tick_status:
  assumes "a \<or> b \<longrightarrow> st = QUEUED \<or> st = ELIGIBLE" and "a \<longrightarrow> \<not> b"
  shows "ended ((if rb then move [CLAIMED, ELIGIBLE] QUEUED a else id) (move [CLAIMED] (if \<not> rb then CONSUMED else ELIGIBLE) a
      (move [ELIGIBLE] CLAIMED a (move [CLAIMED, ELIGIBLE] QUEUED b (promoted st)))))
    = (if a \<and> (st = QUEUED \<or> st = ELIGIBLE) then (if rb then QUEUED else CONSUMED)
       else if b \<and> (st = QUEUED \<or> st = ELIGIBLE) then QUEUED
       else if st = QUEUED \<or> st = ELIGIBLE then EXPIRED else st)"
  using assms by (cases st; cases a; cases b; cases rb; simp add: ended_def move_def promoted_def)

text \<open>The passage of one event through a tick, by whether a chosen or a postponed candidate holds its name.\<close>

definition passage :: "bool \<Rightarrow> string list \<Rightarrow> string list \<Rightarrow> queued_event \<Rightarrow> event_status" where
  "passage rolled_back chosen postponed qe =
     (if event_id (q_event qe) \<in> set chosen \<and> waiting qe then (if rolled_back then QUEUED else CONSUMED)
      else if event_id (q_event qe) \<in> set postponed \<and> waiting qe then QUEUED
      else if waiting qe then EXPIRED else q_status qe)"

lemma through_tick:
  assumes "\<And>qe. qe \<in> set q \<Longrightarrow> event_id (q_event qe) \<in> set xs \<union> set ys \<Longrightarrow> waiting qe"
    and "\<And>qe. qe \<in> set q \<Longrightarrow> event_id (q_event qe) \<in> set xs \<Longrightarrow> event_id (q_event qe) \<notin> set ys"
  shows "map (\<lambda>qe. if q_status qe = ELIGIBLE then qe\<lparr>q_status := EXPIRED\<rparr> else qe)
      ((if rb then restatus [CLAIMED, ELIGIBLE] QUEUED xs else id)
        (restatus [CLAIMED] (if \<not> rb then CONSUMED else ELIGIBLE) xs
          (restatus [ELIGIBLE] CLAIMED xs (restatus [CLAIMED, ELIGIBLE] QUEUED ys (promote q)))))
    = map (\<lambda>qe. qe\<lparr>q_status := passage rb xs ys qe\<rparr>) q"
proof -
  let ?f = "\<lambda>qe. let a = event_id (q_event qe) \<in> set xs; b = event_id (q_event qe) \<in> set ys in
     ended ((if rb then move [CLAIMED, ELIGIBLE] QUEUED a else id) (move [CLAIMED] (if \<not> rb then CONSUMED else ELIGIBLE) a
       (move [ELIGIBLE] CLAIMED a (move [CLAIMED, ELIGIBLE] QUEUED b (promoted (q_status qe))))))"
  have "?f qe = passage rb xs ys qe" if qe: "qe \<in> set q" for qe
  proof -
    let ?a = "event_id (q_event qe) \<in> set xs" and ?b = "event_id (q_event qe) \<in> set ys"
    have w: "?a \<or> ?b \<longrightarrow> q_status qe = QUEUED \<or> q_status qe = ELIGIBLE" "?a \<longrightarrow> \<not> ?b"
      using assms(1,2) [OF qe] by (auto simp: waiting_def)
    then show ?thesis
      unfolding Let_def passage_def waiting_def by (intro tick_status)
  qed
  then have "map (\<lambda>qe. qe\<lparr>q_status := ?f qe\<rparr>) q = map (\<lambda>qe. qe\<lparr>q_status := passage rb xs ys qe\<rparr>) q" by simp
  then show ?thesis by (cases rb) (simp_all add: restatus_move promote_move ended_move comp_def Let_def)
qed

text \<open>
  C27. No wake is lost to capacity or to a rollback: in a tick whose events have unique names, beginning
  and finishing succeed, and of the events that were waiting, those that matched are consumed when their
  agent was chosen and the tick was committed, and are queued again when the tick was rolled back or the
  agent was over capacity; those that did not match expire; what was queued meanwhile stays queued.
\<close>

theorem tick_settles_events:
  assumes names: "distinct (map (\<lambda>qe. event_id (q_event qe)) (queue s))" and fresh: "this_tick s = []"
    and sched: "schedule_tick tick states u s = ((r, ready), s1)"
    and body: "queue s2 = queue s1 @ new" "list_all (\<lambda>qe. q_status qe = QUEUED) new" "this_tick s2 = this_tick s1" "store s2 = store s1"
  shows "r = Inr () \<and> (\<exists>s3. finish_tick ready rolled_back s2 = (Inr (), s3) \<and> this_tick s3 = []
    \<and> queue s3 = map (\<lambda>qe. qe\<lparr>q_status :=
         (if \<not> waiting qe then q_status qe
          else if \<not> wakes tick states (wake_conditions s) (q_event qe) then EXPIRED
          else if rolled_back \<or> target_agent_id (q_event qe) \<notin> c_agent_id ` set ready then QUEUED else CONSUMED)\<rparr>) (queue s) @ new)"
proof -
  obtain s0 where s0: "compute_ready_set tick states u s = (ready, s0)" and b: "begin_all ready tick s0 = (r, s1)"
    using sched by (auto simp: schedule_tick_def split: prod.splits)
  note split = ready_split [OF s0]
  let ?cs = "candidates tick states u s" and ?over = "last_overflow s0"
  have tt: "this_tick s0 = []" using ready_fields(1) [of tick states u s] s0 fresh by simp
  have dist: "distinct (map c_agent_id ready)" using candidates_distinct [of tick states u s] unfolding split(1) [symmetric] by simp
  have run: "r = Inr ()" "queue s1 = restatus [ELIGIBLE] CLAIMED (ids ready) (queue s0)"
    using begin_all_run [OF dist, of s0 tick] tt b by auto
  have q0: "queue s0 = restatus [CLAIMED, ELIGIBLE] QUEUED (ids ?over) (promote (queue s))"
    using ready_queue [of tick states u s] s0 by simp
  have ok: "tick_ok ready s2" using tick_ok_begun [OF dist tt, of tick] b body(3,4) by (simp add: tick_ok_def)
  obtain s' where s': "complete_all ready (\<not> rolled_back) s2 = (Inr (), s')" "tick_ok ready s'"
      "queue s' = restatus [CLAIMED] (if \<not> rolled_back then CONSUMED else ELIGIBLE) (ids ready) (queue s2)"
    using complete_all_run [OF ok order_refl] by blast
  let ?s3 = "end_tick (if rolled_back then requeue_all ready s' else s')"
  have hit: "event_id (q_event qe) \<in> set (ids cs) \<longleftrightarrow> waiting qe \<and> wakes tick states (wake_conditions s) (q_event qe)
      \<and> target_agent_id (q_event qe) \<in> c_agent_id ` set cs" if "qe \<in> set (queue s)" "set cs \<subseteq> set ?cs" for qe cs
    using names_hit [OF names that] .
  have sub: "set ready \<subseteq> set ?cs" "set ?over \<subseteq> set ?cs" unfolding split(1) [symmetric] by auto
  have disj: "c_agent_id ` set ready \<inter> c_agent_id ` set ?over = {}" and
      all: "c_agent_id ` set ready \<union> c_agent_id ` set ?over
        = target_agent_id ` {e \<in> set (waiting_events s). wakes tick states (wake_conditions s) e}"
    using candidates_distinct [of tick states u s] candidates_agents [of tick states u s] unfolding split(1) [symmetric] by auto
  have "queue ?s3 = map (\<lambda>qe. if q_status qe = ELIGIBLE then qe\<lparr>q_status := EXPIRED\<rparr> else qe)
      ((if rolled_back then restatus [CLAIMED, ELIGIBLE] QUEUED (ids ready) else id)
        (restatus [CLAIMED] (if \<not> rolled_back then CONSUMED else ELIGIBLE) (ids ready) (queue s1))) @ new"
    using requeue_all_run [OF s'(2) order_refl] body(2)
    by (auto simp: end_tick_def s'(3) body(1) restatus_new list_all_iff intro!: map_idI)
  also have "\<dots> = map (\<lambda>qe. qe\<lparr>q_status := passage rolled_back (ids ready) (ids ?over) qe\<rparr>) (queue s) @ new"
  proof -
    have "event_id (q_event qe) \<notin> set (ids ?over)" if "qe \<in> set (queue s)" "event_id (q_event qe) \<in> set (ids ready)" for qe
      using hit [OF that(1) sub(1)] hit [OF that(1) sub(2)] that(2) disj by blast
    then show ?thesis unfolding run(2) q0 using hit [OF _ sub(1)] hit [OF _ sub(2)] by (subst through_tick) auto
  qed
  also have "map (\<lambda>qe. qe\<lparr>q_status := passage rolled_back (ids ready) (ids ?over) qe\<rparr>) (queue s)
      = map (\<lambda>qe. qe\<lparr>q_status :=
         (if \<not> waiting qe then q_status qe
          else if \<not> wakes tick states (wake_conditions s) (q_event qe) then EXPIRED
          else if rolled_back \<or> target_agent_id (q_event qe) \<notin> c_agent_id ` set ready then QUEUED else CONSUMED)\<rparr>) (queue s)"
  proof (rule map_cong [OF refl])
    fix qe assume qe: "qe \<in> set (queue s)"
    have "target_agent_id (q_event qe) \<in> c_agent_id ` set ready \<union> c_agent_id ` set ?over"
      if "waiting qe" "wakes tick states (wake_conditions s) (q_event qe)"
      using that qe unfolding all by (auto simp: waiting_events_def)
    then show "qe\<lparr>q_status := passage rolled_back (ids ready) (ids ?over) qe\<rparr> = qe\<lparr>q_status :=
         (if \<not> waiting qe then q_status qe
          else if \<not> wakes tick states (wake_conditions s) (q_event qe) then EXPIRED
          else if rolled_back \<or> target_agent_id (q_event qe) \<notin> c_agent_id ` set ready then QUEUED else CONSUMED)\<rparr>"
      unfolding passage_def hit [OF qe sub(1)] hit [OF qe sub(2)] by auto
  qed
  finally show ?thesis using run(1) s'(1) by (intro conjI exI [of _ ?s3]) (simp_all add: finish_tick_def end_tick_def)
qed

section \<open>Examples\<close>

definition ex_event :: "string \<Rightarrow> string \<Rightarrow> int \<Rightarrow> wakeup_event" where
  "ex_event i a visible = \<lparr>event_id = i, event_type = BOOTSTRAP, target_agent_id = a, e_tick = 0, visible_at_tick = visible,
     source_agent_id = ''system'', e_task_id = [], e_resource = [], e_thread_id = [], details = []\<rparr>"

definition ex_sched :: scheduler where
  "ex_sched = enqueue_event (ex_event ''e3'' ''b'' 9) (enqueue_event (ex_event ''e2'' ''a'' (- 1)) (enqueue_event (ex_event ''e1'' ''b'' 1)
     (register_agent ''b'' None (register_agent ''a'' None
       (new_scheduler (Some (default_config\<lparr>max_active_agents_per_tick := 1\<rparr>)))))))"

definition ex_begun :: "(unit res \<times> ready_candidate list) \<times> scheduler" where
  "ex_begun = schedule_tick 1 [(''a'', IDLE), (''b'', IDLE)] None ex_sched"

lemma ex_begun_eval: "ex_begun = ((Inr (), snd (fst ex_begun)), snd ex_begun)" "map c_agent_id (snd (fst ex_begun)) = [''a'']"
  "distinct (map (\<lambda>qe. event_id (q_event qe)) (queue ex_sched))" "this_tick ex_sched = []"
  by code_simp+

theorem tick_settles_events_witness:
  "\<exists>s3. finish_tick (snd (fst ex_begun)) False (snd ex_begun) = (Inr (), s3) \<and> map q_status (queue s3) = [QUEUED, CONSUMED, EXPIRED]"
proof -
  let ?new = "[] :: queued_event list" and ?states = "[(''a'', IDLE), (''b'', IDLE)]"
  have a: "c_agent_id ` set (snd (fst ex_begun)) = {''a''}" using ex_begun_eval(2) by (metis list.set(1,2) list.set_map)
  have "schedule_tick 1 ?states None ex_sched = ((Inr (), snd (fst ex_begun)), snd ex_begun)"
    using ex_begun_eval(1) by (simp add: ex_begun_def)
  note run = tick_settles_events [OF ex_begun_eval(3,4) this, of "snd ex_begun" ?new False, unfolded a append_Nil2]
  have "\<exists>s3. finish_tick (snd (fst ex_begun)) False (snd ex_begun) = (Inr (), s3) \<and> this_tick s3 = []
      \<and> queue s3 = map (\<lambda>qe. qe\<lparr>q_status :=
         (if \<not> waiting qe then q_status qe
          else if \<not> wakes 1 ?states (wake_conditions ex_sched) (q_event qe) then EXPIRED
          else if False \<or> target_agent_id (q_event qe) \<notin> {''a''} then QUEUED else CONSUMED)\<rparr>) (queue ex_sched)"
    by (rule run [THEN conjunct2]) simp_all
  then obtain s3 where s3: "finish_tick (snd (fst ex_begun)) False (snd ex_begun) = (Inr (), s3)"
      "queue s3 = map (\<lambda>qe. qe\<lparr>q_status :=
         (if \<not> waiting qe then q_status qe
          else if \<not> wakes 1 ?states (wake_conditions ex_sched) (q_event qe) then EXPIRED
          else if False \<or> target_agent_id (q_event qe) \<notin> {''a''} then QUEUED else CONSUMED)\<rparr>) (queue ex_sched)"
    by (elim exE conjE)
  moreover have "map q_status (map (\<lambda>qe. qe\<lparr>q_status :=
         (if \<not> waiting qe then q_status qe
          else if \<not> wakes 1 ?states (wake_conditions ex_sched) (q_event qe) then EXPIRED
          else if False \<or> target_agent_id (q_event qe) \<notin> {''a''} then QUEUED else CONSUMED)\<rparr>) (queue ex_sched)) = [QUEUED, CONSUMED, EXPIRED]"
    by code_simp
  ultimately show ?thesis by (intro exI [of _ s3] conjI) (simp_all only:)
qed

text \<open>
  An event announced for a later tick does not live to see it: the first ready set makes it eligible,
  and the end of that tick expires it.
\<close>

lemma early_event_expires:
  "map q_status (queue (end_tick (snd (compute_ready_set 1 [(''b'', IDLE)] None
     (enqueue_event (ex_event ''e3'' ''b'' 9) (register_agent ''b'' None (new_scheduler None))))))) = [EXPIRED]"
  by code_simp

text \<open>An event without a task passes a condition that names tasks.\<close>

lemma unrelated_event_matches:
  "matches (new_condition\<lparr>task_ids := [''t1'']\<rparr>) (ex_event ''e1'' ''b'' 1) 1"
  by code_simp

end
