(* ===== verification/AgentTree.thy ===== *)
theory AgentTree
  imports Hierarchy
begin

text \<open>
  The static organisation of the archived engine (\<^verbatim>\<open>legacy/agent_tree.py\<close> with \<^verbatim>\<open>AgentConfig\<close> of
  \<^verbatim>\<open>legacy/models/agent.py\<close>): the checks a list of agent configurations has to pass, among them two
  depth-first searches that colour the agents white, grey and black, and the traversals of the tree.
  The searches take as fuel a bound on the depth of the recursion; the loops of the traversals are
  partial functions.  In both, \<open>None\<close> is not returning.
\<close>

section \<open>Agent configurations\<close>

datatype agent_kind = KIND_llm | KIND_human | KIND_service

datatype pool_mode = IMMEDIATE | DEFERRED_MODE

datatype pool_strategy = ROUND_ROBIN | LEAST_BUSY | SKILL_MATCH

record pool_config =
  mode :: pool_mode
  strategy :: pool_strategy

record shared_kb_permission =
  p_scope :: string
  principal :: string
  allow :: "string list"

record agent_config =
  agent_id :: string
  display_name :: string
  role :: string
  kind :: agent_kind
  pool :: "pool_config option"
  parent_id :: "string option"
  children :: "string list"
  can_delegate :: bool
  shared_kb_permissions :: "shared_kb_permission list"
  metadata :: "(string, pyval) dict"

datatype agent_tree_error =
    DuplicateAgentIdError string
  | CycleDetectedError "string list"
  | MultipleRootsError "string list"
  | NoRootError
  | ParentChildMismatchError string string string
  | ChildNotDeclaredError string string
  | AgentNotFoundError string
  | TreeKeyError string
  | PoolKindError string

definition validate_pool :: "agent_config \<Rightarrow> agent_tree_error + agent_config" where
  "validate_pool a = (if pool a \<noteq> None \<and> kind a \<noteq> KIND_service then Inl (PoolKindError (agent_id a)) else Inr a)"

record agent_tree =
  root_id :: "string option"
  agents :: "(string, agent_config) dict"
  children_map :: "(string, string list) dict"
  parent_map :: "(string, string option) dict"

section \<open>The checks\<close>

text \<open>The first id that occurs a second time.\<close>

fun first_duplicate :: "string list \<Rightarrow> string list \<Rightarrow> string option" where
  "first_duplicate seen [] = None"
| "first_duplicate seen (x # xs) = (if x \<in> set seen then Some x else first_duplicate (seen @ [x]) xs)"

definition build_children_map :: "agent_tree \<Rightarrow> agent_tree" where
  "build_children_map t =
     t\<lparr>children_map := fold (\<lambda>a m. if dget m (agent_id a) = None then dset (agent_id a) (children a) m else m)
        (dvals (agents t)) (children_map t)\<rparr>"

definition check_duplicate_ids :: "agent_tree \<Rightarrow> agent_tree_error + agent_tree" where
  "check_duplicate_ids t = (case first_duplicate [] (dkeys (agents t)) of Some a \<Rightarrow> Inl (DuplicateAgentIdError a) | None \<Rightarrow> Inr t)"

definition check_root_count :: "agent_tree \<Rightarrow> agent_tree_error + agent_tree" where
  "check_root_count t =
     (case map fst (filter (\<lambda>(i, a). parent_id a = None) (agents t)) of
        [] \<Rightarrow> Inl NoRootError
      | [r] \<Rightarrow> Inr (t\<lparr>root_id := Some r\<rparr>)
      | roots \<Rightarrow> Inl (MultipleRootsError roots))"

fun check_parents :: "(string, agent_config) dict \<Rightarrow> agent_config list \<Rightarrow> agent_tree_error option" where
  "check_parents d [] = None"
| "check_parents d (a # as) =
     (case parent_id a of
        None \<Rightarrow> check_parents d as
      | Some p \<Rightarrow>
          (case dget d p of
             None \<Rightarrow> Some (AgentNotFoundError p)
           | Some b \<Rightarrow>
               if agent_id a \<in> set (children b) then check_parents d as
               else Some (ParentChildMismatchError (agent_id a) p ''(not listed in any parent's children)'')))"

fun check_declared :: "(string, agent_config) dict \<Rightarrow> agent_config list \<Rightarrow> agent_tree_error option" where
  "check_declared d [] = None"
| "check_declared d (a # as) =
     (case find (\<lambda>c. dget d c = None) (children a) of
        Some c \<Rightarrow> Some (ChildNotDeclaredError (agent_id a) c)
      | None \<Rightarrow> check_declared d as)"

definition check_parent_child_consistency :: "agent_tree \<Rightarrow> agent_tree_error + agent_tree" where
  "check_parent_child_consistency t =
     (case check_parents (agents t) (dvals (agents t)) of
        Some e \<Rightarrow> Inl e
      | None \<Rightarrow> (case check_declared (agents t) (dvals (agents t)) of Some e \<Rightarrow> Inl e | None \<Rightarrow> Inr t))"

text \<open>
  The two searches.  A search returns the colours it leaves, or the cycle it found; the path is
  restored on return, so only the colours are threaded.
\<close>

datatype colour = WHITE | GRAY | BLACK

type_synonym colours = "(string, colour) dict"
type_synonym search = "(string list + colours) option"

fun dfs_parent :: "string list \<Rightarrow> (string, string option) dict \<Rightarrow> nat \<Rightarrow> string \<Rightarrow> string list \<Rightarrow> colours \<Rightarrow> search" where
  "dfs_parent ids pm 0 node path color = None"
| "dfs_parent ids pm (Suc n) node path color =
     (let color = dset node GRAY color; path = path @ [node] in
      case Option.bind (dget pm node) (\<lambda>p. p) of
        None \<Rightarrow> Some (Inr (dset node BLACK color))
      | Some par \<Rightarrow>
          if par \<in> set ids then
            if dget color par = Some GRAY then Some (Inl (dropWhile (\<lambda>x. x \<noteq> par) path @ [par]))
            else if dget color par = Some WHITE then
              (case dfs_parent ids pm n par path color of
                 Some (Inr color') \<Rightarrow> Some (Inr (dset node BLACK color'))
               | r \<Rightarrow> r)
            else Some (Inr (dset node BLACK color))
          else Some (Inr (dset node BLACK color)))"

fun dfs_children :: "string list \<Rightarrow> (string \<Rightarrow> string list) \<Rightarrow> nat \<Rightarrow> string \<Rightarrow> string list \<Rightarrow> colours \<Rightarrow> search"
  and dfs_kids :: "string list \<Rightarrow> (string \<Rightarrow> string list) \<Rightarrow> nat \<Rightarrow> string list \<Rightarrow> string list \<Rightarrow> colours \<Rightarrow> search"
where
  "dfs_children ids ch 0 node path color = None"
| "dfs_children ids ch (Suc n) node path color =
     (case dfs_kids ids ch n (ch node) (path @ [node]) (dset node GRAY color) of
        Some (Inr color') \<Rightarrow> Some (Inr (dset node BLACK color'))
      | r \<Rightarrow> r)"
| "dfs_kids ids ch n [] path color = Some (Inr color)"
| "dfs_kids ids ch n (c # cs) path color =
     (if c \<in> set ids then
        if dget color c = Some GRAY then Some (Inl (dropWhile (\<lambda>x. x \<noteq> c) path @ [c]))
        else if dget color c = Some WHITE then
          (case dfs_children ids ch n c path color of
             Some (Inr color') \<Rightarrow> dfs_kids ids ch n cs path color'
           | r \<Rightarrow> r)
        else dfs_kids ids ch n cs path color
      else dfs_kids ids ch n cs path color)"

fun visit_all :: "(string \<Rightarrow> colours \<Rightarrow> search) \<Rightarrow> string list \<Rightarrow> colours \<Rightarrow> search" where
  "visit_all visit [] color = Some (Inr color)"
| "visit_all visit (x # xs) color =
     (if dget color x = Some WHITE then
        (case visit x color of Some (Inr color') \<Rightarrow> visit_all visit xs color' | r \<Rightarrow> r)
      else visit_all visit xs color)"

definition child_list :: "agent_tree \<Rightarrow> string \<Rightarrow> string list" where
  "child_list t x = (case dget (children_map t) x of Some cs \<Rightarrow> cs | None \<Rightarrow> [])"

definition check_no_cycles :: "agent_tree \<Rightarrow> (agent_tree_error + agent_tree) option" where
  "check_no_cycles t =
     (let ids = dkeys (agents t); white = map (\<lambda>i. (i, WHITE)) ids in
      case visit_all (\<lambda>x. dfs_parent ids (parent_map t) (length ids) x []) ids white of
        None \<Rightarrow> None
      | Some (Inl p) \<Rightarrow> Some (Inl (CycleDetectedError p))
      | Some (Inr _) \<Rightarrow>
          (case visit_all (\<lambda>x. dfs_children ids (child_list t) (length ids) x []) ids white of
             None \<Rightarrow> None
           | Some (Inl p) \<Rightarrow> Some (Inl (CycleDetectedError p))
           | Some (Inr _) \<Rightarrow> Some (Inr t)))"

definition validate :: "agent_tree \<Rightarrow> (agent_tree_error + agent_tree) option" where
  "validate t =
     (case check_duplicate_ids t of
        Inl e \<Rightarrow> Some (Inl e)
      | Inr t1 \<Rightarrow>
          (case check_root_count t1 of
             Inl e \<Rightarrow> Some (Inl e)
           | Inr t2 \<Rightarrow>
               (case check_parent_child_consistency t2 of
                  Inl e \<Rightarrow> Some (Inl e)
                | Inr t3 \<Rightarrow> check_no_cycles t3)))"

definition new_agent_tree :: "agent_config list \<Rightarrow> (agent_tree_error + agent_tree) option" where
  "new_agent_tree as =
     (case first_duplicate [] (map agent_id as) of
        Some a \<Rightarrow> Some (Inl (DuplicateAgentIdError a))
      | None \<Rightarrow>
          validate (build_children_map
            \<lparr>root_id = None, agents = fold (\<lambda>a. dset (agent_id a) a) as [], children_map = [],
             parent_map = fold (\<lambda>a. dset (agent_id a) (parent_id a)) as []\<rparr>))"

text \<open>Loading from a dictionary validates each configuration before the tree is built.\<close>

fun validate_configs :: "agent_config list \<Rightarrow> agent_tree_error + agent_config list" where
  "validate_configs [] = Inr []"
| "validate_configs (a # as) =
     (case validate_pool a of
        Inl e \<Rightarrow> Inl e
      | Inr b \<Rightarrow> (case validate_configs as of Inl e \<Rightarrow> Inl e | Inr bs \<Rightarrow> Inr (b # bs)))"

definition from_dict :: "agent_config list \<Rightarrow> (agent_tree_error + agent_tree) option" where
  "from_dict as = (case validate_configs as of Inl e \<Rightarrow> Some (Inl e) | Inr bs \<Rightarrow> new_agent_tree bs)"

section \<open>The traversals\<close>

definition get_agent :: "agent_tree \<Rightarrow> string \<Rightarrow> agent_tree_error + agent_config" where
  "get_agent t x = (case dget (agents t) x of None \<Rightarrow> Inl (AgentNotFoundError x) | Some a \<Rightarrow> Inr a)"

definition all_ids :: "agent_tree \<Rightarrow> string list" where
  "all_ids t = dkeys (agents t)"

text \<open>\<^verbatim>\<open>self._agents[cid]\<close> raises on an id that is not there.\<close>

fun agents_at :: "(string, agent_config) dict \<Rightarrow> string list \<Rightarrow> agent_tree_error + agent_config list" where
  "agents_at d [] = Inr []"
| "agents_at d (c # cs) =
     (case dget d c of
        None \<Rightarrow> Inl (TreeKeyError c)
      | Some a \<Rightarrow> (case agents_at d cs of Inl e \<Rightarrow> Inl e | Inr as \<Rightarrow> Inr (a # as)))"

definition children_of :: "agent_tree \<Rightarrow> string \<Rightarrow> agent_tree_error + agent_config list" where
  "children_of t x = (case get_agent t x of Inl e \<Rightarrow> Inl e | Inr _ \<Rightarrow> agents_at (agents t) (child_list t x))"

definition child_ids :: "agent_tree \<Rightarrow> string \<Rightarrow> agent_tree_error + string list" where
  "child_ids t x = (case get_agent t x of Inl e \<Rightarrow> Inl e | Inr _ \<Rightarrow> Inr (child_list t x))"

definition up :: "agent_tree \<Rightarrow> string \<Rightarrow> string option" where
  "up t x = Option.bind (dget (parent_map t) x) (\<lambda>p. p)"

definition parent_of :: "agent_tree \<Rightarrow> string \<Rightarrow> agent_tree_error + agent_config option" where
  "parent_of t x =
     (case get_agent t x of
        Inl e \<Rightarrow> Inl e
      | Inr _ \<Rightarrow>
          (case up t x of
             None \<Rightarrow> Inr None
           | Some p \<Rightarrow> (case dget (agents t) p of None \<Rightarrow> Inl (TreeKeyError p) | Some a \<Rightarrow> Inr (Some a))))"

definition siblings :: "agent_tree \<Rightarrow> string \<Rightarrow> agent_tree_error + agent_config list" where
  "siblings t x =
     (case get_agent t x of
        Inl e \<Rightarrow> Inl e
      | Inr a \<Rightarrow>
          (case parent_id a of
             None \<Rightarrow> Inr []
           | Some p \<Rightarrow> (case children_of t p of Inl e \<Rightarrow> Inl e | Inr as \<Rightarrow> Inr (filter (\<lambda>b. agent_id b \<noteq> x) as))))"

partial_function (option) is_ancestor_loop :: "agent_tree \<Rightarrow> string \<Rightarrow> string option \<Rightarrow> bool option" where
  "is_ancestor_loop t a current =
     (case current of
        None \<Rightarrow> Some False
      | Some x \<Rightarrow> if x = a then Some True else is_ancestor_loop t a (up t x))"

definition is_ancestor :: "agent_tree \<Rightarrow> string \<Rightarrow> string \<Rightarrow> (agent_tree_error + bool) option" where
  "is_ancestor t a d =
     (case get_agent t a of
        Inl e \<Rightarrow> Some (Inl e)
      | Inr _ \<Rightarrow>
          (case get_agent t d of
             Inl e \<Rightarrow> Some (Inl e)
           | Inr _ \<Rightarrow> map_option Inr (is_ancestor_loop t a (Some d))))"

partial_function (option) depth_loop :: "agent_tree \<Rightarrow> string \<Rightarrow> nat \<Rightarrow> nat option" where
  "depth_loop t current d =
     (case up t current of
        None \<Rightarrow> Some d
      | Some p \<Rightarrow> depth_loop t p (d + 1))"

definition depth :: "agent_tree \<Rightarrow> string \<Rightarrow> (agent_tree_error + nat) option" where
  "depth t x = (case get_agent t x of Inl e \<Rightarrow> Some (Inl e) | Inr _ \<Rightarrow> map_option Inr (depth_loop t x 0))"

definition can_delegate_to :: "agent_tree \<Rightarrow> string \<Rightarrow> string \<Rightarrow> bool" where
  "can_delegate_to t d x =
     (if dget (agents t) d = None \<or> dget (agents t) x = None then False else x \<in> set (child_list t d))"

partial_function (option) ancestors_loop ::
  "agent_tree \<Rightarrow> string option \<Rightarrow> agent_config list \<Rightarrow> (agent_tree_error + agent_config list) option" where
  "ancestors_loop t current acc =
     (case current of
        None \<Rightarrow> Some (Inr acc)
      | Some x \<Rightarrow>
          (case dget (agents t) x of
             None \<Rightarrow> Some (Inl (TreeKeyError x))
           | Some a \<Rightarrow> ancestors_loop t (up t x) (acc @ [a])))"

definition ancestors :: "agent_tree \<Rightarrow> string \<Rightarrow> (agent_tree_error + agent_config list) option" where
  "ancestors t x = (case get_agent t x of Inl e \<Rightarrow> Some (Inl e) | Inr _ \<Rightarrow> ancestors_loop t (up t x) [])"

text \<open>The stack is kept with its top first, so the children are pushed in reverse.\<close>

partial_function (option) subtree_loop :: "agent_tree \<Rightarrow> string list \<Rightarrow> string list \<Rightarrow> string list option" where
  "subtree_loop t stack acc =
     (case stack of
        [] \<Rightarrow> Some acc
      | x # rest \<Rightarrow> subtree_loop t (rev (child_list t x) @ rest) (acc @ [x]))"

definition subtree_ids :: "agent_tree \<Rightarrow> string \<Rightarrow> (agent_tree_error + string list) option" where
  "subtree_ids t x = (case get_agent t x of Inl e \<Rightarrow> Some (Inl e) | Inr _ \<Rightarrow> map_option Inr (subtree_loop t [x] []))"

declare is_ancestor_loop.simps [code] depth_loop.simps [code] ancestors_loop.simps [code] subtree_loop.simps [code]

section \<open>The searches find cycles\<close>

text \<open>The edges between known nodes, and what a cycle is.\<close>

definition edges :: "string list \<Rightarrow> (string \<Rightarrow> string list) \<Rightarrow> (string \<times> string) set" where
  "edges ids ch = {(a, c). a \<in> set ids \<and> c \<in> set ids \<and> c \<in> set (ch a)}"

definition chain :: "(string \<times> string) set \<Rightarrow> string list \<Rightarrow> bool" where
  "chain E p \<longleftrightarrow> successively (\<lambda>x y. (x, y) \<in> E) p"

definition is_cycle :: "(string \<times> string) set \<Rightarrow> string list \<Rightarrow> bool" where
  "is_cycle E p \<longleftrightarrow> 2 \<le> length p \<and> hd p = last p \<and> chain E p"

lemma chain_append: "chain E (xs @ ys) \<longleftrightarrow> chain E xs \<and> chain E ys \<and> (xs \<noteq> [] \<and> ys \<noteq> [] \<longrightarrow> (last xs, hd ys) \<in> E)"
  by (auto simp: chain_def successively_append_iff)

lemma chain_single [simp]: "chain E [x]" "chain E []"
  by (simp_all add: chain_def)

lemma chain_trancl: "chain E (x # p) \<Longrightarrow> p \<noteq> [] \<Longrightarrow> (x, last p) \<in> E\<^sup>+"
proof (induction p arbitrary: x)
  case (Cons y p)
  then have e: "(x, y) \<in> E" and c: "chain E (y # p)" by (simp_all add: chain_def)
  show ?case
  proof (cases "p = []")
    case False
    then show ?thesis using Cons.IH [OF c] e by (simp add: trancl_into_trancl2)
  qed (simp add: e r_into_trancl)
qed simp

lemma is_cycle_not_acyclic: "is_cycle E p \<Longrightarrow> \<not> acyclic E"
proof -
  assume a: "is_cycle E p"
  then obtain x q where p: "p = x # q" and q: "q \<noteq> []" by (cases p; cases "tl p") (auto simp: is_cycle_def)
  have "chain E (x # q)" using a p by (simp add: is_cycle_def)
  then have "(x, last q) \<in> E\<^sup>+" by (rule chain_trancl [OF _ q])
  then show ?thesis using a p q by (auto simp: is_cycle_def acyclic_def)
qed

text \<open>
  The invariant of a search: the grey nodes are the path, which follows edges; what a black node
  leads to is black, and no black node lies on a cycle.
\<close>

definition search_inv :: "string list \<Rightarrow> (string \<times> string) set \<Rightarrow> string list \<Rightarrow> colours \<Rightarrow> bool" where
  "search_inv ids E path color \<longleftrightarrow>
     (\<forall>x. dget color x \<noteq> None \<longleftrightarrow> x \<in> set ids)
   \<and> (\<forall>x. dget color x = Some GRAY \<longleftrightarrow> x \<in> set path)
   \<and> chain E path
   \<and> (\<forall>x y. dget color x = Some BLACK \<and> (x, y) \<in> E \<longrightarrow> dget color y = Some BLACK)
   \<and> (\<forall>x. dget color x = Some BLACK \<longrightarrow> (x, x) \<notin> E\<^sup>+)"

definition whites :: "string list \<Rightarrow> colours \<Rightarrow> string set" where
  "whites ids color = {x \<in> set ids. dget color x = Some WHITE}"

text \<open>What a search may return: a cycle, or colours in which the nodes it was asked for are black.\<close>

definition outcome :: "string list \<Rightarrow> (string \<times> string) set \<Rightarrow> string list \<Rightarrow> colours \<Rightarrow> string set \<Rightarrow> search \<Rightarrow> bool" where
  "outcome ids E path color want r \<longleftrightarrow>
     (case r of
        None \<Rightarrow> False
      | Some (Inl p) \<Rightarrow> is_cycle E p
      | Some (Inr color') \<Rightarrow>
          search_inv ids E path color' \<and> whites ids color' \<subseteq> whites ids color
        \<and> (\<forall>x. dget color x = Some BLACK \<longrightarrow> dget color' x = Some BLACK)
        \<and> (\<forall>x \<in> want. dget color' x = Some BLACK))"

lemma card_whites: "whites ids color' \<subseteq> whites ids color \<Longrightarrow> card (whites ids color') \<le> card (whites ids color)"
  by (rule card_mono) (simp_all add: whites_def)

lemma black_closed:
  assumes "search_inv ids E path color" and "(x, y) \<in> E\<^sup>*" and "dget color x = Some BLACK"
  shows "dget color y = Some BLACK"
  using assms(2,3) by (induction rule: rtrancl_induct) (use assms(1) in \<open>auto simp: search_inv_def\<close>)


lemma outcome_None [simp]: "\<not> outcome ids E path color want None"
  by (simp add: outcome_def)

lemma outcome_Inl [simp]: "outcome ids E path color want (Some (Inl p)) \<longleftrightarrow> is_cycle E p"
  by (simp add: outcome_def)

lemma search_cases:
  obtains "r = (None :: search)" | p where "r = Some (Inl p)" | c where "r = Some (Inr c)"
  by (cases r; cases "the r") auto

text \<open>Reading the invariant.\<close>

lemma search_invD:
  assumes "search_inv ids E path color"
  shows inv_known: "dget color x \<noteq> None \<longleftrightarrow> x \<in> set ids"
    and inv_gray: "dget color x = Some GRAY \<longleftrightarrow> x \<in> set path"
    and inv_chain: "chain E path"
    and inv_black: "dget color x = Some BLACK \<Longrightarrow> (x, y) \<in> E \<Longrightarrow> dget color y = Some BLACK"
    and inv_acyclic: "dget color x = Some BLACK \<Longrightarrow> (x, x) \<notin> E\<^sup>+"
  using assms unfolding search_inv_def by blast+

lemma white_known: "search_inv ids E path color \<Longrightarrow> dget color x = Some k \<Longrightarrow> x \<in> set ids"
  using inv_known by fastforce

text \<open>Entering a node and leaving it.\<close>

lemma search_enter:
  assumes i: "search_inv ids E path color" and c: "chain E (path @ [node])" and w: "dget color node = Some WHITE"
  shows "search_inv ids E (path @ [node]) (dset node GRAY color)"
  unfolding search_inv_def
proof (intro conjI allI impI c)
  fix x y
  show "dget (dset node GRAY color) x \<noteq> None \<longleftrightarrow> x \<in> set ids"
    using inv_known [OF i, of x] white_known [OF i w] by simp
  show "dget (dset node GRAY color) x = Some GRAY \<longleftrightarrow> x \<in> set (path @ [node])"
    using inv_gray [OF i, of x] by simp
  assume b: "dget (dset node GRAY color) x = Some BLACK \<and> (x, y) \<in> E"
  then have "dget color y = Some BLACK" using inv_black [OF i, of x y] by (simp split: if_splits)
  then show "dget (dset node GRAY color) y = Some BLACK" using w by (cases "y = node") simp_all
next
  fix x assume "dget (dset node GRAY color) x = Some BLACK"
  then show "(x, x) \<notin> E\<^sup>+" using inv_acyclic [OF i, of x] by (simp split: if_splits)
qed

lemma enter_whites:
  assumes "search_inv ids E path color" and "dget color node = Some WHITE"
  shows "card (whites ids (dset node GRAY color)) < card (whites ids color)"
proof (rule psubset_card_mono)
  have "node \<in> set ids" using assms by (fastforce simp: search_inv_def)
  then show "whites ids (dset node GRAY color) \<subset> whites ids color" using assms(2) by (auto simp: whites_def)
qed (simp add: whites_def)

lemma search_leave:
  assumes i: "search_inv ids E (path @ [node]) color" and n: "node \<notin> set path"
    and s: "\<And>y. (node, y) \<in> E \<Longrightarrow> dget color y = Some BLACK"
  shows "search_inv ids E path (dset node BLACK color)"
  unfolding search_inv_def
proof (intro conjI allI impI)
  have g: "dget color node = Some GRAY" using inv_gray [OF i] by simp
  have cyc: "(node, node) \<notin> E\<^sup>+"
  proof
    assume "(node, node) \<in> E\<^sup>+"
    then obtain y where "(node, y) \<in> E" "(y, node) \<in> E\<^sup>*" by (meson tranclD)
    then have "dget color node = Some BLACK" using black_closed [OF i] s by blast
    then show False using g by simp
  qed
  show "chain E path" using inv_chain [OF i] by (simp add: chain_append)
  fix x y
  show "dget (dset node BLACK color) x \<noteq> None \<longleftrightarrow> x \<in> set ids"
    using inv_known [OF i, of x] white_known [OF i g] by simp
  show "dget (dset node BLACK color) x = Some GRAY \<longleftrightarrow> x \<in> set path"
    using inv_gray [OF i, of x] n by simp
  show "(x, x) \<notin> E\<^sup>+" if "dget (dset node BLACK color) x = Some BLACK"
    using that inv_acyclic [OF i, of x] cyc by (simp split: if_splits)
  show "dget (dset node BLACK color) y = Some BLACK" if "dget (dset node BLACK color) x = Some BLACK \<and> (x, y) \<in> E"
    using that inv_black [OF i, of x y] s [of y] by (simp split: if_splits)
qed

lemma back_edge_cycle:
  assumes "chain E path" and "c \<in> set path" and "(last path, c) \<in> E"
  shows "is_cycle E (dropWhile (\<lambda>x. x \<noteq> c) path @ [c])"
proof -
  define q where "q = dropWhile (\<lambda>x. x \<noteq> c) path"
  have q: "q \<noteq> []" "hd q = c" using assms(2) hd_dropWhile [of "\<lambda>x. x \<noteq> c" path] by (auto simp: q_def dropWhile_eq_Nil_conv)
  have p: "path = takeWhile (\<lambda>x. x \<noteq> c) path @ q" by (simp add: q_def)
  then have "chain E q" using assms(1) by (metis chain_append)
  moreover have "last q = last path" using p q by (metis last_appendR)
  ultimately have "chain E (q @ [c])" using q assms(3) by (simp add: chain_append)
  then have "is_cycle E (q @ [c])" using q by (cases q) (auto simp: is_cycle_def)
  then show ?thesis by (simp add: q_def)
qed

text \<open>Searches in sequence.\<close>

lemma outcome_black: "outcome ids E path color want r \<Longrightarrow> dget color x = Some BLACK \<Longrightarrow> outcome ids E path color (insert x want) r"
  by (auto simp: outcome_def split: option.splits sum.splits)

lemma outcome_seq:
  "outcome ids E path color {x} (Some (Inr c)) \<Longrightarrow> outcome ids E path c want r \<Longrightarrow> outcome ids E path color (insert x want) r"
  by (auto simp: outcome_def split: option.splits sum.splits)

lemma dfs_correct:
  "search_inv ids (edges ids ch) path color \<Longrightarrow> chain (edges ids ch) (path @ [node]) \<Longrightarrow> dget color node = Some WHITE
    \<Longrightarrow> card (whites ids color) \<le> n
    \<Longrightarrow> outcome ids (edges ids ch) path color {node} (dfs_children ids ch n node path color)"
  "search_inv ids (edges ids ch) path color \<Longrightarrow> path \<noteq> [] \<Longrightarrow> set cs \<subseteq> set (ch (last path))
    \<Longrightarrow> card (whites ids color) \<le> n
    \<Longrightarrow> outcome ids (edges ids ch) path color (set cs \<inter> set ids) (dfs_kids ids ch n cs path color)"
proof (induction ids ch n node path color and ids ch n cs path color rule: dfs_children_dfs_kids.induct)
  case (1 ids ch node path color)
  then show ?case using enter_whites by fastforce
next
  case (2 ids ch n node path color)
  let ?E = "edges ids ch" and ?g = "dset node GRAY color"
  let ?r = "dfs_kids ids ch n (ch node) (path @ [node]) ?g"
  have i: "search_inv ids ?E (path @ [node]) ?g" by (rule search_enter [OF 2(2-4)])
  have o: "outcome ids ?E (path @ [node]) ?g (set (ch node) \<inter> set ids) ?r"
    using 2(1) [OF i] enter_whites [OF 2(2,4)] 2(5) by simp
  show ?case
  proof (cases rule: search_cases [of ?r])
    case (3 c)
    have n: "node \<notin> set path" using inv_gray [OF 2(2), of node] 2(4) by simp
    have "search_inv ids ?E path (dset node BLACK c)"
      using o 3 by (intro search_leave n) (auto simp: outcome_def edges_def)
    moreover have "whites ids (dset node BLACK c) \<subseteq> whites ids color"
      using o 3 by (auto simp: outcome_def whites_def split: if_splits)
    moreover have "\<forall>x. dget color x = Some BLACK \<longrightarrow> dget (dset node BLACK c) x = Some BLACK"
      using o 3 2(4) by (auto simp: outcome_def)
    ultimately show ?thesis using 3 by (simp add: outcome_def)
  qed (use o in auto)
next
  case (3 ids ch n path color)
  then show ?case by (simp add: outcome_def)
next
  case (4 ids ch n c cs path color)
  let ?E = "edges ids ch"
  have last: "last path \<in> set ids" using 4(5,6) last_in_set [of path] unfolding search_inv_def by (metis option.distinct(1))
  show ?case
  proof (cases "c \<in> set ids")
    case c: True
    then have e: "(last path, c) \<in> ?E" using last 4(7) by (simp add: edges_def)
    consider (gray) "dget color c = Some GRAY" | (white) "dget color c = Some WHITE" | (black) "dget color c = Some BLACK"
      using c 4(5) unfolding search_inv_def by (metis colour.exhaust option.exhaust)
    then show ?thesis
    proof cases
      case gray
      then have "is_cycle ?E (dropWhile (\<lambda>x. x \<noteq> c) path @ [c])"
        using 4(5) e by (intro back_edge_cycle) (auto simp: search_inv_def)
      then show ?thesis using c gray by simp
    next
      case white
      let ?r = "dfs_children ids ch n c path color"
      have o: "outcome ids ?E path color {c} ?r"
        using 4(1) [OF c _ white] white 4(5,6,8) e by (simp add: chain_append search_inv_def)
      show ?thesis
      proof (cases rule: search_cases [of ?r])
        case (3 c')
        have i: "search_inv ids ?E path c'" and w: "whites ids c' \<subseteq> whites ids color"
          using o 3 by (auto simp: outcome_def)
        have "outcome ids ?E path c' (set cs \<inter> set ids) (dfs_kids ids ch n cs path c')"
          using 4(2) [OF c _ white 3 refl i] white 4(6-8) card_whites [OF w] by simp
        then show ?thesis using c white 3 o by (simp add: outcome_seq)
      qed (use c white o in auto)
    next
      case black
      then have "outcome ids ?E path color (set cs \<inter> set ids) (dfs_kids ids ch n cs path color)"
        using 4(3) c 4(5-8) by simp
      then show ?thesis using black c by (simp add: outcome_black)
    qed
  next
    case False
    then have "outcome ids ?E path color (set cs \<inter> set ids) (dfs_kids ids ch n cs path color)"
      using 4(4-8) by simp
    then show ?thesis using False by simp
  qed
qed


text \<open>The search along parents is the search over at most one child.\<close>

definition parents :: "(string, string option) dict \<Rightarrow> string \<Rightarrow> string list" where
  "parents pm x = (case Option.bind (dget pm x) (\<lambda>p. p) of None \<Rightarrow> [] | Some p \<Rightarrow> [p])"

lemma dfs_parent_children: "dfs_parent ids pm n node path color = dfs_children ids (parents pm) n node path color"
proof (induction n arbitrary: node path color)
  case (Suc n)
  show ?case
    by (cases "Option.bind (dget pm node) (\<lambda>p. p)") (auto simp: parents_def Let_def Suc split: option.splits sum.splits)
qed simp

lemma visit_all_correct:
  assumes "search_inv ids (edges ids ch) [] color" and "card (whites ids color) \<le> n" and "set xs \<subseteq> set ids"
  shows "outcome ids (edges ids ch) [] color (set xs) (visit_all (\<lambda>x. dfs_children ids ch n x []) xs color)"
  using assms
proof (induction xs arbitrary: color)
  case Nil
  then show ?case by (simp add: outcome_def)
next
  case (Cons x xs)
  have "dget color x \<noteq> None" "dget color x \<noteq> Some GRAY"
    using inv_known [OF Cons(2), of x] inv_gray [OF Cons(2), of x] Cons(4) by simp_all
  then consider (white) "dget color x = Some WHITE" | (black) "dget color x = Some BLACK"
    by (metis colour.exhaust option.exhaust)
  then show ?case
  proof cases
    case white
    let ?r = "dfs_children ids ch n x [] color"
    have o: "outcome ids (edges ids ch) [] color {x} ?r"
      using dfs_correct(1) [OF Cons(2) _ white Cons(3)] by simp
    show ?thesis
    proof (cases rule: search_cases [of ?r])
      case (3 c)
      have i: "search_inv ids (edges ids ch) [] c" and w: "whites ids c \<subseteq> whites ids color"
        using o 3 by (auto simp: outcome_def)
      have "outcome ids (edges ids ch) [] c (set xs) (visit_all (\<lambda>x. dfs_children ids ch n x []) xs c)"
        using Cons(1) [OF i] Cons(3,4) card_whites [OF w] by simp
      then show ?thesis using white 3 o by (simp add: outcome_seq)
    qed (use white o in auto)
  next
    case black
    then show ?thesis using Cons by (simp add: outcome_black)
  qed
qed

lemma search_start: "search_inv ids E [] (map (\<lambda>i. (i, WHITE)) ids)"
  by (auto simp: search_inv_def map_of_map_restrict restrict_map_def)

text \<open>The search accepts exactly the acyclic graphs; what it reports otherwise is a cycle.\<close>

lemma edges_trancl: "(x, y) \<in> (edges ids ch)\<^sup>+ \<Longrightarrow> x \<in> set ids"
  by (induction rule: trancl_induct) (auto simp: edges_def)

lemma search_decides:
  fixes ids ch
  defines "r \<equiv> visit_all (\<lambda>x. dfs_children ids ch (length ids) x []) ids (map (\<lambda>i. (i, WHITE)) ids)"
  obtains (acyclic) c where "r = Some (Inr c)" "acyclic (edges ids ch)"
  | (cycle) p where "r = Some (Inl p)" "is_cycle (edges ids ch) p" "\<not> acyclic (edges ids ch)"
proof -
  have "whites ids (map (\<lambda>i. (i, WHITE)) ids) \<subseteq> set ids" by (auto simp: whites_def)
  then have "card (whites ids (map (\<lambda>i. (i, WHITE)) ids)) \<le> length ids"
    by (meson List.finite_set card_length card_mono le_trans)
  then have o: "outcome ids (edges ids ch) [] (map (\<lambda>i. (i, WHITE)) ids) (set ids) r"
    unfolding r_def by (intro visit_all_correct search_start) simp_all
  show thesis
  proof (cases rule: search_cases [of r])
    case 1
    then show ?thesis using o by simp
  next
    case (2 p)
    then show ?thesis using o that(2) is_cycle_not_acyclic by auto
  next
    case (3 c)
    have i: "search_inv ids (edges ids ch) [] c" and b: "\<And>x. x \<in> set ids \<Longrightarrow> dget c x = Some BLACK"
      using o 3 by (auto simp: outcome_def)
    have "acyclic (edges ids ch)"
      unfolding acyclic_def using inv_acyclic [OF i b] edges_trancl by blast
    then show ?thesis using 3 that(1) by blast
  qed
qed


section \<open>Which organisations are accepted\<close>

text \<open>
  An organisation is a rooted hierarchy: ids are unique, one agent has no parent, the parent of every
  other agent exists and lists it, every listed child exists, and following children never leads back.
\<close>

definition child_edges :: "agent_config list \<Rightarrow> (string \<times> string) set" where
  "child_edges as = {(agent_id a, c) | a c. a \<in> set as \<and> c \<in> set (children a)}"

definition organisation :: "agent_config list \<Rightarrow> bool" where
  "organisation as \<longleftrightarrow>
     distinct (map agent_id as)
   \<and> length (filter (\<lambda>a. parent_id a = None) as) = 1
   \<and> (\<forall>a \<in> set as. \<forall>p. parent_id a = Some p \<longrightarrow> (\<exists>b \<in> set as. agent_id b = p \<and> agent_id a \<in> set (children b)))
   \<and> (\<forall>a \<in> set as. set (children a) \<subseteq> agent_id ` set as)
   \<and> acyclic (child_edges as)"

definition tree_of :: "agent_config list \<Rightarrow> agent_tree" where
  "tree_of as =
     \<lparr>root_id = map_option agent_id (find (\<lambda>a. parent_id a = None) as), agents = map (\<lambda>a. (agent_id a, a)) as,
      children_map = map (\<lambda>a. (agent_id a, children a)) as, parent_map = map (\<lambda>a. (agent_id a, parent_id a)) as\<rparr>"

lemma first_duplicate_None: "first_duplicate seen xs = None \<longleftrightarrow> distinct xs \<and> set xs \<inter> set seen = {}"
  by (induction seen xs rule: first_duplicate.induct) auto

lemma fold_fresh:
  "distinct (map f as) \<Longrightarrow> f ` set as \<inter> fst ` set d = {}
    \<Longrightarrow> fold (\<lambda>a. dset (f a) (g a)) as d = d @ map (\<lambda>a. (f a, g a)) as"
proof (induction as arbitrary: d)
  case (Cons a as)
  then have "dset (f a) (g a) d = d @ [(f a, g a)]" by (intro dset_fresh) auto
  then show ?case using Cons(2,3) Cons(1) [of "d @ [(f a, g a)]"] by auto
qed simp

lemma fold_children:
  "distinct (map agent_id as) \<Longrightarrow> agent_id ` set as \<inter> fst ` set d = {}
    \<Longrightarrow> fold (\<lambda>a m. if dget m (agent_id a) = None then dset (agent_id a) (children a) m else m) as d
      = d @ map (\<lambda>a. (agent_id a, children a)) as"
proof (induction as arbitrary: d)
  case (Cons a as)
  then have "agent_id a \<notin> fst ` set d" by auto
  then have "dget d (agent_id a) = None" "dset (agent_id a) (children a) d = d @ [(agent_id a, children a)]"
    by (simp_all add: map_of_eq_None_iff dset_fresh)
  then show ?case using Cons(2,3) Cons(1) [of "d @ [(agent_id a, children a)]"] by auto
qed simp

text \<open>Looking agents up in a list of configurations with distinct ids.\<close>

lemma lookup_agent: "distinct (map agent_id as) \<Longrightarrow> a \<in> set as \<Longrightarrow> dget (map (\<lambda>a. (agent_id a, f a)) as) (agent_id a) = Some (f a)"
  by (induction as) (auto simp: image_iff)

lemma lookup_agentD: "dget (map (\<lambda>a. (agent_id a, f a)) as) x = Some v \<Longrightarrow> \<exists>a \<in> set as. agent_id a = x \<and> f a = v"
  by (induction as) (auto split: if_splits)

lemma lookup_agent_iff:
  "distinct (map agent_id as) \<Longrightarrow> dget (map (\<lambda>a. (agent_id a, a)) as) x = Some b \<longleftrightarrow> b \<in> set as \<and> agent_id b = x"
  using lookup_agent [of as b "\<lambda>a. a"] lookup_agentD [of "\<lambda>a. a" as x b] by auto

lemma lookup_agent_None: "dget (map (\<lambda>a. (agent_id a, f a)) as) x = None \<longleftrightarrow> x \<notin> agent_id ` set as"
  by (induction as) auto

lemma check_parents_None:
  "check_parents d as = None \<longleftrightarrow>
     (\<forall>a \<in> set as. \<forall>p. parent_id a = Some p \<longrightarrow> (\<exists>b. dget d p = Some b \<and> agent_id a \<in> set (children b)))"
  by (induction as) (auto split: option.splits)

lemma check_declared_None:
  "check_declared d as = None \<longleftrightarrow> (\<forall>a \<in> set as. \<forall>c \<in> set (children a). dget d c \<noteq> None)"
  by (induction as) (auto split: option.splits simp: find_None_iff find_Some_iff)

lemma child_list_of:
  "distinct (map agent_id as) \<Longrightarrow> a \<in> set as \<Longrightarrow> child_list (tree_of as) (agent_id a) = children a"
  by (simp add: child_list_def tree_of_def lookup_agent)

lemma up_of: "distinct (map agent_id as) \<Longrightarrow> a \<in> set as \<Longrightarrow> up (tree_of as) (agent_id a) = parent_id a"
  by (simp add: up_def tree_of_def lookup_agent)

lemma child_list_mem:
  assumes "distinct (map agent_id as)"
  shows "(x, c) \<in> child_edges as \<longleftrightarrow> c \<in> set (child_list (tree_of as) x)"
proof
  assume "c \<in> set (child_list (tree_of as) x)"
  then obtain cs where d: "dget (map (\<lambda>a. (agent_id a, children a)) as) x = Some cs" and c: "c \<in> set cs"
    by (cases "dget (map (\<lambda>a. (agent_id a, children a)) as) x") (simp_all add: child_list_def tree_of_def)
  from lookup_agentD [OF d] c show "(x, c) \<in> child_edges as" unfolding child_edges_def by blast
qed (auto simp: child_edges_def child_list_of [OF assms])

lemma up_mem:
  assumes "distinct (map agent_id as)"
  shows "up (tree_of as) x = Some p \<longleftrightarrow> (\<exists>a \<in> set as. agent_id a = x \<and> parent_id a = Some p)"
proof
  assume "up (tree_of as) x = Some p"
  then have "dget (map (\<lambda>a. (agent_id a, parent_id a)) as) x = Some (Some p)"
    by (simp add: up_def tree_of_def bind_eq_Some_conv)
  then show "\<exists>a \<in> set as. agent_id a = x \<and> parent_id a = Some p" by (rule lookup_agentD)
qed (use up_of [OF assms] in auto)

text \<open>The constructor, check by check.\<close>

lemma roots_map: "map fst (filter (\<lambda>(i, a). parent_id a = None) (map (\<lambda>a. (agent_id a, a)) as))
    = map agent_id (filter (\<lambda>a. parent_id a = None) as)"
  by (induction as) auto

lemma single_root:
  "length (filter P as) = 1 \<Longrightarrow> \<exists>r. filter P as = [r] \<and> find P as = Some r"
  by (induction as) (auto split: if_splits simp: length_Suc_conv)

lemma dvals_map [simp]: "dvals (map (\<lambda>a. (f a, g a)) as) = map g as"
  by (simp add: dvals_def comp_def)

lemma dkeys_map [simp]: "dkeys (map (\<lambda>a. (f a, g a)) as) = map f as"
  by (simp add: dkeys_def comp_def)

abbreviation raw_tree :: "agent_config list \<Rightarrow> agent_tree" where
  "raw_tree as \<equiv> (tree_of as)\<lparr>root_id := None\<rparr>"

lemma new_agent_tree_distinct:
  assumes "distinct (map agent_id as)"
  shows "new_agent_tree as = validate (raw_tree as)"
  using assms first_duplicate_None [of "[]" "map agent_id as"] fold_fresh [of agent_id as "[]" "\<lambda>a. a"]
    fold_fresh [of agent_id as "[]" parent_id] fold_children [of as "[]"]
  by (simp add: new_agent_tree_def build_children_map_def tree_of_def)

lemma consistency_iff:
  assumes "distinct (map agent_id as)" and "agents t = agents (tree_of as)"
  shows "check_parent_child_consistency t = Inr t \<longleftrightarrow>
      (\<forall>a \<in> set as. \<forall>p. parent_id a = Some p \<longrightarrow> (\<exists>b \<in> set as. agent_id b = p \<and> agent_id a \<in> set (children b)))
    \<and> (\<forall>a \<in> set as. set (children a) \<subseteq> agent_id ` set as)" (is "_ \<longleftrightarrow> ?P \<and> ?C")
proof -
  let ?d = "map (\<lambda>a. (agent_id a, a)) as"
  have "check_parents ?d as = None \<longleftrightarrow> ?P"
    unfolding check_parents_None lookup_agent_iff [OF assms(1)] by blast
  moreover have "check_declared ?d as = None \<longleftrightarrow> ?C"
    unfolding check_declared_None lookup_agent_None by blast
  ultimately show ?thesis
    using assms(2) by (auto simp: check_parent_child_consistency_def tree_of_def split: option.splits)
qed

lemma edges_child:
  assumes "distinct (map agent_id as)" and "\<forall>a \<in> set as. set (children a) \<subseteq> agent_id ` set as"
  shows "edges (map agent_id as) (child_list (tree_of as)) = child_edges as"
  using assms by (auto simp: edges_def child_list_mem [OF assms(1), symmetric]) (auto simp: child_edges_def)

lemma edges_parent:
  assumes "distinct (map agent_id as)"
    and "\<forall>a \<in> set as. \<forall>p. parent_id a = Some p \<longrightarrow> (\<exists>b \<in> set as. agent_id b = p \<and> agent_id a \<in> set (children b))"
  shows "edges (map agent_id as) (parents (parent_map (tree_of as))) \<subseteq> (child_edges as)\<inverse>"
proof
  fix e assume "e \<in> edges (map agent_id as) (parents (parent_map (tree_of as)))"
  then obtain x p where e: "e = (x, p)" and "up (tree_of as) x = Some p"
    by (auto simp: edges_def parents_def up_def split: option.splits)
  then have "\<exists>a \<in> set as. agent_id a = x \<and> parent_id a = Some p" by (simp add: up_mem [OF assms(1)])
  then show "e \<in> (child_edges as)\<inverse>" using assms(2) e by (fastforce simp: child_edges_def)
qed

lemma check_no_cycles_cases:
  assumes "distinct (map agent_id as)" and t: "agents t = agents (tree_of as)" "parent_map t = parent_map (tree_of as)"
      "children_map t = children_map (tree_of as)"
    and p: "\<forall>a \<in> set as. \<forall>p. parent_id a = Some p \<longrightarrow> (\<exists>b \<in> set as. agent_id b = p \<and> agent_id a \<in> set (children b))"
    and c: "\<forall>a \<in> set as. set (children a) \<subseteq> agent_id ` set as"
  obtains (ok) "check_no_cycles t = Some (Inr t)" "acyclic (child_edges as)"
  | (cycle) q where "check_no_cycles t = Some (Inl (CycleDetectedError q))" "\<not> acyclic (child_edges as)"
      "is_cycle (child_edges as) q \<or> is_cycle ((child_edges as)\<inverse>) q"
proof -
  let ?ids = "map agent_id as" and ?pm = "parent_map (tree_of as)"
  have ids: "dkeys (agents t) = ?ids" using t by (simp add: tree_of_def)
  have ch: "child_list t = child_list (tree_of as)" using t by (simp add: child_list_def fun_eq_iff)
  note E = edges_child [OF assms(1) c] and P = edges_parent [OF assms(1) p]
  have pe: "(\<lambda>x. dfs_parent ?ids ?pm n x []) = (\<lambda>x. dfs_children ?ids (parents ?pm) n x [])" for n
    by (simp add: dfs_parent_children fun_eq_iff)
  let ?visit = "\<lambda>ch. visit_all (\<lambda>x. dfs_children ?ids ch (length ?ids) x []) ?ids (map (\<lambda>i. (i, WHITE)) ?ids)"
  have check: "check_no_cycles t =
     (case ?visit (parents ?pm) of
        None \<Rightarrow> None
      | Some (Inl p) \<Rightarrow> Some (Inl (CycleDetectedError p))
      | Some (Inr _) \<Rightarrow>
          (case ?visit (child_list (tree_of as)) of
             None \<Rightarrow> None
           | Some (Inl p) \<Rightarrow> Some (Inl (CycleDetectedError p))
           | Some (Inr _) \<Rightarrow> Some (Inr t)))"
    by (simp only: check_no_cycles_def ids t(2) ch pe Let_def)
  show thesis
  proof (cases rule: search_decides [of ?ids "parents ?pm"])
    case par: (acyclic c1)
    show thesis
    proof (cases rule: search_decides [of ?ids "child_list (tree_of as)"])
      case (acyclic c2)
      show ?thesis by (rule that(1)) (use acyclic(2) E in \<open>simp_all only: check par(1) acyclic(1) option.case sum.case\<close>)
    next
      case (cycle q)
      show ?thesis by (rule that(2) [of q]) (use cycle(2,3) E in \<open>simp_all only: check par(1) cycle(1) option.case sum.case simp_thms\<close>)
    qed
  next
    case (cycle q)
    have "\<not> acyclic (child_edges as)" using cycle(3) P acyclic_subset acyclic_converse by metis
    moreover have "is_cycle ((child_edges as)\<inverse>) q"
      using cycle(2) P unfolding is_cycle_def chain_def by (metis (mono_tags, lifting) subsetD successively_mono)
    ultimately show ?thesis
      by (intro that(2) [of q]) (simp_all only: check cycle(1) option.case sum.case simp_thms)
  qed
qed


text \<open>What each exception says about the configurations it was raised for.\<close>

definition explains :: "agent_config list \<Rightarrow> agent_tree_error \<Rightarrow> bool" where
  "explains as e =
     (case e of
        DuplicateAgentIdError x \<Rightarrow> 1 < length (filter (\<lambda>a. agent_id a = x) as)
      | NoRootError \<Rightarrow> (\<forall>a \<in> set as. parent_id a \<noteq> None)
      | MultipleRootsError rs \<Rightarrow> rs = map agent_id (filter (\<lambda>a. parent_id a = None) as) \<and> 1 < length rs
      | AgentNotFoundError p \<Rightarrow> p \<notin> agent_id ` set as \<and> (\<exists>a \<in> set as. parent_id a = Some p)
      | ParentChildMismatchError x p _ \<Rightarrow>
          (\<exists>a \<in> set as. \<exists>b \<in> set as. agent_id a = x \<and> parent_id a = Some p \<and> agent_id b = p \<and> x \<notin> set (children b))
      | ChildNotDeclaredError x c \<Rightarrow> c \<notin> agent_id ` set as \<and> (\<exists>a \<in> set as. agent_id a = x \<and> c \<in> set (children a))
      | CycleDetectedError q \<Rightarrow> is_cycle (child_edges as) q \<or> is_cycle ((child_edges as)\<inverse>) q
      | _ \<Rightarrow> False)"

lemma first_duplicate_Some:
  "first_duplicate seen xs = Some x \<Longrightarrow> x \<in> set xs \<and> (x \<in> set seen \<or> 1 < length (filter (\<lambda>y. y = x) xs))"
proof (induction seen xs rule: first_duplicate.induct)
  case (2 seen y xs)
  then show ?case by (cases "y \<in> set seen") (auto simp: filter_empty_conv)
qed simp

lemma filter_map_id: "filter (\<lambda>y. y = x) (map agent_id as) = map agent_id (filter (\<lambda>a. agent_id a = x) as)"
  by (induction as) auto

lemma duplicate_explained: "first_duplicate [] (map agent_id as) = Some x \<Longrightarrow> explains as (DuplicateAgentIdError x)"
  using first_duplicate_Some [of "[]" "map agent_id as" x] by (simp add: explains_def filter_map_id)

lemma mismatch_explained:
  "a \<in> set as \<Longrightarrow> b \<in> set as \<Longrightarrow> parent_id a = Some p \<Longrightarrow> agent_id b = p \<Longrightarrow> agent_id a \<notin> set (children b)
    \<Longrightarrow> explains as (ParentChildMismatchError (agent_id a) p m)"
  unfolding explains_def by auto

lemma parents_explained:
  assumes "distinct (map agent_id as)" and "check_parents (map (\<lambda>a. (agent_id a, a)) as) bs = Some e" and "set bs \<subseteq> set as"
  shows "explains as e"
  using assms(2,3)
proof (induction bs)
  case (Cons a bs)
  show ?case
  proof (cases "parent_id a")
    case None
    then show ?thesis using Cons by simp
  next
    case (Some p)
    show ?thesis
    proof (cases "dget (map (\<lambda>a. (agent_id a, a)) as) p")
      case None
      then have "e = AgentNotFoundError p" "p \<notin> agent_id ` set as"
        using Cons(2) Some by (simp_all add: lookup_agent_None [of "\<lambda>a. a", symmetric])
      then show ?thesis using Cons(3) Some by (auto simp: explains_def)
    next
      case (Some b)
      then have b: "b \<in> set as" "agent_id b = p" by (simp_all add: lookup_agent_iff [OF assms(1)])
      show ?thesis
      proof (cases "agent_id a \<in> set (children b)")
        case True
        then show ?thesis using Cons \<open>parent_id a = Some p\<close> Some by simp
      next
        case False
        have "e = ParentChildMismatchError (agent_id a) p ''(not listed in any parent's children)''"
          using Cons(2) False \<open>parent_id a = Some p\<close> Some by simp
        moreover have "a \<in> set as" using Cons(3) by simp
        ultimately show ?thesis using mismatch_explained [OF _ b(1) _ b(2) False] \<open>parent_id a = Some p\<close> by simp
      qed
    qed
  qed
qed simp

lemma declared_explained:
  "check_declared (map (\<lambda>a. (agent_id a, a)) as) bs = Some e \<Longrightarrow> set bs \<subseteq> set as \<Longrightarrow> explains as e"
proof (induction bs)
  case (Cons a bs)
  show ?case
  proof (cases "find (\<lambda>c. dget (map (\<lambda>a. (agent_id a, a)) as) c = None) (children a)")
    case None
    then show ?thesis using Cons by simp
  next
    case (Some c)
    then have "c \<in> set (children a)" "c \<notin> agent_id ` set as"
      by (auto simp: find_Some_iff lookup_agent_None)
    then show ?thesis using Cons(2,3) Some by (auto simp: explains_def)
  qed
qed simp

lemma consistency_cases:
  assumes "distinct (map agent_id as)" and "agents t = agents (tree_of as)"
  obtains "check_parent_child_consistency t = Inr t"
  | e where "check_parent_child_consistency t = Inl e" "explains as e"
proof -
  let ?d = "map (\<lambda>a. (agent_id a, a)) as"
  have t: "agents t = ?d" using assms(2) by (simp add: tree_of_def)
  show thesis
  proof (cases "check_parents ?d as")
    case None
    then show ?thesis
    proof (cases "check_declared ?d as")
      case (Some e)
      then show ?thesis using that(2) None declared_explained [of as as e] t by (simp add: check_parent_child_consistency_def)
    qed (use that(1) t None in \<open>simp add: check_parent_child_consistency_def\<close>)
  next
    case (Some e)
    then show ?thesis using that(2) parents_explained [OF assms(1) Some] t by (simp add: check_parent_child_consistency_def)
  qed
qed

lemma root_count_cases:
  obtains "check_root_count (raw_tree as) = Inr (tree_of as)" "length (filter (\<lambda>a. parent_id a = None) as) = 1"
  | e where "check_root_count (raw_tree as) = Inl e" "length (filter (\<lambda>a. parent_id a = None) as) \<noteq> 1" "explains as e"
proof -
  let ?f = "filter (\<lambda>a. parent_id a = None) as"
  have roots: "check_root_count (raw_tree as) =
     (case map agent_id ?f of
        [] \<Rightarrow> Inl NoRootError
      | [r] \<Rightarrow> Inr ((tree_of as)\<lparr>root_id := Some r\<rparr>)
      | roots \<Rightarrow> Inl (MultipleRootsError roots))"
    unfolding check_root_count_def by (simp add: tree_of_def roots_map cong: list.case_cong)
  consider "?f = []" | r where "?f = [r]" | r s rs where "?f = r # s # rs" by (metis neq_Nil_conv)
  then show thesis
  proof cases
    case 1
    then show ?thesis using that(2) roots by (simp add: explains_def filter_empty_conv)
  next
    case (2 r)
    then have "find (\<lambda>a. parent_id a = None) as = Some r" using single_root [of "\<lambda>a. parent_id a = None" as] by auto
    then have "(tree_of as)\<lparr>root_id := Some (agent_id r)\<rparr> = tree_of as" by (simp add: tree_of_def)
    then show ?thesis using that(1) roots 2 by simp
  next
    case (3 r s rs)
    then show ?thesis using that(2) roots by (simp add: explains_def)
  qed
qed

lemma new_agent_tree_total:
  "case new_agent_tree as of
     None \<Rightarrow> False
   | Some (Inr t) \<Rightarrow> organisation as \<and> t = tree_of as
   | Some (Inl e) \<Rightarrow> \<not> organisation as \<and> explains as e"
proof (cases "distinct (map agent_id as)")
  case False
  then obtain x where "first_duplicate [] (map agent_id as) = Some x"
    using first_duplicate_None [of "[]" "map agent_id as"] by auto
  then show ?thesis using False duplicate_explained [of as x] by (simp add: new_agent_tree_def organisation_def)
next
  case d: True
  have "check_duplicate_ids (raw_tree as) = Inr (raw_tree as)"
    using d first_duplicate_None [of "[]" "map agent_id as"] by (simp add: check_duplicate_ids_def tree_of_def)
  then have new: "new_agent_tree as =
      (case check_root_count (raw_tree as) of
         Inl e \<Rightarrow> Some (Inl e)
       | Inr t2 \<Rightarrow> (case check_parent_child_consistency t2 of Inl e \<Rightarrow> Some (Inl e) | Inr t3 \<Rightarrow> check_no_cycles t3))"
    by (simp add: new_agent_tree_distinct [OF d] validate_def)
  show ?thesis
  proof (cases rule: root_count_cases [of as])
    case (2 e)
    then show ?thesis by (simp add: new organisation_def)
  next
    case root: 1
    show ?thesis
    proof (cases rule: consistency_cases [OF d refl])
      case (2 e)
      then have "\<not> organisation as" using consistency_iff [OF d refl] by (auto simp: organisation_def)
      then show ?thesis using 2 root by (simp add: new)
    next
      case con: 1
      then have c: "\<forall>a \<in> set as. \<forall>p. parent_id a = Some p \<longrightarrow> (\<exists>b \<in> set as. agent_id b = p \<and> agent_id a \<in> set (children b))"
        "\<forall>a \<in> set as. set (children a) \<subseteq> agent_id ` set as" using consistency_iff [OF d refl] by blast+
      show ?thesis
      proof (cases rule: check_no_cycles_cases [OF d refl refl refl c])
        case 1
        then have "organisation as" unfolding organisation_def using d root(2) c by blast
        then show ?thesis using con root 1 by (simp add: new)
      next
        case (2 q)
        then have "\<not> organisation as" by (simp add: organisation_def)
        then show ?thesis using con root 2 by (simp add: new explains_def)
      qed
    qed
  qed
qed

text \<open>
  C28. Building the organisation returns for every list of configurations.  It accepts exactly the
  organisations, with the maps of the tree read off the configurations, and every exception it
  raises names a real defect of the input: an id used twice, the parentless agents, the missing parent
  or child, the agent its parent does not list, or a cycle of the hierarchy.
\<close>

theorem agent_tree_accepts:
  "case new_agent_tree as of
     None \<Rightarrow> False
   | Some (Inr t) \<Rightarrow> organisation as \<and> t = tree_of as
   | Some (Inl e) \<Rightarrow> \<not> organisation as \<and> explains as e"
  by (rule new_agent_tree_total)

section \<open>Walking an accepted organisation\<close>

text \<open>The way from an agent up to an agent without a parent.\<close>

fun up_path :: "agent_tree \<Rightarrow> string \<Rightarrow> string list \<Rightarrow> bool" where
  "up_path t x [] = (up t x = None)"
| "up_path t x (p # ps) = (up t x = Some p \<and> up_path t p ps)"

lemma organisationD:
  assumes "organisation as"
  shows org_distinct: "distinct (map agent_id as)"
    and org_roots: "length (filter (\<lambda>a. parent_id a = None) as) = 1"
    and org_parent: "a \<in> set as \<Longrightarrow> parent_id a = Some p \<Longrightarrow> (p, agent_id a) \<in> child_edges as"
    and org_child: "(x, c) \<in> child_edges as \<Longrightarrow> x \<in> agent_id ` set as \<and> c \<in> agent_id ` set as"
    and org_acyclic: "acyclic (child_edges as)"
  using assms unfolding organisation_def child_edges_def by blast+

lemma org_up: "organisation as \<Longrightarrow> up (tree_of as) x = Some p \<Longrightarrow> (p, x) \<in> child_edges as"
  using org_parent by (auto simp: up_mem [OF org_distinct])

lemma org_wf: "organisation as \<Longrightarrow> wf (child_edges as) \<and> wf (child_rel (child_list (tree_of as)))"
proof -
  assume o: "organisation as"
  have "child_edges as \<subseteq> agent_id ` set as \<times> agent_id ` set as" using org_child [OF o] by auto
  then have f: "finite (child_edges as)" by (rule finite_subset) simp
  have "child_rel (child_list (tree_of as)) = (child_edges as)\<inverse>"
    using child_list_mem [OF org_distinct [OF o]] by auto
  then show ?thesis using f org_acyclic [OF o] by (simp add: finite_acyclic_wf finite_acyclic_wf_converse)
qed

lemma org_up_path:
  assumes "organisation as" and "x \<in> agent_id ` set as"
  shows "\<exists>ps. up_path (tree_of as) x ps \<and> set ps \<subseteq> agent_id ` set as"
  using conjunct1 [OF org_wf [OF assms(1)]] assms(2)
proof (induction x rule: wf_induct_rule)
  case (less x)
  show ?case
  proof (cases "up (tree_of as) x")
    case None
    then show ?thesis by (intro exI [of _ "[]"]) simp
  next
    case (Some p)
    have e: "(p, x) \<in> child_edges as" by (rule org_up [OF assms(1) Some])
    then obtain ps where "up_path (tree_of as) p ps" "set ps \<subseteq> agent_id ` set as"
      using less(1) [OF e] org_child [OF assms(1) e] by blast
    then show ?thesis using Some org_child [OF assms(1) e] by (intro exI [of _ "p # ps"]) simp
  qed
qed

lemma up_path_root:
  assumes "organisation as"
  shows "up_path (tree_of as) x ps \<Longrightarrow> x \<in> agent_id ` set as \<Longrightarrow> root_id (tree_of as) = Some (last (x # ps))"
proof (induction ps arbitrary: x)
  case Nil
  then obtain a where a: "a \<in> set as" "x = agent_id a" "parent_id a = None"
    using up_of [OF org_distinct [OF assms]] by auto
  obtain r where r: "filter (\<lambda>a. parent_id a = None) as = [r]" "find (\<lambda>a. parent_id a = None) as = Some r"
    using single_root [OF org_roots [OF assms]] by blast
  have "a \<in> set (filter (\<lambda>a. parent_id a = None) as)" using a by simp
  then have "a = r" by (simp add: r(1))
  then show ?case using r(2) a(2) by (simp add: tree_of_def)
next
  case (Cons p ps)
  then have "(p, x) \<in> child_edges as" using org_up [OF assms] by simp
  then show ?case using Cons org_child [OF assms] by (metis last_ConsR list.distinct(1) up_path.simps(2))
qed

text \<open>What the loops compute along the way up.\<close>

lemma depth_path: "up_path t x ps \<Longrightarrow> depth_loop t x d = Some (d + length ps)"
  by (induction ps arbitrary: x d) (simp_all add: depth_loop.simps [of t])

lemma is_ancestor_path: "up_path t x ps \<Longrightarrow> is_ancestor_loop t a (Some x) = Some (a \<in> set (x # ps))"
proof (induction ps arbitrary: x)
  case (Cons p ps)
  then show ?case unfolding is_ancestor_loop.simps [of t a "Some x"] by auto
qed (simp add: is_ancestor_loop.simps)

lemma ancestors_path:
  assumes "distinct (map agent_id as)"
  shows "up_path (tree_of as) x ps \<Longrightarrow> set ps \<subseteq> agent_id ` set as
    \<Longrightarrow> \<exists>anc. ancestors_loop (tree_of as) (up (tree_of as) x) acc = Some (Inr (acc @ anc)) \<and> map agent_id anc = ps"
proof (induction ps arbitrary: x acc)
  case (Cons p ps)
  then obtain b where b: "b \<in> set as" "agent_id b = p" by auto
  then have "dget (agents (tree_of as)) p = Some b" by (simp add: tree_of_def lookup_agent_iff [OF assms])
  then have "ancestors_loop (tree_of as) (up (tree_of as) x) acc = ancestors_loop (tree_of as) (up (tree_of as) p) (acc @ [b])"
    using Cons(2) by (simp add: ancestors_loop.simps [of "tree_of as" "Some p"])
  moreover obtain anc where "ancestors_loop (tree_of as) (up (tree_of as) p) (acc @ [b]) = Some (Inr ((acc @ [b]) @ anc))"
    "map agent_id anc = ps" using Cons(1) [of p "acc @ [b]"] Cons(2,3) by auto
  ultimately show ?case using b(2) by (intro exI [of _ "b # anc"]) simp
qed (simp add: ancestors_loop.simps)

lemma up_path_below:
  assumes "organisation as"
  shows "up_path (tree_of as) d ps \<Longrightarrow> a \<in> set (d # ps) \<Longrightarrow> d \<in> below (child_list (tree_of as)) [a]"
proof (induction ps arbitrary: d)
  case (Cons p ps)
  show ?case
  proof (cases "a = d")
    case False
    then have "p \<in> below (child_list (tree_of as)) [a]" using Cons by simp
    moreover have "d \<in> set (child_list (tree_of as) p)"
      using org_up [OF assms, of d p] child_list_mem [OF org_distinct [OF assms]] Cons(2) by simp
    ultimately show ?thesis by (auto simp: below_def intro: converse_rtrancl_into_rtrancl)
  qed (simp add: below_def)
qed (simp add: below_def)

lemma subtree_loop_below:
  assumes "wf (child_rel (child_list t))"
  shows "\<exists>ks. (\<forall>acc. subtree_loop t stack acc = Some (acc @ ks)) \<and> set ks = below (child_list t) stack"
proof (induction stack rule: stack_induct [OF assms])
  case 1
  show ?case by (intro exI [of _ "[]"]) (simp add: subtree_loop.simps)
next
  case (2 x rest)
  then obtain ks where "\<forall>acc. subtree_loop t (rev (child_list t x) @ rest) acc = Some (acc @ ks)"
    "set ks = below (child_list t) (rev (child_list t x) @ rest)" by blast
  then show ?case by (intro exI [of _ "x # ks"]) (simp add: below_Cons subtree_loop.simps [of t "x # rest"])
qed

lemma get_agent_of:
  "distinct (map agent_id as) \<Longrightarrow> x \<in> agent_id ` set as \<Longrightarrow> \<exists>a. get_agent (tree_of as) x = Inr a"
  by (auto simp: get_agent_def tree_of_def lookup_agent)


text \<open>The tree an accepted list of configurations becomes.\<close>

lemma accepted_tree: "new_agent_tree as = Some (Inr t) \<Longrightarrow> organisation as \<and> t = tree_of as"
  using new_agent_tree_total [of as] by simp

lemma ids_tree_of [simp]: "set (all_ids (tree_of as)) = agent_id ` set as"
  by (auto simp: all_ids_def tree_of_def simp del: dkeys_iff)

lemma walk_up:
  assumes o: "organisation as" and x: "x \<in> agent_id ` set as"
  obtains anc where "ancestors (tree_of as) x = Some (Inr anc)" "up_path (tree_of as) x (map agent_id anc)"
    "root_id (tree_of as) = Some (last (x # map agent_id anc))" "depth (tree_of as) x = Some (Inr (length anc))"
    "\<And>a. a \<in> agent_id ` set as \<Longrightarrow> is_ancestor (tree_of as) a x = Some (Inr (a \<in> set (x # map agent_id anc)))"
proof -
  note d = org_distinct [OF o]
  obtain ps where ps: "up_path (tree_of as) x ps" "set ps \<subseteq> agent_id ` set as" using org_up_path [OF o x] by blast
  obtain b where b: "get_agent (tree_of as) x = Inr b" using get_agent_of [OF d x] by blast
  obtain anc where anc: "ancestors_loop (tree_of as) (up (tree_of as) x) [] = Some (Inr anc)" "map agent_id anc = ps"
    using ancestors_path [OF d ps, of "[]"] by auto
  then have len: "length anc = length ps" by (metis length_map)
  show thesis
  proof (rule that [of anc])
    fix a assume "a \<in> agent_id ` set as"
    then obtain c where "get_agent (tree_of as) a = Inr c" using get_agent_of [OF d] by blast
    then show "is_ancestor (tree_of as) a x = Some (Inr (a \<in> set (x # map agent_id anc)))"
      using b is_ancestor_path [OF ps(1), of a] anc(2) by (simp add: is_ancestor_def)
  qed (use b anc ps up_path_root [OF o ps(1) x] depth_path [OF ps(1), of 0] len in \<open>simp_all add: ancestors_def depth_def\<close>)
qed

lemma walk_down:
  assumes o: "organisation as" and x: "x \<in> agent_id ` set as"
  obtains sub where "subtree_ids (tree_of as) x = Some (Inr sub)" "set sub = below (child_list (tree_of as)) [x]"
proof -
  obtain b where "get_agent (tree_of as) x = Inr b" using get_agent_of [OF org_distinct [OF o] x] by blast
  moreover obtain ks where "\<forall>acc. subtree_loop (tree_of as) [x] acc = Some (acc @ ks)" "set ks = below (child_list (tree_of as)) [x]"
    using subtree_loop_below [OF conjunct2 [OF org_wf [OF o]], of "[x]"] by blast
  ultimately show thesis using that [of ks] by (simp add: subtree_ids_def)
qed

lemma ancestor_below:
  assumes o: "organisation as" and d: "d \<in> agent_id ` set as" and a: "is_ancestor (tree_of as) a d = Some (Inr True)"
  shows "d \<in> below (child_list (tree_of as)) [a]"
proof -
  obtain ps where ps: "up_path (tree_of as) d ps" using org_up_path [OF o d] by blast
  then have "a \<in> set (d # ps)"
    using a is_ancestor_path [OF ps] by (auto simp: is_ancestor_def split: sum.splits)
  then show ?thesis by (rule up_path_below [OF o ps])
qed

lemma below_org: "organisation as \<Longrightarrow> x \<in> agent_id ` set as \<Longrightarrow> below (child_list (tree_of as)) [x] \<subseteq> agent_id ` set as"
proof
  fix y assume o: "organisation as" and x: "x \<in> agent_id ` set as" and "y \<in> below (child_list (tree_of as)) [x]"
  then have "(y, x) \<in> (child_rel (child_list (tree_of as)))\<^sup>*" by (simp add: below_def)
  then show "y \<in> agent_id ` set as"
    using x by (induction rule: rtrancl_induct) (use child_list_mem [OF org_distinct [OF o]] org_child [OF o] in auto)
qed

lemma root_above:
  assumes o: "organisation as" and r: "root_id (tree_of as) = Some x" and d: "d \<in> agent_id ` set as"
  shows "is_ancestor (tree_of as) x d = Some (Inr True)"
proof (rule walk_up [OF o d])
  fix anc assume l: "root_id (tree_of as) = Some (last (d # map agent_id anc))"
    and i: "\<And>a. a \<in> agent_id ` set as \<Longrightarrow> is_ancestor (tree_of as) a d = Some (Inr (a \<in> set (d # map agent_id anc)))"
  have "x \<in> set (d # map agent_id anc)" using l r last_in_set [of "d # map agent_id anc"] by simp
  moreover have "x \<in> agent_id ` set as" using r by (auto simp: tree_of_def find_Some_iff)
  ultimately show ?thesis using i by simp
qed

text \<open>
  In an accepted organisation every traversal returns.  The ancestors of an agent are the way
  from its parent up to the root, the depth is their number, \<^verbatim>\<open>is_ancestor\<close> holds of exactly the agent
  and these; \<^verbatim>\<open>subtree_ids\<close> lists what the children lists lead to, which includes every agent it is an
  ancestor of, and from the root everyone.
\<close>

theorem agent_tree_walks:
  assumes "new_agent_tree as = Some (Inr t)" and "x \<in> set (all_ids t)"
  shows "\<exists>anc sub. ancestors t x = Some (Inr anc) \<and> up_path t x (map agent_id anc)
    \<and> root_id t = Some (last (x # map agent_id anc)) \<and> depth t x = Some (Inr (length anc))
    \<and> (\<forall>a \<in> set (all_ids t). is_ancestor t a x = Some (Inr (a \<in> set (x # map agent_id anc))))
    \<and> subtree_ids t x = Some (Inr sub) \<and> set sub = below (child_list t) [x]
    \<and> (\<forall>d \<in> set (all_ids t). is_ancestor t x d = Some (Inr True) \<longrightarrow> d \<in> set sub)
    \<and> (root_id t = Some x \<longrightarrow> set sub = set (all_ids t))"
proof -
  have o: "organisation as" and t: "t = tree_of as" using accepted_tree [OF assms(1)] by simp_all
  then have x: "x \<in> agent_id ` set as" using assms(2) by simp
  obtain anc where anc: "ancestors t x = Some (Inr anc)" "up_path t x (map agent_id anc)"
      "root_id t = Some (last (x # map agent_id anc))" "depth t x = Some (Inr (length anc))"
    and i: "\<And>a. a \<in> agent_id ` set as \<Longrightarrow> is_ancestor t a x = Some (Inr (a \<in> set (x # map agent_id anc)))"
    using walk_up [OF o x] unfolding t by metis
  obtain sub where sub: "subtree_ids t x = Some (Inr sub)" "set sub = below (child_list t) [x]"
    using walk_down [OF o x] unfolding t by metis
  have below: "d \<in> set sub" if "d \<in> set (all_ids t)" "is_ancestor t x d = Some (Inr True)" for d
    using ancestor_below [OF o, of d x] that sub(2) by (simp add: t)
  have "set sub = set (all_ids t)" if r: "root_id t = Some x"
  proof -
    have "d \<in> set sub" if "d \<in> set (all_ids t)" for d
      using below [OF that] root_above [OF o, of x d] r that by (simp add: t)
    then show ?thesis using below_org [OF o x] sub(2) by (auto simp: t)
  qed
  then show ?thesis using anc i sub below by (intro exI [of _ anc] exI [of _ sub]) (simp add: t)
qed


section \<open>An organisation with a shared child\<close>

abbreviation agent_like :: "string \<Rightarrow> string option \<Rightarrow> string list \<Rightarrow> agent_config" where
  "agent_like x p cs \<equiv> \<lparr>agent_id = x, display_name = x, role = '''', kind = KIND_llm, pool = None, parent_id = p,
     children = cs, can_delegate = True, shared_kb_permissions = [], metadata = []\<rparr>"

abbreviation shared_child :: "agent_config list" where
  "shared_child \<equiv> [agent_like ''r'' None [''a'', ''b''], agent_like ''a'' (Some ''r'') [''c''],
     agent_like ''b'' (Some ''r'') [''c''], agent_like ''c'' (Some ''a'') []]"

lemma shared_child_accepted: "new_agent_tree shared_child = Some (Inr (tree_of shared_child))"
  by code_simp

text \<open>
  The consistency check looks at an agent's own parent only: an agent may be listed by a second one,
  which then may delegate to it without being its ancestor, and a traversal from the root meets it twice.
\<close>

lemma two_parents_accepted:
  "can_delegate_to (tree_of shared_child) ''b'' ''c''"
  "parent_of (tree_of shared_child) ''c'' = Inr (Some (agent_like ''a'' (Some ''r'') [''c'']))"
  "is_ancestor (tree_of shared_child) ''b'' ''c'' = Some (Inr False)"
  "subtree_ids (tree_of shared_child) ''r'' = Some (Inr [''r'', ''b'', ''c'', ''a'', ''c''])"
  by code_simp+

theorem agent_tree_walks_witness:
  "''c'' \<in> set (all_ids (tree_of shared_child)) \<and>
   (\<exists>anc sub. ancestors (tree_of shared_child) ''c'' = Some (Inr anc)
      \<and> subtree_ids (tree_of shared_child) ''c'' = Some (Inr sub)
      \<and> root_id (tree_of shared_child) = Some (last (''c'' # map agent_id anc))
      \<and> depth (tree_of shared_child) ''c'' = Some (Inr (length anc)))"
proof -
  have "''c'' \<in> set (all_ids (tree_of shared_child))" by code_simp
  then show ?thesis using agent_tree_walks [OF shared_child_accepted] by metis
qed

text \<open>The configurations a dictionary holds are checked first; then it is the constructor that decides.\<close>

lemma from_dict_accepts:
  "from_dict as = Some (Inr t) \<longleftrightarrow>
     (\<forall>a \<in> set as. pool a \<noteq> None \<longrightarrow> kind a = KIND_service) \<and> organisation as \<and> t = tree_of as"
proof -
  have "validate_configs as = (if \<forall>a \<in> set as. pool a \<noteq> None \<longrightarrow> kind a = KIND_service then Inr as
      else Inl (PoolKindError (agent_id (hd (filter (\<lambda>a. pool a \<noteq> None \<and> kind a \<noteq> KIND_service) as)))))"
    by (induction as) (auto simp: validate_pool_def split: if_splits)
  moreover have "new_agent_tree as = Some (Inr t) \<longleftrightarrow> organisation as \<and> t = tree_of as"
    using new_agent_tree_total [of as] by (auto split: option.splits sum.splits)
  ultimately show ?thesis by (auto simp: from_dict_def)
qed

end
