(* ===== verification/Mail.thy ===== *)
theory Mail
  imports PyString "HOL-Library.Multiset"
begin

text \<open>
  The mail system of the archived engine (\<^verbatim>\<open>legacy/mailbox.py\<close> with \<^verbatim>\<open>legacy/models/email.py\<close>): mailboxes, the
  order of an inbox, the queue of emails and their delivery.  One email object is shared by the queue,
  the registry, the sender's outbox and the inbox of every recipient; containers therefore hold
  references into one heap, which only grows.  A deadline is a number of microseconds since the epoch, UTC.
\<close>

section \<open>Emails\<close>

datatype email_type = DELEGATION | ACCEPTANCE | PROGRESS | QUESTION | ANSWER | RESULT | REVIEW_REQUEST | REVIEW_RESULT
  | FAILURE | BLOCKED | CANCELLATION | HUMAN_MESSAGE | SYSTEM_NOTICE

datatype email_status = QUEUED | DELIVERED | READ

datatype email_priority = LOW | NORMAL | HIGH | URGENT

record email =
  email_id :: string
  thread_id :: string
  from_agent :: string
  to :: "string list"
  cc :: "string list"
  subject :: string
  body :: string
  attachments :: "pyval list"
  email_type :: email_type
  task_id :: string
  created_at_tick :: int
  deliver_at_tick :: int
  status :: email_status
  priority :: email_priority
  requires_reply :: bool
  reply_to :: "string option"
  deadline :: "int option"
  metadata :: "(string, pyval) dict"

definition mark_delivered :: "email \<Rightarrow> email" where
  "mark_delivered e = e\<lparr>status := DELIVERED\<rparr>"

definition mark_email_read :: "email \<Rightarrow> email" where
  "mark_email_read e = e\<lparr>status := READ\<rparr>"

fun PRIORITY_ORDER :: "email_priority \<Rightarrow> int" where
  "PRIORITY_ORDER URGENT = 0"
| "PRIORITY_ORDER HIGH = 1"
| "PRIORITY_ORDER NORMAL = 2"
| "PRIORITY_ORDER LOW = 3"

definition NO_DEADLINE :: int where
  "NO_DEADLINE = 253402300799999999"

definition type_rank :: "email_type \<Rightarrow> int" where
  "type_rank ty = (if ty = HUMAN_MESSAGE then 1 else if ty \<noteq> SYSTEM_NOTICE then 2 else 0)"

definition email_key :: "email \<Rightarrow> int \<times> int \<times> int \<times> int \<times> string" where
  "email_key e =
     (type_rank (email_type e), PRIORITY_ORDER (priority e), case deadline e of Some d \<Rightarrow> d | None \<Rightarrow> NO_DEADLINE,
      created_at_tick e, email_id e)"

section \<open>A mailbox\<close>

type_synonym heap = "email list"

record mailbox =
  owner :: string
  inbox_map :: "(string, nat) dict"
  outbox_map :: "(string, nat) dict"

definition new_mailbox :: "string \<Rightarrow> mailbox" where
  "new_mailbox a = \<lparr>owner = a, inbox_map = [], outbox_map = []\<rparr>"

definition mutate :: "nat \<Rightarrow> (email \<Rightarrow> email) \<Rightarrow> heap \<Rightarrow> heap" where
  "mutate r f h = h[r := f (h ! r)]"

definition inbox :: "heap \<Rightarrow> mailbox \<Rightarrow> nat list" where
  "inbox h mb = sort_key (\<lambda>r. email_key (h ! r)) (dvals (inbox_map mb))"

definition outbox :: "heap \<Rightarrow> mailbox \<Rightarrow> nat list" where
  "outbox h mb = sort_key (\<lambda>r. email_key (h ! r)) (dvals (outbox_map mb))"

definition unread_count :: "heap \<Rightarrow> mailbox \<Rightarrow> nat" where
  "unread_count h mb = length (filter (\<lambda>r. status (h ! r) = DELIVERED) (dvals (inbox_map mb)))"

definition receive :: "nat \<Rightarrow> heap \<times> mailbox \<Rightarrow> heap \<times> mailbox" where
  "receive r = (\<lambda>(h, mb). (mutate r mark_delivered h, mb\<lparr>inbox_map := dset (email_id (h ! r)) r (inbox_map mb)\<rparr>))"

definition send :: "nat \<Rightarrow> heap \<times> mailbox \<Rightarrow> heap \<times> mailbox" where
  "send r = (\<lambda>(h, mb). (mutate r (\<lambda>e. e\<lparr>status := QUEUED\<rparr>) h, mb\<lparr>outbox_map := dset (email_id (h ! r)) r (outbox_map mb)\<rparr>))"

definition get_unread :: "heap \<Rightarrow> mailbox \<Rightarrow> nat list" where
  "get_unread h mb = filter (\<lambda>r. status (h ! r) = DELIVERED) (inbox h mb)"

definition get_by_type :: "email_type \<Rightarrow> heap \<Rightarrow> mailbox \<Rightarrow> nat list" where
  "get_by_type ty h mb = filter (\<lambda>r. email_type (h ! r) = ty) (inbox h mb)"

definition get_by_task :: "string \<Rightarrow> heap \<Rightarrow> mailbox \<Rightarrow> nat list" where
  "get_by_task x h mb = filter (\<lambda>r. task_id (h ! r) = x) (inbox h mb)"

definition get_thread :: "string \<Rightarrow> heap \<Rightarrow> mailbox \<Rightarrow> nat list" where
  "get_thread x h mb =
     sort_key (\<lambda>r. created_at_tick (h ! r)) (filter (\<lambda>r. thread_id (h ! r) = x) (dvals (inbox_map mb)))"

definition mark_read :: "string \<Rightarrow> heap \<times> mailbox \<Rightarrow> bool \<times> heap" where
  "mark_read i = (\<lambda>(h, mb).
     case dget (inbox_map mb) i of
       None \<Rightarrow> (False, h)
     | Some r \<Rightarrow> (True, mutate r mark_email_read h))"

fun read_loop :: "nat list \<Rightarrow> nat \<Rightarrow> heap \<Rightarrow> nat \<times> heap" where
  "read_loop [] n h = (n, h)"
| "read_loop (r # rs) n h =
     (if status (h ! r) = DELIVERED then read_loop rs (n + 1) (mutate r mark_email_read h) else read_loop rs n h)"

definition mark_all_read :: "heap \<times> mailbox \<Rightarrow> nat \<times> heap" where
  "mark_all_read = (\<lambda>(h, mb). read_loop (dvals (inbox_map mb)) 0 h)"

definition get_email :: "string \<Rightarrow> mailbox \<Rightarrow> nat option" where
  "get_email i mb = dget (inbox_map mb) i"

definition remove_from_inbox :: "string \<Rightarrow> mailbox \<Rightarrow> bool \<times> mailbox" where
  "remove_from_inbox i mb = (dget (inbox_map mb) i \<noteq> None, mb\<lparr>inbox_map := dpop i (inbox_map mb)\<rparr>)"

definition clear_outbox :: "mailbox \<Rightarrow> nat list \<times> mailbox" where
  "clear_outbox mb = (dvals (outbox_map mb), mb\<lparr>outbox_map := []\<rparr>)"

section \<open>The mail system\<close>

record mail_system =
  heap :: heap
  mailboxes :: "(string, mailbox) dict"
  pending :: "nat list"
  all_emails :: "(string, nat) dict"

definition new_mail_system :: mail_system where
  "new_mail_system = \<lparr>heap = [], mailboxes = [], pending = [], all_emails = []\<rparr>"

definition register_agent :: "string \<Rightarrow> mail_system \<Rightarrow> mail_system" where
  "register_agent a s = s\<lparr>mailboxes := dset a (new_mailbox a) (mailboxes s)\<rparr>"

definition get_mailbox :: "mail_system \<Rightarrow> string \<Rightarrow> mailbox option" where
  "get_mailbox s a = dget (mailboxes s) a"

definition queue_email :: "nat \<Rightarrow> mail_system \<Rightarrow> mail_system" where
  "queue_email r s = s\<lparr>pending := pending s @ [r], all_emails := dset (email_id (heap s ! r)) r (all_emails s)\<rparr>"

fun route :: "string list \<Rightarrow> nat \<Rightarrow> heap \<times> (string, mailbox) dict \<Rightarrow> heap \<times> (string, mailbox) dict" where
  "route [] r st = st"
| "route (a # as) r (h, mbs) =
     (case dget mbs a of
        None \<Rightarrow> route as r (h, mbs)
      | Some mb \<Rightarrow> (case receive r (h, mb) of (h', mb') \<Rightarrow> route as r (h', dset a mb' mbs)))"

definition correct_tick :: "email \<Rightarrow> email" where
  "correct_tick e = (if deliver_at_tick e < created_at_tick e + 1 then e\<lparr>deliver_at_tick := created_at_tick e + 1\<rparr> else e)"

fun deliver_loop :: "int \<Rightarrow> nat list \<Rightarrow> heap \<times> (string, mailbox) dict
    \<Rightarrow> nat list \<times> nat list \<times> heap \<times> (string, mailbox) dict" where
  "deliver_loop tick [] st = ([], [], st)"
| "deliver_loop tick (r # rs) (h, mbs) =
     (let h = mutate r correct_tick h in
      if deliver_at_tick (h ! r) \<le> tick then
        (case deliver_loop tick rs (route (to (h ! r)) r (h, mbs)) of (ds, ks, st) \<Rightarrow> (r # ds, ks, st))
      else
        (case deliver_loop tick rs (h, mbs) of (ds, ks, st) \<Rightarrow> (ds, r # ks, st)))"

definition deliver :: "int \<Rightarrow> mail_system \<Rightarrow> nat list \<times> mail_system" where
  "deliver tick s =
     (case deliver_loop tick (pending s) (heap s, mailboxes s) of
        (ds, ks, h, mbs) \<Rightarrow> (ds, s\<lparr>heap := h, mailboxes := mbs, pending := ks\<rparr>))"

record email_args =
  a_from :: string
  a_to :: "string list"
  a_subject :: string
  a_body :: string
  a_type :: email_type
  a_task :: string
  a_tick :: int
  a_deliver :: "int option"
  a_priority :: email_priority
  a_requires_reply :: bool
  a_reply_to :: "string option"
  a_thread :: string
  a_attachments :: "pyval list"
  a_cc :: "string list"
  a_deadline :: "int option"
  a_metadata :: "(string, pyval) dict"

definition mail_name :: "nat \<Rightarrow> string" where
  "mail_name n = ''mail.'' @ padded n"

definition make_email :: "email_args \<Rightarrow> nat \<Rightarrow> email" where
  "make_email x n =
     \<lparr>email_id = mail_name (n + 1),
      thread_id = (if a_task x \<noteq> [] then if a_thread x \<noteq> [] then a_thread x else ''thread.'' @ a_task x else []),
      from_agent = a_from x, to = a_to x, cc = a_cc x, subject = a_subject x, body = a_body x,
      attachments = a_attachments x, email_type = a_type x, task_id = a_task x, created_at_tick = a_tick x,
      deliver_at_tick = (case a_deliver x of Some d \<Rightarrow> d | None \<Rightarrow> a_tick x + 1), status = QUEUED,
      priority = a_priority x, requires_reply = a_requires_reply x, reply_to = a_reply_to x, deadline = a_deadline x,
      metadata = a_metadata x\<rparr>"

definition create_email :: "email_args \<Rightarrow> mail_system \<Rightarrow> nat \<times> mail_system" where
  "create_email x s =
     (let r = length (heap s);
          h = heap s @ [make_email x (length (all_emails s))];
          s1 = (case dget (mailboxes s) (a_from x) of
                  None \<Rightarrow> s\<lparr>heap := h\<rparr>
                | Some mb \<Rightarrow>
                    (case send r (h, mb) of (h', mb') \<Rightarrow> s\<lparr>heap := h', mailboxes := dset (a_from x) mb' (mailboxes s)\<rparr>))
      in (r, queue_email r s1))"

definition find_email :: "mail_system \<Rightarrow> string \<Rightarrow> nat option" where
  "find_email s i = dget (all_emails s) i"

definition pending_count :: "mail_system \<Rightarrow> nat" where
  "pending_count s = length (pending s)"

text \<open>Operations of one agent's mailbox inside the system.\<close>

definition agent_reads :: "string \<Rightarrow> string \<Rightarrow> mail_system \<Rightarrow> mail_system" where
  "agent_reads a i s =
     (case dget (mailboxes s) a of None \<Rightarrow> s | Some mb \<Rightarrow> s\<lparr>heap := snd (mark_read i (heap s, mb))\<rparr>)"

definition agent_reads_all :: "string \<Rightarrow> mail_system \<Rightarrow> mail_system" where
  "agent_reads_all a s =
     (case dget (mailboxes s) a of None \<Rightarrow> s | Some mb \<Rightarrow> s\<lparr>heap := snd (mark_all_read (heap s, mb))\<rparr>)"

definition on_mailbox :: "string \<Rightarrow> (mailbox \<Rightarrow> mailbox) \<Rightarrow> mail_system \<Rightarrow> mail_system" where
  "on_mailbox a f s =
     (case dget (mailboxes s) a of None \<Rightarrow> s | Some mb \<Rightarrow> s\<lparr>mailboxes := dset a (f mb) (mailboxes s)\<rparr>)"


section \<open>What a delivery does\<close>

lemma length_mutate [simp]: "length (mutate r f h) = length h"
  by (simp add: mutate_def)

lemma nth_mutate: "r < length h \<Longrightarrow> mutate r f h ! q = (if q = r then f (h ! r) else h ! q)"
  by (simp add: mutate_def)

text \<open>The fields of an email that never change.\<close>

lemma mark_delivered_keeps [simp]: "email_id (mark_delivered e) = email_id e" "to (mark_delivered e) = to e"
  "created_at_tick (mark_delivered e) = created_at_tick e" "deliver_at_tick (mark_delivered e) = deliver_at_tick e"
  "status (mark_delivered e) = DELIVERED" "mark_delivered (mark_delivered e) = mark_delivered e"
  by (simp_all add: mark_delivered_def)

lemma mark_email_read_keeps [simp]: "email_id (mark_email_read e) = email_id e" "to (mark_email_read e) = to e"
  "created_at_tick (mark_email_read e) = created_at_tick e" "deliver_at_tick (mark_email_read e) = deliver_at_tick e"
  "status (mark_email_read e) = READ"
  by (simp_all add: mark_email_read_def)

lemma correct_tick_keeps [simp]: "email_id (correct_tick e) = email_id e" "to (correct_tick e) = to e"
  "created_at_tick (correct_tick e) = created_at_tick e" "status (correct_tick e) = status e"
  "created_at_tick e < deliver_at_tick (correct_tick e)"
  by (simp_all add: correct_tick_def)

text \<open>An email filed in the inboxes of those recipients that have one.\<close>

definition filed :: "heap \<Rightarrow> nat list \<Rightarrow> string \<Rightarrow> mailbox \<Rightarrow> mailbox" where
  "filed h rs a mb = mb\<lparr>inbox_map := fold (\<lambda>r. dset (email_id (h ! r)) r) (filter (\<lambda>r. a \<in> set (to (h ! r))) rs) (inbox_map mb)\<rparr>"

definition reaches :: "(string, mailbox) dict \<Rightarrow> email \<Rightarrow> bool" where
  "reaches mbs e \<longleftrightarrow> (\<exists>a \<in> set (to e). dget mbs a \<noteq> None)"

lemma route_effect:
  assumes "r < length h"
  shows "route as r (h, mbs) = (h', mbs') \<Longrightarrow>
    h' = (if \<exists>a \<in> set as. dget mbs a \<noteq> None then mutate r mark_delivered h else h)
  \<and> dget mbs' b = map_option (\<lambda>mb. if b \<in> set as then mb\<lparr>inbox_map := dset (email_id (h ! r)) r (inbox_map mb)\<rparr> else mb) (dget mbs b)"
  using assms
proof (induction as arbitrary: h mbs)
  case Nil
  then show ?case by (simp add: option.map_ident)
next
  case (Cons a as)
  show ?case
  proof (cases "dget mbs a")
    case None
    then show ?thesis using Cons(1) [of h mbs] Cons(2,3) by (cases "b = a") simp_all
  next
    case (Some mb)
    let ?h = "mutate r mark_delivered h" and ?m = "mb\<lparr>inbox_map := dset (email_id (h ! r)) r (inbox_map mb)\<rparr>"
    have rt: "route as r (?h, dset a ?m mbs) = (h', mbs')" using Cons(2) Some by (simp add: receive_def)
    have "mutate r mark_delivered ?h = ?h" using Cons(3) by (simp add: mutate_def)
    moreover have "email_id (?h ! r) = email_id (h ! r)" using Cons(3) by (simp add: nth_mutate)
    ultimately show ?thesis
      using Cons(1) [OF rt] Cons(3) Some by (cases "b = a"; cases "b \<in> set as") (simp_all add: option.map_ident)
  qed
qed


lemma filed_Nil: "map_option (filed h [] a) x = x"
  by (cases x) (simp_all add: filed_def)

lemma filed_Cons: "filed h (r # rs) a mb
    = filed h rs a (if a \<in> set (to (h ! r)) then mb\<lparr>inbox_map := dset (email_id (h ! r)) r (inbox_map mb)\<rparr> else mb)"
  by (simp add: filed_def)

lemma filed_cong:
  assumes "\<And>r. r \<in> set rs \<Longrightarrow> h ! r = g ! r"
  shows "filed h rs a mb = filed g rs a mb"
proof -
  have "filter (\<lambda>r. a \<in> set (to (h ! r))) rs = filter (\<lambda>r. a \<in> set (to (g ! r))) rs"
    using assms by (auto intro: filter_cong)
  moreover have "fold (\<lambda>r. dset (email_id (h ! r)) r) ps m = fold (\<lambda>r. dset (email_id (g ! r)) r) ps m"
    if "set ps \<subseteq> set rs" for ps m
    using that assms by (intro fold_cong) auto
  ultimately show ?thesis by (simp add: filed_def)
qed

lemma reaches_cong: "(\<And>a. dget m a = None \<longleftrightarrow> dget n a = None) \<Longrightarrow> reaches m e \<longleftrightarrow> reaches n e"
  by (simp add: reaches_def)

definition due :: "int \<Rightarrow> email \<Rightarrow> bool" where
  "due tick e \<longleftrightarrow> max (deliver_at_tick e) (created_at_tick e + 1) \<le> tick"

lemma due_correct: "deliver_at_tick (correct_tick e) \<le> tick \<longleftrightarrow> due tick e"
  by (auto simp: due_def correct_tick_def)

definition after_delivery :: "int \<Rightarrow> (string, mailbox) dict \<Rightarrow> email \<Rightarrow> email" where
  "after_delivery tick mbs e = (if due tick e \<and> reaches mbs e then mark_delivered (correct_tick e) else correct_tick e)"

lemma deliver_loop_effect:
  "deliver_loop tick rs (h, mbs) = (ds, ks, h', mbs') \<Longrightarrow> distinct rs \<Longrightarrow> set rs \<subseteq> {..<length h} \<Longrightarrow>
    ds = filter (\<lambda>r. due tick (h ! r)) rs \<and> ks = filter (\<lambda>r. \<not> due tick (h ! r)) rs \<and> length h' = length h
  \<and> (\<forall>q. h' ! q = (if q \<in> set rs then after_delivery tick mbs (h ! q) else h ! q))
  \<and> (\<forall>a. dget mbs' a = map_option (filed h ds a) (dget mbs a))"
proof (induction tick rs "(h, mbs)" arbitrary: h mbs ds ks h' mbs' rule: deliver_loop.induct)
  case (1 tick h mbs)
  then show ?case by (auto simp: filed_Nil)
next
  case (2 tick r rs h mbs)
  let ?h = "mutate r correct_tick h"
  have r: "r < length h" "r < length ?h" "r \<notin> set rs" "distinct rs" "set rs \<subseteq> {..<length h}" using 2(4,5) by auto
  have at: "?h ! q = (if q = r then correct_tick (h ! r) else h ! q)" for q using r(1) by (simp add: nth_mutate)
  show ?case
  proof (cases "due tick (h ! r)")
    case True
    then have d: "deliver_at_tick (?h ! r) \<le> tick" by (simp add: at due_correct)
    obtain h1 m1 where rt: "route (to (?h ! r)) r (?h, mbs) = (h1, m1)" by fastforce
    obtain ds1 where lp: "deliver_loop tick rs (h1, m1) = (ds1, ks, h', mbs')" and ds: "ds = r # ds1"
      using 2(3) d rt by (auto simp: Let_def split: prod.splits)
    have h1: "h1 = (if reaches mbs (h ! r) then mutate r mark_delivered ?h else ?h)"
      using conjunct1 [OF route_effect [OF r(2) rt]] by (simp add: at reaches_def)
    have m1: "dget m1 a = map_option (\<lambda>mb. if a \<in> set (to (h ! r)) then mb\<lparr>inbox_map := dset (email_id (h ! r)) r (inbox_map mb)\<rparr> else mb) (dget mbs a)" for a
      using conjunct2 [OF route_effect [OF r(2) rt], of a] at [of r] by (simp add: if_distrib cong: if_cong)
    have same: "h1 ! q = h ! q" if "q \<noteq> r" for q using that r(2) by (simp add: h1 nth_mutate at)
    have here: "h1 ! r = after_delivery tick mbs (h ! r)" using r(2) True by (simp add: h1 nth_mutate at after_delivery_def)
    have re: "after_delivery tick m1 e = after_delivery tick mbs e" for e
      unfolding after_delivery_def by (subst reaches_cong [of m1 mbs]) (simp_all add: m1)
    have l: "length h1 = length h" by (simp add: h1)
    have ih: "ds1 = filter (\<lambda>r. due tick (h1 ! r)) rs \<and> ks = filter (\<lambda>r. \<not> due tick (h1 ! r)) rs \<and> length h' = length h1
      \<and> (\<forall>q. h' ! q = (if q \<in> set rs then after_delivery tick m1 (h1 ! q) else h1 ! q))
      \<and> (\<forall>a. dget mbs' a = map_option (filed h1 ds1 a) (dget m1 a))"
      using 2(1) [OF refl d] rt lp r l by simp
    have "h1 ! q = h ! q" if "q \<in> set rs" for q using that r(3) same by metis
    then have f: "filter (\<lambda>r. due tick (h1 ! r)) rs = filter (\<lambda>r. due tick (h ! r)) rs"
      "filter (\<lambda>r. \<not> due tick (h1 ! r)) rs = filter (\<lambda>r. \<not> due tick (h ! r)) rs"
      by (auto intro!: filter_cong)
    have "filed h1 ds1 a mb = filed h ds1 a mb" for a mb
      using ih r(3) by (intro filed_cong same) auto
    then have "dget mbs' a = map_option (filed h ds a) (dget mbs a)" for a
      using ih by (cases "dget mbs a") (simp_all add: m1 ds filed_Cons)
    then have "\<forall>a. dget mbs' a = map_option (filed h ds a) (dget mbs a)" by blast
    moreover have "h' ! q = (if q \<in> set (r # rs) then after_delivery tick mbs (h ! q) else h ! q)" for q
      using ih r(3) here same [of q] re by (cases "q = r") simp_all
    ultimately show ?thesis using ih True ds f l by simp
  next
    case False
    then have d: "\<not> deliver_at_tick (?h ! r) \<le> tick" by (simp add: at due_correct)
    obtain ks1 where lp: "deliver_loop tick rs (?h, mbs) = (ds, ks1, h', mbs')" and ks: "ks = r # ks1"
      using 2(3) d by (auto simp: Let_def split: prod.splits)
    have ih: "ds = filter (\<lambda>r. due tick (?h ! r)) rs \<and> ks1 = filter (\<lambda>r. \<not> due tick (?h ! r)) rs \<and> length h' = length ?h
      \<and> (\<forall>q. h' ! q = (if q \<in> set rs then after_delivery tick mbs (?h ! q) else ?h ! q))
      \<and> (\<forall>a. dget mbs' a = map_option (filed ?h ds a) (dget mbs a))"
      using 2(2) [OF refl d] lp r by simp
    have f: "filter (\<lambda>r. due tick (?h ! r)) rs = filter (\<lambda>r. due tick (h ! r)) rs"
      "filter (\<lambda>r. \<not> due tick (?h ! r)) rs = filter (\<lambda>r. \<not> due tick (h ! r)) rs"
      using r(3) by (auto intro!: filter_cong simp: at)
    have "filed ?h ds a mb = filed h ds a mb" for a mb
      using ih r(3) by (intro filed_cong) (auto simp: at)
    then have "dget mbs' a = map_option (filed h ds a) (dget mbs a)" for a
      using ih by (cases "dget mbs a") simp_all
    then have "\<forall>a. dget mbs' a = map_option (filed h ds a) (dget mbs a)" by blast
    moreover have "h' ! q = (if q \<in> set (r # rs) then after_delivery tick mbs (h ! q) else h ! q)" for q
      using ih r(3) False at [of q] by (cases "q = r") (simp_all add: after_delivery_def)
    ultimately show ?thesis using ih False ks f by simp
  qed
qed


section \<open>Every email is delivered once\<close>

text \<open>
  The system together with the log of its deliveries, a pair of the tick and the email each.  Steps are the
  operations of the system and those of the mailboxes in it.
\<close>

inductive mail_step :: "mail_system \<times> (int \<times> nat) list \<Rightarrow> mail_system \<times> (int \<times> nat) list \<Rightarrow> bool" where
  Register: "mail_step (s, l) (register_agent a s, l)"
| Create: "create_email x s = (r, s') \<Longrightarrow> mail_step (s, l) (s', l)"
| Deliver: "deliver tick s = (ds, s') \<Longrightarrow> mail_step (s, l) (s', l @ map (Pair tick) ds)"
| Read: "mail_step (s, l) (agent_reads a i s, l)"
| ReadAll: "mail_step (s, l) (agent_reads_all a s, l)"
| Remove: "mail_step (s, l) (on_mailbox a (\<lambda>mb. snd (remove_from_inbox i mb)) s, l)"
| ClearOutbox: "mail_step (s, l) (on_mailbox a (\<lambda>mb. snd (clear_outbox mb)) s, l)"

interpretation mails: trans_sys "\<lambda>m. m = (new_mail_system, [])" mail_step .

definition inbox_ok :: "heap \<Rightarrow> nat set \<Rightarrow> string \<Rightarrow> mailbox \<Rightarrow> bool" where
  "inbox_ok h del a mb \<longleftrightarrow> (\<forall>i r. (i, r) \<in> set (inbox_map mb) \<longrightarrow>
     i = email_id (h ! r) \<and> r \<in> del \<and> a \<in> set (to (h ! r)) \<and> status (h ! r) \<noteq> QUEUED)"

definition mail_ok :: "mail_system \<times> (int \<times> nat) list \<Rightarrow> bool" where
  "mail_ok = (\<lambda>(s, l).
     mset (map snd l @ pending s) = mset [0..<length (heap s)]
   \<and> all_emails s = map (\<lambda>r. (mail_name (r + 1), r)) [0..<length (heap s)]
   \<and> (\<forall>r < length (heap s). email_id (heap s ! r) = mail_name (r + 1))
   \<and> (\<forall>(t, r) \<in> set l. due t (heap s ! r))
   \<and> (\<forall>r \<in> set (pending s). status (heap s ! r) = QUEUED)
   \<and> (\<forall>a mb. dget (mailboxes s) a = Some mb \<longrightarrow> inbox_ok (heap s) (snd ` set l) a mb))"

lemma mail_okD:
  assumes "mail_ok (s, l)"
  shows ok_once: "mset (map snd l @ pending s) = mset [0..<length (heap s)]"
    and ok_all: "all_emails s = map (\<lambda>r. (mail_name (r + 1), r)) [0..<length (heap s)]"
    and ok_id: "r < length (heap s) \<Longrightarrow> email_id (heap s ! r) = mail_name (r + 1)"
    and ok_due: "(t, r) \<in> set l \<Longrightarrow> due t (heap s ! r)"
    and ok_queued: "r \<in> set (pending s) \<Longrightarrow> status (heap s ! r) = QUEUED"
    and ok_inbox: "dget (mailboxes s) a = Some mb \<Longrightarrow> inbox_ok (heap s) (snd ` set l) a mb"
  using assms unfolding mail_ok_def by auto

lemma ok_refs:
  assumes "mail_ok (s, l)"
  shows "distinct (map snd l @ pending s)" and "snd ` set l \<union> set (pending s) = {..<length (heap s)}"
proof -
  show "distinct (map snd l @ pending s)" using ok_once [OF assms] distinct_upt mset_eq_imp_distinct_iff by blast
  have "set (map snd l @ pending s) = set [0..<length (heap s)]" using ok_once [OF assms] by (rule mset_eq_setD)
  then show "snd ` set l \<union> set (pending s) = {..<length (heap s)}" by auto
qed

text \<open>Operations that change at most the status of emails that are no longer queued.\<close>

definition calm :: "heap \<Rightarrow> heap \<Rightarrow> bool" where
  "calm h g \<longleftrightarrow> length g = length h \<and> (\<forall>r < length h.
     email_id (g ! r) = email_id (h ! r) \<and> to (g ! r) = to (h ! r) \<and> created_at_tick (g ! r) = created_at_tick (h ! r)
   \<and> deliver_at_tick (g ! r) = deliver_at_tick (h ! r) \<and> (status (g ! r) = QUEUED \<longleftrightarrow> status (h ! r) = QUEUED))"

lemma calm_refl [simp]: "calm h h"
  by (simp add: calm_def)

lemma calm_trans: "calm h g \<Longrightarrow> calm g k \<Longrightarrow> calm h k"
  by (simp add: calm_def)

lemma calm_read: "r < length h \<Longrightarrow> status (h ! r) \<noteq> QUEUED \<Longrightarrow> calm h (mutate r mark_email_read h)"
  by (simp add: calm_def nth_mutate)

lemma calm_read_loop: "set rs \<subseteq> {..<length h} \<Longrightarrow> calm h (snd (read_loop rs n h))"
proof (induction rs n h rule: read_loop.induct)
  case (2 r rs n h)
  show ?case
  proof (cases "status (h ! r) = DELIVERED")
    case True
    have "calm h (mutate r mark_email_read h)" using 2(3) True by (intro calm_read) simp_all
    moreover have "calm (mutate r mark_email_read h) (snd (read_loop rs (n + 1) (mutate r mark_email_read h)))"
      using 2(1) [OF True] 2(3) by simp
    ultimately show ?thesis using True by (auto intro: calm_trans)
  qed (use 2 in simp)
qed simp

lemma mail_ok_calm:
  assumes ok: "mail_ok (s, l)" and c: "calm (heap s) h"
  shows "mail_ok (s\<lparr>heap := h\<rparr>, l)"
proof -
  have same: "email_id (h ! r) = email_id (heap s ! r)" "to (h ! r) = to (heap s ! r)" "due t (h ! r) \<longleftrightarrow> due t (heap s ! r)"
      "status (h ! r) = QUEUED \<longleftrightarrow> status (heap s ! r) = QUEUED" if "r < length (heap s)" for r t
    using c that by (simp_all add: calm_def due_def)
  have "length h = length (heap s)" using c by (simp add: calm_def)
  moreover have "inbox_ok h (snd ` set l) a mb" if "dget (mailboxes s) a = Some mb" for a mb
    unfolding inbox_ok_def
  proof (intro allI impI)
    fix i r assume i: "(i, r) \<in> set (inbox_map mb)"
    have r: "i = email_id (heap s ! r)" "r \<in> snd ` set l" "a \<in> set (to (heap s ! r))" "status (heap s ! r) \<noteq> QUEUED"
      using ok_inbox [OF ok that] i unfolding inbox_ok_def by simp_all
    then have "r < length (heap s)" using ok_refs(2) [OF ok] by blast
    then show "i = email_id (h ! r) \<and> r \<in> snd ` set l \<and> a \<in> set (to (h ! r)) \<and> status (h ! r) \<noteq> QUEUED"
      using r same by simp
  qed
  moreover have "due t (h ! r)" if "(t, r) \<in> set l" for t r
  proof -
    have "r < length (heap s)" using that ok_refs(2) [OF ok] by force
    then show ?thesis using ok_due [OF ok that] same(3) by simp
  qed
  moreover have "status (h ! r) = QUEUED" if "r \<in> set (pending s)" for r
    using ok_queued [OF ok that] same(4) that ok_refs(2) [OF ok] by blast
  ultimately show ?thesis
    using ok_once [OF ok] ok_all [OF ok] ok_id [OF ok] same(1) unfolding mail_ok_def by auto
qed

lemma mail_ok_mailbox:
  assumes "mail_ok (s, l)" and "inbox_ok (heap s) (snd ` set l) a mb"
  shows "mail_ok (s\<lparr>mailboxes := dset a mb (mailboxes s)\<rparr>, l)"
  using assms unfolding mail_ok_def by auto

lemma inbox_refs: "mail_ok (s, l) \<Longrightarrow> dget (mailboxes s) a = Some mb \<Longrightarrow> (i, r) \<in> set (inbox_map mb)
    \<Longrightarrow> r < length (heap s) \<and> status (heap s ! r) \<noteq> QUEUED"
proof -
  assume ok: "mail_ok (s, l)" and a: "dget (mailboxes s) a = Some mb" and i: "(i, r) \<in> set (inbox_map mb)"
  have "r \<in> snd ` set l" "status (heap s ! r) \<noteq> QUEUED" using ok_inbox [OF ok a] i unfolding inbox_ok_def by simp_all
  then show ?thesis using ok_refs(2) [OF ok] by blast
qed


lemma mail_name_inject [simp]: "mail_name m = mail_name n \<longleftrightarrow> m = n"
  by (simp add: mail_name_def)

text \<open>Creating an email: its name is new and it waits at the end of the queue.\<close>

lemma create_effect:
  assumes "create_email x s = (r, s')"
  shows "r = length (heap s)" and "heap s' = heap s @ [make_email x (length (all_emails s))]"
    and "pending s' = pending s @ [r]" and "all_emails s' = dset (mail_name (length (all_emails s) + 1)) r (all_emails s)"
    and "map_option inbox_map (dget (mailboxes s') a) = map_option inbox_map (dget (mailboxes s) a)"
proof -
  have "(make_email x n)\<lparr>status := QUEUED\<rparr> = make_email x n" "email_id (make_email x n) = mail_name (n + 1)" for n
    by (simp_all add: make_email_def)
  then show "r = length (heap s)" "heap s' = heap s @ [make_email x (length (all_emails s))]" "pending s' = pending s @ [r]"
      "all_emails s' = dset (mail_name (length (all_emails s) + 1)) r (all_emails s)"
      "map_option inbox_map (dget (mailboxes s') a) = map_option inbox_map (dget (mailboxes s) a)"
    using assms
    by (auto simp: create_email_def Let_def send_def queue_email_def mutate_def split: option.splits)
qed

lemma mail_ok_create:
  assumes ok: "mail_ok (s, l)" and c: "create_email x s = (r, s')"
  shows "mail_ok (s', l)"
proof -
  let ?n = "length (heap s)"
  note eff = create_effect [OF c]
  have n: "length (all_emails s) = ?n" using ok_all [OF ok] by simp
  then have h: "heap s' = heap s @ [make_email x ?n]" using eff(2) by simp
  have old: "heap s' ! q = heap s ! q" if "q < ?n" for q using that by (simp add: h nth_append)
  have new: "email_id (heap s' ! ?n) = mail_name (?n + 1)" "status (heap s' ! ?n) = QUEUED" by (simp_all add: h make_email_def)
  have refs: "snd ` set l \<union> set (pending s) = {..<?n}" by (rule ok_refs(2) [OF ok])
  have "all_emails s' = map (\<lambda>r. (mail_name (r + 1), r)) [0..<length (heap s')]"
  proof -
    have "mail_name (?n + 1) \<notin> fst ` set (all_emails s)" by (auto simp: ok_all [OF ok])
    then show ?thesis using eff(1,4) dset_fresh [of "mail_name (?n + 1)" "all_emails s" ?n] ok_all [OF ok] by (simp add: n h)
  qed
  moreover have "inbox_ok (heap s') (snd ` set l) a mb" if a: "dget (mailboxes s') a = Some mb" for a mb
  proof -
    obtain mb0 where m: "dget (mailboxes s) a = Some mb0" "inbox_map mb0 = inbox_map mb" using eff(5) [of a] a by (cases "dget (mailboxes s) a") simp_all
    show ?thesis using ok_inbox [OF ok m(1)] m(2) old refs unfolding inbox_ok_def by (metis UnI1 lessThan_iff)
  qed
  moreover have "mset (map snd l @ pending s') = mset [0..<length (heap s')]"
    using ok_once [OF ok] by (simp add: eff(1,3) h)
  moreover have "due t (heap s' ! q)" if "(t, q) \<in> set l" for t q
    using ok_due [OF ok that] old [of q] refs that by force
  moreover have "status (heap s' ! q) = QUEUED" if "q \<in> set (pending s')" for q
  proof (cases "q = ?n")
    case False
    then have q: "q \<in> set (pending s)" using that eff(1,3) by simp
    then have "q < ?n" using refs by blast
    then show ?thesis using ok_queued [OF ok q] old by simp
  qed (simp add: new(2))
  moreover have "email_id (heap s' ! q) = mail_name (q + 1)" if "q < length (heap s')" for q
    using that ok_id [OF ok, of q] old [of q] new(1) by (cases "q = ?n") (auto simp: h)
  ultimately show ?thesis unfolding mail_ok_def by blast
qed

text \<open>Delivering: what is due leaves the queue for the inboxes, the rest stays.\<close>

lemma deliver_effect:
  assumes ok: "mail_ok (s, l)" and d: "deliver tick s = (ds, s')"
  shows "ds = filter (\<lambda>r. due tick (heap s ! r)) (pending s)"
    and "pending s' = filter (\<lambda>r. \<not> due tick (heap s ! r)) (pending s)"
    and "length (heap s') = length (heap s)"
    and "heap s' ! q = (if q \<in> set (pending s) then after_delivery tick (mailboxes s) (heap s ! q) else heap s ! q)"
    and "dget (mailboxes s') a = map_option (filed (heap s) ds a) (dget (mailboxes s) a)"
    and "all_emails s' = all_emails s"
proof -
  obtain ks h mbs where lp: "deliver_loop tick (pending s) (heap s, mailboxes s) = (ds, ks, h, mbs)"
    and s': "s' = s\<lparr>heap := h, mailboxes := mbs, pending := ks\<rparr>"
    using d by (auto simp: deliver_def split: prod.splits)
  have "distinct (pending s)" "set (pending s) \<subseteq> {..<length (heap s)}" using ok_refs [OF ok] by auto
  note deliver_loop_effect [OF lp this]
  then show "ds = filter (\<lambda>r. due tick (heap s ! r)) (pending s)"
      "pending s' = filter (\<lambda>r. \<not> due tick (heap s ! r)) (pending s)" "length (heap s') = length (heap s)"
      "heap s' ! q = (if q \<in> set (pending s) then after_delivery tick (mailboxes s) (heap s ! q) else heap s ! q)"
      "dget (mailboxes s') a = map_option (filed (heap s) ds a) (dget (mailboxes s) a)" "all_emails s' = all_emails s"
    by (simp_all add: s')
qed

text \<open>What filing leaves in an inbox.\<close>

lemma filed_from:
  "(i, r) \<in> set (fold (\<lambda>r. dset (email_id (h ! r)) r) rs m) \<Longrightarrow> r \<in> set rs \<and> i = email_id (h ! r) \<or> (i, r) \<in> set m"
proof (induction rs arbitrary: m)
  case (Cons q rs)
  then have "r \<in> set rs \<and> i = email_id (h ! r) \<or> (i, r) \<in> set (dset (email_id (h ! q)) q m)" by simp
  then show ?case using dset_elem [of "(i, r)" "email_id (h ! q)" q m] by auto
qed simp

lemma filed_other:
  "i \<notin> (\<lambda>r. email_id (h ! r)) ` set rs \<Longrightarrow> dget (fold (\<lambda>r. dset (email_id (h ! r)) r) rs m) i = dget m i"
  by (induction rs arbitrary: m) simp_all

lemma filed_here:
  assumes "r \<in> set rs" and "\<And>q. q \<in> set rs \<Longrightarrow> email_id (h ! q) = email_id (h ! r) \<Longrightarrow> q = r"
  shows "dget (fold (\<lambda>r. dset (email_id (h ! r)) r) rs m) (email_id (h ! r)) = Some r"
  using assms
proof (induction rs arbitrary: m)
  case (Cons q rs)
  show ?case
  proof (cases "r \<in> set rs")
    case True
    then show ?thesis using Cons(1) [OF True] Cons(3) by simp
  next
    case False
    have "email_id (h ! r) \<noteq> email_id (h ! p)" if "p \<in> set rs" for p using Cons(3) [of p] that False by force
    then have "email_id (h ! r) \<notin> (\<lambda>r. email_id (h ! r)) ` set rs" by blast
    moreover have "q = r" using Cons(2) False by simp
    ultimately show ?thesis using filed_other [of "email_id (h ! r)" h rs] by simp
  qed
qed simp


lemma after_delivery_keeps [simp]: "email_id (after_delivery tick m e) = email_id e" "to (after_delivery tick m e) = to e"
  "created_at_tick (after_delivery tick m e) = created_at_tick e"
  by (simp_all add: after_delivery_def)

lemma due_after [simp]: "due t (after_delivery tick m e) \<longleftrightarrow> due t e"
  by (auto simp: due_def after_delivery_def correct_tick_def mark_delivered_def)

lemma ok_ids_unique: "mail_ok (s, l) \<Longrightarrow> r < length (heap s) \<Longrightarrow> q < length (heap s)
    \<Longrightarrow> email_id (heap s ! r) = email_id (heap s ! q) \<Longrightarrow> r = q"
  by (simp add: ok_id)

lemma mail_ok_deliver:
  assumes ok: "mail_ok (s, l)" and d: "deliver tick s = (ds, s')"
  shows "mail_ok (s', l @ map (Pair tick) ds)"
proof -
  note eff = deliver_effect [OF ok d]
  have refs: "snd ` set l \<union> set (pending s) = {..<length (heap s)}" "distinct (map snd l @ pending s)" by (rule ok_refs [OF ok])+
  have same: "email_id (heap s' ! q) = email_id (heap s ! q)" "to (heap s' ! q) = to (heap s ! q)"
    "due t (heap s' ! q) \<longleftrightarrow> due t (heap s ! q)" for q t by (simp_all add: eff(4))
  have old: "heap s' ! q = heap s ! q" if "q \<in> snd ` set l" for q using that refs(2) by (auto simp: eff(4))
  have "mset (filter (\<lambda>r. due tick (heap s ! r)) (pending s)) + mset (filter (\<lambda>r. \<not> due tick (heap s ! r)) (pending s))
      = mset (pending s)" by (simp add: multiset_partition [symmetric])
  then have "mset (map snd (l @ map (Pair tick) ds) @ pending s') = mset [0..<length (heap s')]"
    using ok_once [OF ok] eff(1-3) by (simp add: comp_def ac_simps)
  moreover have "due t (heap s' ! r)" if "(t, r) \<in> set (l @ map (Pair tick) ds)" for t r
    using that ok_due [OF ok] by (auto simp: same eff(1))
  moreover have "status (heap s' ! r) = QUEUED" if "r \<in> set (pending s')" for r
    using that ok_queued [OF ok, of r] by (simp add: eff(2,4) after_delivery_def)
  moreover have "inbox_ok (heap s') (snd ` set (l @ map (Pair tick) ds)) a mb" if a: "dget (mailboxes s') a = Some mb" for a mb
    unfolding inbox_ok_def
  proof (intro allI impI)
    fix i r assume i: "(i, r) \<in> set (inbox_map mb)"
    obtain mb0 where m: "dget (mailboxes s) a = Some mb0" "mb = filed (heap s) ds a mb0"
      using a eff(5) [of a] by (cases "dget (mailboxes s) a") auto
    from i consider "r \<in> set ds" "a \<in> set (to (heap s ! r))" "i = email_id (heap s ! r)" | "(i, r) \<in> set (inbox_map mb0)"
      unfolding m(2) filed_def using filed_from by fastforce
    then show "i = email_id (heap s' ! r) \<and> r \<in> snd ` set (l @ map (Pair tick) ds) \<and> a \<in> set (to (heap s' ! r)) \<and> status (heap s' ! r) \<noteq> QUEUED"
    proof cases
      case 1
      then have "reaches (mailboxes s) (heap s ! r)" using m(1) by (auto simp: reaches_def)
      then have "status (heap s' ! r) = DELIVERED" using 1(1) by (simp add: eff(1,4) after_delivery_def)
      then show ?thesis using 1 by (force simp: same)
    next
      case 2
      then have "i = email_id (heap s ! r)" "r \<in> snd ` set l" "a \<in> set (to (heap s ! r))" "status (heap s ! r) \<noteq> QUEUED"
        using ok_inbox [OF ok m(1)] unfolding inbox_ok_def by simp_all
      then show ?thesis using old by (simp add: image_Un)
    qed
  qed
  moreover have "all_emails s' = map (\<lambda>r. (mail_name (r + 1), r)) [0..<length (heap s')]"
    using ok_all [OF ok] eff(3,6) by simp
  moreover have "\<forall>r < length (heap s'). email_id (heap s' ! r) = mail_name (r + 1)"
    using ok_id [OF ok] eff(3) same(1) by simp
  ultimately show ?thesis unfolding mail_ok_def by blast
qed

lemma mail_ok_step: "mail_step m m' \<Longrightarrow> mail_ok m \<Longrightarrow> mail_ok m'"
proof (induction rule: mail_step.induct)
  case (Register s l a)
  then show ?case unfolding register_agent_def by (intro mail_ok_mailbox) (simp_all add: inbox_ok_def new_mailbox_def)
next
  case (Create x s r s' l)
  then show ?case by (rule_tac mail_ok_create)
next
  case (Deliver tick s ds s' l)
  then show ?case by (rule_tac mail_ok_deliver)
next
  case (Read s l a i)
  show ?case
  proof (cases "dget (mailboxes s) a")
    case (Some mb)
    show ?thesis
    proof (cases "dget (inbox_map mb) i")
      case r: (Some r)
      have "calm (heap s) (mutate r mark_email_read (heap s))"
        using inbox_refs [OF Read Some map_of_SomeD [OF r]] by (intro calm_read) simp_all
      then show ?thesis using mail_ok_calm [OF Read] by (simp add: agent_reads_def mark_read_def Some r)
    qed (use Read Some in \<open>simp add: agent_reads_def mark_read_def\<close>)
  qed (use Read in \<open>simp add: agent_reads_def\<close>)
next
  case (ReadAll s l a)
  show ?case
  proof (cases "dget (mailboxes s) a")
    case (Some mb)
    have "set (dvals (inbox_map mb)) \<subseteq> {..<length (heap s)}" using inbox_refs [OF ReadAll Some] by (auto simp: dvals_def)
    then have "calm (heap s) (snd (mark_all_read (heap s, mb)))" by (simp add: mark_all_read_def calm_read_loop)
    then show ?thesis using mail_ok_calm [OF ReadAll] by (simp add: agent_reads_all_def Some)
  qed (use ReadAll in \<open>simp add: agent_reads_all_def\<close>)
next
  case (Remove s l a i)
  show ?case
  proof (cases "dget (mailboxes s) a")
    case (Some mb)
    have "inbox_ok (heap s) (snd ` set l) a (snd (remove_from_inbox i mb))"
      using ok_inbox [OF Remove Some] unfolding inbox_ok_def remove_from_inbox_def dpop_def by simp blast
    then show ?thesis using mail_ok_mailbox [OF Remove] by (simp add: on_mailbox_def Some)
  qed (use Remove in \<open>simp add: on_mailbox_def\<close>)
next
  case (ClearOutbox s l a)
  show ?case
  proof (cases "dget (mailboxes s) a")
    case (Some mb)
    have "inbox_ok (heap s) (snd ` set l) a (snd (clear_outbox mb))"
      using ok_inbox [OF ClearOutbox Some] by (simp add: inbox_ok_def clear_outbox_def)
    then show ?thesis using mail_ok_mailbox [OF ClearOutbox] by (simp add: on_mailbox_def Some)
  qed (use ClearOutbox in \<open>simp add: on_mailbox_def\<close>)
qed


lemma reach_mail_ok: "mails.reach m \<Longrightarrow> mail_ok m"
proof (erule mails.reach_invariant)
  show "m = (new_mail_system, []) \<Longrightarrow> mail_ok m" for m by (simp add: mail_ok_def new_mail_system_def)
qed (rule mail_ok_step)

lemma delivered_filed:
  assumes ok: "mail_ok (s, l)" and d: "deliver tick s = (ds, s')" and r: "r \<in> set ds" and a: "a \<in> set (to (heap s' ! r))"
    and m: "dget (mailboxes s') a = Some mb"
  shows "dget (inbox_map mb) (email_id (heap s' ! r)) = Some r \<and> status (heap s' ! r) = DELIVERED"
proof -
  note eff = deliver_effect [OF ok d]
  have refs: "set (pending s) \<subseteq> {..<length (heap s)}" using ok_refs(2) [OF ok] by blast
  have p: "r \<in> set (pending s)" "due tick (heap s ! r)" using r eff(1) by simp_all
  have to: "a \<in> set (to (heap s ! r))" using a p by (simp add: eff(4))
  obtain mb0 where m0: "dget (mailboxes s) a = Some mb0" "mb = filed (heap s) ds a mb0"
    using m eff(5) [of a] by (cases "dget (mailboxes s) a") auto
  have "dget (inbox_map mb) (email_id (heap s ! r)) = Some r"
    unfolding m0(2) filed_def mailbox.select_convs mailbox.update_convs
  proof (simp, rule filed_here)
    show "r \<in> set (filter (\<lambda>r. a \<in> set (to (heap s ! r))) ds)" using r to by simp
    fix q assume "q \<in> set (filter (\<lambda>r. a \<in> set (to (heap s ! r))) ds)" and i: "email_id (heap s ! q) = email_id (heap s ! r)"
    then have "q \<in> set (pending s)" using eff(1) by simp
    then show "q = r" using ok_ids_unique [OF ok _ _ i] p(1) refs by blast
  qed
  moreover have "reaches (mailboxes s) (heap s ! r)" using m0(1) to by (auto simp: reaches_def)
  ultimately show ?thesis using p by (simp add: eff(4) after_delivery_def)
qed

text \<open>
  C29. A delivery, in any system the operations lead to.  It takes from the queue exactly the emails whose
  tick has come, and never in the tick they were created; none of them has been delivered before, and
  every email ever created has been delivered, is delivered now or is still queued.  Each delivered email
  is then unread in the inbox of each of its recipients that has a mailbox, and inboxes hold nothing but
  delivered emails addressed to their owner.
\<close>

theorem mail_delivered_once:
  assumes "mails.reach (s, l)" and "deliver tick s = (ds, s')"
  shows "ds = filter (\<lambda>r. due tick (heap s ! r)) (pending s) \<and> pending s' = filter (\<lambda>r. \<not> due tick (heap s ! r)) (pending s)
    \<and> (\<forall>r \<in> set ds. created_at_tick (heap s' ! r) < tick)
    \<and> distinct ds \<and> set ds \<inter> snd ` set l = {} \<and> snd ` set l \<union> set ds \<union> set (pending s') = {..<length (heap s')}
    \<and> (\<forall>r \<in> set ds. \<forall>a \<in> set (to (heap s' ! r)). \<forall>mb. get_mailbox s' a = Some mb
         \<longrightarrow> get_email (email_id (heap s' ! r)) mb = Some r \<and> status (heap s' ! r) = DELIVERED)
    \<and> (\<forall>a mb i r. get_mailbox s' a = Some mb \<longrightarrow> get_email i mb = Some r
         \<longrightarrow> r \<in> snd ` set l \<union> set ds \<and> a \<in> set (to (heap s' ! r)))"
proof -
  have ok: "mail_ok (s, l)" by (rule reach_mail_ok [OF assms(1)])
  note eff = deliver_effect [OF ok assms(2)]
  have ok': "mail_ok (s', l @ map (Pair tick) ds)" by (rule mail_ok_deliver [OF ok assms(2)])
  have "\<forall>r \<in> set ds. created_at_tick (heap s' ! r) < tick" by (auto simp: eff(1,4) due_def)
  moreover have "distinct ds" "set ds \<inter> snd ` set l = {}" using ok_refs(1) [OF ok'] by (auto simp: comp_def)
  moreover have "snd ` set l \<union> set ds \<union> set (pending s') = {..<length (heap s')}"
    using ok_refs(2) [OF ok'] by (simp add: image_Un image_comp comp_def)
  moreover have "get_email (email_id (heap s' ! r)) mb = Some r \<and> status (heap s' ! r) = DELIVERED"
    if "r \<in> set ds" "a \<in> set (to (heap s' ! r))" "get_mailbox s' a = Some mb" for r a mb
    using delivered_filed [OF ok assms(2) that(1,2)] that(3) by (simp add: get_email_def get_mailbox_def)
  moreover have "r \<in> snd ` set l \<union> set ds \<and> a \<in> set (to (heap s' ! r))"
    if "get_mailbox s' a = Some mb" "get_email i mb = Some r" for a mb i r
  proof -
    have "dget (mailboxes s') a = Some mb" "(i, r) \<in> set (inbox_map mb)"
      using that map_of_SomeD by (simp_all add: get_mailbox_def get_email_def)
    then show ?thesis using ok_inbox [OF ok'] unfolding inbox_ok_def by (simp add: image_Un image_comp comp_def)
  qed
  ultimately show ?thesis using eff(1,2) by blast
qed


section \<open>An exchange of emails\<close>

abbreviation letter :: email_args where
  "letter \<equiv> \<lparr>a_from = ''x'', a_to = [''a'', ''b''], a_subject = ''hello'', a_body = '''', a_type = PROGRESS, a_task = '''', a_tick = 0,
     a_deliver = None, a_priority = NORMAL, a_requires_reply = False, a_reply_to = None, a_thread = ''thread.1'',
     a_attachments = [], a_cc = [''c''], a_deadline = None, a_metadata = []\<rparr>"

definition registered :: mail_system where
  "registered = register_agent ''c'' (register_agent ''b'' (register_agent ''a'' new_mail_system))"

definition posted :: mail_system where
  "posted = snd (create_email letter registered)"

definition arrived :: mail_system where
  "arrived = snd (deliver 1 posted)"

lemma reach_posted: "mails.reach (posted, [])"
proof -
  have "mails.reach (new_mail_system, [])" by (rule mails.reach_start) simp
  then have "mails.reach (registered, [])" unfolding registered_def by (intro mails.reach_step [OF _ Register])
  then show ?thesis unfolding posted_def by (rule mails.reach_step [OF _ Create]) (rule prod.collapse [symmetric])
qed

theorem mail_delivered_once_witness:
  "mails.reach (posted, []) \<and> deliver 1 posted = ([0], arrived)
   \<and> (\<exists>mb. get_mailbox arrived ''b'' = Some mb \<and> get_email ''mail.000001'' mb = Some 0 \<and> status (heap arrived ! 0) = DELIVERED)"
proof -
  have d: "deliver 1 posted = ([0], arrived)" by code_simp
  have "''b'' \<in> set (to (heap arrived ! 0))" "email_id (heap arrived ! 0) = ''mail.000001''" "get_mailbox arrived ''b'' \<noteq> None"
    by code_simp+
  then show ?thesis using reach_posted d mail_delivered_once [OF reach_posted d] by auto
qed

text \<open>One status for all recipients: when one has read an email, it is no longer unread for the other.\<close>

lemma read_by_one_is_read_by_all:
  "map_option (unread_count (heap arrived)) (get_mailbox arrived ''b'') = Some 1"
  "map_option (unread_count (heap (agent_reads ''a'' ''mail.000001'' arrived))) (get_mailbox (agent_reads ''a'' ''mail.000001'' arrived) ''b'') = Some 0"
  by code_simp+

text \<open>Agents in copy do not get the email.\<close>

lemma copies_not_delivered: "map_option inbox_map (get_mailbox arrived ''c'') = Some []"
  by code_simp

text \<open>The thread of an email without a task is dropped, also when the caller names one.\<close>

lemma thread_needs_task: "a_task x = [] \<Longrightarrow> thread_id (make_email x n) = []"
  by (simp add: make_email_def)

end
