(* ===== verification/Delivery.thy ===== *)
theory Delivery
  imports Mail Scheduler
begin

text \<open>
  Mail and scheduler together: the deliver phase of a tick (\<^verbatim>\<open>Simulation._phase_deliver\<close>), which delivers
  what is due and queues a wake event for every recipient.  The identifiers of events come from \<^verbatim>\<open>uuid\<close>;
  they are an argument, by email and position of the recipient.
\<close>

definition email_event :: "string \<Rightarrow> int \<Rightarrow> email \<Rightarrow> string \<Rightarrow> wakeup_event" where
  "email_event name tick e a =
     \<lparr>event_id = name, event_type = NEW_EMAIL, target_agent_id = a, e_tick = tick, visible_at_tick = tick,
      source_agent_id = from_agent e, e_task_id = Mail.task_id e, e_resource = '''', e_thread_id = Mail.thread_id e,
      details = [(''email_id'', PStr (email_id e))]\<rparr>"

definition wake_recipients :: "(nat \<Rightarrow> nat \<Rightarrow> string) \<Rightarrow> int \<Rightarrow> Mail.heap \<Rightarrow> nat \<Rightarrow> scheduler \<Rightarrow> scheduler" where
  "wake_recipients names tick h r sc =
     fold (\<lambda>(i, a). enqueue_event (email_event (names r i) tick (h ! r) a)) (enumerate 0 (Mail.to (h ! r))) sc"

definition phase_deliver :: "(nat \<Rightarrow> nat \<Rightarrow> string) \<Rightarrow> int \<Rightarrow> mail_system \<times> scheduler \<Rightarrow> nat list \<times> mail_system \<times> scheduler" where
  "phase_deliver names tick = (\<lambda>(ms, sc).
     case deliver tick ms of (ds, ms') \<Rightarrow> (ds, ms', fold (wake_recipients names tick (Mail.heap ms')) ds sc))"

section \<open>The events a delivery queues\<close>

lemma enqueue_keeps: "wake_conditions (enqueue_event e sc) = wake_conditions sc" "config (enqueue_event e sc) = config sc"
  "this_tick (enqueue_event e sc) = this_tick sc"
  by (simp_all add: enqueue_event_def Let_def)

lemma enqueue_waiting:
  "waiting_events (enqueue_event e sc)
    = waiting_events sc @ [if visible_at_tick e < 0 then e\<lparr>visible_at_tick := e_tick e + 1\<rparr> else e]"
  by (simp add: enqueue_event_def Let_def waiting_events_def waiting_def)

lemma wake_recipients_effect:
  assumes "0 \<le> tick"
  shows "wake_conditions (wake_recipients names tick h r sc) = wake_conditions sc
    \<and> waiting_events (wake_recipients names tick h r sc)
       = waiting_events sc @ map (\<lambda>(i, a). email_event (names r i) tick (h ! r) a) (enumerate 0 (Mail.to (h ! r)))"
proof -
  have "wake_conditions (fold (\<lambda>(i, a). enqueue_event (email_event (names r i) tick (h ! r) a)) xs sc) = wake_conditions sc
      \<and> waiting_events (fold (\<lambda>(i, a). enqueue_event (email_event (names r i) tick (h ! r) a)) xs sc)
       = waiting_events sc @ map (\<lambda>(i, a). email_event (names r i) tick (h ! r) a) xs" for xs
    using assms by (induction xs arbitrary: sc) (auto simp: enqueue_keeps enqueue_waiting email_event_def)
  then show ?thesis by (simp add: wake_recipients_def)
qed

lemma phase_events:
  assumes "0 \<le> tick"
  shows "wake_conditions (fold (wake_recipients names tick h) ds sc) = wake_conditions sc
    \<and> waiting_events (fold (wake_recipients names tick h) ds sc)
       = waiting_events sc
         @ concat (map (\<lambda>r. map (\<lambda>(i, a). email_event (names r i) tick (h ! r) a) (enumerate 0 (Mail.to (h ! r)))) ds)"
  by (induction ds arbitrary: sc) (simp_all add: wake_recipients_effect [OF assms])

lemma wake_recipients_fields:
  "config (wake_recipients names tick h r sc) = config sc" "this_tick (wake_recipients names tick h r sc) = this_tick sc"
proof -
  have "config (fold (\<lambda>(i, a). enqueue_event (email_event (names r i) tick (h ! r) a)) xs sc) = config sc
      \<and> this_tick (fold (\<lambda>(i, a). enqueue_event (email_event (names r i) tick (h ! r) a)) xs sc) = this_tick sc" for xs
    by (induction xs arbitrary: sc) (auto simp: enqueue_keeps)
  then show "config (wake_recipients names tick h r sc) = config sc" "this_tick (wake_recipients names tick h r sc) = this_tick sc"
    by (simp_all add: wake_recipients_def)
qed

lemma phase_fields:
  "config (fold (wake_recipients names tick h) ds sc) = config sc"
  "this_tick (fold (wake_recipients names tick h) ds sc) = this_tick sc"
  by (induction ds arbitrary: sc) (simp_all add: wake_recipients_fields)

lemma phase_event_of:
  assumes "0 \<le> tick" and "r \<in> set ds" and "a \<in> set (Mail.to (h ! r))"
  shows "\<exists>name. email_event name tick (h ! r) a \<in> set (waiting_events (fold (wake_recipients names tick h) ds sc))"
proof -
  obtain i where "i < length (Mail.to (h ! r))" "Mail.to (h ! r) ! i = a" using assms(3) by (auto simp: in_set_conv_nth)
  then have "(i, a) \<in> set (enumerate 0 (Mail.to (h ! r)))" by (auto simp: in_set_enumerate_eq)
  then show ?thesis using assms(2) phase_events [OF assms(1)] by (intro exI [of _ "names r i"]) force
qed

section \<open>What the schedule of the tick makes of a due event\<close>

lemma promoted_event:
  assumes "e \<in> set (waiting_events s)"
  shows "\<lparr>q_event = e, q_status = ELIGIBLE\<rparr> \<in> set (promote (queue s))"
proof -
  obtain qe where qe: "qe \<in> set (queue s)" "waiting qe" "q_event qe = e" using assms by (auto simp: waiting_events_def)
  have "(if q_status qe = QUEUED then qe\<lparr>q_status := ELIGIBLE\<rparr> else qe) = \<lparr>q_event = e, q_status = ELIGIBLE\<rparr>"
    using qe(2,3) by (cases qe) (auto simp: waiting_def)
  then show ?thesis unfolding promote_def set_map by (rule image_eqI [OF sym]) (rule qe(1))
qed

lemma scheduled_event:
  assumes "e \<in> set (waiting_events s)" and "due tick states (wake_conditions s) e" and "this_tick s = []"
    and "schedule_tick tick states u s = ((res, ready), s1)"
  shows "res = Inr ()
    \<and> (if places_before tick states u s (target_agent_id e) < max_active_agents_per_tick (config s)
       then \<exists>ref < length (store s1). dget (this_tick s1) (target_agent_id e) = Some ref
         \<and> a_agent_id (store s1 ! ref) = target_agent_id e \<and> a_tick (store s1 ! ref) = tick \<and> e \<in> set (wake_events (store s1 ! ref))
       else dget (this_tick s1) (target_agent_id e) = None \<and> \<lparr>q_event = e, q_status = QUEUED\<rparr> \<in> set (queue s1))"
proof -
  let ?a = "target_agent_id e"
  obtain s0 where s0: "compute_ready_set tick states u s = (ready, s0)" and b: "begin_all ready tick s0 = (res, s1)"
    using assms(4) by (auto simp: schedule_tick_def split: prod.splits)
  note split = ready_split [OF s0]
  have woken: "?a \<in> woken_agents tick states s" using assms(1,2) by (auto simp: woken_agents_def)
  have dist: "distinct (map c_agent_id ready)"
    using candidates_distinct [of tick states u s] unfolding split(1) [symmetric] by simp
  have tt: "this_tick s0 = []" using ready_fields(1) [of tick states u s] s0 assms(3) by simp
  let ?n = "length (store s0)"
  have run: "res = Inr ()" "queue s1 = restatus [ELIGIBLE] CLAIMED (ids ready) (queue s0)"
      "store s1 = store s0 @ opened_all (activation_counter s0) tick ready"
      "this_tick s1 = zip (map c_agent_id ready) [?n ..< ?n + length ready]"
    using begin_all_run [OF dist, of s0 tick] tt b by auto
  have ev: "e \<in> set (c_events k)" if "k \<in> set (ready @ last_overflow s0)" "c_agent_id k = ?a" for k
    using candidates_events [of k tick states u s] that assms(1,2) unfolding split(1) by (simp add: wakes_due)
  show ?thesis
  proof (cases "places_before tick states u s ?a < max_active_agents_per_tick (config s)")
    case True
    then obtain i where i: "i < length ready" "c_agent_id (ready ! i) = ?a"
      using chosen_iff_place [OF woken s0] by (auto simp: in_set_conv_nth)
    have "dget (this_tick s1) (map c_agent_id ready ! i) = Some ([?n ..< ?n + length ready] ! i)"
      unfolding run(4) using dist i(1) by (intro map_of_zip_nth) simp_all
    moreover have "store s1 ! (?n + i) = opened (Suc (activation_counter s0 + i)) tick (ready ! i)"
      unfolding run(3) using i(1) by (simp add: nth_append opened_all_nth)
    ultimately show ?thesis
      using True i ev [of "ready ! i"] run(1,3) by (auto simp: opened_def intro!: exI [of _ "?n + i"])
  next
    case False
    then have out: "?a \<notin> c_agent_id ` set ready" using chosen_iff_place [OF woken s0] by simp
    have "?a \<in> c_agent_id ` set (ready @ last_overflow s0)"
      using woken candidates_agents [of tick states u s] unfolding split(1) by (simp add: woken_agents_def wakes_due)
    then obtain k where k: "k \<in> set (last_overflow s0)" "c_agent_id k = ?a" using out by auto
    have "event_id e \<in> set (ids (last_overflow s0))" using k ev [of k] by auto
    moreover have "\<lparr>q_event = e, q_status = ELIGIBLE\<rparr> \<in> set (promote (queue s))" by (rule promoted_event [OF assms(1)])
    moreover have "queue s0 = restatus [CLAIMED, ELIGIBLE] QUEUED (ids (last_overflow s0)) (promote (queue s))"
      using ready_queue [of tick states u s] s0 by simp
    ultimately have "\<lparr>q_event = e, q_status = QUEUED\<rparr> \<in> set (queue s0)" by (force simp: restatus_def image_iff)
    then have "\<lparr>q_event = e, q_status = QUEUED\<rparr> \<in> set (queue s1)" unfolding run(2) by (force simp: restatus_def image_iff)
    moreover have "dget (this_tick s1) ?a = None" unfolding run(4) using out by (simp add: map_of_zip_is_None)
    ultimately show ?thesis using False run(1) by simp
  qed
qed

text \<open>
  C30. The wake-up of an agent by an email.  When the deliver phase of a tick has delivered an email to an
  agent that can be scheduled, waits for emails, and does not restrict its tasks, threads or senders to
  others than the email's, the agent finds the email unread in its mailbox, and the schedule of the same tick
  succeeds: when fewer woken agents are ahead of it (by rank, deadline and name) than the tick has places, it
  begins an activation of the agent whose wake events hold the email's; otherwise it begins none for the
  agent, and the email's event is queued again.
\<close>

theorem email_wakes_recipient:
  assumes "mails.reach (ms, l)" and "phase_deliver names tick (ms, sc) = (ds, ms', sc')" and "0 \<le> tick"
    and "r \<in> set ds" and "a \<in> set (Mail.to (Mail.heap ms' ! r))"
    and "dget states a = Some st" and "st \<notin> {PAUSED, FAILED, TERMINATED, CREATED, INITIALIZED}"
    and "dget (wake_conditions sc) a = Some c" and "NEW_EMAIL \<in> set (event_types c)" and "wake_at_tick c \<le> tick"
    and "fits (task_ids c) (Mail.task_id (Mail.heap ms' ! r))" and "fits (thread_ids c) (Mail.thread_id (Mail.heap ms' ! r))"
    and "fits (sender_ids c) (from_agent (Mail.heap ms' ! r))"
    and "this_tick sc = []" and "schedule_tick tick states u sc' = ((res, ready), s1)"
  shows "res = Inr ()
      \<and> (\<exists>e. event_type e = NEW_EMAIL \<and> target_agent_id e = a
          \<and> details e = [(''email_id'', PStr (email_id (Mail.heap ms' ! r)))]
          \<and> (if places_before tick states u sc' a < max_active_agents_per_tick (config sc)
             then \<exists>ref < length (store s1). dget (this_tick s1) a = Some ref
               \<and> a_agent_id (store s1 ! ref) = a \<and> a_tick (store s1 ! ref) = tick \<and> e \<in> set (wake_events (store s1 ! ref))
             else dget (this_tick s1) a = None \<and> \<lparr>q_event = e, q_status = QUEUED\<rparr> \<in> set (queue s1)))
      \<and> (\<forall>mb. get_mailbox ms' a = Some mb
           \<longrightarrow> get_email (email_id (Mail.heap ms' ! r)) mb = Some r \<and> Mail.status (Mail.heap ms' ! r) = DELIVERED)"
proof -
  have d: "deliver tick ms = (ds, ms')" and sc': "sc' = fold (wake_recipients names tick (Mail.heap ms')) ds sc"
    using assms(2) by (auto simp: phase_deliver_def split: prod.splits)
  obtain name where e: "email_event name tick (Mail.heap ms' ! r) a \<in> set (waiting_events sc')" (is "?e \<in> _")
    using phase_event_of [OF assms(3-5)] sc' by blast
  have e_is: "event_type ?e = NEW_EMAIL" "target_agent_id ?e = a"
      "details ?e = [(''email_id'', PStr (email_id (Mail.heap ms' ! r)))]" by (simp_all add: email_event_def)
  have conds: "wake_conditions sc' = wake_conditions sc" using phase_events [OF assms(3)] sc' by simp
  have keeps: "config sc' = config sc" "this_tick sc' = []" using assms(14) by (simp_all add: sc' phase_fields)
  have w: "due tick states (wake_conditions sc') ?e"
    unfolding due_def conds e_is(2)
    by (rule exI [of _ st], rule exI [of _ c]) (use assms(3,6-13) in \<open>simp add: email_event_def fits_def [of "resources c"]\<close>)
  have "\<forall>mb. get_mailbox ms' a = Some mb
      \<longrightarrow> get_email (email_id (Mail.heap ms' ! r)) mb = Some r \<and> Mail.status (Mail.heap ms' ! r) = DELIVERED"
    using delivered_filed [OF reach_mail_ok [OF assms(1)] d assms(4,5)] by (simp add: get_email_def get_mailbox_def)
  moreover note scheduled_event [OF e w keeps(2) assms(15), unfolded e_is(2) keeps(1)]
  ultimately show ?thesis using e_is by blast
qed

section \<open>A delivery to two agents in a tick with one place\<close>

abbreviation mail_condition :: wake_condition where
  "mail_condition \<equiv> \<lparr>event_types = [NEW_EMAIL], wake_at_tick = 0, task_ids = [''t1''], resources = [], thread_ids = [], sender_ids = [''x'']\<rparr>"

definition listening :: scheduler where
  "listening = Scheduler.register_agent ''b'' (Some mail_condition) (Scheduler.register_agent ''a'' (Some mail_condition)
     (new_scheduler (Some (default_config\<lparr>max_active_agents_per_tick := 1\<rparr>))))"

abbreviation event_names :: "nat \<Rightarrow> nat \<Rightarrow> string" where
  "event_names r i \<equiv> digits r @ ''.'' @ digits i"

abbreviation idle_states :: "(string, agent_state) dict" where
  "idle_states \<equiv> [(''a'', IDLE), (''b'', IDLE)]"

definition woken :: scheduler where
  "woken = snd (snd (phase_deliver event_names 1 (posted, listening)))"

definition scheduled :: "(unit res \<times> ready_candidate list) \<times> scheduler" where
  "scheduled = schedule_tick 1 idle_states None woken"

lemma woken_places: "places_before 1 idle_states None woken ''a'' = 0" "places_before 1 idle_states None woken ''b'' = 1"
proof -
  have "map target_agent_id (filter (wakes 1 idle_states (wake_conditions woken)) (waiting_events woken)) = [''a'', ''b'']" by code_simp
  then have "set (map target_agent_id (filter (wakes 1 idle_states (wake_conditions woken)) (waiting_events woken))) = {''a'', ''b''}"
    by simp
  then have w: "woken_agents 1 idle_states woken = {''a'', ''b''}" by (simp add: woken_agents_def wakes_due)
  have o: "ahead None ''a'' ''b''" "\<not> ahead None ''b'' ''a''" "\<not> ahead None ''a'' ''a''" "\<not> ahead None ''b'' ''b''" by code_simp+
  have "{b \<in> {''a'', ''b''}. ahead None b ''a''} = {}" "{b \<in> {''a'', ''b''}. ahead None b ''b''} = {''a''}" using o by blast+
  then show "places_before 1 idle_states None woken ''a'' = 0" "places_before 1 idle_states None woken ''b'' = 1"
    by (simp_all add: places_before_def w)
qed

theorem email_wakes_recipient_witness:
  "(\<exists>ref e. dget (this_tick (snd scheduled)) ''a'' = Some ref \<and> e \<in> set (wake_events (store (snd scheduled) ! ref))
      \<and> details e = [(''email_id'', PStr ''mail.000001'')])
   \<and> dget (this_tick (snd scheduled)) ''b'' = None
   \<and> (\<exists>e. \<lparr>q_event = e, q_status = QUEUED\<rparr> \<in> set (queue (snd scheduled)) \<and> details e = [(''email_id'', PStr ''mail.000001'')])"
proof -
  have p: "phase_deliver event_names 1 (posted, listening) = ([0], arrived, woken)" by code_simp
  have c: "schedule_tick 1 idle_states None woken = ((fst (fst scheduled), snd (fst scheduled)), snd scheduled)" by (simp add: scheduled_def)
  have i: "email_id (Mail.heap arrived ! 0) = ''mail.000001''" by code_simp
  have cap: "max_active_agents_per_tick (config listening) = 1" by code_simp
  have h: "''a'' \<in> set (Mail.to (Mail.heap arrived ! 0))" "''b'' \<in> set (Mail.to (Mail.heap arrived ! 0))"
      "dget (wake_conditions listening) ''a'' = Some mail_condition" "dget (wake_conditions listening) ''b'' = Some mail_condition"
      "fits [''t1''] (Mail.task_id (Mail.heap arrived ! 0))" "fits [''x''] (from_agent (Mail.heap arrived ! 0))"
      "fits [] (Mail.thread_id (Mail.heap arrived ! 0))" "this_tick listening = []" by code_simp+
  note wake = email_wakes_recipient [OF reach_posted p _ _ _ _ _ _ _ _ _ _ _ _ c, of 0 _ IDLE mail_condition]
  have "\<exists>ref e. dget (this_tick (snd scheduled)) ''a'' = Some ref \<and> e \<in> set (wake_events (store (snd scheduled) ! ref))
      \<and> details e = [(''email_id'', PStr ''mail.000001'')]"
    using wake [of "''a''"] h woken_places(1) unfolding i cap by auto
  moreover have "dget (this_tick (snd scheduled)) ''b'' = None
      \<and> (\<exists>e. \<lparr>q_event = e, q_status = QUEUED\<rparr> \<in> set (queue (snd scheduled)) \<and> details e = [(''email_id'', PStr ''mail.000001'')])"
    using wake [of "''b''"] h woken_places(2) unfolding i cap by auto
  ultimately show ?thesis by blast
qed

end
