(* ===== verification/PendingOps.thy ===== *)
theory PendingOps
  imports Prelude
begin

text \<open>
  The registry of operations in flight of the archived engine (\<^verbatim>\<open>legacy/pending_ops.py\<close>, and the lines of
  \<^verbatim>\<open>legacy/simulation.py\<close> that claim an operation and that submit the requests of a round).  The identifier an
  agent chose for a request is kept apart from the other metadata.  The registry's own identifiers come
  from \<^verbatim>\<open>uuid\<close>; they are arguments.
\<close>

section \<open>Operations\<close>

datatype op_status = SUBMITTED | PENDING | COMPLETED | FAILED | CANCELLED | TIMED_OUT

datatype op_type = LLM_REQUEST | TOOL_REQUEST | EMAIL_DELIVERY | HUMAN_DECISION | LOCK_ACQUISITION | EXTERNAL_REQUEST

record pending_op =
  request_id :: string
  op_type :: op_type
  agent_id :: string
  task_id :: string
  activation_id :: string
  created_tick :: int
  eligible_tick :: int
  deadline_tick :: "int option"
  status :: op_status
  result :: "(string, pyval) dict"
  error :: string
  retry_count :: nat
  max_retries :: nat
  state_epoch :: int
  intent_id :: "string option"
  metadata :: "(string, pyval) dict"

record seen_request =
  seen_status :: op_status
  seen_type :: op_type
  seen_tool :: pyval
  seen_agent :: string

record registry =
  operations :: "(string, pending_op) dict"
  seen_requests :: "(string, seen_request) dict"

definition new_registry :: registry where
  "new_registry = \<lparr>operations = [], seen_requests = []\<rparr>"

definition in_flight :: "pending_op \<Rightarrow> bool" where
  "in_flight op \<longleftrightarrow> status op = SUBMITTED \<or> status op = PENDING"

definition dead :: "pending_op \<Rightarrow> bool" where
  "dead op \<longleftrightarrow> status op = CANCELLED \<or> status op = TIMED_OUT \<or> status op = FAILED"

definition record_submitted :: "pending_op \<Rightarrow> registry \<Rightarrow> registry" where
  "record_submitted op g =
     (case intent_id op of
        None \<Rightarrow> g
      | Some i \<Rightarrow>
          if i = [] then g
          else g\<lparr>seen_requests := dset i
                 \<lparr>seen_status = status op, seen_type = op_type op,
                  seen_tool = (case dget (metadata op) ''tool_name'' of None \<Rightarrow> PStr [] | Some v \<Rightarrow> v), seen_agent = agent_id op\<rparr>
                 (seen_requests g)\<rparr>)"

definition is_seen :: "registry \<Rightarrow> string \<Rightarrow> string \<Rightarrow> bool" where
  "is_seen g a i = (case dget (seen_requests g) i of None \<Rightarrow> False | Some r \<Rightarrow> seen_agent r = a)"

definition restore_seen_requests :: "(string, seen_request) dict \<Rightarrow> registry \<Rightarrow> registry" where
  "restore_seen_requests d g = g\<lparr>seen_requests := d\<rparr>"

record submission =
  s_type :: op_type
  s_agent :: string
  s_created :: int
  s_eligible :: int
  s_deadline :: "int option"
  s_task :: string
  s_activation :: string
  s_intent :: "string option"
  s_metadata :: "(string, pyval) dict"
  s_epoch :: int

definition submit :: "string \<Rightarrow> submission \<Rightarrow> registry \<Rightarrow> pending_op \<times> registry" where
  "submit i x g =
     (let op = \<lparr>request_id = i, op_type = s_type x, agent_id = s_agent x, task_id = s_task x, activation_id = s_activation x,
                created_tick = s_created x, eligible_tick = (if s_eligible x \<noteq> 0 then s_eligible x else s_created x + 1),
                deadline_tick = s_deadline x, status = SUBMITTED, result = [], error = [], retry_count = 0, max_retries = 3,
                state_epoch = s_epoch x, intent_id = s_intent x, metadata = s_metadata x\<rparr>
      in (op, record_submitted op (g\<lparr>operations := dset i op (operations g)\<rparr>)))"

definition put_op :: "string \<Rightarrow> pending_op \<Rightarrow> registry \<Rightarrow> registry" where
  "put_op i op g = g\<lparr>operations := dset i op (operations g)\<rparr>"

definition complete :: "string \<Rightarrow> (string, pyval) dict \<Rightarrow> registry \<Rightarrow> pending_op option \<times> registry" where
  "complete i res g =
     (case dget (operations g) i of
        None \<Rightarrow> (None, g)
      | Some op \<Rightarrow>
          if dead op then (Some op, g)
          else let op' = op\<lparr>status := COMPLETED, result := res\<rparr> in (Some op', put_op i op' g))"

record tool_result =
  t_request_id :: string
  t_data :: "(string, pyval) dict"
  t_dump :: pyval

definition complete_tool :: "string \<Rightarrow> tool_result \<Rightarrow> registry \<Rightarrow> pending_op option \<times> registry" where
  "complete_tool i res g =
     (case dget (operations g) i of
        None \<Rightarrow> (None, g)
      | Some op \<Rightarrow>
          if dead op then (Some op, g)
          else if t_request_id res \<noteq> i then (Some op, g)
          else let op' = op\<lparr>status := COMPLETED, result := t_data res, metadata := dset ''tool_result'' (t_dump res) (metadata op)\<rparr>
               in (Some op', put_op i op' g))"

definition fail :: "string \<Rightarrow> string \<Rightarrow> registry \<Rightarrow> pending_op option \<times> registry" where
  "fail i msg g =
     (case dget (operations g) i of
        None \<Rightarrow> (None, g)
      | Some op \<Rightarrow> let op' = op\<lparr>status := FAILED, error := msg\<rparr> in (Some op', put_op i op' g))"

definition cancel :: "string \<Rightarrow> registry \<Rightarrow> pending_op option \<times> registry" where
  "cancel i g =
     (case dget (operations g) i of
        None \<Rightarrow> (None, g)
      | Some op \<Rightarrow>
          if \<not> in_flight op then (None, g)
          else let op' = op\<lparr>status := CANCELLED\<rparr> in (Some op', put_op i op' g))"

definition overdue :: "int \<Rightarrow> pending_op \<Rightarrow> bool" where
  "overdue tick op \<longleftrightarrow> in_flight op \<and> (case deadline_tick op of None \<Rightarrow> False | Some d \<Rightarrow> tick > d)"

definition timeout_expired :: "int \<Rightarrow> registry \<Rightarrow> pending_op list \<times> registry" where
  "timeout_expired tick g =
     (map (\<lambda>op. op\<lparr>status := TIMED_OUT\<rparr>) (filter (overdue tick) (dvals (operations g))),
      g\<lparr>operations := map (\<lambda>(i, op). (i, if overdue tick op then op\<lparr>status := TIMED_OUT\<rparr> else op)) (operations g)\<rparr>)"

definition collect_completed :: "int \<Rightarrow> registry \<Rightarrow> pending_op list" where
  "collect_completed tick g = filter (\<lambda>op. status op = COMPLETED \<and> eligible_tick op \<le> tick) (dvals (operations g))"

definition get_by_agent :: "string \<Rightarrow> op_status option \<Rightarrow> registry \<Rightarrow> pending_op list" where
  "get_by_agent a st g =
     (let ops = filter (\<lambda>op. agent_id op = a) (dvals (operations g)) in
      case st of None \<Rightarrow> ops | Some x \<Rightarrow> filter (\<lambda>op. status op = x) ops)"

definition get_by_id :: "string \<Rightarrow> registry \<Rightarrow> pending_op option" where
  "get_by_id i g = dget (operations g) i"

definition count_in_flight :: "string \<Rightarrow> op_type option \<Rightarrow> registry \<Rightarrow> nat" where
  "count_in_flight a ty g =
     length (filter (\<lambda>op. agent_id op = a \<and> in_flight op \<and> (case ty of None \<Rightarrow> True | Some x \<Rightarrow> op_type op = x)) (dvals (operations g)))"

definition find_in_flight_request_id :: "string \<Rightarrow> string \<Rightarrow> registry \<Rightarrow> pending_op option" where
  "find_in_flight_request_id a i g = find (\<lambda>op. agent_id op = a \<and> in_flight op \<and> intent_id op = Some i) (dvals (operations g))"

definition remove :: "string \<Rightarrow> registry \<Rightarrow> pending_op option \<times> registry" where
  "remove i g = (dget (operations g) i, g\<lparr>operations := dpop i (operations g)\<rparr>)"

definition remove_for_rollback :: "string \<Rightarrow> registry \<Rightarrow> pending_op option \<times> registry" where
  "remove_for_rollback i g =
     (let g' = g\<lparr>operations := dpop i (operations g)\<rparr> in
      case dget (operations g) i of
        None \<Rightarrow> (None, g')
      | Some op \<Rightarrow>
          (Some op,
           case intent_id op of
             None \<Rightarrow> g'
           | Some r \<Rightarrow> if r \<noteq> [] \<and> dget (seen_requests g') r \<noteq> None then g'\<lparr>seen_requests := dpop r (seen_requests g')\<rparr> else g'))"

definition remove_completed :: "registry \<Rightarrow> nat \<times> registry" where
  "remove_completed g =
     (let gone = map fst (filter (\<lambda>(i, op). \<not> in_flight op) (operations g))
      in (length gone, g\<lparr>operations := fold dpop gone (operations g)\<rparr>))"

definition pending_count :: "registry \<Rightarrow> nat" where
  "pending_count g = length (filter in_flight (dvals (operations g)))"

definition completed_count :: "registry \<Rightarrow> nat" where
  "completed_count g = length (filter (\<lambda>op. status op = COMPLETED) (dvals (operations g)))"

text \<open>An executor outside the process claims a tool request that is submitted.\<close>

definition claim :: "string \<Rightarrow> registry \<Rightarrow> registry" where
  "claim i g =
     (case dget (operations g) i of
        None \<Rightarrow> g
      | Some op \<Rightarrow> if op_type op = TOOL_REQUEST \<and> status op = SUBMITTED then put_op i (op\<lparr>status := PENDING\<rparr>) g else g)"

section \<open>Submitting the requests of a round\<close>

text \<open>
  The intents of a plan that request a language model.  Of the messages only their lengths matter to the
  kernel; model, messages and sampling parameters are also part of the metadata.  A request is submitted
  unless the operations in flight of the agent, plus those submitted in this tick,
  have reached the maximum.
\<close>

record llm_intent =
  i_request_id :: string
  i_task_id :: string
  i_timeout :: int
  i_model :: string
  i_messages :: "nat list"
  i_max_tokens :: int
  i_metadata :: "(string, pyval) dict"

definition llm_submission :: "string \<Rightarrow> int \<Rightarrow> int \<Rightarrow> llm_intent \<Rightarrow> submission" where
  "llm_submission a tick epoch x =
     \<lparr>s_type = LLM_REQUEST, s_agent = a, s_created = tick, s_eligible = tick + 1, s_deadline = Some (tick + i_timeout x),
      s_task = i_task_id x, s_activation = [], s_intent = Some (i_request_id x), s_metadata = i_metadata x, s_epoch = epoch\<rparr>"

fun submit_llm :: "int \<Rightarrow> string \<Rightarrow> int \<Rightarrow> int \<Rightarrow> nat \<Rightarrow> (string \<times> llm_intent) list \<Rightarrow> registry \<Rightarrow> bool list \<times> registry" where
  "submit_llm cap a tick epoch n [] g = ([], g)"
| "submit_llm cap a tick epoch n ((i, x) # xs) g =
     (if int (count_in_flight a (Some LLM_REQUEST) g + n) \<ge> cap then
        (case submit_llm cap a tick epoch n xs g of (bs, g') \<Rightarrow> (False # bs, g'))
      else
        (case submit_llm cap a tick epoch (n + 1) xs (snd (submit i (llm_submission a tick epoch x) g)) of (bs, g') \<Rightarrow> (True # bs, g')))"


section \<open>How many requests are in flight\<close>

text \<open>The operations of the registry in any order, with one maximum for the requests of an agent.\<close>

inductive op_step :: "int \<Rightarrow> registry \<Rightarrow> registry \<Rightarrow> bool" for cap where
  Round: "distinct (map fst xs) \<Longrightarrow> (\<And>i. i \<in> fst ` set xs \<Longrightarrow> dget (operations g) i = None)
    \<Longrightarrow> submit_llm cap a tick epoch 0 xs g = (bs, g') \<Longrightarrow> op_step cap g g'"
| Submit: "dget (operations g) i = None \<Longrightarrow> s_type x \<noteq> LLM_REQUEST \<Longrightarrow> op_step cap g (snd (submit i x g))"
| Claim: "op_step cap g (claim i g)"
| Complete: "op_step cap g (snd (complete i res g))"
| CompleteTool: "op_step cap g (snd (complete_tool i tres g))"
| Fail: "op_step cap g (snd (fail i msg g))"
| Cancel: "op_step cap g (snd (cancel i g))"
| Timeout: "op_step cap g (snd (timeout_expired tick g))"
| Remove: "op_step cap g (snd (remove i g))"
| Rollback: "op_step cap g (snd (remove_for_rollback i g))"
| RemoveCompleted: "op_step cap g (snd (remove_completed g))"
| RestoreSeen: "op_step cap g (restore_seen_requests d g)"

interpretation ops: trans_sys "\<lambda>g. g = new_registry" "op_step cap" for cap .

text \<open>The requests of an agent that are in flight, and how the operations change their number.\<close>

definition flying :: "string \<Rightarrow> pending_op \<Rightarrow> bool" where
  "flying a op \<longleftrightarrow> agent_id op = a \<and> in_flight op \<and> op_type op = LLM_REQUEST"

definition count :: "('v \<Rightarrow> bool) \<Rightarrow> (string, 'v) dict \<Rightarrow> nat" where
  "count P d = length (filter P (dvals d))"

lemma count_in_flight_count: "count_in_flight a (Some LLM_REQUEST) g = count (flying a) (operations g)"
  by (simp add: count_in_flight_def count_def flying_def [abs_def])

lemma count_Cons: "count P ((k, v) # d) = (if P v then 1 else 0) + count P d"
  by (simp add: count_def dvals_def)

lemma count_dset: "dget d i = Some w \<Longrightarrow> (P v \<Longrightarrow> P w) \<Longrightarrow> count P (dset i v d) \<le> count P d"
  by (induction d) (auto simp: count_Cons split: if_splits)

lemma count_fresh: "dget d i = None \<Longrightarrow> count P (dset i v d) = count P d + (if P v then 1 else 0)"
  by (induction d) (auto simp: count_Cons count_def dvals_def split: if_splits)

lemma count_dpop: "count P (dpop i d) \<le> count P d"
  by (induction d) (auto simp: dpop_def count_Cons)

lemma count_dpops: "count P (fold dpop is d) \<le> count P d"
  by (induction "is" arbitrary: d) (auto intro: le_trans count_dpop)

lemma count_map: "(\<And>v. P (f v) \<Longrightarrow> P v) \<Longrightarrow> count P (map (\<lambda>(i, v). (i, f v)) d) \<le> count P d"
  by (induction d) (auto simp: count_Cons split: if_splits)

lemma operations_record [simp]: "operations (record_submitted op g) = operations g"
  by (simp add: record_submitted_def split: option.splits)

lemma operations_submit: "operations (snd (submit i x g)) = dset i (fst (submit i x g)) (operations g)"
  by (simp add: submit_def Let_def)

lemma operations_put [simp]: "operations (put_op i op g) = dset i op (operations g)"
  by (simp add: put_op_def)

text \<open>Each step but a round leaves at most as many of an agent's requests in flight.\<close>

lemma flying_put:
  assumes "dget (operations g) i = Some op" and "\<not> in_flight op' \<or> flying a op' = flying a op"
  shows "count (flying a) (operations (put_op i op' g)) \<le> count (flying a) (operations g)"
  using assms count_dset [of "operations g" i op "flying a" op'] by (auto simp: flying_def)

lemma flying_ops:
  "count (flying a) (operations (claim i g)) \<le> count (flying a) (operations g)"
  "count (flying a) (operations (snd (complete i res g))) \<le> count (flying a) (operations g)"
  "count (flying a) (operations (snd (complete_tool i tres g))) \<le> count (flying a) (operations g)"
  "count (flying a) (operations (snd (fail i msg g))) \<le> count (flying a) (operations g)"
  "count (flying a) (operations (snd (cancel i g))) \<le> count (flying a) (operations g)"
proof -
  show "count (flying a) (operations (claim i g)) \<le> count (flying a) (operations g)"
    by (auto simp: claim_def flying_def in_flight_def simp del: operations_put split: option.split intro!: flying_put)
  show "count (flying a) (operations (snd (complete i res g))) \<le> count (flying a) (operations g)"
    by (auto simp: complete_def Let_def in_flight_def simp del: operations_put split: option.split intro!: flying_put)
  show "count (flying a) (operations (snd (complete_tool i tres g))) \<le> count (flying a) (operations g)"
    by (auto simp: complete_tool_def Let_def in_flight_def simp del: operations_put split: option.split intro!: flying_put)
  show "count (flying a) (operations (snd (fail i msg g))) \<le> count (flying a) (operations g)"
    by (auto simp: fail_def Let_def in_flight_def simp del: operations_put split: option.split intro!: flying_put)
  show "count (flying a) (operations (snd (cancel i g))) \<le> count (flying a) (operations g)"
    by (auto simp: cancel_def Let_def in_flight_def simp del: operations_put split: option.split intro!: flying_put)
qed

lemma flying_removals:
  "count (flying a) (operations (snd (timeout_expired tick g))) \<le> count (flying a) (operations g)"
  "count (flying a) (operations (snd (remove i g))) \<le> count (flying a) (operations g)"
  "count (flying a) (operations (snd (remove_for_rollback i g))) \<le> count (flying a) (operations g)"
  "count (flying a) (operations (snd (remove_completed g))) \<le> count (flying a) (operations g)"
proof -
  show "count (flying a) (operations (snd (timeout_expired tick g))) \<le> count (flying a) (operations g)"
    by (auto simp: timeout_expired_def flying_def in_flight_def intro!: count_map split: if_splits)
  show "count (flying a) (operations (snd (remove i g))) \<le> count (flying a) (operations g)"
    by (simp add: remove_def count_dpop)
  show "count (flying a) (operations (snd (remove_for_rollback i g))) \<le> count (flying a) (operations g)"
    by (simp add: remove_for_rollback_def Let_def count_dpop split: option.split)
  show "count (flying a) (operations (snd (remove_completed g))) \<le> count (flying a) (operations g)"
    by (simp add: remove_completed_def Let_def count_dpops)
qed


lemma flying_submit:
  assumes "dget (operations g) i = None"
  shows "count (flying b) (operations (snd (submit i (llm_submission a tick epoch x) g)))
    = count (flying b) (operations g) + (if b = a then 1 else 0)"
proof -
  have "flying b (fst (submit i (llm_submission a tick epoch x) g)) \<longleftrightarrow> b = a"
    by (auto simp: submit_def Let_def flying_def in_flight_def llm_submission_def)
  then show ?thesis using assms by (simp add: operations_submit count_fresh)
qed

lemma round_bounded:
  "submit_llm cap a tick epoch n xs g = (bs, g') \<Longrightarrow> distinct (map fst xs)
    \<Longrightarrow> (\<And>i. i \<in> fst ` set xs \<Longrightarrow> dget (operations g) i = None)
    \<Longrightarrow> (\<forall>b. int (count (flying b) (operations g)) \<le> max 0 cap)
    \<Longrightarrow> int (count (flying b) (operations g')) \<le> max 0 cap"
proof (induction cap a tick epoch n xs g arbitrary: bs rule: submit_llm.induct)
  case (2 cap a tick epoch n i x xs g)
  let ?g = "snd (submit i (llm_submission a tick epoch x) g)"
  show ?case
  proof (cases "int (count_in_flight a (Some LLM_REQUEST) g + n) \<ge> cap")
    case True
    then obtain cs where "submit_llm cap a tick epoch n xs g = (cs, g')" using 2(3) by (auto split: prod.splits)
    then show ?thesis using 2(1) [OF True] 2(4-6) by auto
  next
    case False
    then obtain cs where s: "submit_llm cap a tick epoch (n + 1) xs ?g = (cs, g')" using 2(3) by (auto split: prod.splits)
    have i: "dget (operations g) i = None" using 2(5) by simp
    have "int (count (flying c) (operations ?g)) \<le> max 0 cap" for c
      using 2(6) False by (auto simp: flying_submit [OF i] count_in_flight_count)
    moreover have "dget (operations ?g) j = None" if "j \<in> fst ` set xs" for j
      using 2(4,5) that by (auto simp: operations_submit)
    ultimately show ?thesis using 2(2) [OF False s] 2(4) by simp
  qed
qed simp

definition bounded :: "int \<Rightarrow> registry \<Rightarrow> bool" where
  "bounded cap g \<longleftrightarrow> (\<forall>a. int (count (flying a) (operations g)) \<le> max 0 cap)"

lemma bounded_mono: "bounded cap g \<Longrightarrow> (\<And>a. count (flying a) (operations g') \<le> count (flying a) (operations g)) \<Longrightarrow> bounded cap g'"
  unfolding bounded_def by (metis (no_types, lifting) of_nat_mono order_trans)

lemma bounded_step: "op_step cap g g' \<Longrightarrow> bounded cap g \<Longrightarrow> bounded cap g'"
proof (induction rule: op_step.induct)
  case (Round xs g a tick epoch bs g')
  then show ?case using round_bounded [OF Round(3,1,2)] by (simp add: bounded_def)
next
  case (Submit g i x)
  have "count (flying a) (operations (snd (submit i x g))) \<le> count (flying a) (operations g)" for a
    using Submit(1,2) by (simp add: operations_submit count_fresh) (simp add: flying_def submit_def Let_def)
  then show ?case by (rule bounded_mono [OF Submit(3)])
next
  case (RestoreSeen g d)
  then show ?case by (simp add: bounded_def restore_seen_requests_def)
qed (erule bounded_mono, rule flying_ops flying_removals)+

lemma reach_bounded: "ops.reach cap g \<Longrightarrow> bounded cap g"
proof (erule ops.reach_invariant)
  show "g = new_registry \<Longrightarrow> bounded cap g" for g by (simp add: bounded_def new_registry_def count_def dvals_def)
qed (rule bounded_step)

section \<open>Results that come too late\<close>

text \<open>An operation that was cancelled, timed out or has failed stays so until it is removed.\<close>

lemma dead_put: "dget (operations g) i = Some op \<Longrightarrow> dead op \<Longrightarrow> (i = j \<Longrightarrow> dead op')
    \<Longrightarrow> \<exists>q. dget (operations (put_op j op' g)) i = Some q \<and> dead q"
  by auto

lemma round_keeps:
  "submit_llm cap a tick epoch n xs g = (bs, g') \<Longrightarrow> i \<notin> fst ` set xs \<Longrightarrow> dget (operations g') i = dget (operations g) i"
proof (induction cap a tick epoch n xs g arbitrary: bs rule: submit_llm.induct)
  case (2 cap a tick epoch n j x xs g)
  then show ?case by (auto simp: operations_submit split: prod.splits if_splits)
qed simp

lemma dget_dpops [simp]: "dget (fold dpop is d) i = (if i \<in> set is then None else dget d i)"
  by (induction "is" arbitrary: d) auto

lemma dead_stays_dead:
  "op_step cap g g' \<Longrightarrow> dget (operations g) i = Some op \<Longrightarrow> dead op
    \<Longrightarrow> dget (operations g') i = None \<or> (\<exists>q. dget (operations g') i = Some q \<and> dead q)"
proof (induction rule: op_step.induct)
  case (Round xs g a tick epoch bs g')
  have "i \<notin> fst ` set xs" using Round(2) Round(4) by force
  then show ?case using round_keeps [OF Round(3)] Round(4,5) by simp
qed (auto simp: operations_submit claim_def complete_def complete_tool_def fail_def cancel_def timeout_expired_def remove_def
    remove_for_rollback_def remove_completed_def restore_seen_requests_def Let_def dead_def in_flight_def overdue_def map_of_map
    split: option.splits dest: map_of_SomeD)


text \<open>
  C31. The number of requests an agent has in flight never exceeds the configured maximum, in whatever order
  rounds are submitted and operations are claimed, completed, failed, cancelled, timed out, removed and rolled
  back; and a result that arrives for an operation that was cancelled, timed out or has failed does not revive it.
\<close>

theorem llm_requests_bounded:
  assumes "ops.reach cap g"
  shows "int (count_in_flight a (Some LLM_REQUEST) g) \<le> max 0 cap
    \<and> (\<forall>g' i op. op_step cap g g' \<longrightarrow> get_by_id i g = Some op \<longrightarrow> dead op
         \<longrightarrow> (case get_by_id i g' of None \<Rightarrow> True | Some q \<Rightarrow> dead q))"
proof (intro conjI allI impI)
  show "int (count_in_flight a (Some LLM_REQUEST) g) \<le> max 0 cap"
    using reach_bounded [OF assms] by (simp add: bounded_def count_in_flight_count)
  fix g' i op assume "op_step cap g g'" "get_by_id i g = Some op" "dead op"
  then have "dget (operations g') i = None \<or> (\<exists>q. dget (operations g') i = Some q \<and> dead q)"
    using dead_stays_dead by (simp add: get_by_id_def)
  then show "case get_by_id i g' of None \<Rightarrow> True | Some q \<Rightarrow> dead q" by (auto simp: get_by_id_def)
qed

section \<open>Rounds of requests\<close>

abbreviation request :: "string \<Rightarrow> llm_intent" where
  "request r \<equiv> \<lparr>i_request_id = r, i_task_id = [], i_timeout = 10, i_model = [], i_messages = [], i_max_tokens = 4096, i_metadata = []\<rparr>"

definition one_request :: registry where
  "one_request = snd (submit_llm 1 ''a'' 0 0 0 [(''op.1'', request ''r1'')] new_registry)"

lemma reach_one_request: "ops.reach 1 one_request"
proof -
  have "op_step 1 new_registry one_request"
    by (rule Round [of "[(''op.1'', request ''r1'')]" _ _ "''a''" 0 0])
      (simp_all add: one_request_def new_registry_def prod_eq_iff)
  moreover have "ops.reach 1 new_registry" by (rule ops.reach_start) simp
  ultimately show ?thesis using ops.reach_step by blast
qed

theorem llm_requests_bounded_witness:
  "ops.reach 1 one_request \<and> count_in_flight ''a'' (Some LLM_REQUEST) one_request = 1
   \<and> int (count_in_flight ''a'' (Some LLM_REQUEST) one_request) \<le> max 0 1"
proof -
  have "count_in_flight ''a'' (Some LLM_REQUEST) one_request = 1" by code_simp
  then show ?thesis using llm_requests_bounded [OF reach_one_request, of "''a''"] reach_one_request by blast
qed

text \<open>
  The requests of the running round are counted twice, once in the registry and once beside it: with room for
  two, a round of two requests is cut to one.
\<close>

lemma round_counted_twice:
  "fst (submit_llm 2 ''a'' 0 0 0 [(''op.1'', request ''r1''), (''op.2'', request ''r2'')] new_registry) = [True, False]"
  by code_simp

text \<open>
  The history of request identifiers has one entry for all agents: another agent's use of an identifier
  lets the first one use it again.
\<close>

lemma seen_by_one_agent_only:
  assumes "dget (seen_requests g) r = Some q" and "seen_agent q = a" and "b \<noteq> a" and "r \<noteq> []"
  shows "is_seen g a r" and "\<not> is_seen (snd (submit i ((llm_submission b tick epoch x)\<lparr>s_intent := Some r\<rparr>) g)) a r"
  using assms by (simp_all add: is_seen_def submit_def Let_def record_submitted_def llm_submission_def)

text \<open>Failing overrides every status, that of a completed or cancelled operation too.\<close>

lemma fail_overrides:
  "get_by_id i g = Some op \<Longrightarrow> get_by_id i (snd (fail i msg g)) = Some (op\<lparr>status := FAILED, error := msg\<rparr>)"
  by (simp add: get_by_id_def fail_def Let_def)

end
