(* ===== verification/Budget.thy ===== *)
theory Budget
  imports PendingOps
begin

text \<open>
  The budget of language-model calls in the archived engine (\<^verbatim>\<open>legacy/budget.py\<close> and the helpers of
  \<^verbatim>\<open>legacy/simulation.py\<close> that use it): prices, estimates, accumulators per agent, task and simulation, and the
  check of a round of requests against the caps.  Money and seconds are floats with exact arithmetic, the
  IEEE specials included.
\<close>

section \<open>Floats\<close>

fun flt_mul :: "pyfloat \<Rightarrow> pyfloat \<Rightarrow> pyfloat" where
  "flt_mul (Fin a) (Fin b) = Fin (a * b)"
| "flt_mul NaN _ = NaN"
| "flt_mul _ NaN = NaN"
| "flt_mul (Fin a) x = (if a = 0 then NaN else if 0 < a then x else flt_neg x)"
| "flt_mul x (Fin a) = (if a = 0 then NaN else if 0 < a then x else flt_neg x)"
| "flt_mul PInf x = x"
| "flt_mul NInf x = flt_neg x"

definition of_pyint :: "int \<Rightarrow> pyfloat" where
  "of_pyint i = Fin (of_int i)"

text \<open>\<^verbatim>\<open>max(0.0, x)\<close>: the second argument wins only when it is greater, so a NaN does not.\<close>

definition flt_pos :: "pyfloat \<Rightarrow> pyfloat" where
  "flt_pos x = (if flt_lt (Fin 0) x then x else Fin 0)"

section \<open>Prices and estimates\<close>

type_synonym pricing = "(string, pyfloat \<times> pyfloat) dict"

definition DEFAULT_PRICING_PER_1M :: pricing where
  "DEFAULT_PRICING_PER_1M =
    [(''gpt-4o'', Fin (5/2), Fin 10), (''gpt-4o-mini'', Fin (3/20), Fin (3/5)), (''gpt-4-turbo'', Fin 10, Fin 30),
     (''gpt-4'', Fin 30, Fin 60), (''gpt-3.5-turbo'', Fin (1/2), Fin (3/2)), (''claude-opus-4'', Fin 15, Fin 75),
     (''claude-sonnet-4'', Fin 3, Fin 15), (''claude-3-5-sonnet'', Fin 3, Fin 15), (''claude-3-opus'', Fin 15, Fin 75),
     (''claude-3-haiku'', Fin (1/4), Fin (5/4)), (''gemini-2.0-flash'', Fin (1/10), Fin (2/5)),
     (''gemini-1.5-pro'', Fin (5/4), Fin 5), (''gemini-1.5-flash'', Fin (3/40), Fin (3/10)), (''ollama'', Fin 0, Fin 0)]"

definition DEFAULT_PRICE_PER_1M :: "pyfloat \<times> pyfloat" where
  "DEFAULT_PRICE_PER_1M = (Fin 1, Fin 2)"

definition estimate_cost :: "string \<Rightarrow> int \<Rightarrow> int \<Rightarrow> pricing option \<Rightarrow> pyfloat" where
  "estimate_cost model input output pr =
     (let table = fold (\<lambda>(m, p). dset m p) (case pr of Some d \<Rightarrow> d | None \<Rightarrow> []) DEFAULT_PRICING_PER_1M;
          (ip, op) = (case dget table model of Some p \<Rightarrow> p | None \<Rightarrow> DEFAULT_PRICE_PER_1M)
      in flt_mul (flt_add (flt_mul (of_pyint (max 0 input)) ip) (flt_mul (of_pyint (max 0 output)) op)) (Fin (1 / 1000000)))"

text \<open>A message counts by the number of characters its content prints as.\<close>

definition estimate_input_tokens :: "nat list \<Rightarrow> int" where
  "estimate_input_tokens messages = int (sum_list messages) div 4"

record budget_usage =
  request_count :: int
  input_tokens :: int
  output_tokens :: int
  cost :: pyfloat
  wall_time_seconds :: pyfloat

definition no_usage :: budget_usage where
  "no_usage = \<lparr>request_count = 0, input_tokens = 0, output_tokens = 0, cost = Fin 0, wall_time_seconds = Fin 0\<rparr>"

definition total_tokens :: "budget_usage \<Rightarrow> int" where
  "total_tokens u = input_tokens u + output_tokens u"

definition add_usage :: "budget_usage \<Rightarrow> budget_usage \<Rightarrow> budget_usage" where
  "add_usage u v =
     \<lparr>request_count = request_count u + request_count v, input_tokens = input_tokens u + input_tokens v,
      output_tokens = output_tokens u + output_tokens v, cost = flt_add (cost u) (cost v),
      wall_time_seconds = flt_add (wall_time_seconds u) (wall_time_seconds v)\<rparr>"

record budget_limits =
  l_request_count :: nat
  l_total_tokens :: nat
  l_cost :: pyfloat
  l_wall_time :: pyfloat
  l_concurrency :: nat

record budget_config =
  c_pricing :: "pricing option"
  c_agent :: budget_limits
  c_task :: budget_limits
  c_simulation :: budget_limits

definition default_budget :: budget_config where
  "default_budget =
     \<lparr>c_pricing = None,
      c_agent = \<lparr>l_request_count = 1000, l_total_tokens = 10000000, l_cost = Fin 100, l_wall_time = Fin 86400, l_concurrency = 0\<rparr>,
      c_task = \<lparr>l_request_count = 5000, l_total_tokens = 50000000, l_cost = Fin 500, l_wall_time = Fin 604800, l_concurrency = 0\<rparr>,
      c_simulation = \<lparr>l_request_count = 100000, l_total_tokens = 1000000000, l_cost = Fin 10000, l_wall_time = Fin 2592000,
        l_concurrency = 0\<rparr>\<rparr>"

definition estimate_llm_usage :: "string \<Rightarrow> nat list \<Rightarrow> int \<Rightarrow> int \<Rightarrow> pyfloat \<Rightarrow> pricing option \<Rightarrow> budget_usage" where
  "estimate_llm_usage model messages max_tokens timeout_ticks tick_seconds pr =
     (let i = estimate_input_tokens messages; out = max 0 max_tokens in
      \<lparr>request_count = 1, input_tokens = i, output_tokens = out, cost = estimate_cost model i out pr,
       wall_time_seconds = flt_mul (flt_pos (of_pyint timeout_ticks)) (flt_pos tick_seconds)\<rparr>)"

section \<open>The tracker\<close>

record in_flight_counts =
  f_agent :: int
  f_task :: int
  f_simulation :: int

record check_result =
  scope :: string
  dimension :: string
  current :: pyfloat
  limit :: pyfloat
  estimate :: pyfloat

record budget_tracker =
  config :: budget_config
  agent_usages :: "(string, budget_usage) dict"
  task_usages :: "(string, budget_usage) dict"
  simulation_usage :: budget_usage

definition new_tracker :: "budget_config option \<Rightarrow> budget_tracker" where
  "new_tracker c = \<lparr>config = (case c of None \<Rightarrow> default_budget | Some x \<Rightarrow> x), agent_usages = [], task_usages = [],
     simulation_usage = no_usage\<rparr>"

definition agent_usage :: "budget_tracker \<Rightarrow> string \<Rightarrow> budget_usage" where
  "agent_usage t a = (case dget (agent_usages t) a of None \<Rightarrow> no_usage | Some u \<Rightarrow> u)"

definition task_usage :: "budget_tracker \<Rightarrow> string \<Rightarrow> budget_usage" where
  "task_usage t x = (case dget (task_usages t) x of None \<Rightarrow> no_usage | Some u \<Rightarrow> u)"

definition charge :: "string \<Rightarrow> budget_usage \<Rightarrow> (string, budget_usage) dict \<Rightarrow> (string, budget_usage) dict" where
  "charge k u d = dset k (add_usage (case dget d k of None \<Rightarrow> no_usage | Some v \<Rightarrow> v) u) d"

definition record_llm :: "string \<Rightarrow> string \<Rightarrow> string \<Rightarrow> int \<Rightarrow> int \<Rightarrow> pyfloat option \<Rightarrow> pyfloat \<Rightarrow> pricing option \<Rightarrow> budget_tracker
    \<Rightarrow> budget_usage \<times> budget_tracker" where
  "record_llm ag tk model input output cost_given wall pr t =
     (let c = (case cost_given of
                 Some x \<Rightarrow> x
               | None \<Rightarrow> estimate_cost model input output (case pr of Some p \<Rightarrow> Some p | None \<Rightarrow> c_pricing (config t)));
          u = \<lparr>request_count = 1, input_tokens = max 0 input, output_tokens = max 0 output, cost = flt_pos c,
               wall_time_seconds = flt_pos wall\<rparr>
      in (u, t\<lparr>agent_usages := charge ag u (agent_usages t),
              task_usages := (if tk \<noteq> [] then charge tk u (task_usages t) else task_usages t),
              simulation_usage := add_usage (simulation_usage t) u\<rparr>))"

definition check_scope :: "string \<Rightarrow> budget_usage \<Rightarrow> budget_limits \<Rightarrow> budget_usage \<Rightarrow> check_result option" where
  "check_scope sc u l e =
     (if flt_lt (Fin 0) (l_cost l) \<and> flt_lt (l_cost l) (flt_add (cost u) (cost e)) then
        Some \<lparr>scope = sc, dimension = ''cost'', current = cost u, limit = l_cost l, estimate = cost e\<rparr>
      else if l_total_tokens l > 0 \<and> total_tokens u + total_tokens e > int (l_total_tokens l) then
        Some \<lparr>scope = sc, dimension = ''total_tokens'', current = of_pyint (total_tokens u),
              limit = of_pyint (int (l_total_tokens l)), estimate = of_pyint (total_tokens e)\<rparr>
      else if l_request_count l > 0 \<and> request_count u + request_count e > int (l_request_count l) then
        Some \<lparr>scope = sc, dimension = ''request_count'', current = of_pyint (request_count u),
              limit = of_pyint (int (l_request_count l)), estimate = of_pyint (request_count e)\<rparr>
      else if flt_lt (Fin 0) (l_wall_time l) \<and> flt_lt (l_wall_time l) (flt_add (wall_time_seconds u) (wall_time_seconds e)) then
        Some \<lparr>scope = sc, dimension = ''wall_time'', current = wall_time_seconds u, limit = l_wall_time l,
              estimate = wall_time_seconds e\<rparr>
      else None)"

definition too_many :: "string \<Rightarrow> int \<Rightarrow> int \<Rightarrow> int \<Rightarrow> check_result" where
  "too_many sc k cap n =
     \<lparr>scope = sc, dimension = ''concurrency'', current = of_pyint k, limit = of_pyint cap, estimate = of_pyint n\<rparr>"

definition check :: "string \<Rightarrow> string \<Rightarrow> budget_usage \<Rightarrow> in_flight_counts \<Rightarrow> int option \<Rightarrow> budget_config option \<Rightarrow> budget_tracker
    \<Rightarrow> check_result option" where
  "check ag tk e fly legacy lims t =
     (let caps = (case lims of Some x \<Rightarrow> x | None \<Rightarrow> config t);
          al = c_agent caps; tl = c_task caps; sl = c_simulation caps;
          cap = (case legacy of Some k \<Rightarrow> if l_concurrency al = 0 then k else int (l_concurrency al) | None \<Rightarrow> int (l_concurrency al));
          n = max 0 (request_count e)
      in if (cap > 0 \<or> legacy \<noteq> None \<and> cap = 0) \<and> f_agent fly + n > cap then Some (too_many ''agent'' (f_agent fly) cap n)
         else case check_scope ''agent'' (agent_usage t ag) al e of
           Some r \<Rightarrow> Some r
         | None \<Rightarrow>
             (case (if tk \<noteq> [] then
                      if l_concurrency tl > 0 \<and> f_task fly + n > int (l_concurrency tl)
                      then Some (too_many ''task'' (f_task fly) (int (l_concurrency tl)) n)
                      else check_scope ''task'' (task_usage t tk) tl e
                    else None) of
                Some r \<Rightarrow> Some r
              | None \<Rightarrow>
                  if l_concurrency sl > 0 \<and> f_simulation fly + n > int (l_concurrency sl)
                  then Some (too_many ''simulation'' (f_simulation fly) (int (l_concurrency sl)) n)
                  else check_scope ''simulation'' (simulation_usage t) sl e))"

section \<open>The check of a round\<close>

definition llm_in_flight_counts :: "string \<Rightarrow> string \<Rightarrow> registry \<Rightarrow> in_flight_counts" where
  "llm_in_flight_counts ag tk g =
     (let ops = filter (\<lambda>op. op_type op = LLM_REQUEST \<and> in_flight op) (dvals (operations g)) in
      \<lparr>f_agent = int (length (filter (\<lambda>op. agent_id op = ag) ops)),
       f_task = int (length (filter (\<lambda>op. tk \<noteq> [] \<and> task_id op = tk) ops)), f_simulation = int (length ops)\<rparr>)"

definition round_task :: "llm_intent list \<Rightarrow> string" where
  "round_task xs = (case find (\<lambda>x. i_task_id x \<noteq> []) xs of Some x \<Rightarrow> i_task_id x | None \<Rightarrow> [])"

definition round_estimate :: "pyfloat \<Rightarrow> pricing option \<Rightarrow> llm_intent list \<Rightarrow> budget_usage" where
  "round_estimate secs pr xs =
     fold (\<lambda>x e. add_usage e (estimate_llm_usage (i_model x) (i_messages x) (i_max_tokens x) (i_timeout x) secs pr)) xs no_usage"

definition budget_rejection :: "pyfloat \<Rightarrow> int \<Rightarrow> budget_config \<Rightarrow> string \<Rightarrow> llm_intent list \<Rightarrow> registry \<Rightarrow> budget_tracker
    \<Rightarrow> check_result option" where
  "budget_rejection secs max_concurrent caps ag xs g t =
     (let tk = round_task xs in
      check ag tk (round_estimate secs (c_pricing caps) xs) (llm_in_flight_counts ag tk g) (Some max_concurrent) (Some caps) t)"


section \<open>A round that passed stays within the caps\<close>

text \<open>A usage that stays within the caps of a scope; a cap of zero is none.\<close>

definition fits :: "budget_limits \<Rightarrow> budget_usage \<Rightarrow> bool" where
  "fits l u \<longleftrightarrow>
     \<not> (flt_lt (Fin 0) (l_cost l) \<and> flt_lt (l_cost l) (cost u))
   \<and> (l_total_tokens l = 0 \<or> total_tokens u \<le> int (l_total_tokens l))
   \<and> (l_request_count l = 0 \<or> request_count u \<le> int (l_request_count l))
   \<and> \<not> (flt_lt (Fin 0) (l_wall_time l) \<and> flt_lt (l_wall_time l) (wall_time_seconds u))"

text \<open>What was charged is at most what was estimated.\<close>

definition at_most :: "budget_usage \<Rightarrow> budget_usage \<Rightarrow> bool" where
  "at_most u e \<longleftrightarrow> request_count u \<le> request_count e \<and> total_tokens u \<le> total_tokens e
     \<and> flt_le (cost u) (cost e) \<and> flt_le (wall_time_seconds u) (wall_time_seconds e)"

lemma total_tokens_add [simp]: "total_tokens (add_usage u v) = total_tokens u + total_tokens v"
  by (simp add: total_tokens_def add_usage_def)

lemma add_usage_fields [simp]: "request_count (add_usage u v) = request_count u + request_count v"
  "cost (add_usage u v) = flt_add (cost u) (cost v)"
  "wall_time_seconds (add_usage u v) = flt_add (wall_time_seconds u) (wall_time_seconds v)"
  by (simp_all add: add_usage_def)

lemma check_scope_None: "check_scope sc u l e = None \<longleftrightarrow> fits l (add_usage u e)"
  by (simp add: check_scope_def fits_def not_less)

text \<open>The first cap that is exceeded is reported, with the numbers that show it.\<close>

lemma check_scope_Some:
  "check_scope sc u l e = Some r \<Longrightarrow> scope r = sc \<and> flt_lt (limit r) (flt_add (current r) (estimate r))"
  by (auto simp: check_scope_def of_pyint_def split: if_splits)

lemma flt_add_mono: "\<not> flt_lt l (flt_add a e) \<Longrightarrow> flt_le u e \<Longrightarrow> \<not> flt_lt l (flt_add a u)"
  by (cases l; cases a; cases e; cases u) auto

lemma fits_mono: "fits l (add_usage v e) \<Longrightarrow> at_most u e \<Longrightarrow> fits l (add_usage v u)"
  unfolding fits_def at_most_def using flt_add_mono by (auto dest: flt_add_mono)

lemma check_None:
  assumes "check ag tk e fly legacy lims t = None"
  defines "caps \<equiv> (case lims of Some x \<Rightarrow> x | None \<Rightarrow> config t)"
  shows "fits (c_agent caps) (add_usage (agent_usage t ag) e)"
    and "tk \<noteq> [] \<Longrightarrow> fits (c_task caps) (add_usage (task_usage t tk) e)"
    and "fits (c_simulation caps) (add_usage (simulation_usage t) e)"
proof -
  have "check_scope ''agent'' (agent_usage t ag) (c_agent caps) e = None"
    "tk \<noteq> [] \<Longrightarrow> check_scope ''task'' (task_usage t tk) (c_task caps) e = None"
    "check_scope ''simulation'' (simulation_usage t) (c_simulation caps) e = None"
    using assms(1) unfolding check_def Let_def caps_def [symmetric]
    by (simp_all del: not_None_eq split: if_split_asm option.split_asm)
  then show "fits (c_agent caps) (add_usage (agent_usage t ag) e)"
    "tk \<noteq> [] \<Longrightarrow> fits (c_task caps) (add_usage (task_usage t tk) e)"
    "fits (c_simulation caps) (add_usage (simulation_usage t) e)"
    by (simp_all add: check_scope_None)
qed

lemma record_usages:
  assumes "record_llm ag tk model i n c w pr t = (u, t')"
  shows "agent_usage t' b = (if b = ag then add_usage (agent_usage t ag) u else agent_usage t b)"
    and "task_usage t' x = (if tk \<noteq> [] \<and> x = tk then add_usage (task_usage t tk) u else task_usage t x)"
    and "simulation_usage t' = add_usage (simulation_usage t) u"
    and "config t' = config t"
  using assms by (auto simp: record_llm_def Let_def agent_usage_def task_usage_def charge_def)

text \<open>
  A round that passes the check, and is then charged at most its estimate, leaves its agent, its task and
  the simulation within their caps, and every other agent and task as it was.
\<close>

theorem checked_round_fits_caps:
  assumes "check ag tk e fly legacy (Some caps) t = None" and "record_llm ag tk model i n c w pr t = (u, t')" and "at_most u e"
  shows "fits (c_agent caps) (agent_usage t' ag) \<and> (tk \<noteq> [] \<longrightarrow> fits (c_task caps) (task_usage t' tk))
    \<and> fits (c_simulation caps) (simulation_usage t')
    \<and> (\<forall>b. b \<noteq> ag \<longrightarrow> agent_usage t' b = agent_usage t b) \<and> (\<forall>x. x \<noteq> tk \<longrightarrow> task_usage t' x = task_usage t x)"
  using check_None [OF assms(1)] fits_mono [OF _ assms(3)] record_usages [OF assms(2)] by simp

text \<open>Concurrency: a round that passes leaves room for its requests.\<close>

lemma checked_round_fits:
  assumes "budget_rejection secs cap caps ag xs g t = None" and "l_concurrency (c_agent caps) = 0" and "0 \<le> cap"
  shows "int (count_in_flight ag (Some LLM_REQUEST) g + length xs) \<le> cap"
proof -
  have "request_count (fold (\<lambda>x e. add_usage e (estimate_llm_usage (i_model x) (i_messages x) (i_max_tokens x) (i_timeout x) secs p)) ys e0)
      = request_count e0 + int (length ys)" for p ys e0
    by (induction ys arbitrary: e0) (simp_all add: estimate_llm_usage_def Let_def)
  from this [of "c_pricing caps" xs no_usage] have n: "request_count (round_estimate secs (c_pricing caps) xs) = int (length xs)"
    by (simp add: round_estimate_def) (simp add: no_usage_def)
  have f: "f_agent (llm_in_flight_counts ag (round_task xs) g) = int (count_in_flight ag (Some LLM_REQUEST) g)"
    by (simp add: llm_in_flight_counts_def count_in_flight_def Let_def conj_ac)
  show ?thesis
    using assms unfolding budget_rejection_def check_def Let_def n f by (auto split: if_splits)
qed


section \<open>Rounds that overlap\<close>

abbreviation no_caps :: budget_limits where
  "no_caps \<equiv> \<lparr>l_request_count = 0, l_total_tokens = 0, l_cost = Fin 0, l_wall_time = Fin 0, l_concurrency = 0\<rparr>"

abbreviation one_call :: budget_config where
  "one_call \<equiv> \<lparr>c_pricing = None, c_agent = no_caps\<lparr>l_request_count := 1\<rparr>, c_task = no_caps, c_simulation = no_caps\<rparr>"

definition charged_twice :: budget_tracker where
  "charged_twice = snd (record_llm ''a'' '''' '''' 1 1 None (Fin 0) None
     (snd (record_llm ''a'' '''' '''' 1 1 None (Fin 0) None (new_tracker (Some one_call)))))"

text \<open>
  Requests are charged when their results arrive.  Until then the cumulative caps do not see them: with a cap
  of one request and one in flight, a second round passes, and the cap is exceeded when both are charged.
\<close>

lemma caps_overrun_in_flight:
  "budget_rejection (Fin 1) 2 one_call ''a'' [request ''r1''] new_registry (new_tracker (Some one_call)) = None"
  "budget_rejection (Fin 1) 2 one_call ''a'' [request ''r2''] one_request (new_tracker (Some one_call)) = None"
  "\<not> fits (c_agent one_call) (agent_usage charged_twice ''a'')"
proof -
  have "llm_in_flight_counts ''a'' [] new_registry = \<lparr>f_agent = 0, f_task = 0, f_simulation = 0\<rparr>"
    "llm_in_flight_counts ''a'' [] one_request = \<lparr>f_agent = 1, f_task = 0, f_simulation = 1\<rparr>" by code_simp+
  then show "budget_rejection (Fin 1) 2 one_call ''a'' [request ''r1''] new_registry (new_tracker (Some one_call)) = None"
    "budget_rejection (Fin 1) 2 one_call ''a'' [request ''r2''] one_request (new_tracker (Some one_call)) = None"
    by (simp_all add: budget_rejection_def check_def check_scope_def round_task_def round_estimate_def estimate_llm_usage_def
        agent_usage_def new_tracker_def no_usage_def Let_def)
  have "request_count (agent_usage charged_twice ''a'') = 2"
    by (simp add: charged_twice_def record_llm_def Let_def agent_usage_def charge_def new_tracker_def no_usage_def)
  then show "\<not> fits (c_agent one_call) (agent_usage charged_twice ''a'')" by (simp add: fits_def)
qed

text \<open>Of the tasks of a round only the first is checked.\<close>

lemma first_task_only:
  "i_task_id x \<noteq> [] \<Longrightarrow> round_task (x # xs) = i_task_id x"
  by (simp add: round_task_def)

end
