(* ===== verification/SharedKB.thy ===== *)
theory SharedKB
  imports PyString
begin

text \<open>
  The shared knowledge base of the archived engine (\<^verbatim>\<open>legacy/shared_kb.py\<close>): permission rules on paths,
  version numbers, exclusive locks with leases, and the store of resources that checks all three.  A lock,
  a version and a resource are values: no caller keeps an object of the store across an operation.  The
  random token of a lock is an argument.
\<close>

datatype kb_error =
    SharedKBWriteError string string
  | VersionConflictError string int int
  | LockConflictError string string
  | LockTokenError string string
  | ResourceInvalid string

section \<open>Permissions\<close>

datatype permission_op = LIST | READ | CREATE | WRITE | APPEND | RENAME | DELETE | LOCK | UNLOCK | PUBLISH

fun op_value :: "permission_op \<Rightarrow> string" where
  "op_value LIST = ''list''"
| "op_value READ = ''read''"
| "op_value CREATE = ''create''"
| "op_value WRITE = ''write''"
| "op_value APPEND = ''append''"
| "op_value RENAME = ''rename''"
| "op_value DELETE = ''delete''"
| "op_value LOCK = ''lock''"
| "op_value UNLOCK = ''unlock''"
| "op_value PUBLISH = ''publish''"

record permission_rule =
  scope :: string
  principal :: string
  allow :: "string list"

type_synonym permission_engine = "permission_rule list"

definition add_rule :: "permission_rule \<Rightarrow> permission_engine \<Rightarrow> permission_engine" where
  "add_rule r rs = rs @ [r]"

definition add_rules :: "permission_rule list \<Rightarrow> permission_engine \<Rightarrow> permission_engine" where
  "add_rules new rs = rs @ new"

definition path_matches :: "string \<Rightarrow> string \<Rightarrow> bool" where
  "path_matches path scp =
     (let p = strip_char (CHR ''/'') path; s = strip_char (CHR ''/'') scp in
      if p = s then True
      else if s \<noteq> [] \<and> last s = CHR ''*'' then is_prefix (butlast s) p
      else is_prefix (s @ ''/'') p)"

definition rule_applies :: "string \<Rightarrow> string \<Rightarrow> permission_rule \<Rightarrow> bool" where
  "rule_applies who path r \<longleftrightarrow> principal r = who \<and> path_matches path (scope r)"

definition check :: "permission_engine \<Rightarrow> string \<Rightarrow> string \<Rightarrow> string \<Rightarrow> bool" where
  "check rs who path op = list_ex (\<lambda>r. rule_applies who path r \<and> op \<in> set (allow r)) rs"

definition get_allowed_ops :: "permission_engine \<Rightarrow> string \<Rightarrow> string \<Rightarrow> string set" where
  "get_allowed_ops rs who path = set (concat (map allow (filter (rule_applies who path) rs)))"

section \<open>Versions\<close>

record version_info =
  vi_path :: string
  vi_version :: int
  vi_modified_by :: string
  vi_modified_at_tick :: int

type_synonym version_control = "(string, version_info) dict"

definition get_version :: "version_control \<Rightarrow> string \<Rightarrow> int" where
  "get_version vs path = (case dget vs path of Some i \<Rightarrow> vi_version i | None \<Rightarrow> 0)"

definition get_info :: "version_control \<Rightarrow> string \<Rightarrow> version_info option" where
  "get_info vs path = dget vs path"

definition check_version :: "version_control \<Rightarrow> string \<Rightarrow> int \<Rightarrow> bool" where
  "check_version vs path v \<longleftrightarrow> get_version vs path = v"

definition increment :: "string \<Rightarrow> string \<Rightarrow> int \<Rightarrow> version_control \<Rightarrow> version_control" where
  "increment path who tick vs =
     (let v = (case dget vs path of Some i \<Rightarrow> vi_version i + 1 | None \<Rightarrow> 1)
      in dset path \<lparr>vi_path = path, vi_version = v, vi_modified_by = who, vi_modified_at_tick = tick\<rparr> vs)"

definition assert_version :: "version_control \<Rightarrow> string \<Rightarrow> int \<Rightarrow> kb_error + unit" where
  "assert_version vs path v =
     (if get_version vs path \<noteq> v then Inl (VersionConflictError path v (get_version vs path)) else Inr ())"

section \<open>Locks\<close>

datatype lock_status = ACTIVE | EXPIRED | RELEASED

record lock_info =
  lock_id :: string
  locked :: string
  owner_agent_id :: string
  mode :: string
  acquired_at_tick :: int
  lease_until_tick :: int
  lock_status :: lock_status
  token :: string

record lock_manager =
  locks :: "(string, lock_info) dict"
  lock_counter :: nat
  default_lease_ticks :: int

definition new_lock_manager :: "int \<Rightarrow> lock_manager" where
  "new_lock_manager d = \<lparr>locks = [], lock_counter = 0, default_lease_ticks = d\<rparr>"

text \<open>\<^verbatim>\<open>lease_ticks or self._default_lease_ticks\<close>: a lease of zero ticks is the default, too.\<close>

definition lease :: "lock_manager \<Rightarrow> int option \<Rightarrow> int" where
  "lease m l = (case l of Some n \<Rightarrow> if n \<noteq> 0 then n else default_lease_ticks m | None \<Rightarrow> default_lease_ticks m)"

text \<open>\<^verbatim>\<open>f"lock.{n:06d}"\<close>\<close>

definition lock_name :: "nat \<Rightarrow> string" where
  "lock_name n = ''lock.'' @ padded n"

definition held :: "lock_manager \<Rightarrow> string \<Rightarrow> int \<Rightarrow> lock_info option" where
  "held m r tick = (case dget (locks m) r of
       Some l \<Rightarrow> if lock_status l = ACTIVE \<and> lease_until_tick l > tick then Some l else None
     | None \<Rightarrow> None)"

definition acquire :: "string \<Rightarrow> string \<Rightarrow> string \<Rightarrow> int \<Rightarrow> int option \<Rightarrow> lock_manager \<Rightarrow> kb_error + lock_info \<times> lock_manager" where
  "acquire tok r who tick l m =
     (case held m r tick of
        Some old \<Rightarrow> Inl (LockConflictError r (owner_agent_id old))
      | None \<Rightarrow>
          let n = lock_counter m + 1;
              new = \<lparr>lock_id = lock_name n, locked = r, owner_agent_id = who, mode = ''exclusive'',
                     acquired_at_tick = tick, lease_until_tick = tick + lease m l, lock_status = ACTIVE, token = tok\<rparr>
          in Inr (new, m\<lparr>lock_counter := n, locks := dset r new (locks m)\<rparr>))"

definition release :: "string \<Rightarrow> string \<Rightarrow> string \<Rightarrow> lock_manager \<Rightarrow> kb_error + lock_manager" where
  "release r who tok m =
     (case dget (locks m) r of
        None \<Rightarrow> Inl (LockTokenError r ''release'')
      | Some l \<Rightarrow>
          if lock_status l \<noteq> ACTIVE then Inl (LockTokenError r ''release'')
          else if token l \<noteq> tok then Inl (LockTokenError r ''release'')
          else if owner_agent_id l \<noteq> who then Inl (LockTokenError r ''release'')
          else Inr (m\<lparr>locks := dset r (l\<lparr>lock_status := RELEASED\<rparr>) (locks m)\<rparr>))"

definition renew :: "string \<Rightarrow> string \<Rightarrow> int \<Rightarrow> string \<Rightarrow> int option \<Rightarrow> lock_manager \<Rightarrow> kb_error + bool \<times> lock_manager" where
  "renew r who tick tok ls m =
     (case dget (locks m) r of
        None \<Rightarrow> Inr (False, m)
      | Some l \<Rightarrow>
          if lock_status l \<noteq> ACTIVE then Inr (False, m)
          else if token l \<noteq> tok then Inl (LockTokenError r ''renew'')
          else if owner_agent_id l \<noteq> who then Inr (False, m)
          else if lease_until_tick l \<le> tick then Inr (False, m)
          else Inr (True, m\<lparr>locks := dset r (l\<lparr>lease_until_tick := tick + lease m ls\<rparr>) (locks m)\<rparr>))"

definition overdue :: "int \<Rightarrow> lock_info \<Rightarrow> bool" where
  "overdue tick l \<longleftrightarrow> lock_status l = ACTIVE \<and> lease_until_tick l \<le> tick"

definition check_expired :: "int \<Rightarrow> lock_manager \<Rightarrow> lock_info list \<times> lock_manager" where
  "check_expired tick m =
     (let mark = (\<lambda>l. l\<lparr>lock_status := EXPIRED\<rparr>) in
      (map mark (filter (overdue tick) (dvals (locks m))),
       m\<lparr>locks := map (\<lambda>(r, l). (r, if overdue tick l then mark l else l)) (locks m)\<rparr>))"

definition is_locked :: "lock_manager \<Rightarrow> string \<Rightarrow> int option \<Rightarrow> bool" where
  "is_locked m r tick =
     (case dget (locks m) r of
        None \<Rightarrow> False
      | Some l \<Rightarrow>
          if lock_status l \<noteq> ACTIVE then False
          else case tick of Some t \<Rightarrow> \<not> lease_until_tick l \<le> t | None \<Rightarrow> True)"

definition get_lock :: "lock_manager \<Rightarrow> string \<Rightarrow> lock_info option" where
  "get_lock m r = (case dget (locks m) r of
       Some l \<Rightarrow> if lock_status l = ACTIVE then Some l else None
     | None \<Rightarrow> None)"

definition active_locks :: "lock_manager \<Rightarrow> lock_info list" where
  "active_locks m = filter (\<lambda>l. lock_status l = ACTIVE) (dvals (locks m))"

definition count_locks :: "lock_manager \<Rightarrow> nat" where
  "count_locks m = length (active_locks m)"

section \<open>The store\<close>

record kb_resource =
  kb_path :: string
  kb_content :: pyval
  kb_version :: int
  kb_modified_by :: string
  kb_modified_at_tick :: int
  kb_exists :: bool

record shared_kb =
  permissions :: permission_engine
  kb_locks :: lock_manager
  versions :: version_control
  resources :: "(string, kb_resource) dict"

definition new_shared_kb :: "permission_engine \<Rightarrow> int \<Rightarrow> shared_kb" where
  "new_shared_kb rs d = \<lparr>permissions = rs, kb_locks = new_lock_manager d, versions = [], resources = []\<rparr>"

definition permitted :: "shared_kb \<Rightarrow> string \<Rightarrow> string \<Rightarrow> permission_op \<Rightarrow> bool" where
  "permitted kb who path op = check (permissions kb) who path (op_value op)"

definition existing :: "shared_kb \<Rightarrow> string \<Rightarrow> kb_resource option" where
  "existing kb path = (case dget (resources kb) path of
       Some r \<Rightarrow> if kb_exists r then Some r else None
     | None \<Rightarrow> None)"

definition denied :: "string \<Rightarrow> string \<Rightarrow> string \<Rightarrow> kb_error" where
  "denied path who verb = SharedKBWriteError path (''Permission denied: '' @ who @ '' cannot '' @ verb)"

definition store :: "string \<Rightarrow> string \<Rightarrow> int \<Rightarrow> kb_resource \<Rightarrow> shared_kb \<Rightarrow> shared_kb" where
  "store path who tick r kb =
     kb\<lparr>resources := dset path r (resources kb), versions := increment path who tick (versions kb)\<rparr>"

text \<open>
  The content is declared a text.  The constructor of a resource checks that and raises; an assignment to a field checks
  nothing, so that a write stores whatever value it is given.
\<close>

definition create :: "string \<Rightarrow> string \<Rightarrow> pyval \<Rightarrow> int \<Rightarrow> shared_kb \<Rightarrow> kb_error + kb_resource \<times> shared_kb" where
  "create path who body tick kb =
     (if \<not> permitted kb who path CREATE then Inl (denied path who ''create'')
      else if existing kb path \<noteq> None then Inl (SharedKBWriteError path ''Resource already exists'')
      else if \<not> is_str body then Inl (ResourceInvalid path)
      else let r = \<lparr>kb_path = path, kb_content = body, kb_version = 1, kb_modified_by = who,
                    kb_modified_at_tick = tick, kb_exists = True\<rparr>
           in Inr (r, store path who tick r kb))"

definition read :: "string \<Rightarrow> string \<Rightarrow> shared_kb \<Rightarrow> kb_error + kb_resource" where
  "read path who kb =
     (if \<not> permitted kb who path READ then Inl (denied path who ''read'')
      else case existing kb path of
        None \<Rightarrow> Inl (SharedKBWriteError path ''Resource not found'')
      | Some r \<Rightarrow> Inr r)"

definition foreign_owner :: "shared_kb \<Rightarrow> string \<Rightarrow> string \<Rightarrow> string option" where
  "foreign_owner kb path who = (case get_lock (kb_locks kb) path of
       Some l \<Rightarrow> if owner_agent_id l \<noteq> who then Some (owner_agent_id l) else None
     | None \<Rightarrow> None)"

definition apply_committed :: "string \<Rightarrow> string \<Rightarrow> pyval \<Rightarrow> int \<Rightarrow> int \<Rightarrow> shared_kb \<Rightarrow> kb_error + kb_resource \<times> shared_kb" where
  "apply_committed path who body v tick kb =
     (if \<not> permitted kb who path WRITE then Inl (denied path who ''write'')
      else if \<not> is_locked (kb_locks kb) path None then Inl (SharedKBWriteError path ''Must hold lock to write'')
      else case foreign_owner kb path who of
        Some other \<Rightarrow> Inl (SharedKBWriteError path (''Lock held by '' @ other))
      | None \<Rightarrow> (case assert_version (versions kb) path v of
          Inl e \<Rightarrow> Inl e
        | Inr _ \<Rightarrow>
            let r = \<lparr>kb_path = (case dget (resources kb) path of Some old \<Rightarrow> kb_path old | None \<Rightarrow> path),
                     kb_content = body, kb_version = v + 1, kb_modified_by = who, kb_modified_at_tick = tick,
                     kb_exists = True\<rparr>
            in Inr (r, store path who tick r kb)))"

definition delete :: "string \<Rightarrow> string \<Rightarrow> shared_kb \<Rightarrow> kb_error + bool \<times> shared_kb" where
  "delete path who kb =
     (if \<not> permitted kb who path DELETE then Inl (denied path who ''delete'')
      else case existing kb path of
        None \<Rightarrow> Inr (False, kb)
      | Some r \<Rightarrow> Inr (True, kb\<lparr>resources := dset path (r\<lparr>kb_exists := False, kb_content := PStr []\<rparr>) (resources kb)\<rparr>))"

definition list_dir :: "string \<Rightarrow> string \<Rightarrow> shared_kb \<Rightarrow> kb_error + string list" where
  "list_dir path who kb =
     (if \<not> permitted kb who path LIST then Inl (denied path who ''list'')
      else let prefix = strip_char (CHR ''/'') path @ ''/''
           in Inr (map fst (filter (\<lambda>(p, r). kb_exists r \<and> is_prefix prefix p) (resources kb))))"

record hit =
  hit_path :: string
  hit_version :: int
  snippet :: pyval
  hit_modified_by :: string
  hit_modified_at_tick :: int

text \<open>
  \<^verbatim>\<open>q in path.lower() or q in res.content.lower()\<close>, and \<^verbatim>\<open>res.content[:200]\<close>, which also cuts a list; other values raise.
\<close>

definition mentions :: "string \<Rightarrow> string \<Rightarrow> kb_resource \<Rightarrow> bool res" where
  "mentions q p r =
     (if substr q (lower p) then Inr True
      else case kb_content r of PStr s \<Rightarrow> Inr (substr q (lower s)) | _ \<Rightarrow> Inl AttributeError)"

definition hit_of :: "string \<Rightarrow> kb_resource \<Rightarrow> hit res" where
  "hit_of p r =
     rbind (case kb_content r of PStr s \<Rightarrow> Inr (PStr (utf8_take 200 s)) | PList xs \<Rightarrow> Inr (PList (take 200 xs)) | _ \<Rightarrow> Inl TypeError) (\<lambda>x.
       Inr \<lparr>hit_path = p, hit_version = kb_version r, snippet = x,
            hit_modified_by = kb_modified_by r, hit_modified_at_tick = kb_modified_at_tick r\<rparr>)"

fun search_loop :: "shared_kb \<Rightarrow> string \<Rightarrow> string \<Rightarrow> string \<Rightarrow> int \<Rightarrow> (string \<times> kb_resource) list \<Rightarrow> hit list \<Rightarrow> hit list res" where
  "search_loop kb who q base limit [] hits = Inr hits"
| "search_loop kb who q base limit ((p, r) # rs) hits =
     (if \<not> kb_exists r then search_loop kb who q base limit rs hits
      else if base \<noteq> [] \<and> \<not> is_prefix (base @ ''/'') p then search_loop kb who q base limit rs hits
      else if \<not> permitted kb who p READ then search_loop kb who q base limit rs hits
      else case mentions q p r of
        Inl e \<Rightarrow> Inl e
      | Inr m \<Rightarrow>
          if m then
            (case hit_of p r of
               Inl e \<Rightarrow> Inl e
             | Inr h \<Rightarrow>
                 let hits = hits @ [h] in
                 if int (length hits) \<ge> limit then Inr hits else search_loop kb who q base limit rs hits)
          else search_loop kb who q base limit rs hits)"

definition search :: "string \<Rightarrow> string \<Rightarrow> string \<Rightarrow> int \<Rightarrow> shared_kb \<Rightarrow> hit list res" where
  "search query who base_path limit kb =
     (let q = lower (strip query) in
      if q = [] then Inr []
      else search_loop kb who q (strip_char (CHR ''/'') base_path) limit (resources kb) [])"

definition get_resource :: "string \<Rightarrow> shared_kb \<Rightarrow> kb_resource option" where
  "get_resource path kb = dget (resources kb) path"

definition all_paths :: "shared_kb \<Rightarrow> string list" where
  "all_paths kb = map fst (filter (\<lambda>(p, r). kb_exists r) (resources kb))"

section \<open>Permissions are what the rules say\<close>

lemma check_allowed: "check rs who path op \<longleftrightarrow> op \<in> get_allowed_ops rs who path"
  by (auto simp: check_def get_allowed_ops_def list_ex_iff)

lemma check_add: "check (add_rule r rs) who path op \<longleftrightarrow> check rs who path op \<or> rule_applies who path r \<and> op \<in> set (allow r)"
  by (auto simp: check_def add_rule_def)

text \<open>Two stars are not a recursive pattern: the scope matches only paths in which a star stands literally.\<close>

lemma double_star_literal: "\<not> path_matches ''project/notes/a.md'' ''project/**''" "path_matches ''project/notes/a.md'' ''project/*''"
  by (simp_all add: path_matches_def strip_char_def)

section \<open>A lock is exclusive until its lease ends or its holder gives it back\<close>

datatype lock_op =
    Acquire string string string int "int option"
  | Release string string string
  | Renew string string int string "int option"
  | CheckExpired int

fun lock_step :: "lock_op \<Rightarrow> lock_manager \<Rightarrow> lock_manager" where
  "lock_step (Acquire tok r who tick l) m = (case acquire tok r who tick l m of Inr (_, m') \<Rightarrow> m' | Inl _ \<Rightarrow> m)"
| "lock_step (Release r who tok) m = (case release r who tok m of Inr m' \<Rightarrow> m' | Inl _ \<Rightarrow> m)"
| "lock_step (Renew r who tick tok l) m = (case renew r who tick tok l m of Inr (_, m') \<Rightarrow> m' | Inl _ \<Rightarrow> m)"
| "lock_step (CheckExpired tick) m = snd (check_expired tick m)"

text \<open>An operation does not disturb a lock if it comes before the end of the lease and is not the holder's own.\<close>

fun undisturbing :: "lock_info \<Rightarrow> lock_op \<Rightarrow> bool" where
  "undisturbing l (Acquire tok r who tick ls) \<longleftrightarrow> tick < lease_until_tick l"
| "undisturbing l (Release r who tok) \<longleftrightarrow> (r, who, tok) \<noteq> (locked l, owner_agent_id l, token l)"
| "undisturbing l (Renew r who tick tok ls) \<longleftrightarrow> (r, who, tok) \<noteq> (locked l, owner_agent_id l, token l)"
| "undisturbing l (CheckExpired tick) \<longleftrightarrow> tick < lease_until_tick l"

definition holds :: "lock_manager \<Rightarrow> lock_info \<Rightarrow> bool" where
  "holds m l \<longleftrightarrow> dget (locks m) (locked l) = Some l \<and> lock_status l = ACTIVE"

lemma acquire_holds: "acquire tok r who tick ls m = Inr (l, m') \<Longrightarrow> holds m' l \<and> locked l = r \<and> owner_agent_id l = who
    \<and> token l = tok \<and> lease_until_tick l = tick + lease m ls"
  by (auto simp: acquire_def holds_def Let_def split: option.splits)

lemma dget_marked: "dget (map (\<lambda>(r, l). (r, f l)) d) r = map_option f (dget d r)"
  by (induction d) auto

lemma holds_step: "holds m l \<Longrightarrow> undisturbing l oper \<Longrightarrow> holds (lock_step oper m) l"
  by (cases oper) (auto simp: holds_def acquire_def held_def release_def renew_def check_expired_def overdue_def Let_def
      dget_marked split: option.splits if_splits)

lemma holds_run: "holds m l \<Longrightarrow> list_all (undisturbing l) ops \<Longrightarrow> holds (fold lock_step ops m) l"
  by (induction ops arbitrary: m) (simp_all add: holds_step)

lemma holds_excludes: "holds m l \<Longrightarrow> tick < lease_until_tick l
    \<Longrightarrow> acquire tok (locked l) who tick ls m = Inl (LockConflictError (locked l) (owner_agent_id l))"
  by (simp add: holds_def acquire_def held_def)

lemma lease_ends: "holds m l \<Longrightarrow> lease_until_tick l \<le> tick \<Longrightarrow> \<exists>new m'. acquire tok (locked l) who tick ls m = Inr (new, m')"
  by (simp add: holds_def acquire_def held_def Let_def)

lemma release_needs_token: "holds m l \<Longrightarrow> (who, tok) \<noteq> (owner_agent_id l, token l)
    \<Longrightarrow> release (locked l) who tok m = Inl (LockTokenError (locked l) ''release'')"
  by (auto simp: holds_def release_def)

lemma release_frees: "holds m l \<Longrightarrow> \<exists>m'. release (locked l) (owner_agent_id l) (token l) m = Inr m' \<and> get_lock m' (locked l) = None"
  by (auto simp: holds_def release_def get_lock_def)

section \<open>No write is lost\<close>

text \<open>The operations of the store; one that raises changes nothing.\<close>

datatype kb_op =
    KBCreate string string pyval int
  | KBWrite string string pyval int int
  | KBDelete string string
  | KBLock lock_op
  | KBRule permission_rule

fun kb_step :: "kb_op \<Rightarrow> shared_kb \<Rightarrow> shared_kb" where
  "kb_step (KBCreate path who body tick) kb = (case create path who body tick kb of Inr (_, kb') \<Rightarrow> kb' | Inl _ \<Rightarrow> kb)"
| "kb_step (KBWrite path who body v tick) kb = (case apply_committed path who body v tick kb of Inr (_, kb') \<Rightarrow> kb' | Inl _ \<Rightarrow> kb)"
| "kb_step (KBDelete path who) kb = (case delete path who kb of Inr (_, kb') \<Rightarrow> kb' | Inl _ \<Rightarrow> kb)"
| "kb_step (KBLock oper) kb = kb\<lparr>kb_locks := lock_step oper (kb_locks kb)\<rparr>"
| "kb_step (KBRule r) kb = kb\<lparr>permissions := add_rule r (permissions kb)\<rparr>"

text \<open>
  The interface optimistic writers rely on: a step either raises the version or keeps what they have read.
\<close>

locale versioned =
  fixes step :: "'o \<Rightarrow> 's \<Rightarrow> 's" and version :: "'s \<Rightarrow> int" and kept :: "'s \<Rightarrow> 's \<Rightarrow> bool"
  assumes kept_refl: "kept s s"
    and kept_trans: "kept s t \<Longrightarrow> kept t u \<Longrightarrow> kept s u"
    and step_version: "version s < version (step x s) \<or> version (step x s) = version s \<and> kept s (step x s)"
begin

lemma version_mono: "version s \<le> version (fold step xs s)"
proof (induction xs arbitrary: s)
  case (Cons x xs)
  then show ?case using step_version [of s x] Cons [of "step x s"] by (metis dual_order.trans fold_Cons comp_apply less_imp_le order_refl)
qed simp

lemma same_version: "version (fold step xs s) = version s \<Longrightarrow> kept s (fold step xs s)"
proof (induction xs arbitrary: s)
  case (Cons x xs)
  have "version (step x s) \<le> version s" using version_mono [of "step x s" xs] Cons.prems by simp
  then have "version (step x s) = version s" "kept s (step x s)" using step_version [of s x] by auto
  then show ?case using Cons.IH [of "step x s"] Cons.prems kept_trans by auto
qed (simp add: kept_refl)

end

definition kept :: "string \<Rightarrow> shared_kb \<Rightarrow> shared_kb \<Rightarrow> bool" where
  "kept p kb kb' \<longleftrightarrow> dget (versions kb') p = dget (versions kb) p \<and> existing kb' p \<in> {existing kb p, None}"

lemma increment_version: "get_version (increment p who tick vs) q = (if q = p then get_version vs p + 1 else get_version vs q)"
  by (simp add: get_version_def increment_def Let_def split: option.splits)

lemma increment_other: "q \<noteq> p \<Longrightarrow> dget (increment p who tick vs) q = dget vs q"
  by (simp add: increment_def Let_def)

lemma store_simps [simp]:
  "get_version (versions (store p who tick r kb)) q = (if q = p then get_version (versions kb) p + 1 else get_version (versions kb) q)"
  "q \<noteq> p \<Longrightarrow> dget (versions (store p who tick r kb)) q = dget (versions kb) q"
  "existing (store p who tick r kb) q = (if q = p then if kb_exists r then Some r else None else existing kb q)"
  by (simp_all add: store_def increment_version increment_other existing_def)

lemma create_ok: "create p who text tick kb = Inr (r, kb') \<Longrightarrow> kb' = store p who tick r kb \<and> kb_exists r \<and> kb_version r = 1
    \<and> kb_path r = p \<and> existing kb p = None"
  by (auto simp: create_def Let_def split: if_splits)

lemma write_ok: "apply_committed p who text v tick kb = Inr (r, kb') \<longleftrightarrow>
    permitted kb who p WRITE \<and> (\<exists>l. get_lock (kb_locks kb) p = Some l \<and> owner_agent_id l = who)
    \<and> get_version (versions kb) p = v \<and> kb' = store p who tick r kb
    \<and> r = \<lparr>kb_path = (case dget (resources kb) p of Some old \<Rightarrow> kb_path old | None \<Rightarrow> p), kb_content = text,
           kb_version = v + 1, kb_modified_by = who, kb_modified_at_tick = tick, kb_exists = True\<rparr>"
  by (auto simp: apply_committed_def Let_def assert_version_def is_locked_def get_lock_def foreign_owner_def
      split: if_splits option.splits)

lemma delete_kept: "delete q who kb = Inr (b, kb') \<Longrightarrow> kept p kb kb'"
  by (auto simp: delete_def kept_def existing_def split: if_splits option.splits)

lemma kb_step_cases:
  obtains (Same) "versions (kb_step x kb) = versions kb" "resources (kb_step x kb) = resources kb"
  | (Stored) q who tick r where "kb_step x kb = store q who tick r kb"
  | (Deleted) q who b where "delete q who kb = Inr (b, kb_step x kb)"
proof (cases x)
  case (KBCreate q who body tick)
  show thesis
  proof (cases "create q who body tick kb")
    case (Inr y)
    obtain r kb' where "y = (r, kb')" by (cases y)
    with Inr KBCreate create_ok [of q who body tick kb r kb'] show thesis by (intro that(2)) simp
  qed (simp add: KBCreate that(1))
next
  case (KBWrite q who body v tick)
  show thesis
  proof (cases "apply_committed q who body v tick kb")
    case (Inr y)
    obtain r kb' where "y = (r, kb')" by (cases y)
    with Inr KBWrite write_ok [of q who body v tick kb r kb'] show thesis by (intro that(2)) simp
  qed (simp add: KBWrite that(1))
next
  case (KBDelete q who)
  show thesis
  proof (cases "delete q who kb")
    case (Inr y)
    obtain b kb' where "y = (b, kb')" by (cases y)
    with Inr KBDelete show thesis by (intro that(3)) simp
  qed (simp add: KBDelete that(1))
qed (simp_all add: that(1))

lemma kb_step_version:
  "get_version (versions kb) p < get_version (versions (kb_step x kb)) p
     \<or> get_version (versions (kb_step x kb)) p = get_version (versions kb) p \<and> kept p kb (kb_step x kb)"
proof (cases x kb rule: kb_step_cases)
  case Same
  then show ?thesis by (simp add: kept_def existing_def)
next
  case (Stored q who tick r)
  then show ?thesis by (cases "p = q") (simp_all add: kept_def)
next
  case (Deleted q who b)
  then show ?thesis using delete_kept [OF Deleted, of p] by (simp add: kept_def get_version_def)
qed

interpretation kbv: versioned kb_step "\<lambda>kb. get_version (versions kb) p" "kept p" for p
proof (unfold_locales, goal_cases)
  case (3 s x)
  show ?case by (rule kb_step_version)
qed (auto simp: kept_def)

section \<open>The store is well formed\<close>

definition locks_wf :: "lock_manager \<Rightarrow> bool" where
  "locks_wf m \<longleftrightarrow> (\<forall>r l. dget (locks m) r = Some l \<longrightarrow> locked l = r \<and> (\<exists>n \<le> lock_counter m. lock_id l = lock_name n))
     \<and> (\<forall>r l r' l'. dget (locks m) r = Some l \<and> dget (locks m) r' = Some l' \<and> lock_id l = lock_id l' \<longrightarrow> r = r')"

definition kb_wf :: "shared_kb \<Rightarrow> bool" where
  "kb_wf kb \<longleftrightarrow> dwf (resources kb) \<and> dkeys (versions kb) = dkeys (resources kb)
     \<and> (\<forall>p r. dget (resources kb) p = Some r \<longrightarrow> kb_path r = p \<and> 1 \<le> kb_version r \<and> kb_version r \<le> get_version (versions kb) p)
     \<and> (\<forall>p i. dget (versions kb) p = Some i \<longrightarrow> vi_path i = p) \<and> locks_wf (kb_locks kb)"

lemma locks_wfI:
  assumes "\<And>r l. dget (locks m) r = Some l \<Longrightarrow> locked l = r \<and> (\<exists>n \<le> lock_counter m. lock_id l = lock_name n)"
    and "\<And>r l r' l'. dget (locks m) r = Some l \<Longrightarrow> dget (locks m) r' = Some l' \<Longrightarrow> lock_id l = lock_id l' \<Longrightarrow> r = r'"
  shows "locks_wf m"
  using assms unfolding locks_wf_def by blast

lemma locks_wfD:
  assumes "locks_wf m" "dget (locks m) r = Some l"
  shows "locked l = r" "\<exists>n \<le> lock_counter m. lock_id l = lock_name n"
    and "dget (locks m) r' = Some l' \<Longrightarrow> lock_id l = lock_id l' \<Longrightarrow> r = r'"
  using assms unfolding locks_wf_def by blast+

lemma locks_wf_set:
  assumes "locks_wf m" "dget (locks m) r = Some l" "locked l' = r" "lock_id l' = lock_id l"
  shows "locks_wf (m\<lparr>locks := dset r l' (locks m)\<rparr>)"
proof (rule locks_wfI, goal_cases)
  case (1 q k)
  then show ?case using locks_wfD(1,2) [OF assms(1)] assms(2-4) by (cases "q = r") auto
next
  case (2 q k q' k')
  then show ?case using locks_wfD(3) [OF assms(1)] assms(2-4) by (cases "q = r"; cases "q' = r") auto
qed

lemma lock_name_inject [simp]: "lock_name m = lock_name n \<longleftrightarrow> m = n"
  by (simp add: lock_name_def)

lemma locks_wf_new:
  assumes w: "locks_wf m" and l: "locked l = r" "lock_id l = lock_name (lock_counter m + 1)"
  shows "locks_wf (m\<lparr>lock_counter := lock_counter m + 1, locks := dset r l (locks m)\<rparr>)"
proof (rule locks_wfI, goal_cases)
  case (1 q k)
  then show ?case using locks_wfD(1,2) [OF w, of q k] l by (cases "q = r") (auto intro: le_SucI)
next
  case (2 q k q' k')
  have fresh: "lock_id x \<noteq> lock_id l" if "dget (locks m) y = Some x" for x y
    using locks_wfD(2) [OF w that] l(2) by auto
  show ?case
  proof (cases "q = r"; cases "q' = r")
    assume "q \<noteq> r" "q' \<noteq> r"
    then show ?thesis using 2 locks_wfD(3) [OF w, of q k q' k'] by simp
  qed (use 2 fresh in auto)
qed

lemma locks_wf_map:
  assumes w: "locks_wf m" and f: "\<And>l. locked (f l) = locked l \<and> lock_id (f l) = lock_id l"
  shows "locks_wf (m\<lparr>locks := map (\<lambda>(r, l). (r, f l)) (locks m)\<rparr>)"
proof (rule locks_wfI, goal_cases)
  case (1 r l)
  then obtain k where "dget (locks m) r = Some k" "l = f k" by (auto simp: dget_marked)
  then show ?case using locks_wfD(1,2) [OF w] f by simp
next
  case (2 r l r' l')
  then obtain k k' where "dget (locks m) r = Some k" "l = f k" "dget (locks m) r' = Some k'" "l' = f k'" by (auto simp: dget_marked)
  then show ?case using locks_wfD(3) [OF w] f 2(3) by simp
qed

lemma locks_wf_step: "locks_wf m \<Longrightarrow> locks_wf (lock_step oper m)"
proof (cases oper)
  case (Acquire tok r who tick l)
  assume "locks_wf m"
  then show ?thesis using locks_wf_new [of m _ r] by (simp add: Acquire acquire_def Let_def split: option.split)
next
  case (Release r who tok)
  assume w: "locks_wf m"
  note named = locks_wfD(1) [OF w]
  from w named show ?thesis by (simp add: Release release_def locks_wf_set split: option.split)
next
  case (Renew r who tick tok ls)
  assume w: "locks_wf m"
  note named = locks_wfD(1) [OF w]
  from w named show ?thesis by (simp add: Renew renew_def locks_wf_set split: option.split)
next
  case (CheckExpired tick)
  assume "locks_wf m"
  then show ?thesis by (simp add: CheckExpired check_expired_def Let_def locks_wf_map)
qed

lemma kb_wf_store:
  assumes "kb_wf kb" "kb_path r = p" "1 \<le> kb_version r" "kb_version r \<le> get_version (versions kb) p + 1"
  shows "kb_wf (store p who tick r kb)"
proof -
  have k: "dget (versions kb) p = None \<longleftrightarrow> dget (resources kb) p = None"
    using assms(1) unfolding kb_wf_def by (metis dkeys_iff)
  have "dkeys (versions (store p who tick r kb)) = dkeys (resources (store p who tick r kb))"
    using assms(1) k by (simp add: store_def increment_def Let_def dkeys_dset kb_wf_def)
  moreover have "vi_path i = q" if "dget (versions (store p who tick r kb)) q = Some i" for q i
    using that assms(1) by (auto simp: store_def increment_def Let_def kb_wf_def split: if_splits)
  moreover have "kb_path x = q \<and> 1 \<le> kb_version x \<and> kb_version x \<le> get_version (versions (store p who tick r kb)) q"
    if "dget (resources (store p who tick r kb)) q = Some x" for q x
    using that assms by (auto simp: store_def increment_version kb_wf_def split: if_splits)
  moreover have "dwf (resources (store p who tick r kb))" "locks_wf (kb_locks (store p who tick r kb))"
    using assms(1) by (simp_all add: store_def kb_wf_def dwf_dset)
  ultimately show ?thesis unfolding kb_wf_def by blast
qed

lemma version_nonneg: "kb_wf kb \<Longrightarrow> 0 \<le> get_version (versions kb) p"
proof (cases "dget (versions kb) p")
  case (Some i)
  moreover assume w: "kb_wf kb"
  ultimately obtain r where "dget (resources kb) p = Some r" unfolding kb_wf_def by (metis dkeys_iff not_None_eq)
  then show ?thesis using w unfolding kb_wf_def by fastforce
qed (simp add: get_version_def)

lemma kb_wf_step: "kb_wf kb \<Longrightarrow> kb_wf (kb_step x kb)"
proof -
  assume w: "kb_wf kb"
  show ?thesis
  proof (cases x)
    case (KBCreate p who body tick)
    have "kb_wf kb'" if "create p who body tick kb = Inr (r, kb')" for r kb'
      using create_ok [OF that] kb_wf_store [OF w, of r p] version_nonneg [OF w, of p] by simp
    then show ?thesis using w by (auto simp: KBCreate split: sum.split)
  next
    case (KBWrite p who body v tick)
    have "kb_wf kb'" if "apply_committed p who body v tick kb = Inr (r, kb')" for r kb'
    proof -
      have "kb_path r = p" using that w by (auto simp: write_ok kb_wf_def split: option.splits)
      then show ?thesis using that kb_wf_store [OF w, of r p] version_nonneg [OF w, of p] by (auto simp: write_ok)
    qed
    then show ?thesis using w by (auto simp: KBWrite split: sum.split)
  next
    case (KBDelete p who)
    have "kb_wf kb'" if "delete p who kb = Inr (b, kb')" for b kb'
      using that w unfolding kb_wf_def
      by (auto simp: delete_def existing_def dwf_dset dkeys_dset split: if_splits option.splits)
    then show ?thesis using w by (auto simp: KBDelete split: sum.split)
  next
    case (KBLock oper)
    then show ?thesis using w locks_wf_step by (simp add: kb_wf_def)
  next
    case (KBRule r)
    then show ?thesis using w by (simp add: kb_wf_def)
  qed
qed

lemma kb_wf_run: "kb_wf kb \<Longrightarrow> kb_wf (fold kb_step ops kb)"
  by (induction ops arbitrary: kb) (simp_all add: kb_wf_step)

lemma kb_wf_new: "kb_wf (new_shared_kb rs d)"
  by (simp add: kb_wf_def new_shared_kb_def new_lock_manager_def locks_wf_def dwf_def dkeys_def)

section \<open>What a search shows\<close>

text \<open>In a store of texts a search returns, and its hits are the resources under the base path that the reader may read.\<close>

definition texts :: "(string \<times> kb_resource) list \<Rightarrow> bool" where
  "texts rs \<longleftrightarrow> list_all (\<lambda>(_, r). is_str (kb_content r)) rs"

definition text_hit :: "string \<Rightarrow> kb_resource \<Rightarrow> hit" where
  "text_hit p r = \<lparr>hit_path = p, hit_version = kb_version r,
     snippet = (case kb_content r of PStr s \<Rightarrow> PStr (utf8_take 200 s) | v \<Rightarrow> v),
     hit_modified_by = kb_modified_by r, hit_modified_at_tick = kb_modified_at_tick r\<rparr>"

definition found :: "shared_kb \<Rightarrow> string \<Rightarrow> string \<Rightarrow> string \<Rightarrow> string \<times> kb_resource \<Rightarrow> bool" where
  "found kb who q base = (\<lambda>(p, r). kb_exists r \<and> (base = [] \<or> is_prefix (base @ ''/'') p) \<and> permitted kb who p READ
     \<and> mentions q p r = Inr True)"

lemma text_mentions: "is_str (kb_content r) \<Longrightarrow> \<exists>b. mentions q p r = Inr b"
  by (cases "kb_content r") (auto simp: mentions_def)

lemma text_hit_of: "is_str (kb_content r) \<Longrightarrow> hit_of p r = Inr (text_hit p r)"
  by (cases "kb_content r") (simp_all add: hit_of_def text_hit_def)

lemma search_loop_take:
  "texts rs \<Longrightarrow> hits = [] \<or> int (length hits) < limit \<Longrightarrow> search_loop kb who q base limit rs hits =
     Inr (take (nat (max 1 limit)) (hits @ map (\<lambda>(p, r). text_hit p r) (filter (found kb who q base) rs)))"
proof (induction rs arbitrary: hits)
  case Nil
  then show ?case by auto
next
  case (Cons x rs)
  obtain p r where x: "x = (p, r)" by (cases x)
  have rs: "texts rs" and str: "is_str (kb_content r)" using Cons.prems(1) by (simp_all add: texts_def x)
  obtain b where b: "mentions q p r = Inr b" using text_mentions [OF str] by blast
  note hit = text_hit_of [OF str]
  let ?h = "hits @ [text_hit p r]"
  consider (full) "found kb who q base x" "limit \<le> int (length ?h)" | (more) "found kb who q base x" "int (length ?h) < limit"
    | (other) "\<not> found kb who q base x" by linarith
  then show ?case
  proof cases
    case full
    then have "nat (max 1 limit) = length ?h" using Cons.prems(2) by auto
    moreover have "search_loop kb who q base limit (x # rs) hits = Inr ?h" using full by (auto simp: x found_def b hit Let_def)
    ultimately show ?thesis using full(1) by (simp add: x)
  next
    case more
    then show ?thesis using Cons.IH [OF rs, of ?h] by (auto simp: x found_def b hit Let_def)
  next
    case other
    then show ?thesis using Cons.IH [OF rs, of hits] Cons.prems(2) by (auto simp: x found_def b)
  qed
qed

lemma search_found:
  "texts (resources kb) \<Longrightarrow> search query who base limit kb = Inr (if lower (strip query) = [] then [] else take (nat (max 1 limit))
     (map (\<lambda>(p, r). text_hit p r) (filter (found kb who (lower (strip query)) (strip_char (CHR ''/'') base)) (resources kb))))"
  by (simp add: search_def Let_def search_loop_take)

lemma search_readable:
  assumes "texts (resources kb)" "search query who base limit kb = Inr hits" "h \<in> set hits"
  shows "\<exists>r. dget (resources kb) (hit_path h) \<noteq> None \<and> permitted kb who (hit_path h) READ \<and> h = text_hit (hit_path h) r"
proof -
  obtain p r where m: "(p, r) \<in> set (resources kb)" "permitted kb who p READ" "h = text_hit p r"
    using assms(2,3) by (auto simp: search_found [OF assms(1)] found_def split: if_splits dest!: in_set_takeD)
  then have "dget (resources kb) p \<noteq> None" by (metis weak_map_of_SomeI option.distinct(1))
  with m show ?thesis by (auto simp: text_hit_def)
qed

section \<open>Two gaps between versions, leases and the store\<close>

text \<open>
  Creating a resource again after its deletion starts its own version at one, while the version control
  goes on counting: whoever writes with the version just read is refused.
\<close>

lemma recreated_unwritable:
  assumes "dget (versions kb) p = Some i" "1 \<le> vi_version i" "create p who body tick kb = Inr (r, kb')"
  shows "existing kb' p = Some r" "\<exists>e. apply_committed p who' body' (kb_version r) tick' kb' = Inl e"
proof -
  note c = create_ok [OF assms(3)]
  then show "existing kb' p = Some r" by simp
  have "get_version (versions kb') p \<noteq> kb_version r" using c assms(1,2) by (simp add: get_version_def [of "versions kb"])
  then show "\<exists>e. apply_committed p who' body' (kb_version r) tick' kb' = Inl e"
    using write_ok [of p who' body' "kb_version r" tick' kb']
    by (cases "apply_committed p who' body' (kb_version r) tick' kb'") auto
qed

text \<open>The write path asks for a lock without a tick, for which a lock whose lease has ended still counts.\<close>

lemma ended_lease_counts: "holds m l \<Longrightarrow> lease_until_tick l \<le> tick \<Longrightarrow> is_locked m (locked l) None \<and> \<not> is_locked m (locked l) (Some tick)"
  by (simp add: holds_def is_locked_def)

section \<open>Properties\<close>

text \<open>
  C36. A lock is exclusive.  After an acquisition, whatever other operations follow before the end of the
  lease that are not the holder's release or renewal, the lock is still held: an acquisition by anyone
  raises a conflict that names the holder, a release without the holder's name and token raises, the
  holder's own release frees the resource, and once the lease has ended anyone can acquire it.
\<close>

theorem lock_exclusive:
  assumes "acquire tok r who tick ls m = Inr (l, m0)" and "list_all (undisturbing l) ops"
    and "tick1 < lease_until_tick l" and "lease_until_tick l \<le> tick2" and "(who2, tok2) \<noteq> (who, tok)"
  shows "get_lock (fold lock_step ops m0) r = Some l \<and> lease_until_tick l = tick + lease m ls
    \<and> acquire tok1 r who1 tick1 ls1 (fold lock_step ops m0) = Inl (LockConflictError r who)
    \<and> release r who2 tok2 (fold lock_step ops m0) = Inl (LockTokenError r ''release'')
    \<and> (\<exists>m1. release r who tok (fold lock_step ops m0) = Inr m1 \<and> get_lock m1 r = None)
    \<and> (\<exists>l2 m2. acquire tok2 r who2 tick2 ls2 (fold lock_step ops m0) = Inr (l2, m2))"
proof -
  have a: "holds m0 l" "locked l = r" "owner_agent_id l = who" "token l = tok" "lease_until_tick l = tick + lease m ls"
    using acquire_holds [OF assms(1)] by simp_all
  have h: "holds (fold lock_step ops m0) l" using holds_run [OF a(1) assms(2)] .
  then have "get_lock (fold lock_step ops m0) r = Some l" using a(2) by (simp add: holds_def get_lock_def)
  then show ?thesis
    using holds_excludes [OF h assms(3)] release_needs_token [OF h, of who2 tok2] release_frees [OF h]
      lease_ends [OF h assms(4)] a(2-5) assms(5) by simp
qed

definition ex_lock :: "lock_info \<times> lock_manager" where
  "ex_lock = (case acquire ''t1'' ''project/a'' ''ana'' 0 None (new_lock_manager 4) of Inr x \<Rightarrow> x)"

definition ex_ops :: "lock_op list" where
  "ex_ops = [Acquire ''t2'' ''project/a'' ''bo'' 1 None, Release ''project/a'' ''bo'' ''t1'', CheckExpired 3,
     Acquire ''t3'' ''project/b'' ''bo'' 2 (Some 1)]"

theorem lock_exclusive_witness:
  "acquire ''t2'' ''project/a'' ''bo'' 3 None (fold lock_step ex_ops (snd ex_lock)) = Inl (LockConflictError ''project/a'' ''ana'')
   \<and> (\<exists>l m. acquire ''t2'' ''project/a'' ''bo'' 4 None (fold lock_step ex_ops (snd ex_lock)) = Inr (l, m))"
proof -
  have "acquire ''t1'' ''project/a'' ''ana'' 0 None (new_lock_manager 4) = Inr (fst ex_lock, snd ex_lock)"
    by (simp add: ex_lock_def acquire_def held_def new_lock_manager_def Let_def)
  from lock_exclusive [OF this, of ex_ops 3 4 "''bo''" "''t2''" "''t2''" "''bo''" None None]
  show ?thesis by (simp add: ex_lock_def ex_ops_def acquire_def held_def new_lock_manager_def Let_def lease_def)
qed

text \<open>
  C33. No write is lost.  Suppose a version was current, any operations followed (creations, writes and
  deletions by any agent, locking, new rules), and then a write that expects that version is accepted.
  Then nothing was written to the path in between: its version record is the same one and its content is
  the one that was current, unless it was deleted.  The write is what the next reader finds, one version up.
\<close>

theorem kb_no_lost_update:
  assumes "get_version (versions kb) p = v"
    and "apply_committed p who body v tick (fold kb_step ops kb) = Inr (r, kb')"
  shows "dget (versions (fold kb_step ops kb)) p = dget (versions kb) p
    \<and> existing (fold kb_step ops kb) p \<in> {existing kb p, None}
    \<and> existing kb' p = Some r \<and> kb_content r = body \<and> kb_version r = v + 1 \<and> get_version (versions kb') p = v + 1"
  using kbv.same_version [of ops kb p] assms by (auto simp: write_ok kept_def)

definition ex_kb :: shared_kb where
  "ex_kb = fold kb_step [KBCreate ''project/a'' ''ana'' (PStr ''one'') 0, KBLock (Acquire ''t1'' ''project/a'' ''ana'' 0 None)]
     (new_shared_kb [\<lparr>scope = ''project/*'', principal = ''ana'', allow = [''create'', ''write'', ''read'']\<rparr>] 4)"

definition ex_between :: "kb_op list" where
  "ex_between = [KBWrite ''project/a'' ''bo'' (PStr ''two'') 1 1, KBCreate ''project/b'' ''ana'' (PStr ''x'') 1]"

lemmas kb_eval = ex_kb_def ex_between_def new_shared_kb_def new_lock_manager_def create_def permitted_def check_def
  rule_applies_def path_matches_def strip_char_def existing_def store_def increment_def acquire_def held_def lease_def
  Let_def apply_committed_def is_locked_def get_lock_def foreign_owner_def assert_version_def get_version_def denied_def

theorem kb_no_lost_update_witness:
  "\<exists>r kb'. apply_committed ''project/a'' ''ana'' (PStr ''three'') 1 2 (fold kb_step ex_between ex_kb) = Inr (r, kb')
     \<and> existing (fold kb_step ex_between ex_kb) ''project/a'' \<in> {existing ex_kb ''project/a'', None} \<and> kb_version r = 2"
proof -
  have "\<exists>r kb'. apply_committed ''project/a'' ''ana'' (PStr ''three'') 1 2 (fold kb_step ex_between ex_kb) = Inr (r, kb')"
    by (simp add: kb_eval)
  then obtain r kb' where w: "apply_committed ''project/a'' ''ana'' (PStr ''three'') 1 2 (fold kb_step ex_between ex_kb) = Inr (r, kb')"
    by blast
  have "get_version (versions ex_kb) ''project/a'' = 1" by (simp add: kb_eval)
  from kb_no_lost_update [OF this w] w show ?thesis by auto
qed

text \<open>
  A write of a value that is no text is stored as it is, and from then on every search that looks at the resource raises.
\<close>

lemma untyped_write_breaks_search:
  "search ''two'' ''ana'' [] 20 (kb_step (KBWrite ''project/a'' ''ana'' (PInt 2) 1 2) ex_kb) = Inl AttributeError"
  "search ''two'' ''ana'' [] 20 ex_kb = Inr []"
  by code_simp+

text \<open>
  C35. Whatever operations are called on a new store, with whatever rules, it stays well formed: paths are
  stored once, every resource has a version record and stands under its own path, its version is positive
  and not ahead of the version control, and every lock stands under the resource it names, with an
  identifier no other lock has.
\<close>

theorem kb_well_formed: "kb_wf (fold kb_step ops (new_shared_kb rs d))"
  by (rule kb_wf_run [OF kb_wf_new])

end
