(* ===== verification/KBCommit.thy ===== *)
theory KBCommit
  imports SharedKB Task Transaction
begin

text \<open>
  The knowledge base in a tick of the archived engine: the tool handlers of \<^verbatim>\<open>legacy/shared_kb.py\<close>, which
  lock a resource and stage a write in the transaction buffer, and the part of the commit phase of
  \<^verbatim>\<open>legacy/simulation.py\<close> that validates, applies, inverts and rolls back effects on the knowledge base.
  Effects on the other stores (files, records, calendar, outbox, tasks) do not touch it; what becomes of
  them in a commit is an argument, because it decides whether the tick is rolled back.  The data of an
  effect on the knowledge base are the text and the version number that the handlers stage.
\<close>

section \<open>The handlers\<close>

record tool_result =
  success :: bool
  result_data :: pyval
  result_error :: "string option"
  error_code :: "string option"
  retryable :: bool
  result_agent :: string
  tool_name :: string
  result_tick :: int

datatype kb_audit =
    LOCK_CONFLICT string int string string
  | LOCK_ACQUIRED string int string int
  | LOCK_RELEASED string int string
  | SHARED_KB_READ string int string "string option"
  | TRANSACTION_ROLLBACK int string "string list"

record kb_tick =
  kb :: shared_kb
  txn :: buffer
  tick_locks :: "(string \<times> string \<times> string) list"
  audit :: "kb_audit list"
  rolled_back :: bool

definition succeeded :: "pyval \<Rightarrow> string \<Rightarrow> string \<Rightarrow> int \<Rightarrow> tool_result" where
  "succeeded d who tool tick = \<lparr>success = True, result_data = d, result_error = None, error_code = None, retryable = True,
     result_agent = who, tool_name = tool, result_tick = tick\<rparr>"

definition refused :: "string \<Rightarrow> string \<Rightarrow> bool \<Rightarrow> string \<Rightarrow> string \<Rightarrow> int \<Rightarrow> tool_result" where
  "refused m code again who tool tick = \<lparr>success = False, result_data = PNone, result_error = Some m, error_code = Some code,
     retryable = again, result_agent = who, tool_name = tool, result_tick = tick\<rparr>"

fun str_kb_error :: "kb_error \<Rightarrow> string" where
  "str_kb_error (SharedKBWriteError p m) = ''Write failed for '' @ p @ '': '' @ m"
| "str_kb_error (VersionConflictError p v w) = ''Version conflict for '' @ p @ '': expected '' @ str_int v @ '', actual '' @ str_int w"
| "str_kb_error (LockConflictError r a) = ''Cannot lock '' @ r @ '': already held by '' @ a"
| "str_kb_error (LockTokenError r m) = ''Lock '' @ m @ '' failed for '' @ r @ '': invalid token''"
| "str_kb_error (ResourceInvalid p) = ''validation error for '' @ p"

definition register_tick_lock :: "string \<Rightarrow> string \<Rightarrow> string \<Rightarrow> kb_tick \<Rightarrow> kb_tick" where
  "register_tick_lock r who tok t = t\<lparr>tick_locks := tick_locks t @ [(r, who, tok)]\<rparr>"

definition handle_kb_write :: "string \<Rightarrow> string \<Rightarrow> int \<Rightarrow> string \<Rightarrow> pyval \<Rightarrow> int \<Rightarrow> kb_tick \<Rightarrow> tool_result \<times> kb_tick" where
  "handle_kb_write tok who tick p body v t =
     (if \<not> check (permissions (kb t)) who p ''kb_write''
      then (refused (''Permission denied: '' @ p) ''permission_denied'' False who ''kb_write'' tick, t)
      else case acquire tok p who tick None (kb_locks (kb t)) of
        Inl e \<Rightarrow>
          (refused (str_kb_error e) ''LOCK_CONFLICT'' True who ''kb_write'' tick,
           t\<lparr>audit := audit t @ [LOCK_CONFLICT who tick p (case e of LockConflictError _ a \<Rightarrow> a | _ \<Rightarrow> [])]\<rparr>)
      | Inr (l, m) \<Rightarrow>
          let t = register_tick_lock p who (token l) (t\<lparr>kb := (kb t)\<lparr>kb_locks := m\<rparr>\<rparr>);
              t = t\<lparr>audit := audit t @ [LOCK_ACQUIRED who tick p (lease_until_tick l)]\<rparr>;
              (e, b) = stage KB_WRITE who p (Some [(''content'', body), (''expected_version'', PInt v)])
                         (Some v) (Some (token l)) [] ''per_effect'' (txn t)
          in (succeeded (PDict [(''staged'', PBool True)]) who ''kb_write'' tick, t\<lparr>txn := b\<rparr>))"

definition handle_kb_read :: "string \<Rightarrow> int \<Rightarrow> string \<Rightarrow> kb_tick \<Rightarrow> tool_result \<times> kb_tick" where
  "handle_kb_read who tick p t =
     (if p = [] then (refused ''kb_read requires path'' ''INVALID_ARGUMENT'' False who ''kb_read'' tick, t)
      else case read p who (kb t) of
        Inl e \<Rightarrow>
          (refused (str_kb_error e)
             (case e of SharedKBWriteError _ m \<Rightarrow> if is_prefix ''Permission denied'' m then ''permission_denied'' else ''not_found''
              | _ \<Rightarrow> ''not_found'') False who ''kb_read'' tick, t)
      | Inr r \<Rightarrow>
          (succeeded (PDict [(''content'', kb_content r), (''version'', PInt (kb_version r)),
             (''last_modified_by'', PStr (kb_modified_by r)), (''last_modified_at_tick'', PInt (kb_modified_at_tick r))])
             who ''kb_read'' tick,
           t\<lparr>audit := audit t @ [SHARED_KB_READ who tick p None]\<rparr>))"

definition handle_kb_list :: "string \<Rightarrow> int \<Rightarrow> string \<Rightarrow> kb_tick \<Rightarrow> tool_result" where
  "handle_kb_list who tick base t =
     (case list_dir base who (kb t) of
        Inl e \<Rightarrow> refused (str_kb_error e) ''permission_denied'' False who ''kb_list'' tick
      | Inr ps \<Rightarrow> succeeded (PDict [(''paths'', PList (map PStr ps))]) who ''kb_list'' tick)"

definition hit_value :: "hit \<Rightarrow> pyval" where
  "hit_value h = PDict [(''path'', PStr (hit_path h)), (''version'', PInt (hit_version h)), (''snippet'', snippet h),
     (''last_modified_by'', PStr (hit_modified_by h)), (''last_modified_at_tick'', PInt (hit_modified_at_tick h))]"

text \<open>
  \<^verbatim>\<open>min(max(int(limit), 1), 100)\<close>, and twenty when the conversion raises a type or value error; an infinite
  float raises an overflow error, which the handler does not catch.
\<close>

definition search_limit :: "pyval \<Rightarrow> int res" where
  "search_limit v = (case py_int v of
       Inr n \<Rightarrow> Inr (min (max n 1) 100)
     | Inl OverflowError \<Rightarrow> Inl OverflowError
     | Inl _ \<Rightarrow> Inr 20)"

definition handle_kb_search :: "string \<Rightarrow> int \<Rightarrow> string \<Rightarrow> string \<Rightarrow> pyval \<Rightarrow> kb_tick \<Rightarrow> tool_result res \<times> kb_tick" where
  "handle_kb_search who tick query base limit t =
     (if strip query = []
      then (Inr (refused ''kb_search requires non-empty query'' ''INVALID_ARGUMENT'' False who ''kb_search'' tick), t)
      else case search_limit limit of
        Inl e \<Rightarrow> (Inl e, t)
      | Inr n \<Rightarrow>
          (case search query who base n (kb t) of
             Inl e \<Rightarrow> (Inl e, t)
           | Inr hits \<Rightarrow>
               (Inr (succeeded (PDict [(''results'', PList (map hit_value hits))]) who ''kb_search'' tick),
                t\<lparr>audit := audit t @ map (\<lambda>h. SHARED_KB_READ who tick (hit_path h) (Some query)) hits\<rparr>)))"

section \<open>The checks of the commit phase\<close>

definition commit_check_task :: "task_tree \<Rightarrow> int \<Rightarrow> effect \<Rightarrow> string option" where
  "commit_check_task tree now e =
     (if effect_type e \<noteq> TASK_UPDATE then None
      else case dget (tasks tree) (resource e) of
        None \<Rightarrow> Some (''Task '' @ resource e @ '' not found'')
      | Some k \<Rightarrow>
          if task.status k = CANCELLED then Some (''Task '' @ resource e @ '' is cancelled'')
          else if is_terminal k then Some (''Task '' @ resource e @ '' is already terminal'')
          else case deadline k of
            Some d \<Rightarrow> if d < now then Some (''Task '' @ resource e @ '' deadline passed'') else None
          | None \<Rightarrow> None)"

definition commit_check_lock :: "shared_kb \<Rightarrow> string \<Rightarrow> string \<Rightarrow> string option \<Rightarrow> bool" where
  "commit_check_lock k r who tok =
     (if is_prefix ''shared-kb/'' r \<or> is_prefix ''project/'' r then
        (case get_lock (kb_locks k) r of
           None \<Rightarrow> False
         | Some l \<Rightarrow>
             if owner_agent_id l \<noteq> who then False
             else case tok of Some x \<Rightarrow> x = [] \<or> token l = x | None \<Rightarrow> True)
      else True)"

definition commit_check_permission :: "shared_kb \<Rightarrow> string \<Rightarrow> string \<Rightarrow> string \<Rightarrow> bool" where
  "commit_check_permission k who r op =
     (if op \<in> {''kb_write'', ''kb_create'', ''kb_delete''} then check (permissions k) who r op else True)"

definition commit_checks :: "shared_kb \<Rightarrow> task_tree \<Rightarrow> int \<Rightarrow> checks" where
  "commit_checks k tree now = \<lparr>check_version = Some (\<lambda>r v. get_version (versions k) r = v),
     check_lock = Some (commit_check_lock k), check_permission = Some (commit_check_permission k),
     check_task = Some (commit_check_task tree now)\<rparr>"

section \<open>Applying, inverting and rolling back\<close>

definition kb_effect :: "effect \<Rightarrow> bool" where
  "kb_effect e \<longleftrightarrow> effect_type e \<in> {KB_WRITE, KB_CREATE, KB_DELETE}"

text \<open>
  The commit phase passes on what it finds in the data of the effect.  The expected version is compared with the current one:
  a number (also a truth value or a float) is equal to the integer of the same value, and any other value is
  equal to no version, which is modelled by one that differs from the current version.
\<close>

definition effect_content :: "effect \<Rightarrow> pyval" where
  "effect_content e = (case dget (data e) ''content'' of Some v \<Rightarrow> v | None \<Rightarrow> PStr [])"

definition version_number :: "pyval \<Rightarrow> int option" where
  "version_number v =
     (case num_of v of
        Some (Fin x) \<Rightarrow> if of_int \<lfloor>x\<rfloor> = x then Some \<lfloor>x\<rfloor> else None
      | _ \<Rightarrow> None)"

definition effect_expected :: "effect \<Rightarrow> int option" where
  "effect_expected e = version_number (case dget (data e) ''expected_version'' of Some v \<Rightarrow> v | None \<Rightarrow> PInt 0)"

definition apply_kb :: "int \<Rightarrow> effect \<Rightarrow> shared_kb \<Rightarrow> kb_error + shared_kb" where
  "apply_kb tick e k =
     (if effect_type e = KB_WRITE
      then map_sum id snd (apply_committed (resource e) (agent_id e) (effect_content e)
             (case effect_expected e of Some v \<Rightarrow> v | None \<Rightarrow> get_version (versions k) (resource e) + 1) tick k)
      else if effect_type e = KB_CREATE
      then map_sum id snd (SharedKB.create (resource e) (agent_id e) (effect_content e) tick k)
      else map_sum id snd (delete (resource e) (agent_id e) k))"

type_synonym kb_prior = "kb_resource option \<times> version_info option"

definition prior_of :: "string \<Rightarrow> shared_kb \<Rightarrow> kb_prior" where
  "prior_of r k = (dget (resources k) r, dget (versions k) r)"

definition put_back :: "'k \<Rightarrow> 'v option \<Rightarrow> ('k, 'v) dict \<Rightarrow> ('k, 'v) dict" where
  "put_back x v d = (case v of None \<Rightarrow> dpop x d | Some y \<Rightarrow> dset x y d)"

definition restore :: "string \<Rightarrow> kb_prior \<Rightarrow> shared_kb \<Rightarrow> shared_kb" where
  "restore r p k = k\<lparr>resources := put_back r (fst p) (resources k), versions := put_back r (snd p) (versions k)\<rparr>"

text \<open>What becomes of an effect on another store: it is applied, it fails as a matter of business, or it raises.\<close>

datatype outcome = Done | Fails string | Raises string

record committing =
  c_kb :: shared_kb
  c_effects :: "(string, effect) dict"
  c_applied :: "string list"
  c_prior :: "(string, kb_prior) dict"

definition mark :: "string \<Rightarrow> (effect \<Rightarrow> effect) \<Rightarrow> committing \<Rightarrow> committing" where
  "mark i f c = (case dget (c_effects c) i of Some e \<Rightarrow> c\<lparr>c_effects := dset i (f e) (c_effects c)\<rparr> | None \<Rightarrow> c)"

definition irreversible :: "effect \<Rightarrow> effect" where
  "irreversible e = e\<lparr>error := Some (''irreversible effect '' @ effect_value (effect_type e) @ '' on '' @ resource e
     @ '' rolled back (compensation required)'')\<rparr>"

text \<open>An effect that has not been applied has no prior state: inverting it takes the resource away.\<close>

definition invert_one :: "string \<Rightarrow> committing \<Rightarrow> committing" where
  "invert_one i c =
     (case dget (c_effects c) i of
        None \<Rightarrow> c
      | Some e \<Rightarrow>
          if kb_effect e
          then c\<lparr>c_kb := restore (resource e) (case dget (c_prior c) i of Some p \<Rightarrow> p | None \<Rightarrow> (None, None)) (c_kb c)\<rparr>
          else if INVERT_CONTRACT (effect_type e) = IRREVERSIBLE
          then mark i irreversible c
          else c)"

definition fail_member :: "string \<Rightarrow> string \<Rightarrow> string \<Rightarrow> committing \<Rightarrow> committing" where
  "fail_member g i j c =
     (case dget (c_effects c) j of
        None \<Rightarrow> c
      | Some m \<Rightarrow>
          if j = i \<or> group_id m \<noteq> g then c
          else mark j (failed (''group member failed (group '' @ g @ '')''))
                 (if effect.status m = COMMITTED then invert_one j c else c))"

definition fail_locally :: "string list \<Rightarrow> string \<Rightarrow> string \<Rightarrow> committing \<Rightarrow> committing" where
  "fail_locally is i m c =
     (case dget (c_effects c) i of
        None \<Rightarrow> c
      | Some e \<Rightarrow>
          let c = mark i (failed m) c in
          if \<not> (group_id e \<noteq> [] \<and> atomicity e = ''group'') then c
          else fold (fail_member (group_id e) i) is c)"

fun apply_loop :: "(effect \<Rightarrow> outcome) \<Rightarrow> int \<Rightarrow> string list \<Rightarrow> string list \<Rightarrow> committing \<Rightarrow> (string \<times> string) option \<times> committing" where
  "apply_loop other tick all [] c = (None, c)"
| "apply_loop other tick all (i # is) c =
     (case dget (c_effects c) i of
        None \<Rightarrow> apply_loop other tick all is c
      | Some e \<Rightarrow>
          if effect.status e \<noteq> COMMITTED then apply_loop other tick all is c
          else if kb_effect e then
            (let c = c\<lparr>c_prior := dset i (prior_of (resource e) (c_kb c)) (c_prior c)\<rparr> in
             case apply_kb tick e (c_kb c) of
               Inl err \<Rightarrow> (Some (i, str_kb_error err), c)
             | Inr k \<Rightarrow> apply_loop other tick all is (c\<lparr>c_kb := k, c_applied := c_applied c @ [i]\<rparr>))
          else case other e of
            Done \<Rightarrow> apply_loop other tick all is (c\<lparr>c_applied := c_applied c @ [i]\<rparr>)
          | Fails m \<Rightarrow> apply_loop other tick all is (fail_locally all i m c)
          | Raises m \<Rightarrow> (Some (i, m), c))"

fun release_tick_locks :: "int \<Rightarrow> (string \<times> string \<times> string) list \<Rightarrow> lock_manager \<Rightarrow> kb_audit list \<Rightarrow> lock_manager \<times> kb_audit list" where
  "release_tick_locks tick [] m l = (m, l)"
| "release_tick_locks tick ((r, who, tok) # es) m l =
     (if \<not> is_locked m r None then release_tick_locks tick es m l
      else case release r who tok m of
        Inr m' \<Rightarrow> release_tick_locks tick es m' (l @ [LOCK_RELEASED who tick r])
      | Inl _ \<Rightarrow> release_tick_locks tick es m l)"

definition release_all :: "int \<Rightarrow> kb_tick \<Rightarrow> kb_tick" where
  "release_all tick t =
     (case release_tick_locks tick (tick_locks t) (kb_locks (kb t)) (audit t) of
        (m, l) \<Rightarrow> t\<lparr>kb := (kb t)\<lparr>kb_locks := m\<rparr>, audit := l\<rparr>)"

text \<open>The marks left on the effects of a tick that was rolled back.\<close>

definition mark_rolled_back :: "string list \<Rightarrow> string \<Rightarrow> string \<Rightarrow> committing \<Rightarrow> committing" where
  "mark_rolled_back is i m c =
     (let undone = (\<lambda>e. e\<lparr>status := ROLLED_BACK\<rparr>);
          c = fold (\<lambda>j. mark j undone) (c_applied c) c;
          c = fold (\<lambda>j. mark j (\<lambda>e. if effect.status e = COMMITTED then undone e else e)) is c
      in mark i (failed m) c)"

definition prepared :: "task_tree \<Rightarrow> int \<Rightarrow> kb_tick \<Rightarrow> string list \<times> buffer" where
  "prepared tree now t =
     (let b = snd (validate (commit_checks (kb t) tree now) (txn t));
          b = snd (resolve_conflicts b)
      in Transaction.commit b)"

definition roll_back :: "int \<Rightarrow> committing \<Rightarrow> kb_tick \<Rightarrow> committing \<times> kb_tick" where
  "roll_back tick c t =
     (let t = release_all tick (t\<lparr>kb := c_kb c, rolled_back := True\<rparr>)
      in (fold invert_one (rev (c_applied c)) (c\<lparr>c_kb := kb t\<rparr>), t))"

definition commit_phase :: "(effect \<Rightarrow> outcome) \<Rightarrow> task_tree \<Rightarrow> int \<Rightarrow> int \<Rightarrow> kb_tick \<Rightarrow> kb_tick" where
  "commit_phase other tree now tick t =
     (let (is, b) = prepared tree now t
      in case apply_loop other tick is is \<lparr>c_kb = kb t, c_effects = effects b, c_applied = [], c_prior = []\<rparr> of
        (None, c) \<Rightarrow> release_all tick (t\<lparr>kb := c_kb c, txn := b\<lparr>effects := c_effects c\<rparr>, rolled_back := False\<rparr>)
      | (Some (i, m), c) \<Rightarrow>
          let (c, t) = roll_back tick c t;
              ids = c_applied c;
              c = mark_rolled_back is i m c
          in t\<lparr>kb := c_kb c, txn := b\<lparr>effects := c_effects c\<rparr>, audit := audit t @ [TRANSACTION_ROLLBACK tick m ids]\<rparr>)"

section \<open>Undoing\<close>

lemma map_snd_Inr: "map_sum id snd x = Inr y \<longleftrightarrow> (\<exists>r. x = Inr (r, y))"
  by (cases x) auto

lemma dpop_absent: "dget d k = None \<Longrightarrow> dpop k d = d"
  by (auto simp: dpop_def filter_id_conv map_of_eq_None_iff image_iff)

lemma put_back_dset: "put_back k (dget d k) (dset k v d) = d"
proof (cases "dget d k")
  case None
  then have "dset k v d = d @ [(k, v)]" by (intro dset_fresh) (simp add: map_of_eq_None_iff)
  then show ?thesis using dpop_absent [OF None] by (simp add: put_back_def None dpop_def)
qed (simp add: put_back_def dset_same)

lemma put_back_same: "put_back k (dget d k) d = d"
  by (cases "dget d k") (simp_all add: put_back_def dset_same dpop_absent)

lemma restore_store: "restore r (prior_of r k) (store r who tick x k) = k"
  by (simp add: restore_def prior_of_def store_def increment_def Let_def put_back_dset)

lemma restore_delete: "delete r who k = Inr (b, k') \<Longrightarrow> restore r (prior_of r k) k' = k"
  by (auto simp: delete_def restore_def prior_of_def put_back_dset put_back_same split: if_splits option.splits)

lemma apply_kb_undo: "apply_kb tick e k = Inr k' \<Longrightarrow> restore (resource e) (prior_of (resource e) k) k' = k"
proof -
  assume a: "apply_kb tick e k = Inr k'"
  consider r v where "apply_committed (resource e) (agent_id e) (effect_content e) v tick k = Inr (r, k')"
    | r where "SharedKB.create (resource e) (agent_id e) (effect_content e) tick k = Inr (r, k')"
    | b where "delete (resource e) (agent_id e) k = Inr (b, k')"
    using a by (auto simp: apply_kb_def map_snd_Inr split: if_splits)
  then show ?thesis
  proof cases
    case (1 r)
    then show ?thesis by (simp add: write_ok restore_store)
  next
    case (2 r)
    then show ?thesis using create_ok [OF 2] by (simp add: restore_store)
  next
    case (3 b)
    then show ?thesis by (rule restore_delete)
  qed
qed

interpretation kbu: undoable "apply_kb tick" "\<lambda>e k. (resource e, prior_of (resource e) k)" "\<lambda>(r, p). restore r p" id "\<lambda>_. True" for tick
  by unfold_locales (simp_all add: apply_kb_undo)

section \<open>What the loop of the commit phase keeps\<close>

text \<open>The part of an effect that the commit phase never changes, and the effects of a list that concern the knowledge base.\<close>

definition shape :: "effect \<Rightarrow> effect_type \<times> string \<times> string \<times> string \<times> (string, pyval) dict" where
  "shape e = (effect_type e, agent_id e, resource e, group_id e, data e)"

definition shapes :: "committing \<Rightarrow> string \<Rightarrow> (effect_type \<times> string \<times> string \<times> string \<times> (string, pyval) dict) option" where
  "shapes c i = map_option shape (dget (c_effects c) i)"

definition kb_effects :: "(string, effect) dict \<Rightarrow> string list \<Rightarrow> effect list" where
  "kb_effects d is = filter kb_effect (List.map_filter (dget d) is)"

fun apply_all :: "int \<Rightarrow> effect list \<Rightarrow> shared_kb \<Rightarrow> kb_error + shared_kb" where
  "apply_all tick [] k = Inr k"
| "apply_all tick (e # es) k = (case apply_kb tick e k of Inl x \<Rightarrow> Inl x | Inr k' \<Rightarrow> apply_all tick es k')"

definition log_entry :: "committing \<Rightarrow> string \<Rightarrow> (string \<times> kb_prior) list" where
  "log_entry c i = (case dget (c_effects c) i of
       Some e \<Rightarrow> if kb_effect e then [(resource e, case dget (c_prior c) i of Some p \<Rightarrow> p | None \<Rightarrow> (None, None))] else []
     | None \<Rightarrow> [])"

definition kb_log :: "committing \<Rightarrow> (string \<times> kb_prior) list" where
  "kb_log c = concat (map (log_entry c) (c_applied c))"

text \<open>Effects on the knowledge base belong to no group, as the handlers stage them.\<close>

definition ungrouped :: "(string, effect) dict \<Rightarrow> bool" where
  "ungrouped d \<longleftrightarrow> (\<forall>i e. dget d i = Some e \<and> kb_effect e \<longrightarrow> group_id e = [])"

text \<open>Two states of the loop that differ only in the marks on effects that are none of the knowledge base's.\<close>

definition marks_only :: "committing \<Rightarrow> committing \<Rightarrow> bool" where
  "marks_only c c' \<longleftrightarrow> c_kb c' = c_kb c \<and> c_prior c' = c_prior c \<and> c_applied c' = c_applied c \<and> shapes c' = shapes c
     \<and> (\<forall>i e. dget (c_effects c) i = Some e \<and> kb_effect e \<longrightarrow> dget (c_effects c') i = Some e)"

lemma kb_effect_shape: "shape e = shape e' \<Longrightarrow> kb_effect e = kb_effect e' \<and> resource e = resource e' \<and> group_id e = group_id e'"
  by (simp add: shape_def kb_effect_def)

lemma failed_shape [simp]: "shape (failed m e) = shape e"
  by (simp add: shape_def failed_def)

lemma irreversible_shape [simp]: "shape (irreversible e) = shape e"
  by (simp add: shape_def irreversible_def)

lemma mark_shapes: "(\<And>e. shape (f e) = shape e) \<Longrightarrow> shapes (mark i f c) = shapes c"
  by (auto simp: mark_def shapes_def fun_eq_iff split: option.splits)

lemma mark_simps [simp]: "c_kb (mark i f c) = c_kb c" "c_prior (mark i f c) = c_prior c" "c_applied (mark i f c) = c_applied c"
  by (simp_all add: mark_def split: option.split)

lemma shapes_entry: "shapes c' = shapes c \<Longrightarrow> c_prior c' = c_prior c \<Longrightarrow> log_entry c' = log_entry c"
proof
  fix i assume s: "shapes c' = shapes c" and p: "c_prior c' = c_prior c"
  have "map_option shape (dget (c_effects c') i) = map_option shape (dget (c_effects c) i)"
    using fun_cong [OF s, of i] by (simp add: shapes_def)
  then show "log_entry c' i = log_entry c i"
    by (cases "dget (c_effects c) i"; cases "dget (c_effects c') i") (auto simp: log_entry_def p dest: kb_effect_shape)
qed

lemma marks_only_refl: "marks_only c c"
  by (simp add: marks_only_def)

lemma marks_only_trans: "marks_only a b \<Longrightarrow> marks_only b c \<Longrightarrow> marks_only a c"
  by (auto simp: marks_only_def)

lemma marks_only_log: "marks_only c c' \<Longrightarrow> kb_log c' = kb_log c"
  using shapes_entry [of c' c] by (simp add: marks_only_def kb_log_def)

lemma marks_only_ungrouped: "marks_only c c' \<Longrightarrow> ungrouped (c_effects c) \<Longrightarrow> ungrouped (c_effects c')"
proof -
  assume m: "marks_only c c'" and u: "ungrouped (c_effects c)"
  have "group_id e = []" if e: "dget (c_effects c') i = Some e" "kb_effect e" for i e
  proof -
    have "shapes c' i = shapes c i" using m by (simp add: marks_only_def)
    then obtain e0 where "dget (c_effects c) i = Some e0" "shape e0 = shape e" using e(1) by (auto simp: shapes_def eq_commute [of "Some (shape e)"])
    then show ?thesis using u e(2) kb_effect_shape [of e0 e] unfolding ungrouped_def by metis
  qed
  then show ?thesis unfolding ungrouped_def by blast
qed

lemma mark_marks_only:
  assumes "\<And>e. shape (f e) = shape e" and "\<And>e. dget (c_effects c) i = Some e \<Longrightarrow> \<not> kb_effect e"
  shows "marks_only c (mark i f c)"
  unfolding marks_only_def
proof (intro conjI allI impI)
  fix j e assume "dget (c_effects c) j = Some e \<and> kb_effect e"
  then show "dget (c_effects (mark i f c)) j = Some e" using assms(2) by (auto simp: mark_def split: option.split)
qed (simp_all add: mark_shapes assms(1))

lemma invert_one_other:
  assumes "\<And>e. dget (c_effects c) i = Some e \<Longrightarrow> \<not> kb_effect e"
  shows "marks_only c (invert_one i c)"
proof (cases "dget (c_effects c) i")
  case (Some e)
  have "marks_only c (mark i irreversible c)"
    by (rule mark_marks_only) (simp_all add: assms)
  then show ?thesis using assms [OF Some] by (simp add: invert_one_def Some marks_only_refl)
qed (simp add: invert_one_def marks_only_refl)

lemma fail_member_marks:
  assumes "ungrouped (c_effects c)" and "g \<noteq> []"
  shows "marks_only c (fail_member g i j c)"
proof (cases "dget (c_effects c) j")
  case (Some m)
  show ?thesis
  proof (cases "j = i \<or> group_id m \<noteq> g")
    case False
    then have o: "\<And>e. dget (c_effects c) j = Some e \<Longrightarrow> \<not> kb_effect e" using assms Some unfolding ungrouped_def by auto
    let ?c = "if effect.status m = COMMITTED then invert_one j c else c"
    have m: "marks_only c ?c" using invert_one_other [OF o] by (simp add: marks_only_refl)
    have "\<not> kb_effect e" if e: "dget (c_effects ?c) j = Some e" for e
    proof -
      have "shapes ?c j = shapes c j" using m by (simp add: marks_only_def)
      then have "shape m = shape e" using e Some by (simp add: shapes_def)
      then show ?thesis using o [OF Some] kb_effect_shape by blast
    qed
    then have "marks_only ?c (mark j (failed (''group member failed (group '' @ g @ '')'')) ?c)"
      by (intro mark_marks_only) simp_all
    then show ?thesis using marks_only_trans [OF m] False by (simp add: fail_member_def Some)
  qed (simp add: fail_member_def Some marks_only_refl)
qed (simp add: fail_member_def marks_only_refl)

lemma fail_members_marks: "ungrouped (c_effects c) \<Longrightarrow> g \<noteq> [] \<Longrightarrow> marks_only c (fold (fail_member g i) js c)"
proof (induction js arbitrary: c)
  case (Cons j js)
  then have m: "marks_only c (fail_member g i j c)" by (intro fail_member_marks)
  then have "marks_only (fail_member g i j c) (fold (fail_member g i) js (fail_member g i j c))"
    using Cons marks_only_ungrouped by blast
  then show ?case using marks_only_trans [OF m] by simp
qed (simp add: marks_only_refl)

lemma fail_locally_marks:
  assumes "ungrouped (c_effects c)" and "\<And>e. dget (c_effects c) i = Some e \<Longrightarrow> \<not> kb_effect e"
  shows "marks_only c (fail_locally is i m c)"
proof (cases "dget (c_effects c) i")
  case (Some e)
  have m: "marks_only c (mark i (failed m) c)" by (rule mark_marks_only) (simp_all add: assms(2))
  show ?thesis
  proof (cases "group_id e \<noteq> [] \<and> atomicity e = ''group''")
    case True
    have "marks_only (mark i (failed m) c) (fold (fail_member (group_id e) i) is (mark i (failed m) c))"
      using True by (intro fail_members_marks marks_only_ungrouped [OF m assms(1)]) simp
    then show ?thesis using marks_only_trans [OF m] True by (simp add: fail_locally_def Some Let_def)
  next
    case False
    then show ?thesis using m by (auto simp: fail_locally_def Some Let_def)
  qed
qed (simp add: fail_locally_def marks_only_refl)

section \<open>The loop and the rollback\<close>

text \<open>What holds of the loop whenever it is about to look at the next effect.\<close>

definition loop_ok :: "int \<Rightarrow> shared_kb \<Rightarrow> string list \<Rightarrow> committing \<Rightarrow> bool" where
  "loop_ok tick k0 is c \<longleftrightarrow> ungrouped (c_effects c) \<and> distinct is \<and> set is \<inter> set (c_applied c) = {}
     \<and> (\<forall>i e. i \<in> set is \<and> dget (c_effects c) i = Some e \<and> kb_effect e \<longrightarrow> effect.status e = COMMITTED)
     \<and> kbu.logged tick k0 (kb_log c) (c_kb c)"

lemma kb_effects_Cons: "kb_effects d (i # is) = (case dget d i of Some e \<Rightarrow> if kb_effect e then [e] else [] | None \<Rightarrow> []) @ kb_effects d is"
  by (simp add: kb_effects_def List.map_filter_def split: option.split)

lemma kb_effects_marks: "marks_only c c' \<Longrightarrow> kb_effects (c_effects c') is = kb_effects (c_effects c) is"
proof (induction "is")
  case (Cons i "is")
  have "shapes c' i = shapes c i" using Cons.prems by (simp add: marks_only_def)
  then have "(case dget (c_effects c') i of Some e \<Rightarrow> if kb_effect e then [e] else [] | None \<Rightarrow> [])
      = (case dget (c_effects c) i of Some e \<Rightarrow> if kb_effect e then [e] else [] | None \<Rightarrow> [])"
    using Cons.prems unfolding marks_only_def shapes_def
    by (cases "dget (c_effects c) i"; cases "dget (c_effects c') i") (auto dest: kb_effect_shape)
  then show ?case using Cons by (simp add: kb_effects_Cons)
qed (simp add: kb_effects_def List.map_filter_def)

lemma loop_ok_marks:
  assumes "loop_ok tick k0 (i # is) c" and m: "marks_only c c'"
  shows "loop_ok tick k0 is c'"
proof -
  have "effect.status e = COMMITTED" if e: "j \<in> set is" "dget (c_effects c') j = Some e" "kb_effect e" for j e
  proof -
    have "shapes c' j = shapes c j" using m by (simp add: marks_only_def)
    then obtain e0 where e0: "dget (c_effects c) j = Some e0" "shape e0 = shape e"
      using e(2) by (auto simp: shapes_def eq_commute [of "Some (shape e)"])
    then have "kb_effect e0" using e(3) kb_effect_shape by blast
    then have "e0 = e" using m e0(1) e(2) unfolding marks_only_def by (metis option.inject)
    then show ?thesis using assms(1) e0(1) e(1,3) unfolding loop_ok_def by (metis list.set_intros(2))
  qed
  moreover have "c_applied c' = c_applied c" "c_kb c' = c_kb c" using m by (simp_all add: marks_only_def)
  ultimately show ?thesis
    using assms(1) marks_only_ungrouped [OF m] marks_only_log [OF m] unfolding loop_ok_def by auto
qed

lemma log_entry_other: "dget (c_effects c) i = Some e \<Longrightarrow> \<not> kb_effect e \<Longrightarrow> log_entry c i = []"
  by (simp add: log_entry_def)

lemma loop_ok_done:
  assumes "loop_ok tick k0 (i # is) c" and "dget (c_effects c) i = Some e" "\<not> kb_effect e"
  shows "loop_ok tick k0 is (c\<lparr>c_applied := c_applied c @ [i]\<rparr>)"
proof -
  let ?c = "c\<lparr>c_applied := c_applied c @ [i]\<rparr>"
  have "log_entry ?c = log_entry c" by (rule shapes_entry) (simp_all add: shapes_def fun_eq_iff)
  then have "kb_log ?c = kb_log c" using log_entry_other [OF assms(2,3)] by (simp add: kb_log_def)
  then show ?thesis using assms(1) by (auto simp: loop_ok_def)
qed

lemma log_cong: "(\<And>j. j \<in> set js \<Longrightarrow> log_entry c' j = log_entry c j) \<Longrightarrow> concat (map (log_entry c') js) = concat (map (log_entry c) js)"
  by (induction js) simp_all

lemma loop_ok_applied:
  assumes "loop_ok tick k0 (i # is) c" and e: "dget (c_effects c) i = Some e" "kb_effect e"
    and a: "apply_kb tick e (c_kb c) = Inr k"
  shows "loop_ok tick k0 is (c\<lparr>c_prior := dset i (prior_of (resource e) (c_kb c)) (c_prior c), c_kb := k, c_applied := c_applied c @ [i]\<rparr>)"
proof -
  let ?p = "prior_of (resource e) (c_kb c)"
  let ?c = "c\<lparr>c_prior := dset i ?p (c_prior c), c_kb := k, c_applied := c_applied c @ [i]\<rparr>"
  have new: "i \<notin> set (c_applied c)" using assms(1) by (auto simp: loop_ok_def)
  have "log_entry ?c j = log_entry c j" if "j \<in> set (c_applied c)" for j
    using that new by (auto simp: log_entry_def split: option.split)
  then have "concat (map (log_entry ?c) (c_applied c)) = concat (map (log_entry c) (c_applied c))" by (rule log_cong)
  moreover have "log_entry ?c i = [(resource e, ?p)]" using e by (simp add: log_entry_def)
  ultimately have "kb_log ?c = kb_log c @ [(resource e, ?p)]" by (simp add: kb_log_def)
  moreover have "kbu.logged tick k0 (kb_log c @ [(resource e, ?p)]) k"
    using kbu.logged_app [of tick k0 "kb_log c" "c_kb c" e k] assms(1) a by (simp add: loop_ok_def)
  ultimately show ?thesis using assms(1) by (auto simp: loop_ok_def)
qed

lemma apply_loop_ok:
  assumes "loop_ok tick k0 is c" and "apply_loop other tick all is c = (res, c')"
  shows "kbu.logged tick k0 (kb_log c') (c_kb c')
     \<and> (res = None \<longrightarrow> apply_all tick (kb_effects (c_effects c) is) (c_kb c) = Inr (c_kb c'))"
  using assms
proof (induction "is" arbitrary: c)
  case Nil
  then show ?case by (auto simp: loop_ok_def kb_effects_def List.map_filter_def)
next
  case (Cons i "is")
  show ?case
  proof (cases "dget (c_effects c) i")
    case None
    then show ?thesis using Cons loop_ok_marks [OF Cons.prems(1) marks_only_refl] by (simp add: kb_effects_Cons)
  next
    case (Some e)
    consider (kb) "kb_effect e" | (skip) "\<not> kb_effect e" "effect.status e \<noteq> COMMITTED" | (oth) "\<not> kb_effect e" "effect.status e = COMMITTED"
      by blast
    then show ?thesis
    proof cases
      case kb
      have st: "effect.status e = COMMITTED" using Cons.prems(1) Some kb by (auto simp: loop_ok_def)
      show ?thesis
      proof (cases "apply_kb tick e (c_kb c)")
        case (Inl x)
        let ?c = "c\<lparr>c_prior := dset i (prior_of (resource e) (c_kb c)) (c_prior c)\<rparr>"
        have "log_entry ?c j = log_entry c j" if "j \<in> set (c_applied c)" for j
          using that Cons.prems(1) by (auto simp: log_entry_def loop_ok_def split: option.split)
        then have "kb_log ?c = kb_log c" unfolding kb_log_def using log_cong [of "c_applied c" ?c c] by simp
        then show ?thesis using Cons.prems Some kb st Inl by (auto simp: loop_ok_def Let_def)
      next
        case (Inr k)
        then show ?thesis using Cons.IH [OF loop_ok_applied [OF Cons.prems(1) Some kb Inr]] Cons.prems(2) Some kb st
          by (simp add: kb_effects_Cons Let_def)
      qed
    next
      case skip
      then show ?thesis using Cons.IH [OF loop_ok_marks [OF Cons.prems(1) marks_only_refl]] Cons.prems(2) Some
        by (simp add: kb_effects_Cons)
    next
      case oth
      show ?thesis
      proof (cases "other e")
        case Done
        then show ?thesis using Cons.IH [OF loop_ok_done [OF Cons.prems(1) Some oth(1)]] Cons.prems(2) Some oth
          by (simp add: kb_effects_Cons)
      next
        case (Fails m)
        have f: "marks_only c (fail_locally all i m c)"
          using Cons.prems(1) Some oth(1) by (intro fail_locally_marks) (auto simp: loop_ok_def)
        then have "c_kb (fail_locally all i m c) = c_kb c" by (simp add: marks_only_def)
        then show ?thesis using Cons.IH [OF loop_ok_marks [OF Cons.prems(1) f]] Cons.prems(2) Some oth Fails kb_effects_marks [OF f]
          by (simp add: kb_effects_Cons)
      next
        case (Raises m)
        then show ?thesis using Cons.prems Some oth by (auto simp: loop_ok_def)
      qed
    qed
  qed
qed

lemma invert_one_keeps: "shapes (invert_one i c) = shapes c" "c_prior (invert_one i c) = c_prior c" "c_applied (invert_one i c) = c_applied c"
proof -
  have "shapes (mark i irreversible c) = shapes c" by (rule mark_shapes) simp
  moreover have "shapes (c\<lparr>c_kb := k\<rparr>) = shapes c" for k by (simp add: shapes_def fun_eq_iff)
  ultimately show "shapes (invert_one i c) = shapes c" by (simp add: invert_one_def split: option.split)
qed (simp_all add: invert_one_def split: option.split)

lemma invert_one_kb: "c_kb (invert_one i c) = fold (\<lambda>(r, p). restore r p) (log_entry c i) (c_kb c)"
  by (simp add: invert_one_def log_entry_def split: option.split)

lemma invert_all_kb: "c_kb (fold invert_one is c) = fold (\<lambda>(r, p). restore r p) (concat (map (log_entry c) is)) (c_kb c)"
proof (induction "is" arbitrary: c)
  case (Cons i "is")
  have "log_entry (invert_one i c) = log_entry c" by (rule shapes_entry) (simp_all add: invert_one_keeps)
  then show ?case using Cons [of "invert_one i c"] by (simp add: invert_one_kb)
qed simp

lemma rev_log: "concat (map (log_entry c) (rev is)) = rev (concat (map (log_entry c) is))"
proof -
  have "rev (log_entry c i) = log_entry c i" for i by (simp add: log_entry_def split: option.split)
  then show ?thesis by (induction "is") simp_all
qed

lemma restore_locks: "fold (\<lambda>(r, p). restore r p) ps (k\<lparr>kb_locks := m\<rparr>) = (fold (\<lambda>(r, p). restore r p) ps k)\<lparr>kb_locks := m\<rparr>"
proof (induction ps arbitrary: k)
  case (Cons q ps)
  obtain r p where q: "q = (r, p)" by (cases q)
  have "restore r p (k\<lparr>kb_locks := m\<rparr>) = (restore r p k)\<lparr>kb_locks := m\<rparr>" by (simp add: restore_def)
  then show ?case using Cons [of "restore r p k"] by (simp add: q)
qed simp

lemma mark_fold_kb: "c_kb (fold (\<lambda>j. mark j f) js c) = c_kb c"
  by (induction js arbitrary: c) simp_all

lemma mark_rolled_back_kb: "c_kb (mark_rolled_back is i m c) = c_kb c"
  by (simp add: mark_rolled_back_def Let_def mark_fold_kb)

section \<open>What preparing keeps of the effects\<close>

lemma only_fails_core: "only_fails d d' \<Longrightarrow> map_option core (dget d' i) = map_option core (dget d i)"
proof (cases "dget d i")
  case None
  moreover assume "only_fails d d'"
  ultimately have "dget d' i = None" by (metis dkeys_iff only_fails_def)
  then show ?thesis using None by simp
qed (auto simp: only_fails_def)

lemma validate_cores: "map_option core (dget (effects (snd (validate c b))) i) = map_option core (dget (effects b) i)"
proof -
  let ?d = "map (\<lambda>(i, e). (i, if effect.status e = STAGED then validate_effect c e else e)) (effects b)"
  obtain fs where 1: "validate_all_staged c (effects b) = (?d, fs)" using validate_all_map by (metis prod.collapse)
  obtain d fs2 where 2: "fail_groups (group_ids ?d) ?d = (d, fs2)" by (meson surj_pair)
  have "map_option core (dget ?d i) = map_option core (dget (effects b) i)"
    unfolding dget_map_vals using validate_effect_core by (cases "dget (effects b) i") auto
  then show ?thesis using only_fails_core [OF fail_groups_only_fails [OF 2], of i] 1 2 by (simp add: validate_def)
qed

lemma resolve_cores: "map_option core (dget (effects (snd (resolve_conflicts b))) i) = map_option core (dget (effects b) i)"
proof -
  obtain d rs where "resolve_all (dvals (by_resource (effects b))) (effects b) = (d, rs)" by (meson surj_pair)
  then show ?thesis using resolve_all_spec only_fails_core by (simp add: resolve_conflicts_def)
qed

lemma commit_cores: "map_option core (dget (effects (snd (Transaction.commit b))) i) = map_option core (dget (effects b) i)"
  by (cases "dget (effects b) i") (auto simp: commit_def dget_map_vals core_def)

lemma prepared_ok:
  assumes "buffers.reach (txn t)" and "ungrouped (effects (txn t))" and "prepared tree now t = (is, b)"
  shows "loop_ok tick (kb t) is \<lparr>c_kb = kb t, c_effects = effects b, c_applied = [], c_prior = []\<rparr>"
proof -
  define b1 where "b1 = snd (validate (commit_checks (kb t) tree now) (txn t))"
  define b2 where "b2 = snd (resolve_conflicts b1)"
  have b: "Transaction.commit b2 = (is, b)" using assms(3) by (simp add: prepared_def b1_def b2_def Let_def)
  have "buffers.reach b1" using buffers.reach_step [OF assms(1) Validate] unfolding b1_def by (metis prod.collapse)
  then have "buffers.reach b2" using buffers.reach_step [OF _ Resolve] unfolding b2_def by (metis prod.collapse)
  then have wf: "dwf (effects b2)" using reach_buffer_ok by (simp add: buffer_ok_def)
  have cores: "map_option core (dget (effects b) i) = map_option core (dget (effects (txn t)) i)" for i
    using commit_cores [of b2 i, unfolded b] resolve_cores [of b1 i, folded b2_def]
      validate_cores [of "commit_checks (kb t) tree now" "txn t" i, folded b1_def] by simp
  have "group_id e = []" if e: "dget (effects b) i = Some e" "kb_effect e" for i e
  proof -
    obtain e0 where "dget (effects (txn t)) i = Some e0" "core e0 = core e"
      using cores [of i] e(1) by (auto simp: eq_commute [of "Some (core e)"])
    moreover from this have "kb_effect e0" "group_id e0 = group_id e" using e(2) by (simp_all add: kb_effect_def core_def)
    ultimately show ?thesis using assms(2) unfolding ungrouped_def by metis
  qed
  then have u: "ungrouped (effects b)" unfolding ungrouped_def by blast
  have ids: "is = ready b2" using b by (simp add: commit_def)
  have st: "effect.status e = COMMITTED" if i: "i \<in> set is" and e: "dget (effects b) i = Some e" for i e
  proof -
    obtain e0 where "dget (effects b2) i = Some e0" "effect.status e0 = VALIDATED" using i ready_iff [OF wf] ids by auto
    then show ?thesis using e b by (auto simp: commit_def dget_map_vals)
  qed
  have "distinct is" using picked_distinct [OF wf] by (simp add: ids ready_def)
  then show ?thesis using u st kbu.logged_nil by (auto simp: loop_ok_def kb_log_def)
qed

section \<open>Locks at the end of a tick\<close>

lemma release_ok: "release r who tok m = Inr m' \<Longrightarrow> locks m' = dset r ((the (dget (locks m) r))\<lparr>lock_status := RELEASED\<rparr>) (locks m)"
  by (auto simp: release_def split: option.splits if_splits)

lemma release_none: "is_locked m r None \<Longrightarrow> release r who tok m = Inl e \<Longrightarrow> get_lock m r = Some l \<Longrightarrow> (owner_agent_id l, token l) \<noteq> (who, tok)"
  by (auto simp: release_def get_lock_def is_locked_def split: option.splits if_splits)

lemma release_get: "release r who tok m = Inr m' \<Longrightarrow> get_lock m' q = (if q = r then None else get_lock m q)"
  by (simp add: get_lock_def release_ok)

lemma tick_locks_get:
  "release_tick_locks tick es m l = (m', l') \<Longrightarrow> get_lock m' q = Some x \<Longrightarrow> get_lock m q = Some x \<and> (q, owner_agent_id x, token x) \<notin> set es"
proof (induction tick es m l rule: release_tick_locks.induct)
  case (2 tick r who tok es m l)
  show ?case
  proof (cases "is_locked m r None")
    case False
    then have "get_lock m r = None" by (auto simp: is_locked_def get_lock_def split: option.splits if_splits)
    then show ?thesis using 2 False by auto
  next
    case True
    show ?thesis
    proof (cases "release r who tok m")
      case (Inl e)
      then have "get_lock m q = Some x \<and> (q, owner_agent_id x, token x) \<notin> set es" using 2 True by simp
      then show ?thesis using release_none [OF True Inl] by auto
    next
      case (Inr m1)
      then have "get_lock m1 q = Some x \<and> (q, owner_agent_id x, token x) \<notin> set es" using 2 True by simp
      then show ?thesis using release_get [OF Inr, of q] by (auto split: if_splits)
    qed
  qed
qed simp

lemma tick_locks_other: "release_tick_locks tick es m l = (m', l') \<Longrightarrow> q \<notin> fst ` set es \<Longrightarrow> dget (locks m') q = dget (locks m) q"
proof (induction tick es m l rule: release_tick_locks.induct)
  case (2 tick r who tok es m l)
  show ?case
  proof (cases "release r who tok m")
    case (Inr m1)
    then show ?thesis using 2 release_ok [OF Inr] by (auto split: if_splits)
  qed (use 2 in \<open>auto split: if_splits\<close>)
qed simp

lemma logged_keeps: "kbu.logged tick k0 ps k \<Longrightarrow> kb_locks k = kb_locks k0"
proof (induction rule: kbu.logged.induct)
  case (logged_app ps s e s')
  have "kb_locks s' = kb_locks s"
    using logged_app(2) by (auto simp: apply_kb_def map_snd_Inr write_ok store_def delete_def dest!: create_ok split: if_splits option.splits)
  then show ?case using logged_app(3) by simp
qed simp

section \<open>Properties\<close>

text \<open>
  C32. The commit phase is atomic on the knowledge base, whatever the effects on other stores do.  If the
  tick is rolled back, because some effect raised, resources and versions are exactly what they were
  before; otherwise they are the result of applying every effect on the knowledge base that validation and
  conflict resolution let through, in the order of staging.  Either way the locks registered in the tick
  are free, and no lock on another resource has changed.  Effects on the knowledge base are assumed to
  belong to no group, as the handlers stage them.
\<close>

theorem kb_commit_atomic:
  assumes "buffers.reach (txn t)" and "ungrouped (effects (txn t))"
    and "prepared tree now t = (is, b)" and "commit_phase other tree now tick t = t'"
  shows "(if rolled_back t' then (resources (kb t'), versions (kb t')) = (resources (kb t), versions (kb t))
          else \<exists>k. apply_all tick (kb_effects (effects b) is) (kb t) = Inr k
             \<and> (resources (kb t'), versions (kb t')) = (resources k, versions k))
     \<and> (\<forall>r l. get_lock (kb_locks (kb t')) r = Some l \<longrightarrow> get_lock (kb_locks (kb t)) r = Some l \<and> (r, owner_agent_id l, token l) \<notin> set (tick_locks t))
     \<and> (\<forall>r. r \<notin> fst ` set (tick_locks t) \<longrightarrow> dget (locks (kb_locks (kb t'))) r = dget (locks (kb_locks (kb t))) r)"
proof -
  let ?c0 = "\<lparr>c_kb = kb t, c_effects = effects b, c_applied = [], c_prior = []\<rparr>"
  obtain res c where l: "apply_loop other tick is is ?c0 = (res, c)" by (meson surj_pair)
  note ok = apply_loop_ok [OF prepared_ok [OF assms(1-3)] l]
  then have lk: "kb_locks (c_kb c) = kb_locks (kb t)" using logged_keeps by blast
  obtain m lg where r: "release_tick_locks tick (tick_locks t) (kb_locks (kb t)) (audit t) = (m, lg)" by (meson surj_pair)
  have kb': "if rolled_back t' then kb t' = (kb t)\<lparr>kb_locks := m\<rparr>
      else apply_all tick (kb_effects (effects b) is) (kb t) = Inr (c_kb c) \<and> kb t' = (c_kb c)\<lparr>kb_locks := m\<rparr>"
  proof (cases res)
    case None
    then show ?thesis using assms(3,4) l r lk ok by (auto simp: commit_phase_def release_all_def)
  next
    case (Some x)
    obtain i msg where x: "x = (i, msg)" by (cases x)
    let ?c = "c\<lparr>c_kb := (c_kb c)\<lparr>kb_locks := m\<rparr>\<rparr>"
    have "log_entry ?c = log_entry c" by (rule shapes_entry) (simp_all add: shapes_def fun_eq_iff)
    then have "c_kb (fold invert_one (rev (c_applied c)) ?c) = (fold (\<lambda>(r, p). restore r p) (rev (kb_log c)) (c_kb c))\<lparr>kb_locks := m\<rparr>"
      by (simp add: invert_all_kb rev_log restore_locks kb_log_def)
    moreover have "fold (\<lambda>(r, p). restore r p) (rev (kb_log c)) (c_kb c) = kb t" using ok kbu.undo_log [of tick "kb t" "kb_log c" "c_kb c"] by simp
    ultimately show ?thesis using assms(3,4) l r lk Some
      by (auto simp: commit_phase_def roll_back_def release_all_def Let_def x mark_rolled_back_kb)
  qed
  then have "kb_locks (kb t') = m" by (auto split: if_splits)
  then show ?thesis using kb' tick_locks_get [OF r] tick_locks_other [OF r] by (auto split: if_splits)
qed

definition ex_rules :: permission_engine where
  "ex_rules = [\<lparr>scope = ''project/*'', principal = ''ana'', allow = [''kb_write'', ''write'']\<rparr>]"

definition ex_start :: kb_tick where
  "ex_start = \<lparr>kb = new_shared_kb ex_rules 4, txn = new_buffer, tick_locks = [], audit = [], rolled_back = False\<rparr>"

definition ex_written :: kb_tick where
  "ex_written = snd (handle_kb_write ''t1'' ''ana'' 1 ''project/a'' (PStr ''one'') 0 ex_start)"

definition ex_mailed :: kb_tick where
  "ex_mailed = ex_written\<lparr>txn := snd (stage EMAIL_SEND ''bo'' ''mail'' None None None [] ''per_effect'' (txn ex_written))\<rparr>"

lemma reach_staged: "buffers.reach b \<Longrightarrow> buffers.reach (snd (stage ty a res dat ver tok grp atom b))"
  by (erule buffers.reach_step) (rule Stage [OF prod.collapse [symmetric]])

lemma ex_mailed_reach: "buffers.reach (txn ex_mailed)"
proof -
  have "txn ex_written = snd (stage KB_WRITE ''ana'' ''project/a'' (Some [(''content'', PStr ''one''), (''expected_version'', PInt 0)])
      (Some 0) (Some ''t1'') [] ''per_effect'' new_buffer)" by code_simp
  moreover have "buffers.reach new_buffer" by (rule buffers.reach_start) simp
  ultimately have "buffers.reach (txn ex_written)" using reach_staged by (simp only:)
  then show ?thesis using reach_staged by (simp add: ex_mailed_def)
qed

theorem kb_commit_atomic_witness:
  "\<exists>is b. buffers.reach (txn ex_mailed) \<and> prepared new_tree 0 ex_mailed = (is, b) \<and> length is = 2
     \<and> rolled_back (commit_phase (\<lambda>_. Raises ''mail down'') new_tree 0 1 ex_mailed)
     \<and> resources (kb (commit_phase (\<lambda>_. Raises ''mail down'') new_tree 0 1 ex_mailed)) = resources (kb ex_mailed)
     \<and> \<not> rolled_back (commit_phase (\<lambda>_. Done) new_tree 0 1 ex_mailed)
     \<and> (\<exists>k. apply_all 1 (kb_effects (effects b) is) (kb ex_mailed) = Inr k
         \<and> resources (kb (commit_phase (\<lambda>_. Done) new_tree 0 1 ex_mailed)) = resources k)"
proof -
  obtain "is" b where p: "prepared new_tree 0 ex_mailed = (is, b)" by (meson surj_pair)
  have n: "length (fst (prepared new_tree 0 ex_mailed)) = 2" by code_simp
  have u: "ungrouped (effects (txn ex_mailed))"
  proof -
    have "list_all (\<lambda>(i, e). group_id e = []) (effects (txn ex_mailed))" by code_simp
    then show ?thesis unfolding ungrouped_def list_all_iff by (auto dest: map_of_SomeD)
  qed
  have r: "rolled_back (commit_phase (\<lambda>_. Raises ''mail down'') new_tree 0 1 ex_mailed)" by code_simp
  have d: "\<not> rolled_back (commit_phase (\<lambda>_. Done) new_tree 0 1 ex_mailed)" by code_simp
  have 1: "resources (kb (commit_phase (\<lambda>_. Raises ''mail down'') new_tree 0 1 ex_mailed)) = resources (kb ex_mailed)"
    using kb_commit_atomic [OF ex_mailed_reach u p refl, of "\<lambda>_. Raises ''mail down''" 1, THEN conjunct1, unfolded if_P [OF r]]
    by (rule Pair_inject)
  have 2: "\<exists>k. apply_all 1 (kb_effects (effects b) is) (kb ex_mailed) = Inr k
         \<and> resources (kb (commit_phase (\<lambda>_. Done) new_tree 0 1 ex_mailed)) = resources k"
    using kb_commit_atomic [OF ex_mailed_reach u p refl, of "\<lambda>_. Done" 1, THEN conjunct1, unfolded if_not_P [OF d]]
    by (meson Pair_inject)
  have "length is = 2" using n p by simp
  then show ?thesis using ex_mailed_reach p r 1 d 2 by blast
qed

section \<open>One write from the tool call to the next reader\<close>

definition staged_write :: "nat \<Rightarrow> string \<Rightarrow> string \<Rightarrow> pyval \<Rightarrow> int \<Rightarrow> string \<Rightarrow> effect_status \<Rightarrow> effect" where
  "staged_write n who p body v tok st =
     \<lparr>effect_id = effect_name n, effect_type = KB_WRITE, agent_id = who, resource = p,
      data = [(''content'', body), (''expected_version'', PInt v)], expected_version = Some v, lock_token = Some tok,
      status = st, error = None, side_effect = False, group_id = [], atomicity = ''per_effect'', invert_data = []\<rparr>"

lemma staged_write_simps [simp]:
  "effect_type (staged_write n who p body v tok st) = KB_WRITE" "resource (staged_write n who p body v tok st) = p"
  "agent_id (staged_write n who p body v tok st) = who" "effect.status (staged_write n who p body v tok st) = st"
  "expected_version (staged_write n who p body v tok st) = Some v" "lock_token (staged_write n who p body v tok st) = Some tok"
  "effect_content (staged_write n who p body v tok st) = body" "effect_expected (staged_write n who p body v tok st) = Some v"
  "kb_effect (staged_write n who p body v tok st)" "grouped (staged_write n who p body v tok st) = False"
  "staged_write n who p body v tok st\<lparr>status := st'\<rparr> = staged_write n who p body v tok st'"
  by (simp_all add: staged_write_def effect_content_def effect_expected_def version_number_def kb_effect_def grouped_def)

lemma kb_write_stages:
  assumes "effects (txn t) = []" and "check (permissions (kb t)) who p ''kb_write''" and "held (kb_locks (kb t)) p tick = None"
  obtains l m where "acquire tok p who tick None (kb_locks (kb t)) = Inr (l, m)" "holds m l" "locked l = p" "owner_agent_id l = who" "token l = tok"
    and "success (fst (handle_kb_write tok who tick p body v t))"
    and "kb (snd (handle_kb_write tok who tick p body v t)) = (kb t)\<lparr>kb_locks := m\<rparr>"
    and "effects (txn (snd (handle_kb_write tok who tick p body v t)))
      = [(effect_name (counter (txn t) + 1), staged_write (counter (txn t) + 1) who p body v tok STAGED)]"
    and "tick_locks (snd (handle_kb_write tok who tick p body v t)) = tick_locks t @ [(p, who, tok)]"
proof -
  obtain l m where a: "acquire tok p who tick None (kb_locks (kb t)) = Inr (l, m)" using assms(3) by (simp add: acquire_def Let_def)
  note h = acquire_holds [OF a]
  show thesis
    by (rule that [OF a]) (use h assms a in \<open>simp_all add: handle_kb_write_def Let_def register_tick_lock_def succeeded_def
        stage_def staged_write_def EXTERNAL_EFFECT_TYPES_def\<close>)
qed

lemma lone_write_prepared:
  assumes e: "effects (txn t) = [(i, staged_write n who p body v tok STAGED)]" and l: "get_lock (kb_locks (kb t)) p = Some l"
    and "owner_agent_id l = who" "token l = tok" "check (permissions (kb t)) who p ''kb_write''" "get_version (versions (kb t)) p = v"
  shows "\<exists>b. prepared tree now t = ([i], b) \<and> effects b = [(i, staged_write n who p body v tok COMMITTED)]"
proof -
  have "commit_check_lock (kb t) p who (Some tok)" using l assms(3,4) by (simp add: commit_check_lock_def)
  moreover have "commit_check_permission (kb t) who p (effect_value KB_WRITE)" using assms(5) by (simp add: commit_check_permission_def)
  ultimately have "validate_effect (commit_checks (kb t) tree now) (staged_write n who p body v tok STAGED) = staged_write n who p body v tok VALIDATED"
    using assms(6) by (simp add: validate_effect_def commit_checks_def)
  then have "effects (snd (validate (commit_checks (kb t) tree now) (txn t))) = [(i, staged_write n who p body v tok VALIDATED)]"
    by (simp add: validate_def e Let_def group_ids_def dvals_def)
  then have "effects (snd (resolve_conflicts (snd (validate (commit_checks (kb t) tree now) (txn t))))) = [(i, staged_write n who p body v tok VALIDATED)]"
    by (simp add: resolve_conflicts_def by_resource_def dvals_def resolve_one_def)
  then show ?thesis by (simp add: prepared_def Let_def commit_def ready_def)
qed

text \<open>
  C34. A write from the tool call to the next reader.  An agent that the rules allow to call \<^verbatim>\<open>kb_write\<close>, on a
  resource nobody holds, with the current version, is told its write is staged; at the end of the tick the
  resource is free again.  If the rules also allow it to \<^verbatim>\<open>write\<close>, the resource has the new content, one
  version up.  If they do not, the write passes validation but raises when it is applied, and the whole
  tick is rolled back.
\<close>

theorem kb_write_takes_effect:
  assumes "effects (txn t) = []" and "check (permissions (kb t)) who p ''kb_write''"
    and "held (kb_locks (kb t)) p tick = None" and "get_version (versions (kb t)) p = v"
    and "handle_kb_write tok who tick p body v t = (r, t1)" and "commit_phase other tree now tick t1 = t2"
  shows "success r \<and> get_lock (kb_locks (kb t2)) p = None
     \<and> (if permitted (kb t) who p WRITE
        then \<not> rolled_back t2 \<and> get_version (versions (kb t2)) p = v + 1
          \<and> (\<exists>x. existing (kb t2) p = Some x \<and> kb_content x = body \<and> kb_version x = v + 1 \<and> kb_modified_by x = who)
        else rolled_back t2 \<and> resources (kb t2) = resources (kb t) \<and> versions (kb t2) = versions (kb t))"
proof -
  define n where "n = counter (txn t) + 1"
  obtain l m where a: "holds m l" "locked l = p" "owner_agent_id l = who" "token l = tok" "success r" "kb t1 = (kb t)\<lparr>kb_locks := m\<rparr>"
    and e: "effects (txn t1) = [(effect_name n, staged_write n who p body v tok STAGED)]"
    and tl: "tick_locks t1 = tick_locks t @ [(p, who, tok)]"
    using kb_write_stages [OF assms(1-3), of tok body v] assms(5) unfolding n_def by (metis fst_conv snd_conv)
  have g: "get_lock (kb_locks (kb t1)) p = Some l" using a(1,2,6) by (simp add: holds_def get_lock_def)
  obtain b where pr: "prepared tree now t1 = ([effect_name n], b)" and eb: "effects b = [(effect_name n, staged_write n who p body v tok COMMITTED)]"
    using lone_write_prepared [OF e g a(3,4), of tree now] assms(2,4) a(6) by auto
  obtain m2 lg where rl: "release_tick_locks tick (tick_locks t1) m (audit t1) = (m2, lg)" by (meson surj_pair)
  have free: "get_lock m2 p = None"
  proof (rule ccontr)
    assume "get_lock m2 p \<noteq> None"
    then obtain x where "get_lock m2 p = Some x" by blast
    then show False using tick_locks_get [OF rl, of p x] g a(3,4,6) tl by simp
  qed
  let ?e = "staged_write n who p body v tok COMMITTED"
  let ?c0 = "\<lparr>c_kb = kb t1, c_effects = effects b, c_applied = [], c_prior = []\<rparr>"
  show ?thesis
  proof (cases "permitted (kb t) who p WRITE")
    case True
    then have "permitted (kb t1) who p WRITE" using a(6) by (simp add: permitted_def)
    then obtain x k where w: "apply_committed p who body v tick (kb t1) = Inr (x, k)"
      and k: "k = store p who tick x (kb t1)" "kb_exists x" "kb_content x = body" "kb_version x = v + 1" "kb_modified_by x = who"
      using write_ok [of p who body v tick "kb t1"] g a(3,6) assms(4) by force
    have "apply_kb tick ?e (kb t1) = Inr k" using w by (simp add: apply_kb_def)
    then have "kb t2 = k\<lparr>kb_locks := m2\<rparr> \<and> \<not> rolled_back t2"
      using assms(6) pr eb rl a(6) k(1) by (auto simp: commit_phase_def release_all_def Let_def store_def)
    then show ?thesis using True a(5,6) free k assms(4) by (simp add: existing_def store_def increment_version)
  next
    case False
    then have "apply_kb tick ?e (kb t1) = Inl (denied p who ''write'')" using a(6) by (simp add: apply_kb_def apply_committed_def permitted_def)
    then have "kb t2 = (kb t1)\<lparr>kb_locks := m2\<rparr> \<and> rolled_back t2"
      using assms(6) pr eb rl a(6) by (auto simp: commit_phase_def roll_back_def release_all_def Let_def mark_rolled_back_kb)
    then show ?thesis using False a(5,6) free by simp
  qed
qed

theorem kb_write_takes_effect_witness:
  "kb_content (the (existing (kb (commit_phase (\<lambda>_. Done) new_tree 0 1 ex_written)) ''project/a'')) = PStr ''one''
   \<and> get_version (versions (kb (commit_phase (\<lambda>_. Done) new_tree 0 1 ex_written))) ''project/a'' = 1"
proof -
  have h: "effects (txn ex_start) = []" "check (permissions (kb ex_start)) ''ana'' ''project/a'' ''kb_write''"
    "held (kb_locks (kb ex_start)) ''project/a'' 1 = None" "get_version (versions (kb ex_start)) ''project/a'' = 0"
    "permitted (kb ex_start) ''ana'' ''project/a'' WRITE"
    by code_simp+
  have "handle_kb_write ''t1'' ''ana'' 1 ''project/a'' (PStr ''one'') 0 ex_start = (fst (handle_kb_write ''t1'' ''ana'' 1 ''project/a'' (PStr ''one'') 0 ex_start), ex_written)"
    unfolding ex_written_def by (rule prod.collapse [symmetric])
  from kb_write_takes_effect [OF h(1-4) this refl, of "\<lambda>_. Done" new_tree 0, THEN conjunct2, THEN conjunct2, unfolded if_P [OF h(5)]]
  show ?thesis by auto
qed

section \<open>A failed group\<close>

text \<open>
  When a member of an atomic group fails, the members that have not been applied yet are inverted, too.  An
  effect on the knowledge base then has no prior state recorded, and the resource it was going to change is
  taken away together with its version.
\<close>

lemma group_failure_erases:
  assumes "dget (c_effects c) j = Some e" "j \<noteq> i" "kb_effect e" "group_id e = g" "effect.status e = COMMITTED" "dget (c_prior c) j = None"
  shows "dget (resources (c_kb (fail_member g i j c))) (resource e) = None \<and> get_version (versions (c_kb (fail_member g i j c))) (resource e) = 0"
  using assms by (simp add: fail_member_def invert_one_def restore_def put_back_def get_version_def)

end
