(* ===== verification/Adjudication.thy ===== *)
theory Adjudication
  imports PredicateDSL "HOL-Library.Multiset"
begin

text \<open>
  The adjudication of decisions in the archived engine (\<^verbatim>\<open>legacy/authority.py\<close>): grants of authority with
  conditions in a three-valued logic, the resolution of one decision against a set of grants, the
  aggregation over the domains of a claim, and the static check of a delegation.  Values of conditions are
  those of JSON, so the collections among them are lists.
\<close>

section \<open>Conditions\<close>

datatype domain = SCOPE | CONTENT | METHOD | SCHEDULE | COST | ACCEPTANCE | RELEASE | OWNERSHIP

fun domain_value :: "domain \<Rightarrow> string" where
  "domain_value SCOPE = ''scope''"
| "domain_value CONTENT = ''content''"
| "domain_value METHOD = ''method''"
| "domain_value SCHEDULE = ''schedule''"
| "domain_value COST = ''cost''"
| "domain_value ACCEPTANCE = ''acceptance''"
| "domain_value RELEASE = ''release''"
| "domain_value OWNERSHIP = ''ownership''"

datatype strength = FINAL | VETO | CONSULT | NO_STRENGTH

datatype composition = PRIORITY | JOINT | THRESHOLD

datatype escalation_mode = ARBITRATE | TRANSFER | ADVISE

datatype escalation_trigger = ON_UNRESOLVED | ON_CONDITION_BREACHED | ON_EXCEPTION

datatype decision_state = ALLOWED | BLOCKED | UNRESOLVED | WAITING

datatype condition_op = EQ | NE | IN | NOT_IN | GT | GTE | LT | LTE | EXISTS

datatype cond_truth = TRUE | FALSE | UNKNOWN

record condition =
  cond_field :: string
  cond_op :: condition_op
  cond_value :: pyval

text \<open>
  The four order comparisons of Python: numbers by value, texts and lists lexicographically; any other pair
  has no order, which is a type error.
\<close>

fun order_op :: "condition_op \<Rightarrow> 'a :: linorder \<Rightarrow> 'a \<Rightarrow> bool" where
  "order_op GT a b = (a > b)"
| "order_op GTE a b = (a \<ge> b)"
| "order_op LT a b = (a < b)"
| "order_op _ a b = (a \<le> b)"

definition number_op :: "condition_op \<Rightarrow> pyfloat \<Rightarrow> pyfloat \<Rightarrow> bool" where
  "number_op c a b = (if c = GT then flt_lt b a else if c = GTE then flt_le b a else if c = LT then flt_lt a b else flt_le a b)"

fun py_order :: "condition_op \<Rightarrow> pyval \<Rightarrow> pyval \<Rightarrow> bool option"
  and py_order_list :: "condition_op \<Rightarrow> pyval list \<Rightarrow> pyval list \<Rightarrow> bool option" where
  "py_order c (PStr a) b = (case b of PStr b' \<Rightarrow> Some (order_op c a b') | _ \<Rightarrow> None)"
| "py_order c (PList a) b = (case b of PList b' \<Rightarrow> py_order_list c a b' | _ \<Rightarrow> None)"
| "py_order c a b = (case (num_of a, num_of b) of (Some x, Some y) \<Rightarrow> Some (number_op c x y) | _ \<Rightarrow> None)"
| "py_order_list c [] b = Some (order_op c 0 (length b))"
| "py_order_list c (x # a) b = (case b of
       [] \<Rightarrow> Some (order_op c 1 (0 :: nat))
     | y # b' \<Rightarrow> if py_eq x y then py_order_list c a b' else py_order c x y)"

definition truth :: "bool \<Rightarrow> cond_truth" where
  "truth b = (if b then TRUE else FALSE)"

definition evaluate :: "condition \<Rightarrow> (string, pyval) dict \<Rightarrow> cond_truth" where
  "evaluate c ctx =
     (let present = (dget ctx (cond_field c) \<noteq> None) in
      if cond_op c = EXISTS
      then truth (present = (if cond_value c \<noteq> PNone then truthy (cond_value c) else True))
      else case dget ctx (cond_field c) of
        None \<Rightarrow> UNKNOWN
      | Some v \<Rightarrow>
          if cond_op c = EQ then truth (py_eq v (cond_value c))
          else if cond_op c = NE then truth (\<not> py_eq v (cond_value c))
          else if cond_op c \<in> {IN, NOT_IN} then
            (case cond_value c of
               PList l \<Rightarrow> truth (list_ex (py_eq v) l = (cond_op c = IN))
             | _ \<Rightarrow> UNKNOWN)
          else (case py_order (cond_op c) v (cond_value c) of None \<Rightarrow> UNKNOWN | Some b \<Rightarrow> truth b))"

section \<open>Grants, requests and results\<close>

record escalation =
  esc_on :: escalation_trigger
  esc_mode :: escalation_mode
  esc_target :: string

record authority_grant =
  subject :: string
  domain :: domain
  grant_context :: "string option"
  strength :: strength
  composition :: "composition option"
  conditions :: "condition list"
  escalation :: "escalation option"
  priority :: int
  threshold_n :: int

record decision_request =
  req_subject :: string
  req_domain :: domain
  req_context :: "string option"
  condition_context :: "(string, pyval) dict"
  consenting :: "string list"
  exceptional :: bool

record decision_result =
  state :: decision_state
  res_domain :: domain
  winner :: "string option"
  reason :: string
  matched :: "string list"
  effective_finals :: "string list"
  effective_vetoes :: "string list"
  consults :: "string list"
  res_escalation :: "escalation option"

record decision_claim =
  claim_id :: string
  claim_subject :: string
  effect_ref :: string
  domains :: "domain list"
  claim_context :: "string option"
  claim_conditions :: "(string, pyval) dict"
  claim_consenting :: "string list"
  process_instance_id :: string
  authority_snapshot :: string

definition desc :: "authority_grant \<Rightarrow> string" where
  "desc g = subject g @ ''@'' @ domain_value (domain g) @ '':''
     @ (case grant_context g of Some c \<Rightarrow> if c \<noteq> [] then c else ''*'' | None \<Rightarrow> ''*'')"

definition wildcard :: "string \<Rightarrow> bool" where
  "wildcard s \<longleftrightarrow> s \<noteq> [] \<and> last s = CHR ''*''"

definition context_specificity :: "string option \<Rightarrow> string option \<Rightarrow> nat" where
  "context_specificity gc rc =
     (case gc of
        None \<Rightarrow> 1
      | Some g \<Rightarrow>
          (case rc of
             None \<Rightarrow> 0
           | Some r \<Rightarrow> if g = r then 3 else if wildcard g \<and> is_prefix (butlast g) r then 2 else 0))"

definition grant_effective :: "authority_grant \<Rightarrow> (string, pyval) dict \<Rightarrow> bool" where
  "grant_effective g ctx \<longleftrightarrow> list_all (\<lambda>c. evaluate c ctx = TRUE) (conditions g)"

definition escalation_for :: "authority_grant list \<Rightarrow> escalation_trigger \<Rightarrow> decision_request \<Rightarrow> escalation option" where
  "escalation_for gs trigger rq =
     (let trigger = (if exceptional rq then ON_EXCEPTION else trigger) in
      case find (\<lambda>g. case escalation g of Some e \<Rightarrow> esc_on e = trigger | None \<Rightarrow> False) gs of
        Some g \<Rightarrow> escalation g
      | None \<Rightarrow> None)"

section \<open>Resolution\<close>

definition result :: "decision_state \<Rightarrow> decision_request \<Rightarrow> string \<Rightarrow> decision_result" where
  "result s rq why = \<lparr>state = s, res_domain = req_domain rq, winner = None, reason = why, matched = [], effective_finals = [],
     effective_vetoes = [], consults = [], res_escalation = None\<rparr>"

definition add_tier :: "decision_request \<Rightarrow> authority_grant \<Rightarrow> (nat, authority_grant list) dict \<Rightarrow> (nat, authority_grant list) dict" where
  "add_tier rq g d =
     (let s = context_specificity (grant_context g) (req_context rq) in
      if s > 0 then dset s ((case dget d s of None \<Rightarrow> [] | Some l \<Rightarrow> l) @ [g]) d else d)"

definition consent :: "decision_request \<Rightarrow> string list" where
  "consent rq = consenting rq @ [req_subject rq]"

text \<open>The holder decides alone.\<close>

definition by_holder :: "decision_request \<Rightarrow> authority_grant \<Rightarrow> decision_result" where
  "by_holder rq h =
     (if req_subject rq = subject h
      then (result ALLOWED rq (subject h @ '' decides''))\<lparr>winner := Some (subject h)\<rparr>
      else result WAITING rq (''decision belongs to '' @ subject h @ '' (consent required)''))"

definition sorted_set :: "string list \<Rightarrow> string list" where
  "sorted_set xs = sort (remdups xs)"

definition commas :: "string list \<Rightarrow> string" where
  "commas xs = join '','' xs"

text \<open>What several finals decide together, or a holder among them.\<close>

definition compose :: "decision_request \<Rightarrow> authority_grant list \<Rightarrow> authority_grant list \<Rightarrow> decision_result" where
  "compose rq doms finals =
     (let comps = map composition finals in
      if None \<in> set comps \<or> length (remdups comps) > 1
      then (result UNRESOLVED rq ''multiple finals without a single composition'')
             \<lparr>res_escalation := escalation_for doms ON_UNRESOLVED rq\<rparr>
      else if composition (hd finals) = Some PRIORITY then
        (let top = Max (set (map priority finals)); best = filter (\<lambda>f. priority f = top) finals in
         if length best > 1
         then (result UNRESOLVED rq ''priority composition: tie'')\<lparr>res_escalation := escalation_for doms ON_UNRESOLVED rq\<rparr>
         else by_holder rq (hd best))
      else if composition (hd finals) = Some JOINT then
        (let needed = map subject finals; lacking = sorted_set (filter (\<lambda>s. s \<notin> set (consent rq)) needed) in
         if lacking \<noteq> [] then result WAITING rq (''joint consent missing: '' @ commas lacking)
         else (result ALLOWED rq ''joint consent complete'')\<lparr>winner := Some (''joint:'' @ commas (sorted_set needed))\<rparr>)
      else
        (let n = max 1 (threshold_n (hd finals));
             consented = sorted_set (filter (\<lambda>s. s \<in> set (map subject finals)) (consent rq)) in
         if int (length consented) < n
         then result WAITING rq (''threshold '' @ digits (length consented) @ ''/'' @ str_int n @ '' not met'')
         else (result ALLOWED rq (''threshold '' @ digits (length consented) @ ''/'' @ str_int n @ '' met''))
                \<lparr>winner := Some (''threshold:'' @ commas consented)\<rparr>))"

fun resolve_tiers :: "decision_request \<Rightarrow> authority_grant list \<Rightarrow> (nat, authority_grant list) dict \<Rightarrow> nat list \<Rightarrow> string list \<Rightarrow> decision_result" where
  "resolve_tiers rq doms tiers [] seen =
     (result UNRESOLVED rq ''no final authority for domain/context'')
       \<lparr>matched := map desc doms, consults := seen, res_escalation := escalation_for doms ON_UNRESOLVED rq\<rparr>"
| "resolve_tiers rq doms tiers (s # ss) seen =
     (let tier = (case dget tiers s of None \<Rightarrow> [] | Some l \<Rightarrow> l);
          effective = filter (\<lambda>g. grant_effective g (condition_context rq)) tier;
          vetoes = filter (\<lambda>g. strength g = VETO) effective
      in if vetoes \<noteq> []
         then (result BLOCKED rq (''effective veto by '' @ subject (hd vetoes)))
                \<lparr>matched := map desc doms, effective_vetoes := map desc vetoes, consults := seen,
                 res_escalation := escalation_for vetoes ON_CONDITION_BREACHED rq\<rparr>
         else let finals = filter (\<lambda>g. strength g = FINAL) effective;
                  seen = seen @ map desc (filter (\<lambda>g. strength g = CONSULT) effective)
              in if finals = [] then resolve_tiers rq doms tiers ss seen
                 else (if length finals = 1 then by_holder rq (hd finals) else compose rq doms finals)
                        \<lparr>matched := map desc doms, effective_finals := map desc finals, consults := seen\<rparr>)"

definition resolve :: "decision_request \<Rightarrow> authority_grant list \<Rightarrow> decision_result" where
  "resolve rq grants =
     (let doms = filter (\<lambda>g. domain g = req_domain rq) grants in
      if doms = []
      then (result UNRESOLVED rq ''no authority grant for domain'')\<lparr>res_escalation := escalation_for doms ON_UNRESOLVED rq\<rparr>
      else let tiers = fold (add_tier rq) doms []
           in resolve_tiers rq doms tiers (rev (sort (dkeys tiers))) [])"

section \<open>Claims and delegation\<close>

definition claim_request :: "decision_claim \<Rightarrow> domain \<Rightarrow> decision_request" where
  "claim_request c d = \<lparr>req_subject = claim_subject c, req_domain = d, req_context = claim_context c,
     condition_context = claim_conditions c, consenting = claim_consenting c, exceptional = False\<rparr>"

definition resolve_claim :: "decision_claim \<Rightarrow> authority_grant list \<Rightarrow> (domain, decision_result) dict" where
  "resolve_claim c grants = fold (\<lambda>d out. dset d (resolve (claim_request c d) grants) out) (domains c) []"

definition claim_overall :: "(domain, decision_result) dict \<Rightarrow> decision_state" where
  "claim_overall results =
     (let states = map state (dvals results) in
      if BLOCKED \<in> set states then BLOCKED
      else if UNRESOLVED \<in> set states then UNRESOLVED
      else if WAITING \<in> set states then WAITING
      else ALLOWED)"

definition context_covers :: "string option \<Rightarrow> string option \<Rightarrow> bool" where
  "context_covers dc cc =
     (case dc of
        None \<Rightarrow> True
      | Some d \<Rightarrow>
          (case cc of
             None \<Rightarrow> False
           | Some c \<Rightarrow>
               if d = c then True
               else if wildcard d \<and> is_prefix (butlast d) c then True
               else wildcard c \<and> is_prefix (butlast c) d))"

definition check_delegation_monotonic :: "authority_grant list \<Rightarrow> authority_grant list \<Rightarrow> string list" where
  "check_delegation_monotonic delegator child =
     map (\<lambda>c. ''child grant '' @ desc c @ '' not covered by delegator authority'')
       (filter (\<lambda>c. strength c \<in> {FINAL, VETO} \<and> \<not> list_ex (\<lambda>d. domain d = domain c \<and> strength d \<in> {FINAL, VETO}
          \<and> context_covers (grant_context d) (grant_context c)) delegator) child)"

section \<open>What a decision means\<close>

text \<open>
  The specification: the grants that count in a tier, the most specific tier in which one of them vetoes or
  decides, and what its finals decide, in terms of sets and numbers of subjects.
\<close>

definition counting :: "decision_request \<Rightarrow> nat \<Rightarrow> strength \<Rightarrow> authority_grant \<Rightarrow> bool" where
  "counting rq s st g \<longleftrightarrow> domain g = req_domain rq \<and> context_specificity (grant_context g) (req_context rq) = s
     \<and> grant_effective g (condition_context rq) \<and> strength g = st"

definition deciding_tier :: "decision_request \<Rightarrow> authority_grant list \<Rightarrow> nat option" where
  "deciding_tier rq gs = find (\<lambda>s. list_ex (\<lambda>g. counting rq s VETO g \<or> counting rq s FINAL g) gs) [3, 2, 1]"

definition composed_by :: "composition \<Rightarrow> authority_grant list \<Rightarrow> bool" where
  "composed_by c fs \<longleftrightarrow> composition ` set fs = {Some c}"

definition top_finals :: "authority_grant list \<Rightarrow> authority_grant list" where
  "top_finals fs = filter (\<lambda>f. priority f = Max (priority ` set fs)) fs"

definition agree :: "decision_request \<Rightarrow> authority_grant list \<Rightarrow> bool" where
  "agree rq fs \<longleftrightarrow> (let yes = insert (req_subject rq) (set (consenting rq)) in
     if length fs = 1 then subject ` set fs = {req_subject rq}
     else composed_by PRIORITY fs \<and> length (top_finals fs) = 1 \<and> subject ` set (top_finals fs) = {req_subject rq}
        \<or> composed_by JOINT fs \<and> subject ` set fs \<subseteq> yes
        \<or> composed_by THRESHOLD fs \<and> max 1 (threshold_n (hd fs)) \<le> int (card (subject ` set fs \<inter> yes)))"

definition conflicting :: "authority_grant list \<Rightarrow> bool" where
  "conflicting fs \<longleftrightarrow> length fs \<noteq> 1 \<and> (\<not> (composed_by PRIORITY fs \<or> composed_by JOINT fs \<or> composed_by THRESHOLD fs)
     \<or> composed_by PRIORITY fs \<and> length (top_finals fs) \<noteq> 1)"

definition decision :: "decision_request \<Rightarrow> authority_grant list \<Rightarrow> decision_state" where
  "decision rq gs = (case deciding_tier rq gs of
       None \<Rightarrow> UNRESOLVED
     | Some s \<Rightarrow>
         let fs = filter (counting rq s FINAL) gs in
         if list_ex (counting rq s VETO) gs then BLOCKED
         else if conflicting fs then UNRESOLVED
         else if agree rq fs then ALLOWED else WAITING)"

section \<open>Resolution meets the specification\<close>

lemma composed_unique: "composed_by c fs \<Longrightarrow> composed_by c' fs \<Longrightarrow> c = c'"
  by (simp add: composed_by_def)

lemma uniform_comps:
  assumes "fs \<noteq> []"
  shows "None \<in> set (map composition fs) \<or> length (remdups (map composition fs)) > 1 \<longleftrightarrow> \<not> (\<exists>c. composed_by c fs)"
proof
  assume h: "None \<in> set (map composition fs) \<or> length (remdups (map composition fs)) > 1"
  show "\<not> (\<exists>c. composed_by c fs)"
  proof
    assume "\<exists>c. composed_by c fs"
    then obtain c where c: "set (map composition fs) = {Some c}" by (auto simp: composed_by_def)
    then have "length (remdups (map composition fs)) = card {Some c}" by (simp add: length_remdups_card_conv)
    then show False using h c by simp
  qed
next
  assume n: "\<not> (\<exists>c. composed_by c fs)"
  show "None \<in> set (map composition fs) \<or> length (remdups (map composition fs)) > 1"
  proof (rule ccontr)
    assume "\<not> (None \<in> set (map composition fs) \<or> length (remdups (map composition fs)) > 1)"
    then have m: "None \<notin> composition ` set fs" "card (composition ` set fs) \<le> 1" by (simp_all add: length_remdups_card_conv)
    define A where "A = composition ` set fs"
    obtain c where c: "c \<in> A" using assms unfolding A_def by (cases fs) auto
    have "finite A" by (simp add: A_def)
    then have "\<forall>a \<in> A. \<forall>b \<in> A. a = b" using card_le_Suc0_iff_eq [of A] m(2) by (simp add: A_def [symmetric])
    then have A: "A = {c}" using c by auto
    obtain d where "c = Some d" using c m(1) unfolding A_def by (cases c) auto
    then show False using n A by (simp add: composed_by_def A_def)
  qed
qed

lemma composed_hd: "fs \<noteq> [] \<Longrightarrow> composed_by c fs \<Longrightarrow> composition (hd fs) = Some c"
  by (metis composed_by_def hd_in_set image_eqI singletonD)

lemma by_holder_state [simp]: "state (by_holder rq h) = (if req_subject rq = subject h then ALLOWED else WAITING)"
  "winner (by_holder rq h) = (if req_subject rq = subject h then Some (subject h) else None)"
  "effective_vetoes (by_holder rq h) = []"
  by (simp_all add: by_holder_def result_def)

lemma sorted_set_length: "length (sorted_set xs) = card (set xs)"
  by (simp add: sorted_set_def length_remdups_card_conv)

lemma sorted_set_nil: "sorted_set xs = [] \<longleftrightarrow> xs = []"
  by (metis sorted_set_length card_0_eq List.finite_set length_0_conv set_empty)

lemma top_not_nil: "fs \<noteq> [] \<Longrightarrow> top_finals fs \<noteq> []"
proof -
  assume "fs \<noteq> []"
  then have "Max (priority ` set fs) \<in> priority ` set fs" by (intro Max_in) auto
  then show ?thesis by (auto simp: top_finals_def filter_empty_conv)
qed

definition verdict :: "decision_request \<Rightarrow> authority_grant list \<Rightarrow> decision_state" where
  "verdict rq fs = (if conflicting fs then UNRESOLVED else if agree rq fs then ALLOWED else WAITING)"

lemma compose_verdict:
  assumes "fs \<noteq> []" "length fs \<noteq> 1"
  shows "state (compose rq doms fs) = verdict rq fs \<and> (winner (compose rq doms fs) \<noteq> None \<longleftrightarrow> verdict rq fs = ALLOWED)
     \<and> effective_vetoes (compose rq doms fs) = []"
proof (cases "\<exists>c. composed_by c fs")
  case False
  then have "None \<in> set (map composition fs) \<or> length (remdups (map composition fs)) > 1" using uniform_comps [OF assms(1)] by blast
  moreover have "conflicting fs" using False assms(2) by (auto simp: conflicting_def)
  ultimately show ?thesis by (simp add: compose_def Let_def verdict_def result_def)
next
  case True
  then obtain c where c: "composed_by c fs" by blast
  have u: "\<not> (None \<in> set (map composition fs) \<or> length (remdups (map composition fs)) > 1)" using uniform_comps [OF assms(1)] True by blast
  have hdc: "composition (hd fs) = Some c" using composed_hd [OF assms(1) c] .
  have other: "composed_by c' fs \<longleftrightarrow> c' = c" for c' using c composed_unique by blast
  show ?thesis
  proof (cases c)
    case PRIORITY
    have t: "filter (\<lambda>f. priority f = Max (set (map priority fs))) fs = top_finals fs" by (simp add: top_finals_def)
    have "compose rq doms fs = (if length (top_finals fs) > 1
         then (result UNRESOLVED rq ''priority composition: tie'')\<lparr>res_escalation := escalation_for doms ON_UNRESOLVED rq\<rparr>
         else by_holder rq (hd (top_finals fs)))"
      unfolding compose_def Let_def t using u hdc PRIORITY by simp
    then have s: "compose rq doms fs = (result UNRESOLVED rq ''priority composition: tie'')\<lparr>res_escalation := escalation_for doms ON_UNRESOLVED rq\<rparr>"
      if "length (top_finals fs) \<noteq> 1" using that top_not_nil [OF assms(1)] by (cases "top_finals fs") auto
    show ?thesis
    proof (cases "length (top_finals fs) = 1")
      case one: True
      then obtain h where h: "top_finals fs = [h]" by (cases "top_finals fs") auto
      have "compose rq doms fs = by_holder rq h" using \<open>compose rq doms fs = _\<close> h by simp
      moreover have "verdict rq fs = (if req_subject rq = subject h then ALLOWED else WAITING)"
        using assms(2) other PRIORITY h by (auto simp: verdict_def conflicting_def agree_def Let_def)
      ultimately show ?thesis by simp
    next
      case False
      then have "verdict rq fs = UNRESOLVED" using assms(2) other PRIORITY by (simp add: verdict_def conflicting_def)
      then show ?thesis using s [OF False] by (simp add: result_def)
    qed
  next
    case JOINT
    let ?l = "sorted_set (filter (\<lambda>s. s \<notin> set (consent rq)) (map subject fs))"
    have "compose rq doms fs = (if ?l \<noteq> [] then result WAITING rq (''joint consent missing: '' @ commas ?l)
         else (result ALLOWED rq ''joint consent complete'')\<lparr>winner := Some (''joint:'' @ commas (sorted_set (map subject fs)))\<rparr>)"
      unfolding compose_def Let_def using u hdc JOINT by simp
    moreover have "?l = [] \<longleftrightarrow> subject ` set fs \<subseteq> insert (req_subject rq) (set (consenting rq))"
      unfolding sorted_set_nil filter_empty_conv by (auto simp: consent_def)
    ultimately show ?thesis using assms(2) other JOINT
      by (simp add: verdict_def conflicting_def agree_def Let_def result_def)
  next
    case THRESHOLD
    let ?y = "sorted_set (filter (\<lambda>s. s \<in> set (map subject fs)) (consent rq))"
    have "state (compose rq doms fs) = (if int (length ?y) < max 1 (threshold_n (hd fs)) then WAITING else ALLOWED)
        \<and> (winner (compose rq doms fs) \<noteq> None \<longleftrightarrow> \<not> int (length ?y) < max 1 (threshold_n (hd fs))) \<and> effective_vetoes (compose rq doms fs) = []"
      unfolding compose_def Let_def using u hdc THRESHOLD by (simp add: result_def)
    moreover have "length ?y = card (subject ` set fs \<inter> insert (req_subject rq) (set (consenting rq)))"
      unfolding sorted_set_length by (rule arg_cong [of _ _ card]) (auto simp: consent_def)
    moreover have "verdict rq fs = (if int (card (subject ` set fs \<inter> insert (req_subject rq) (set (consenting rq)))) < max 1 (threshold_n (hd fs))
        then WAITING else ALLOWED)"
      using assms(2) other THRESHOLD by (simp add: verdict_def conflicting_def agree_def Let_def not_le [symmetric])
    ultimately show ?thesis by simp
  qed
qed

lemma finals_verdict:
  assumes "fs \<noteq> []"
  shows "state (if length fs = 1 then by_holder rq (hd fs) else compose rq doms fs) = verdict rq fs
     \<and> (winner (if length fs = 1 then by_holder rq (hd fs) else compose rq doms fs) \<noteq> None \<longleftrightarrow> verdict rq fs = ALLOWED)
     \<and> effective_vetoes (if length fs = 1 then by_holder rq (hd fs) else compose rq doms fs) = []"
proof (cases "length fs = 1")
  case True
  then obtain f where "fs = [f]" by (cases fs) auto
  then show ?thesis by (auto simp: verdict_def conflicting_def agree_def)
qed (use compose_verdict [OF assms] in simp)

lemma tiers_get:
  "dget (fold (add_tier rq) gs []) s = (let l = filter (\<lambda>g. context_specificity (grant_context g) (req_context rq) = s) gs
     in if s = 0 \<or> l = [] then None else Some l)"
proof (induction gs rule: rev_induct)
  case (snoc g gs)
  then show ?case by (auto simp: add_tier_def Let_def)
qed simp

lemma tiers_wf: "dwf (fold (add_tier rq) gs [])"
proof -
  have "dwf d \<Longrightarrow> dwf (fold (add_tier rq) gs d)" for d
    by (induction gs arbitrary: d) (simp_all add: add_tier_def Let_def dwf_dset)
  then show ?thesis by (simp add: dwf_def)
qed

lemma specificity_le: "context_specificity gc rc \<in> {0, 1, 2, 3}"
  by (simp add: context_specificity_def split: option.split)

lemma tier_keys: "rev (sort (dkeys (fold (add_tier rq) gs []))) = filter (\<lambda>s. dget (fold (add_tier rq) gs []) s \<noteq> None) [3, 2, 1]"
proof -
  define d where "d = fold (add_tier rq) gs []"
  have "s \<in> {1, 2, 3}" if k: "dget d s \<noteq> None" for s
  proof -
    have "s \<noteq> 0" and "\<exists>g \<in> set gs. context_specificity (grant_context g) (req_context rq) = s"
      using k unfolding d_def tiers_get by (auto simp: Let_def filter_empty_conv split: if_splits)
    then show ?thesis using specificity_le by force
  qed
  then have "{s. dget d s \<noteq> None} = {s \<in> {1, 2, 3}. dget d s \<noteq> None}" by blast
  then have "set (dkeys d) = set (filter (\<lambda>s. dget d s \<noteq> None) [1, 2, 3])" by (simp only: set_dkeys set_filter list.set)
  moreover have "distinct (dkeys d)" using tiers_wf by (simp add: d_def dwf_def dkeys_def)
  ultimately have "sort (dkeys d) = filter (\<lambda>s. dget d s \<noteq> None) [1, 2, 3]"
    by (intro sorted_distinct_set_unique) (simp_all only: sorted_sort distinct_sort set_sort, simp_all)
  then have "rev (sort (dkeys d)) = rev (filter (\<lambda>s. dget d s \<noteq> None) [1, 2, 3])" by simp
  then show ?thesis unfolding d_def by (simp add: rev_filter)
qed

lemma resolve_present: "resolve_tiers rq doms d (filter (\<lambda>s. dget d s \<noteq> None) ss) seen = resolve_tiers rq doms d ss seen"
  by (induction ss arbitrary: seen) (auto simp: Let_def)

definition in_tier :: "decision_request \<Rightarrow> authority_grant list \<Rightarrow> nat \<Rightarrow> strength \<Rightarrow> authority_grant list" where
  "in_tier rq gs s st = filter (counting rq s st) gs"

lemma tier_filter:
  assumes "d = fold (add_tier rq) (filter (\<lambda>g. domain g = req_domain rq) gs) []" and "s \<noteq> 0"
  shows "filter (\<lambda>g. strength g = st) (filter (\<lambda>g. grant_effective g (condition_context rq)) (case dget d s of None \<Rightarrow> [] | Some l \<Rightarrow> l))
    = in_tier rq gs s st"
proof -
  have "(case dget d s of None \<Rightarrow> [] | Some l \<Rightarrow> l)
      = filter (\<lambda>g. context_specificity (grant_context g) (req_context rq) = s) (filter (\<lambda>g. domain g = req_domain rq) gs)"
    using assms by (auto simp: tiers_get Let_def)
  then show ?thesis by (simp add: in_tier_def counting_def conj_ac cong: filter_cong)
qed

lemma resolve_tiers_spec:
  assumes "d = fold (add_tier rq) (filter (\<lambda>g. domain g = req_domain rq) gs) []" and "0 \<notin> set ss"
  shows "state (resolve_tiers rq doms d ss seen) = (case find (\<lambda>s. in_tier rq gs s VETO \<noteq> [] \<or> in_tier rq gs s FINAL \<noteq> []) ss of
      None \<Rightarrow> UNRESOLVED | Some s \<Rightarrow> if in_tier rq gs s VETO \<noteq> [] then BLOCKED else verdict rq (in_tier rq gs s FINAL))
    \<and> (winner (resolve_tiers rq doms d ss seen) \<noteq> None \<longleftrightarrow> state (resolve_tiers rq doms d ss seen) = ALLOWED)
    \<and> (effective_vetoes (resolve_tiers rq doms d ss seen) \<noteq> [] \<longleftrightarrow> state (resolve_tiers rq doms d ss seen) = BLOCKED)"
  using assms(2)
proof (induction ss arbitrary: seen)
  case Nil
  then show ?case by (simp add: result_def)
next
  case (Cons s ss)
  then have s: "s \<noteq> 0" "0 \<notin> set ss" by auto
  note t = tier_filter [OF assms(1) s(1)]
  have nv: "verdict rq fs \<noteq> BLOCKED" for fs by (simp add: verdict_def)
  have step: "resolve_tiers rq doms d (s # ss) seen =
      (if in_tier rq gs s VETO \<noteq> []
       then (result BLOCKED rq (''effective veto by '' @ subject (hd (in_tier rq gs s VETO))))
              \<lparr>matched := map desc doms, effective_vetoes := map desc (in_tier rq gs s VETO), consults := seen,
               res_escalation := escalation_for (in_tier rq gs s VETO) ON_CONDITION_BREACHED rq\<rparr>
       else if in_tier rq gs s FINAL = [] then resolve_tiers rq doms d ss (seen @ map desc (in_tier rq gs s CONSULT))
       else (if length (in_tier rq gs s FINAL) = 1 then by_holder rq (hd (in_tier rq gs s FINAL)) else compose rq doms (in_tier rq gs s FINAL))
              \<lparr>matched := map desc doms, effective_finals := map desc (in_tier rq gs s FINAL), consults := seen @ map desc (in_tier rq gs s CONSULT)\<rparr>)"
    by (simp only: resolve_tiers.simps Let_def t)
  show ?case
  proof (cases "in_tier rq gs s VETO = []")
    case False
    then show ?thesis unfolding step by (simp add: result_def)
  next
    case veto: True
    show ?thesis
    proof (cases "in_tier rq gs s FINAL = []")
      case True
      then show ?thesis unfolding step using Cons.IH [OF s(2)] veto by simp
    next
      case False
      then show ?thesis unfolding step using finals_verdict [OF False, of rq doms] veto nv by (simp split del: if_split)
    qed
  qed
qed

lemma resolve_spec:
  "state (resolve rq gs) = decision rq gs \<and> (winner (resolve rq gs) \<noteq> None \<longleftrightarrow> decision rq gs = ALLOWED)
    \<and> (effective_vetoes (resolve rq gs) \<noteq> [] \<longleftrightarrow> decision rq gs = BLOCKED)"
proof -
  have ne: "in_tier rq gs s st \<noteq> [] \<longleftrightarrow> list_ex (counting rq s st) gs" for s st
    by (auto simp: in_tier_def filter_empty_conv list_ex_iff)
  have d: "decision rq gs = (case find (\<lambda>s. in_tier rq gs s VETO \<noteq> [] \<or> in_tier rq gs s FINAL \<noteq> []) [3, 2, 1] of
      None \<Rightarrow> UNRESOLVED | Some s \<Rightarrow> if in_tier rq gs s VETO \<noteq> [] then BLOCKED else verdict rq (in_tier rq gs s FINAL))"
    unfolding decision_def deciding_tier_def ne by (auto simp: list_ex_iff verdict_def in_tier_def Let_def ball_Un bex_Un intro!: option.case_cong)
  show ?thesis
  proof (cases "filter (\<lambda>g. domain g = req_domain rq) gs = []")
    case True
    then have "\<not> counting rq s st g" if "g \<in> set gs" for s st g using that by (auto simp: counting_def filter_empty_conv)
    then have "decision rq gs = UNRESOLVED" by (auto simp: decision_def deciding_tier_def list_ex_iff)
    then show ?thesis using True by (simp add: resolve_def Let_def result_def)
  next
    case False
    define ds where "ds = filter (\<lambda>g. domain g = req_domain rq) gs"
    have "resolve rq gs = resolve_tiers rq ds (fold (add_tier rq) ds []) [3, 2, 1] []"
      using False unfolding resolve_def Let_def ds_def [symmetric] tier_keys resolve_present by simp
    then show ?thesis using resolve_tiers_spec [of "fold (add_tier rq) ds []" rq gs "[3, 2, 1]" ds "[]"] d by (simp add: ds_def)
  qed
qed

section \<open>Claims, consent and the order of grants\<close>

lemma dset_each_get: "dget (fold (\<lambda>d out. dset d (f d) out) ds out) d = (if d \<in> set ds then Some (f d) else dget out d)"
  by (induction ds arbitrary: out) auto

lemma dset_each_wf: "dwf out \<Longrightarrow> dwf (fold (\<lambda>d out. dset d (f d) out) ds out)"
  by (induction ds arbitrary: out) (simp_all add: dwf_dset)

lemma claim_results: "dget (resolve_claim c gs) d = (if d \<in> set (domains c) then Some (resolve (claim_request c d) gs) else None)"
  by (simp add: resolve_claim_def dset_each_get)

lemma claim_wf: "dwf (resolve_claim c gs)"
  unfolding resolve_claim_def by (rule dset_each_wf) (simp add: dwf_def)

lemma claim_states: "set (map state (dvals (resolve_claim c gs))) = (\<lambda>d. decision (claim_request c d) gs) ` set (domains c)"
proof -
  have "set (dvals (resolve_claim c gs)) = ran (dget (resolve_claim c gs))"
    using claim_wf [of c gs] unfolding dvals_def dwf_def by (simp add: ran_distinct)
  also have "\<dots> = (\<lambda>d. resolve (claim_request c d) gs) ` set (domains c)"
    by (auto simp: ran_def claim_results split: if_splits)
  finally show ?thesis by (simp add: image_image resolve_spec)
qed

text \<open>The worst state of a claim's domains, in the order the aggregation gives them.\<close>

fun severity :: "decision_state \<Rightarrow> nat" where
  "severity ALLOWED = 0"
| "severity WAITING = 1"
| "severity UNRESOLVED = 2"
| "severity BLOCKED = 3"

lemma claim_worst:
  "severity (claim_overall (resolve_claim c gs)) = Max (insert 0 ((\<lambda>d. severity (decision (claim_request c d) gs)) ` set (domains c)))"
proof -
  define S where "S = (\<lambda>d. decision (claim_request c d) gs) ` set (domains c)"
  have m: "(\<lambda>d. severity (decision (claim_request c d) gs)) ` set (domains c) = severity ` S" by (simp add: S_def image_image)
  have o: "claim_overall (resolve_claim c gs) = (if BLOCKED \<in> S then BLOCKED else if UNRESOLVED \<in> S then UNRESOLVED else if WAITING \<in> S then WAITING else ALLOWED)"
    unfolding claim_overall_def Let_def claim_states S_def [symmetric] ..
  have top: "severity x \<le> severity (claim_overall (resolve_claim c gs))" if "x \<in> S" for x
    using that unfolding o by (cases x) auto
  have "severity (claim_overall (resolve_claim c gs)) \<in> insert 0 (severity ` S)" unfolding o by (auto intro: rev_image_eqI)
  moreover have "finite S" by (simp add: S_def)
  ultimately show ?thesis unfolding m using top by (intro Max_eqI [symmetric]) auto
qed

text \<open>More consent never undoes a decision.\<close>

lemma consent_mono:
  assumes "decision rq gs = ALLOWED" and "set (consenting rq) \<subseteq> set ss"
  shows "decision (rq\<lparr>consenting := ss\<rparr>) gs = ALLOWED"
proof -
  let ?rq = "rq\<lparr>consenting := ss\<rparr>"
  have c: "counting ?rq s st = counting rq s st" for s st by (simp add: counting_def fun_eq_iff)
  have t: "deciding_tier ?rq gs = deciding_tier rq gs" by (simp add: deciding_tier_def c)
  have a: "agree ?rq fs" if "agree rq fs" for fs
  proof -
    have "int (card (subject ` set fs \<inter> insert (req_subject rq) (set (consenting rq)))) \<le> int (card (subject ` set fs \<inter> insert (req_subject rq) (set ss)))"
      using assms(2) by (auto intro!: card_mono)
    then show ?thesis using that assms(2) unfolding agree_def Let_def by (auto split: if_splits)
  qed
  show ?thesis using assms(1) a by (auto simp: decision_def t c Let_def split: option.splits if_splits)
qed

definition equal_thresholds :: "decision_request \<Rightarrow> authority_grant list \<Rightarrow> bool" where
  "equal_thresholds rq gs \<longleftrightarrow> (\<exists>n. \<forall>g \<in> set gs. domain g = req_domain rq \<and> strength g = FINAL \<longrightarrow> threshold_n g = n)"

lemma decision_mset:
  assumes p: "mset gs = mset gs'" and e: "equal_thresholds rq gs"
  shows "decision rq gs = decision rq gs'"
proof -
  have s: "set gs = set gs'" using p by (rule mset_eq_setD)
  have t: "deciding_tier rq gs = deciding_tier rq gs'" by (simp add: deciding_tier_def list_ex_iff s)
  have "conflicting (filter (counting rq k FINAL) gs) = conflicting (filter (counting rq k FINAL) gs')
      \<and> agree rq (filter (counting rq k FINAL) gs) = agree rq (filter (counting rq k FINAL) gs')" for k
  proof -
    define fs where "fs = filter (counting rq k FINAL) gs"
    define fs' where "fs' = filter (counting rq k FINAL) gs'"
    have m: "mset fs = mset fs'" using p by (simp add: fs_def fs'_def)
    then have f: "set fs = set fs'" "length fs = length fs'" by (metis mset_eq_setD, metis mset_eq_length)
    have c: "composed_by x fs = composed_by x fs'" for x by (simp add: composed_by_def f)
    have "mset (top_finals fs) = mset (top_finals fs')" by (simp add: top_finals_def m f)
    then have top: "set (top_finals fs) = set (top_finals fs')" "length (top_finals fs) = length (top_finals fs')"
      by (metis mset_eq_setD, metis mset_eq_length)
    have h: "threshold_n (hd fs) = threshold_n (hd fs')" if "fs \<noteq> []"
    proof -
      have "hd fs \<in> set fs" "hd fs' \<in> set fs" using that f by (metis hd_in_set, metis hd_in_set length_0_conv)
      then show ?thesis using e unfolding equal_thresholds_def fs_def by (auto simp: counting_def)
    qed
    have "composed_by x fs \<Longrightarrow> fs \<noteq> []" for x by (auto simp: composed_by_def)
    then show ?thesis unfolding fs_def [symmetric] fs'_def [symmetric] using h
      by (auto simp: conflicting_def agree_def Let_def c f top)
  qed
  then show ?thesis by (simp add: decision_def t list_ex_iff s Let_def split: option.split)
qed

section \<open>Where the code departs from its description\<close>

definition ex_grant :: "string \<Rightarrow> string option \<Rightarrow> strength \<Rightarrow> composition option \<Rightarrow> int \<Rightarrow> authority_grant" where
  "ex_grant who ctx st c n = \<lparr>subject = who, domain = SCOPE, grant_context = ctx, strength = st, composition = c, conditions = [],
     escalation = None, priority = 0, threshold_n = n\<rparr>"

definition ex_request :: "string \<Rightarrow> string option \<Rightarrow> decision_request" where
  "ex_request who ctx = \<lparr>req_subject = who, req_domain = SCOPE, req_context = ctx, condition_context = [], consenting = [], exceptional = False\<rparr>"

text \<open>An effective veto in a less specific tier does not block a final in a more specific one.\<close>

lemma less_specific_veto_ignored:
  "state (resolve (ex_request ''ana'' (Some ''a'')) [ex_grant ''bo'' None VETO None 1, ex_grant ''ana'' (Some ''a'') FINAL None 1]) = ALLOWED"
  by code_simp

text \<open>Among finals with different thresholds the first one's counts, so the order of the grants decides.\<close>

lemma first_threshold_counts:
  "state (resolve (ex_request ''ana'' None) [ex_grant ''ana'' None FINAL (Some THRESHOLD) 1, ex_grant ''bo'' None FINAL (Some THRESHOLD) 2]) = ALLOWED"
  "state (resolve (ex_request ''ana'' None) [ex_grant ''bo'' None FINAL (Some THRESHOLD) 2, ex_grant ''ana'' None FINAL (Some THRESHOLD) 1]) = WAITING"
  by code_simp+

text \<open>The check of a delegation accepts a child whose wildcard is broader than the delegator's context.\<close>

lemma delegation_widens:
  "check_delegation_monotonic [ex_grant ''ana'' (Some ''project:alpha'') FINAL None 1] [ex_grant ''bo'' (Some ''project:*'') FINAL None 1] = []"
  "context_specificity (Some ''project:*'') (Some ''project:beta'') = 2"
  "context_specificity (Some ''project:alpha'') (Some ''project:beta'') = 0"
  by code_simp+

section \<open>Properties\<close>

text \<open>
  C37. Decisions.  The resolution of a request gives exactly the specified decision: in the most specific tier
  in which an effective grant on the domain vetoes or decides, a veto blocks; finals in conflict, that is
  several of them without one composition or tied in priority, resolve nothing; otherwise the request is
  allowed if the single holder, the holder of the highest priority, all holders, or enough of them are
  behind it, and waits if not.  A winner is named exactly when it is allowed, and vetoes exactly when it is blocked.
\<close>

theorem resolve_decides:
  "state (resolve rq gs) = decision rq gs \<and> (winner (resolve rq gs) \<noteq> None \<longleftrightarrow> decision rq gs = ALLOWED)
    \<and> (effective_vetoes (resolve rq gs) \<noteq> [] \<longleftrightarrow> decision rq gs = BLOCKED)"
  by (rule resolve_spec)

text \<open>
  No grant wins by its place.  Whatever the order of the grants, a claim comes to the same overall state,
  the worst over its domains, provided the finals of a domain agree on their threshold.
\<close>

lemma claim_order_free:
  assumes "mset gs = mset gs'" and "\<forall>d \<in> set (domains c). equal_thresholds (claim_request c d) gs"
  shows "claim_overall (resolve_claim c gs) = claim_overall (resolve_claim c gs')"
proof -
  have "(\<lambda>d. decision (claim_request c d) gs) ` set (domains c) = (\<lambda>d. decision (claim_request c d) gs') ` set (domains c)"
    using decision_mset [OF assms(1)] assms(2) by (intro image_cong) simp_all
  then show ?thesis unfolding claim_overall_def Let_def claim_states by simp
qed

definition ex_claim :: decision_claim where
  "ex_claim = \<lparr>claim_id = ''c1'', claim_subject = ''ana'', effect_ref = ''e1'', domains = [SCOPE, COST], claim_context = Some ''a'',
     claim_conditions = [], claim_consenting = [''bo''], process_instance_id = [], authority_snapshot = []\<rparr>"

definition ex_grants :: "authority_grant list" where
  "ex_grants = [ex_grant ''ana'' None FINAL (Some THRESHOLD) 2, ex_grant ''bo'' None FINAL (Some THRESHOLD) 2,
     (ex_grant ''ana'' (Some ''a'') FINAL None 1)\<lparr>domain := COST\<rparr>]"

lemma claim_order_free_example:
  "claim_overall (resolve_claim ex_claim (rev ex_grants)) = ALLOWED"
proof -
  have "equal_thresholds (claim_request ex_claim d) ex_grants" if "d \<in> {SCOPE, COST}" for d
    using that by (auto simp: equal_thresholds_def ex_grants_def ex_grant_def claim_request_def)
  then have "claim_overall (resolve_claim ex_claim ex_grants) = claim_overall (resolve_claim ex_claim (rev ex_grants))"
    by (intro claim_order_free) (simp_all add: ex_claim_def)
  moreover have "claim_overall (resolve_claim ex_claim ex_grants) = ALLOWED" by code_simp
  ultimately show ?thesis by simp
qed

end
