(* ===== verification/Records.thy ===== *)
theory Records
  imports KBCommit PredicateDSL
begin

text \<open>
  The record store of the archived engine (\<^verbatim>\<open>legacy/record_store.py\<close>): schemas with field types, numeric rules and
  unique fields, mutations that append to a ledger, the undoing of a mutation, and the replay of the ledger.
  Records are copied wherever they are stored, so they are values.  A delta is a float, as the commit
  phase passes it.  The texts of the errors are shortened: they do not print the offending value.
\<close>

section \<open>Schemas\<close>

datatype field_type = FString | FInt | FFloat | FDate | FBool

record field_spec =
  fs_name :: string
  fs_type :: field_type
  fs_required :: bool

datatype rule_kind = NON_NEGATIVE | POSITIVE

record invariant_rule =
  rule_kind :: rule_kind
  rule_field :: string

record record_schema =
  schema_type :: string
  schema_fields :: "field_spec list"
  schema_invariants :: "invariant_rule list"
  unique_fields :: "string list"

datatype record_error = RecordInvariantError string string string

type_synonym rec = "(string, pyval) dict"

definition new_schema :: "record_schema \<Rightarrow> record_schema res" where
  "new_schema s =
     (if strip (schema_type s) = [] then Inl (ValueError ''record_type must be non-empty'')
      else case find (\<lambda>u. u \<notin> set (map fs_name (schema_fields s))) (unique_fields s) of
        Some u \<Rightarrow> Inl (ValueError (''unique field '' @ u @ '' not declared in fields''))
      | None \<Rightarrow> Inr s)"

text \<open>\<^verbatim>\<open>isinstance(value, (int, float)) and value >= 0\<close>, or \<^verbatim>\<open>> 0\<close>; a missing field counts as zero.\<close>

definition field_or_zero :: "string \<Rightarrow> rec \<Rightarrow> pyval" where
  "field_or_zero f r = (case dget r f of Some v \<Rightarrow> v | None \<Rightarrow> PInt 0)"

definition rule_holds :: "invariant_rule \<Rightarrow> rec \<Rightarrow> bool" where
  "rule_holds q r =
     (case num_of (field_or_zero (rule_field q) r) of
        None \<Rightarrow> False
      | Some x \<Rightarrow> (case rule_kind q of NON_NEGATIVE \<Rightarrow> flt_le (Fin 0) x | POSITIVE \<Rightarrow> flt_lt (Fin 0) x))"

fun check_rules :: "string \<Rightarrow> string \<Rightarrow> invariant_rule list \<Rightarrow> rec \<Rightarrow> record_error + unit" where
  "check_rules t k [] r = Inr ()"
| "check_rules t k (q # qs) r =
     (if rule_holds q r then check_rules t k qs r
      else Inl (RecordInvariantError t k (rule_field q @ '' out of range'')))"

fun of_type :: "field_type \<Rightarrow> pyval \<Rightarrow> bool" where
  "of_type FString v = is_str v"
| "of_type FInt v = (case v of PInt _ \<Rightarrow> True | _ \<Rightarrow> False)"
| "of_type FFloat v = (num_of v \<noteq> None)"
| "of_type FDate v = is_str v"
| "of_type FBool v = is_bool v"

fun validate_fields :: "string \<Rightarrow> string \<Rightarrow> field_spec list \<Rightarrow> rec \<Rightarrow> record_error + unit" where
  "validate_fields t k [] r = Inr ()"
| "validate_fields t k (f # fs) r =
     (case dget r (fs_name f) of
        None \<Rightarrow>
          if fs_required f then Inl (RecordInvariantError t k (''missing required field '' @ fs_name f))
          else validate_fields t k fs r
      | Some v \<Rightarrow>
          if of_type (fs_type f) v then validate_fields t k fs r
          else Inl (RecordInvariantError t k (''wrong type of field '' @ fs_name f)))"

section \<open>The store\<close>

datatype ledger_op = Upsert | Delta

record ledger_entry =
  ledger_id :: nat
  le_tick :: int
  le_agent :: string
  le_type :: string
  le_key :: string
  le_op :: ledger_op
  le_before :: "rec option"
  le_after :: rec
  delta_field :: "string option"
  delta_value :: "pyfloat option"

record record_store =
  schemas :: "(string, record_schema) dict"
  records :: "(string, rec) dict"
  ledger :: "ledger_entry list"
  ledger_counter :: nat
  version_counter :: "(string, int) dict"

record mutation_result =
  mr_type :: string
  mr_key :: string
  mr_record :: rec
  mr_ledger_ids :: "nat list"
  mr_version :: int

definition new_store :: record_store where
  "new_store = \<lparr>schemas = [], records = [], ledger = [], ledger_counter = 0, version_counter = []\<rparr>"

definition full_key :: "string \<Rightarrow> string \<Rightarrow> string" where
  "full_key t k = t @ '':'' @ k"

definition register_schema :: "record_schema \<Rightarrow> record_store \<Rightarrow> record_store res" where
  "register_schema s st =
     (if dget (schemas st) (schema_type s) \<noteq> None then Inl (ValueError (''record type '' @ schema_type s @ '' already registered''))
      else Inr (st\<lparr>schemas := dset (schema_type s) s (schemas st)\<rparr>))"

definition has_schema :: "record_store \<Rightarrow> string \<Rightarrow> bool" where
  "has_schema st t \<longleftrightarrow> dget (schemas st) t \<noteq> None"

definition schema :: "record_store \<Rightarrow> string \<Rightarrow> record_error + record_schema" where
  "schema st t = (case dget (schemas st) t of
       Some s \<Rightarrow> Inr s
     | None \<Rightarrow> Inl (RecordInvariantError t [] ''record type not registered''))"

definition get_record :: "record_store \<Rightarrow> string \<Rightarrow> string \<Rightarrow> rec option" where
  "get_record st t k = dget (records st) (full_key t k)"

text \<open>The first record of the type, other than the one written, that has the same value in a unique field.\<close>

definition clash :: "string \<Rightarrow> string \<Rightarrow> rec \<Rightarrow> (string, rec) dict \<Rightarrow> string \<Rightarrow> string option" where
  "clash t fk r rs u =
     (case dget r u of
        None \<Rightarrow> None
      | Some v \<Rightarrow>
          if v = PNone then None
          else map_option fst (find (\<lambda>(ok, other). is_prefix (t @ '':'') ok \<and> ok \<noteq> fk
                 \<and> (case dget other u of Some w \<Rightarrow> py_eq w v | None \<Rightarrow> False)) rs))"

fun check_unique :: "string \<Rightarrow> string \<Rightarrow> string list \<Rightarrow> rec \<Rightarrow> (string, rec) dict \<Rightarrow> record_error + unit" where
  "check_unique t k [] r rs = Inr ()"
| "check_unique t k (u # us) r rs =
     (case clash t (full_key t k) r rs u of
        Some x \<Rightarrow> Inl (RecordInvariantError t k (u @ '' already used by '' @ x))
      | None \<Rightarrow> check_unique t k us r rs)"

definition bump :: "string \<Rightarrow> (string, int) dict \<Rightarrow> (string, int) dict" where
  "bump fk vc = dset fk ((case dget vc fk of Some n \<Rightarrow> n | None \<Rightarrow> 0) + 1) vc"

text \<open>Storing a record with its ledger entry and version, common to both mutations.\<close>

definition put_record :: "string \<Rightarrow> string \<Rightarrow> string \<Rightarrow> int \<Rightarrow> ledger_op \<Rightarrow> rec option \<Rightarrow> rec \<Rightarrow> string option \<Rightarrow> pyfloat option
    \<Rightarrow> record_store \<Rightarrow> mutation_result \<times> record_store" where
  "put_record t k who tick oper bef r df dv st =
     (let n = ledger_counter st + 1; fk = full_key t k;
          e = \<lparr>ledger_id = n, le_tick = tick, le_agent = who, le_type = t, le_key = k, le_op = oper, le_before = bef, le_after = r,
               delta_field = df, delta_value = dv\<rparr>;
          vc = bump fk (version_counter st)
      in (\<lparr>mr_type = t, mr_key = k, mr_record = r, mr_ledger_ids = [n], mr_version = the (dget vc fk)\<rparr>,
          st\<lparr>records := dset fk r (records st), ledger_counter := n, ledger := ledger st @ [e], version_counter := vc\<rparr>))"

definition upsert :: "string \<Rightarrow> string \<Rightarrow> rec \<Rightarrow> string \<Rightarrow> int \<Rightarrow> record_store \<Rightarrow> record_error + mutation_result \<times> record_store" where
  "upsert t k r who tick st =
     ebind (schema st t) (\<lambda>s.
     ebind (validate_fields t k (schema_fields s) r) (\<lambda>_.
     ebind (check_unique t k (unique_fields s) r (records st)) (\<lambda>_.
     ebind (check_rules t k (schema_invariants s) r) (\<lambda>_.
     Inr (put_record t k who tick Upsert (dget (records st) (full_key t k)) r None None st)))))"

fun default_value :: "field_type \<Rightarrow> pyval" where
  "default_value FInt = PInt 0"
| "default_value FFloat = PInt 0"
| "default_value FBool = PBool False"
| "default_value _ = PStr []"

definition default_record :: "record_schema \<Rightarrow> rec" where
  "default_record s = fold (\<lambda>f r. dset (fs_name f) (default_value (fs_type f)) r) (schema_fields s) []"

definition apply_delta :: "string \<Rightarrow> string \<Rightarrow> string \<Rightarrow> pyfloat \<Rightarrow> string \<Rightarrow> int \<Rightarrow> record_store
    \<Rightarrow> record_error + mutation_result \<times> record_store" where
  "apply_delta t k f d who tick st =
     ebind (schema st t) (\<lambda>s.
       let old = (case dget (records st) (full_key t k) of Some r \<Rightarrow> r | None \<Rightarrow> default_record s) in
       case num_of (field_or_zero f old) of
         None \<Rightarrow> Inl (RecordInvariantError t k (''cannot delta non-numeric field '' @ f))
       | Some x \<Rightarrow>
           let r = dset f (PFloat (flt_add x d)) old in
           ebind (check_rules t k (schema_invariants s) r) (\<lambda>_.
             Inr (put_record t k who tick Delta (Some old) r (Some f) (Some d) st)))"

definition invert_mutation :: "string \<Rightarrow> string \<Rightarrow> rec option \<Rightarrow> nat list \<Rightarrow> record_store \<Rightarrow> record_store" where
  "invert_mutation t k prior ids st =
     (let st = st\<lparr>ledger := filter (\<lambda>e. ledger_id e \<notin> set ids) (ledger st)\<rparr>; fk = full_key t k in
      case prior of
        None \<Rightarrow> st\<lparr>records := dpop fk (records st), version_counter := dpop fk (version_counter st)\<rparr>
      | Some r \<Rightarrow> st\<lparr>records := dset fk r (records st)\<rparr>)"

text \<open>
  \<^verbatim>\<open>value + (entry.delta_value or 0)\<close>: a delta of zero adds the integer zero, which leaves integers integers; a
  value that is no number raises.
\<close>

definition add_again :: "pyval \<Rightarrow> pyfloat \<Rightarrow> pyval res" where
  "add_again v d =
     (case num_of v of
        None \<Rightarrow> Inl TypeError
      | Some x \<Rightarrow> Inr (if d = Fin 0 then (case v of PBool b \<Rightarrow> PInt (if b then 1 else 0) | _ \<Rightarrow> v) else PFloat (flt_add x d)))"

definition replay_entry :: "ledger_entry \<Rightarrow> (string, rec) dict \<Rightarrow> (string, rec) dict res" where
  "replay_entry e st =
     (let fk = full_key (le_type e) (le_key e) in
      case le_op e of
        Upsert \<Rightarrow> Inr (dset fk (le_after e) st)
      | Delta \<Rightarrow>
          let cur = (case dget st fk of Some r \<Rightarrow> r | None \<Rightarrow> []); f = (case delta_field e of Some f \<Rightarrow> f | None \<Rightarrow> []) in
          rbind (add_again (field_or_zero f cur) (case delta_value e of Some d \<Rightarrow> d | None \<Rightarrow> Fin 0)) (\<lambda>v.
            Inr (dset fk (dset f v cur) st)))"

fun replay_ledger :: "ledger_entry list \<Rightarrow> (string, rec) dict \<Rightarrow> (string, rec) dict res" where
  "replay_ledger [] st = Inr st"
| "replay_ledger (e # es) st = rbind (replay_entry e st) (replay_ledger es)"

definition replay :: "record_store \<Rightarrow> (string, rec) dict res" where
  "replay st = replay_ledger (ledger st) []"

section \<open>The tools\<close>

text \<open>
  The handlers check the names and stage the mutation; the buffer is absent when the device was built without one.
\<close>

definition stage_record :: "effect_type \<Rightarrow> string \<Rightarrow> string \<Rightarrow> string \<Rightarrow> (string, pyval) dict \<Rightarrow> buffer option \<Rightarrow> buffer option" where
  "stage_record ty who t k d b = map_option (\<lambda>b. snd (stage ty who (full_key t k) (Some d) None None [] ''per_effect'' b)) b"

definition handle_record_upsert :: "string \<Rightarrow> int \<Rightarrow> string \<Rightarrow> string \<Rightarrow> rec option \<Rightarrow> record_store \<Rightarrow> buffer option
    \<Rightarrow> tool_result \<times> buffer option" where
  "handle_record_upsert who tick t k r st b =
     (if t = [] \<or> k = [] then (refused ''record_upsert requires record_type and key'' ''INVALID_ARGUMENT'' False who ''record_upsert'' tick, b)
      else if \<not> has_schema st t
      then (refused (''record type '' @ t @ '' not registered'') ''SCHEMA_NOT_REGISTERED'' False who ''record_upsert'' tick, b)
      else (succeeded (PDict [(''staged'', PBool True)]) who ''record_upsert'' tick,
            stage_record RECORD_UPSERT who t k
              [(''record_type'', PStr t), (''key'', PStr k), (''record'', PDict (case r of Some r \<Rightarrow> r | None \<Rightarrow> []))] b))"

text \<open>
  \<^verbatim>\<open>float(x)\<close>: of a number its value, of a text what the parser of the language reads from it (\<^verbatim>\<open>parse\<close>, with
  \<^verbatim>\<open>ValueError\<close> for a text that is no number), and \<^verbatim>\<open>TypeError\<close> for anything else.
\<close>

definition float_of :: "(string \<Rightarrow> pyfloat option) \<Rightarrow> pyval \<Rightarrow> pyfloat res" where
  "float_of parse v =
     (case num_of v of
        Some x \<Rightarrow> Inr x
      | None \<Rightarrow>
          (case v of
             PStr s \<Rightarrow> (case parse s of Some x \<Rightarrow> Inr x | None \<Rightarrow> Inl (ValueError ''could not convert string to float''))
           | _ \<Rightarrow> Inl TypeError))"

definition handle_record_delta :: "(string \<Rightarrow> pyfloat option) \<Rightarrow> string \<Rightarrow> int \<Rightarrow> string \<Rightarrow> string \<Rightarrow> string \<Rightarrow> pyval \<Rightarrow> record_store
    \<Rightarrow> buffer option \<Rightarrow> (tool_result \<times> buffer option) res" where
  "handle_record_delta parse who tick t k f d st b =
     (if t = [] \<or> k = [] \<or> f = []
      then Inr (refused ''record_delta requires record_type, key and field'' ''INVALID_ARGUMENT'' False who ''record_delta'' tick, b)
      else if \<not> has_schema st t
      then Inr (refused (''record type '' @ t @ '' not registered'') ''SCHEMA_NOT_REGISTERED'' False who ''record_delta'' tick, b)
      else case b of
        None \<Rightarrow> Inr (succeeded (PDict [(''staged'', PBool True)]) who ''record_delta'' tick, None)
      | Some _ \<Rightarrow>
          rbind (float_of parse d) (\<lambda>x.
            Inr (succeeded (PDict [(''staged'', PBool True)]) who ''record_delta'' tick,
                 stage_record RECORD_DELTA who t k
                   [(''record_type'', PStr t), (''key'', PStr k), (''field'', PStr f), (''delta'', PFloat x)] b)))"

section \<open>The rules hold\<close>

lemma check_rules_ok: "check_rules t k qs r = Inr () \<longleftrightarrow> list_all (\<lambda>q. rule_holds q r) qs"
  by (induction qs) simp_all

datatype mutation =
    DoUpsert string string rec string int
  | DoDelta string string string pyfloat string int

text \<open>A mutation effect as the commit phase applies it: a refused one fails on its own.\<close>

fun apply_mutation :: "mutation \<Rightarrow> record_store \<Rightarrow> record_error + record_store" where
  "apply_mutation (DoUpsert t k r who tick) st = ebind (upsert t k r who tick st) (\<lambda>(_, st'). Inr st')"
| "apply_mutation (DoDelta t k f d who tick) st = ebind (apply_delta t k f d who tick st) (\<lambda>(_, st'). Inr st')"

text \<open>
  The mutation of a staged effect.  The commit phase reads it from the data of the effect, with their defaults,
  and \<^verbatim>\<open>float()\<close> of the delta may raise.  Data that neither handler can stage (a type, key or field that is no
  text, a record that is no mapping) have no mutation of the store's types: None.
\<close>

definition text_entry :: "string \<Rightarrow> string \<Rightarrow> effect \<Rightarrow> string option" where
  "text_entry f d e = (case dget (data e) f of None \<Rightarrow> Some d | Some (PStr s) \<Rightarrow> Some s | Some _ \<Rightarrow> None)"

definition effect_record :: "effect \<Rightarrow> rec option" where
  "effect_record e = (case dget (data e) ''record'' of None \<Rightarrow> Some [] | Some (PDict r) \<Rightarrow> Some r | Some _ \<Rightarrow> None)"

definition delta_entry :: "(string \<Rightarrow> pyfloat option) \<Rightarrow> effect \<Rightarrow> pyfloat res" where
  "delta_entry parse e = float_of parse (case dget (data e) ''delta'' of Some v \<Rightarrow> v | None \<Rightarrow> PInt 0)"

definition mutation_of :: "(string \<Rightarrow> pyfloat option) \<Rightarrow> int \<Rightarrow> effect \<Rightarrow> mutation res option" where
  "mutation_of parse tick e =
     (case (text_entry ''record_type'' [] e, text_entry ''key'' (resource e) e) of
        (Some t, Some k) \<Rightarrow>
          if effect_type e = RECORD_UPSERT
          then map_option (\<lambda>r. Inr (DoUpsert t k r (agent_id e) tick)) (effect_record e)
          else map_option (\<lambda>f. rbind (delta_entry parse e) (\<lambda>d. Inr (DoDelta t k f d (agent_id e) tick))) (text_entry ''field'' [] e)
      | _ \<Rightarrow> None)"

datatype rec_op = RegisterSchema record_schema | Mutate mutation

fun rec_step :: "rec_op \<Rightarrow> record_store \<Rightarrow> record_store" where
  "rec_step (RegisterSchema s) st = (case rbind (new_schema s) (\<lambda>s. register_schema s st) of Inr st' \<Rightarrow> st' | Inl _ \<Rightarrow> st)"
| "rec_step (Mutate m) st = (case apply_mutation m st of Inr st' \<Rightarrow> st' | Inl _ \<Rightarrow> st)"

definition store_ok :: "record_store \<Rightarrow> bool" where
  "store_ok st \<longleftrightarrow> (\<forall>fk r. dget (records st) fk = Some r \<longrightarrow>
     (\<exists>t k s. fk = full_key t k \<and> dget (schemas st) t = Some s \<and> list_all (\<lambda>q. rule_holds q r) (schema_invariants s)))"

definition ids_ok :: "record_store \<Rightarrow> bool" where
  "ids_ok st \<longleftrightarrow> (\<forall>e \<in> set (ledger st). ledger_id e \<le> ledger_counter st)"

lemma put_record_simps [simp]:
  "records (snd (put_record t k who tick oper bef r df dv st)) = dset (full_key t k) r (records st)"
  "schemas (snd (put_record t k who tick oper bef r df dv st)) = schemas st"
  "ledger_counter (snd (put_record t k who tick oper bef r df dv st)) = ledger_counter st + 1"
  "ledger (snd (put_record t k who tick oper bef r df dv st)) = ledger st @ [\<lparr>ledger_id = ledger_counter st + 1, le_tick = tick,
     le_agent = who, le_type = t, le_key = k, le_op = oper, le_before = bef, le_after = r, delta_field = df, delta_value = dv\<rparr>]"
  by (simp_all add: put_record_def Let_def)

lemma upsert_ok:
  "upsert t k r who tick st = Inr (mr, st') \<Longrightarrow> \<exists>s. dget (schemas st) t = Some s \<and> list_all (\<lambda>q. rule_holds q r) (schema_invariants s)
     \<and> st' = snd (put_record t k who tick Upsert (dget (records st) (full_key t k)) r None None st)"
  by (auto simp: upsert_def ebind_Inr schema_def check_rules_ok split: option.splits)

lemma delta_ok:
  assumes "apply_delta t k f d who tick st = Inr (mr, st')"
  obtains s old x where "dget (schemas st) t = Some s"
    "old = (case dget (records st) (full_key t k) of Some r \<Rightarrow> r | None \<Rightarrow> default_record s)" "num_of (field_or_zero f old) = Some x"
    "list_all (\<lambda>q. rule_holds q (dset f (PFloat (flt_add x d)) old)) (schema_invariants s)"
    "st' = snd (put_record t k who tick Delta (Some old) (dset f (PFloat (flt_add x d)) old) (Some f) (Some d) st)"
proof -
  obtain s where s: "dget (schemas st) t = Some s" using assms by (auto simp: apply_delta_def ebind_Inr schema_def split: option.splits)
  define old where "old = (case dget (records st) (full_key t k) of Some r \<Rightarrow> r | None \<Rightarrow> default_record s)"
  obtain x where x: "num_of (field_or_zero f old) = Some x"
    using assms by (auto simp: apply_delta_def schema_def s old_def [symmetric] Let_def split: option.splits)
  have "check_rules t k (schema_invariants s) (dset f (PFloat (flt_add x d)) old) = Inr ()
      \<and> put_record t k who tick Delta (Some old) (dset f (PFloat (flt_add x d)) old) (Some f) (Some d) st = (mr, st')"
    using assms by (auto simp: apply_delta_def schema_def s old_def [symmetric] Let_def x ebind_Inr)
  then show thesis using that [OF s old_def x] by (simp add: check_rules_ok)
qed

lemma store_okI:
  "(\<And>fk r. dget (records st) fk = Some r \<Longrightarrow> \<exists>t k s. fk = full_key t k \<and> dget (schemas st) t = Some s
     \<and> list_all (\<lambda>q. rule_holds q r) (schema_invariants s)) \<Longrightarrow> store_ok st"
  unfolding store_ok_def by blast

lemma store_okD:
  assumes "store_ok st" "dget (records st) fk = Some r"
  obtains t k s where "fk = full_key t k" "dget (schemas st) t = Some s" "list_all (\<lambda>q. rule_holds q r) (schema_invariants s)"
  using assms unfolding store_ok_def by blast

lemma store_ok_put:
  assumes "store_ok st" "dget (schemas st) t = Some s" "list_all (\<lambda>q. rule_holds q r) (schema_invariants s)"
  shows "store_ok (snd (put_record t k who tick oper bef r df dv st))"
  using assms unfolding store_ok_def by (auto split: if_splits)

lemma store_ok_register:
  assumes "store_ok st" "register_schema s' st = Inr st'"
  shows "store_ok st'"
proof (rule store_okI)
  fix fk r
  assume r: "dget (records st') fk = Some r"
  have new: "dget (schemas st) (schema_type s') = None" "st' = st\<lparr>schemas := dset (schema_type s') s' (schemas st)\<rparr>"
    using assms(2) by (auto simp: register_schema_def split: if_splits)
  have "dget (records st) fk = Some r" using r new(2) by simp
  from store_okD [OF assms(1) this] obtain t k s where s: "fk = full_key t k" "dget (schemas st) t = Some s"
    "list_all (\<lambda>q. rule_holds q r) (schema_invariants s)" .
  have "dget (schemas st') t = Some s" using s(2) new by auto
  with s show "\<exists>t k s. fk = full_key t k \<and> dget (schemas st') t = Some s \<and> list_all (\<lambda>q. rule_holds q r) (schema_invariants s)" by blast
qed

lemma store_ok_mutation:
  assumes "store_ok st" "apply_mutation m st = Inr st'"
  shows "store_ok st'"
proof (cases m)
  case (DoUpsert t k r who tick)
  then show ?thesis using assms store_ok_put by (auto simp: ebind_Inr dest!: upsert_ok)
next
  case (DoDelta t k f d who tick)
  then obtain mr where "apply_delta t k f d who tick st = Inr (mr, st')" using assms by (auto simp: ebind_Inr)
  then show ?thesis by (rule delta_ok) (simp add: store_ok_put assms(1))
qed

lemma store_ok_step: "store_ok st \<Longrightarrow> store_ok (rec_step oper st)"
  by (cases oper) (auto simp: rbind_Inr split: sum.split dest: store_ok_register store_ok_mutation)

text \<open>
  Whatever mutations are attempted, every stored record is filed under a registered type and meets the numeric rules of
  its schema.
\<close>

lemma record_rules_hold: "store_ok (fold rec_step ops new_store)"
proof -
  have "store_ok st \<Longrightarrow> store_ok (fold rec_step ops st)" for st by (induction ops arbitrary: st) (simp_all add: store_ok_step)
  moreover have "store_ok new_store" by (simp add: store_ok_def new_store_def)
  ultimately show ?thesis .
qed

text \<open>A call that the handler accepts stages exactly one effect, and the commit phase reads from it the mutation that was asked for.\<close>

lemma stage_record_adds:
  "stage_record ty who t k d (Some b) = Some b' \<Longrightarrow> \<exists>e. dget (effects b') (effect_name (counter b + 1)) = Some e
     \<and> effect_type e = ty \<and> agent_id e = who \<and> resource e = full_key t k \<and> data e = d"
  by (auto simp: stage_record_def stage_def Let_def)

lemmas mutation_defs = mutation_of_def text_entry_def effect_record_def delta_entry_def float_of_def

lemma record_upsert_staged:
  assumes "handle_record_upsert who tick t k r st (Some b) = (res, Some b')" "success res"
  obtains e where "dget (effects b') (effect_name (counter b + 1)) = Some e"
    "mutation_of parse tick' e = Some (Inr (DoUpsert t k (case r of Some r \<Rightarrow> r | None \<Rightarrow> []) who tick'))"
  using assms stage_record_adds [of RECORD_UPSERT who t k _ b b'] that
  by (fastforce simp: handle_record_upsert_def refused_def mutation_defs split: if_splits)

lemma record_delta_staged:
  assumes "handle_record_delta parse who tick t k f d st (Some b) = Inr (res, Some b')" "success res"
  obtains e x where "float_of parse d = Inr x" "dget (effects b') (effect_name (counter b + 1)) = Some e"
    "mutation_of parse tick' e = Some (Inr (DoDelta t k f x who tick'))"
proof -
  obtain x where x: "float_of parse d = Inr x" "stage_record RECORD_DELTA who t k
      [(''record_type'', PStr t), (''key'', PStr k), (''field'', PStr f), (''delta'', PFloat x)] (Some b) = Some b'"
    using assms by (auto simp: handle_record_delta_def refused_def rbind_Inr split: if_splits)
  obtain e where e: "dget (effects b') (effect_name (counter b + 1)) = Some e" "effect_type e = RECORD_DELTA" "agent_id e = who"
      "data e = [(''record_type'', PStr t), (''key'', PStr k), (''field'', PStr f), (''delta'', PFloat x)]"
    using stage_record_adds [OF x(2)] by (elim exE conjE)
  have "mutation_of parse tick' e = Some (Inr (DoDelta t k f x who tick'))" by (simp add: mutation_defs e)
  with x(1) e(1) show thesis by (rule that)
qed

section \<open>Undoing mutations\<close>

lemma ids_okD: "ids_ok st \<Longrightarrow> e \<in> set (ledger st) \<Longrightarrow> ledger_id e \<le> ledger_counter st"
  unfolding ids_ok_def by blast

lemma ids_ok_put: "ids_ok st \<Longrightarrow> ids_ok (snd (put_record t k who tick oper bef r df dv st))"
  unfolding ids_ok_def by (auto intro: le_SucI)

text \<open>What the commit phase records for the undoing of a mutation (\<^verbatim>\<open>invert_data\<close>), and the undoing.\<close>

fun op_key :: "mutation \<Rightarrow> string \<times> string" where
  "op_key (DoUpsert t k r who tick) = (t, k)"
| "op_key (DoDelta t k f d who tick) = (t, k)"

type_synonym undo_data = "(string \<times> string) \<times> rec option \<times> nat list"

definition undo_of :: "mutation \<Rightarrow> record_store \<Rightarrow> undo_data" where
  "undo_of m st = (op_key m, get_record st (fst (op_key m)) (snd (op_key m)), [ledger_counter st + 1])"

definition invert_effect :: "undo_data \<Rightarrow> record_store \<Rightarrow> record_store" where
  "invert_effect d st = (case d of ((t, k), prior, ids) \<Rightarrow> invert_mutation t k prior ids st)"

fun commit_records :: "mutation list \<Rightarrow> undo_data list \<Rightarrow> record_store \<Rightarrow> undo_data list \<times> record_store" where
  "commit_records [] applied st = (applied, st)"
| "commit_records (m # ms) applied st = (case apply_mutation m st of
       Inr st' \<Rightarrow> commit_records ms (applied @ [undo_of m st]) st'
     | Inl _ \<Rightarrow> commit_records ms applied st)"

definition rollback_records :: "undo_data list \<times> record_store \<Rightarrow> record_store" where
  "rollback_records p = fold invert_effect (rev (fst p)) (snd p)"

lemma apply_mutation_put:
  assumes "apply_mutation m st = Inr st'"
  obtains who tick oper bef r df dv
  where "st' = snd (put_record (fst (op_key m)) (snd (op_key m)) who tick oper bef r df dv st)"
proof (cases m)
  case (DoUpsert t k r who tick)
  then show thesis using assms that by (auto simp: ebind_Inr dest!: upsert_ok)
next
  case (DoDelta t k f d who tick)
  then obtain mr where "apply_delta t k f d who tick st = Inr (mr, st')" using assms by (auto simp: ebind_Inr)
  then show thesis by (rule delta_ok) (use that DoDelta in auto)
qed

lemma dpop_dset_new: "dget d k = None \<Longrightarrow> dpop k (dset k v d) = d"
  by (induction d) (auto simp: dpop_def filter_id_conv split: if_splits dest: weak_map_of_SomeI)

lemma invert_put:
  assumes "ids_ok st"
  shows "records (invert_mutation t k (get_record st t k) [Suc (ledger_counter st)] (snd (put_record t k who tick oper bef r df dv st))) = records st"
    and "ledger (invert_mutation t k (get_record st t k) [Suc (ledger_counter st)] (snd (put_record t k who tick oper bef r df dv st))) = ledger st"
proof -
  have old: "filter (\<lambda>e. ledger_id e \<noteq> Suc (ledger_counter st)) (ledger st) = ledger st"
    using ids_okD [OF assms] by (force simp: filter_id_conv)
  show "records (invert_mutation t k (get_record st t k) [Suc (ledger_counter st)] (snd (put_record t k who tick oper bef r df dv st))) = records st"
    by (auto simp: invert_mutation_def get_record_def Let_def dset_same dpop_dset_new split: option.split)
  show "ledger (invert_mutation t k (get_record st t k) [Suc (ledger_counter st)] (snd (put_record t k who tick oper bef r df dv st))) = ledger st"
    by (auto simp: invert_mutation_def get_record_def Let_def old split: option.split)
qed

interpretation recu: undoable apply_mutation undo_of invert_effect "\<lambda>st. (records st, ledger st)" ids_ok
proof unfold_locales
  fix st m st'
  assume "ids_ok st" "apply_mutation m st = Inr st'"
  then show "(records (invert_effect (undo_of m st) st'), ledger (invert_effect (undo_of m st) st')) = (records st, ledger st)"
    by (auto elim!: apply_mutation_put simp: invert_effect_def undo_of_def case_prod_beta invert_put simp del: put_record_simps)
next
  fix st m st'
  assume "ids_ok st" "apply_mutation m st = Inr st'"
  then show "ids_ok st'" by (auto elim!: apply_mutation_put intro: ids_ok_put)
next
  fix s t :: record_store and p
  assume "(records s, ledger s) = (records t, ledger t)"
  then show "(records (invert_effect p s), ledger (invert_effect p s)) = (records (invert_effect p t), ledger (invert_effect p t))"
    by (auto simp: invert_effect_def invert_mutation_def Let_def split: prod.splits option.splits)
qed

text \<open>
  A rollback that undoes the logged mutations in reverse order restores records and ledger exactly.
\<close>

lemma commit_logged: "recu.logged s0 ds st \<Longrightarrow> recu.logged s0 (fst (commit_records ms ds st)) (snd (commit_records ms ds st))"
  by (induction ms ds st rule: commit_records.induct) (auto intro: recu.logged_app split: sum.split)

lemma record_rollback:
  assumes "ids_ok st"
  shows "records (rollback_records (commit_records ms [] st)) = records st" "ledger (rollback_records (commit_records ms [] st)) = ledger st"
  using recu.undo_log [OF commit_logged [OF recu.logged_nil] assms] by (simp_all add: rollback_records_def)

section \<open>The ledger as the source of the records\<close>

text \<open>Two values agree when they are equal or are the same number, as \<^verbatim>\<open>3\<close> and \<^verbatim>\<open>3.0\<close>.\<close>

definition same_value :: "pyval \<Rightarrow> pyval \<Rightarrow> bool" where
  "same_value v w \<longleftrightarrow> v = w \<or> num_of v \<noteq> None \<and> num_of v = num_of w"

definition same_record :: "rec \<Rightarrow> rec \<Rightarrow> bool" where
  "same_record r s \<longleftrightarrow> (\<forall>f. rel_option same_value (dget r f) (dget s f))"

definition same_records :: "(string, rec) dict \<Rightarrow> (string, rec) dict \<Rightarrow> bool" where
  "same_records rs ss \<longleftrightarrow> (\<forall>fk. rel_option same_record (dget rs fk) (dget ss fk))"

lemma same_value_refl [simp]: "same_value v v" by (simp add: same_value_def)

lemma same_record_refl [simp]: "same_record r r"
  by (simp add: same_record_def option.rel_refl)

lemma same_value_num: "same_value v w \<Longrightarrow> num_of v = Some x \<Longrightarrow> num_of w = Some x"
  by (auto simp: same_value_def)

lemma same_record_set: "same_record r s \<Longrightarrow> same_value v w \<Longrightarrow> same_record (dset f v r) (dset f w s)"
  by (simp add: same_record_def)

lemma same_records_set: "same_records rs ss \<Longrightarrow> same_record r s \<Longrightarrow> same_records (dset fk r rs) (dset fk s ss)"
  by (simp add: same_records_def)

lemma same_field: "same_record r s \<Longrightarrow> same_value (field_or_zero f r) (field_or_zero f s)"
  unfolding same_record_def field_or_zero_def by (drule spec [of _ f]) (auto elim: option.rel_cases)

lemma flt_add_zero: "flt_add x (Fin 0) = x"
  by (cases x) simp_all

lemma add_again_same:
  assumes "num_of v = Some x"
  obtains w where "add_again v d = Inr w" "same_value (PFloat (flt_add x d)) w"
  using assms by (cases v) (auto simp: add_again_def same_value_def flt_add_zero)

lemma replay_ledger_append: "replay_ledger (es @ fs) st = rbind (replay_ledger es st) (replay_ledger fs)"
  by (induction es arbitrary: st) (auto simp: rbind_def split: sum.split)

text \<open>
  A delta on a key without a record starts from the default record of the schema, but its replay from an empty one.  So a
  record that was never written whole may be replayed without some of its fields, which then hold their default values.
\<close>

definition upserted :: "record_store \<Rightarrow> string \<Rightarrow> bool" where
  "upserted st fk \<longleftrightarrow> (\<exists>e \<in> set (ledger st). full_key (le_type e) (le_key e) = fk \<and> le_op e = Upsert)"

definition same_but_defaults :: "rec \<Rightarrow> rec \<Rightarrow> bool" where
  "same_but_defaults r s \<longleftrightarrow> (\<forall>f. case (dget r f, dget s f) of
       (Some v, Some w) \<Rightarrow> same_value v w
     | (Some v, None) \<Rightarrow> v \<in> {PInt 0, PBool False, PStr []}
     | (None, None) \<Rightarrow> True
     | (None, Some _) \<Rightarrow> False)"

lemma same_but_defaultsD:
  assumes "same_but_defaults r s"
  shows "case (dget r f, dget s f) of
       (Some v, Some w) \<Rightarrow> same_value v w
     | (Some v, None) \<Rightarrow> v \<in> {PInt 0, PBool False, PStr []}
     | (None, None) \<Rightarrow> True
     | (None, Some _) \<Rightarrow> False"
  using assms unfolding same_but_defaults_def by blast

lemma same_record_defaults: "same_record r s \<Longrightarrow> same_but_defaults r s"
  unfolding same_but_defaults_def
proof (intro allI)
  fix f
  assume "same_record r s"
  then have "rel_option same_value (dget r f) (dget s f)" by (simp add: same_record_def)
  then show "case (dget r f, dget s f) of (Some v, Some w) \<Rightarrow> same_value v w | (Some v, None) \<Rightarrow> v \<in> {PInt 0, PBool False, PStr []}
      | (None, None) \<Rightarrow> True | (None, Some _) \<Rightarrow> False"
    by (cases rule: option.rel_cases) simp_all
qed

lemma same_but_defaults_set:
  assumes "same_but_defaults r s" "same_value v w"
  shows "same_but_defaults (dset f v r) (dset f w s)"
  unfolding same_but_defaults_def using same_but_defaultsD [OF assms(1)] assms(2) by simp

lemma same_but_defaults_num:
  assumes "same_but_defaults r s" "num_of (field_or_zero f r) = Some x"
  shows "num_of (field_or_zero f s) = Some x"
  using same_but_defaultsD [OF assms(1), of f] assms(2) by (auto simp: field_or_zero_def same_value_def split: option.splits)

lemma default_record_defaults: "same_but_defaults (default_record s) []"
proof -
  have d: "default_value t \<in> {PInt 0, PBool False, PStr []}" for t by (cases t) simp_all
  have "dget (fold (\<lambda>f r. dset (fs_name f) (default_value (fs_type f)) r) fs []) x = Some v \<Longrightarrow> v \<in> {PInt 0, PBool False, PStr []}"
    for fs :: "field_spec list" and x v by (induction fs rule: rev_induct) (use d in \<open>auto simp del: insert_iff split: if_splits\<close>)
  then show ?thesis unfolding same_but_defaults_def default_record_def by (auto split: option.split)
qed

definition replayed_as :: "bool \<Rightarrow> rec \<Rightarrow> rec \<Rightarrow> bool" where
  "replayed_as whole r s \<longleftrightarrow> (if whole then same_record r s else same_but_defaults r s)"

lemma replayed_as_set: "replayed_as b r s \<Longrightarrow> same_value v w \<Longrightarrow> replayed_as b (dset f v r) (dset f w s)"
  by (simp add: replayed_as_def same_record_set same_but_defaults_set)

lemma replayed_as_num: "replayed_as b r s \<Longrightarrow> num_of (field_or_zero f r) = Some x \<Longrightarrow> num_of (field_or_zero f s) = Some x"
  by (cases b) (auto simp: replayed_as_def intro: same_but_defaults_num dest: same_record_defaults)

definition replays :: "record_store \<Rightarrow> bool" where
  "replays st \<longleftrightarrow> (\<exists>rs. replay st = Inr rs \<and> (\<forall>fk. rel_option (replayed_as (upserted st fk)) (dget (records st) fk) (dget rs fk)))"

lemma replay_put:
  "replay (snd (put_record t k who tick oper bef r df dv st)) = rbind (replay st)
     (replay_entry \<lparr>ledger_id = ledger_counter st + 1, le_tick = tick, le_agent = who, le_type = t, le_key = k, le_op = oper,
        le_before = bef, le_after = r, delta_field = df, delta_value = dv\<rparr>)"
  by (simp add: replay_def replay_ledger_append rbind_def split: sum.split)

lemma upserted_put:
  "upserted (snd (put_record t k who tick oper bef r df dv st)) fk \<longleftrightarrow> upserted st fk \<or> fk = full_key t k \<and> oper = Upsert"
  by (auto simp: upserted_def)

lemma replaysE:
  assumes "replays st"
  obtains rs where "replay st = Inr rs" "\<forall>fk. rel_option (replayed_as (upserted st fk)) (dget (records st) fk) (dget rs fk)"
  using assms unfolding replays_def by blast

lemma replaysI:
  assumes "replay st = Inr rs" "\<And>fk. rel_option (replayed_as (upserted st fk)) (dget (records st) fk) (dget rs fk)"
  shows "replays st"
  using assms unfolding replays_def by blast

lemma replays_upsert:
  assumes "replays st"
  shows "replays (snd (put_record t k who tick Upsert bef r df dv st))"
proof -
  obtain rs where rs: "replay st = Inr rs" "\<forall>fk. rel_option (replayed_as (upserted st fk)) (dget (records st) fk) (dget rs fk)"
    using assms by (rule replaysE)
  show ?thesis
  proof (rule replaysI)
    show "replay (snd (put_record t k who tick Upsert bef r df dv st)) = Inr (dset (full_key t k) r rs)"
      by (simp add: replay_put rs(1) replay_entry_def)
    show "rel_option (replayed_as (upserted (snd (put_record t k who tick Upsert bef r df dv st)) fk))
        (dget (records (snd (put_record t k who tick Upsert bef r df dv st))) fk) (dget (dset (full_key t k) r rs) fk)" for fk
      using rs(2) [rule_format, of fk] by (simp add: upserted_put replayed_as_def del: put_record_simps(4))
  qed
qed

text \<open>What the replay has under a key relates to what the store starts a delta from.\<close>

lemma replay_current:
  assumes "rel_option (replayed_as b) (dget rec_s fk) (dget rs fk)" and "b \<longrightarrow> dget rec_s fk \<noteq> None"
  shows "replayed_as b (case dget rec_s fk of Some r \<Rightarrow> r | None \<Rightarrow> default_record s) (case dget rs fk of Some r \<Rightarrow> r | None \<Rightarrow> [])"
  using assms by (cases "dget rec_s fk"; cases "dget rs fk") (auto simp: replayed_as_def default_record_defaults)

lemma replays_delta:
  assumes "replays st" and whole: "upserted st (full_key t k) \<longrightarrow> dget (records st) (full_key t k) \<noteq> None"
    and old: "old = (case dget (records st) (full_key t k) of Some r \<Rightarrow> r | None \<Rightarrow> default_record s)"
    and x: "num_of (field_or_zero f old) = Some x"
  shows "replays (snd (put_record t k who tick Delta bef (dset f (PFloat (flt_add x d)) old) (Some f) (Some d) st))"
proof -
  obtain rs where rs: "replay st = Inr rs" "\<forall>fk. rel_option (replayed_as (upserted st fk)) (dget (records st) fk) (dget rs fk)"
    using assms(1) by (rule replaysE)
  define cur where "cur = (case dget rs (full_key t k) of Some r \<Rightarrow> r | None \<Rightarrow> [])"
  have cur: "replayed_as (upserted st (full_key t k)) old cur"
    unfolding old cur_def by (rule replay_current [OF rs(2) [rule_format] whole])
  obtain w where w: "add_again (field_or_zero f cur) d = Inr w" "same_value (PFloat (flt_add x d)) w"
    by (rule add_again_same [OF replayed_as_num [OF cur x]])
  show ?thesis
  proof (rule replaysI)
    show "replay (snd (put_record t k who tick Delta bef (dset f (PFloat (flt_add x d)) old) (Some f) (Some d) st))
        = Inr (dset (full_key t k) (dset f w cur) rs)"
      by (simp add: replay_put rs(1) replay_entry_def cur_def [symmetric] w(1))
    show "rel_option (replayed_as (upserted (snd (put_record t k who tick Delta bef (dset f (PFloat (flt_add x d)) old) (Some f) (Some d) st)) fk))
        (dget (records (snd (put_record t k who tick Delta bef (dset f (PFloat (flt_add x d)) old) (Some f) (Some d) st))) fk)
        (dget (dset (full_key t k) (dset f w cur) rs) fk)" for fk
      using rs(2) [rule_format, of fk] replayed_as_set [OF cur w(2)] by (simp add: upserted_put del: put_record_simps(4))
  qed
qed

text \<open>A record written whole is never removed.\<close>

definition whole_kept :: "record_store \<Rightarrow> bool" where
  "whole_kept st \<longleftrightarrow> (\<forall>fk. upserted st fk \<longrightarrow> dget (records st) fk \<noteq> None)"

lemma whole_kept_put: "whole_kept st \<Longrightarrow> whole_kept (snd (put_record t k who tick oper bef r df dv st))"
  by (simp add: whole_kept_def upserted_put del: put_record_simps(4))

lemma replays_mutation:
  assumes "replays st \<and> whole_kept st" "apply_mutation m st = Inr st'"
  shows "replays st' \<and> whole_kept st'"
proof (cases m)
  case (DoUpsert t k r who tick)
  then show ?thesis using assms by (auto simp: ebind_Inr dest!: upsert_ok intro: replays_upsert whole_kept_put)
next
  case (DoDelta t k f d who tick)
  obtain mr where mr: "apply_delta t k f d who tick st = Inr (mr, st')" using assms(2) DoDelta by (auto simp: ebind_Inr)
  have k: "upserted st (full_key t k) \<longrightarrow> dget (records st) (full_key t k) \<noteq> None" using assms(1) by (simp add: whole_kept_def)
  show ?thesis
    by (rule delta_ok [OF mr]) (use assms(1) replays_delta [OF _ k] in \<open>auto intro: whole_kept_put\<close>)
qed

lemma register_keeps:
  assumes "register_schema s st = Inr st'"
  shows "replays st' = replays st" "whole_kept st' = whole_kept st" "ids_ok st' = ids_ok st"
proof -
  have "ledger st' = ledger st" "records st' = records st" "ledger_counter st' = ledger_counter st"
    using assms by (auto simp: register_schema_def split: if_splits)
  then show "replays st' = replays st" "whole_kept st' = whole_kept st" "ids_ok st' = ids_ok st"
    by (simp_all add: replays_def replay_def whole_kept_def upserted_def ids_ok_def)
qed

lemma replays_step: "replays st \<and> whole_kept st \<Longrightarrow> replays (rec_step m st) \<and> whole_kept (rec_step m st)"
  by (cases m) (auto simp: rbind_Inr register_keeps split: sum.split dest: replays_mutation [OF conjI])

lemma replays_run: "replays st \<and> whole_kept st \<Longrightarrow> replays (fold rec_step ms st) \<and> whole_kept (fold rec_step ms st)"
  by (induction ms arbitrary: st) (simp_all add: replays_step)

lemma ids_ok_step: "ids_ok st \<Longrightarrow> ids_ok (rec_step m st)"
  by (cases m) (auto simp: rbind_Inr register_keeps split: sum.split dest: recu.ok_app)

lemma ids_ok_run: "ids_ok st \<Longrightarrow> ids_ok (fold rec_step ms st)"
  by (induction ms arbitrary: st) (simp_all add: ids_ok_step)


section \<open>Examples\<close>

definition ex_stock :: record_schema where
  "ex_stock = \<lparr>schema_type = ''stock'',
     schema_fields = [\<lparr>fs_name = ''sku'', fs_type = FString, fs_required = True\<rparr>, \<lparr>fs_name = ''qty'', fs_type = FInt, fs_required = True\<rparr>],
     schema_invariants = [\<lparr>rule_kind = NON_NEGATIVE, rule_field = ''qty''\<rparr>], unique_fields = [''sku'']\<rparr>"

definition ex_ops :: "rec_op list" where
  "ex_ops = [RegisterSchema ex_stock, Mutate (DoUpsert ''stock'' ''a'' [(''sku'', PStr ''S1''), (''qty'', PInt 5)] ''clerk'' 1),
     Mutate (DoUpsert ''stock'' ''b'' [(''sku'', PStr ''S1''), (''qty'', PInt 5)] ''clerk'' 1),
     Mutate (DoDelta ''stock'' ''a'' ''qty'' (Fin (- 2)) ''clerk'' 2), Mutate (DoDelta ''stock'' ''a'' ''qty'' (Fin (- 9)) ''clerk'' 3)]"

definition ex_more :: "mutation list" where
  "ex_more = [DoDelta ''stock'' ''a'' ''qty'' (Fin 4) ''clerk'' 4, DoUpsert ''stock'' ''c'' [(''sku'', PStr ''S3''), (''qty'', PInt 1)] ''clerk'' 4]"


text \<open>
  A record that a delta creates: the replayed record has lost the fields the delta did not touch.
\<close>

definition ex_absent :: "rec_op list" where
  "ex_absent = [RegisterSchema ex_stock, Mutate (DoDelta ''stock'' ''a'' ''qty'' (Fin 2) ''clerk'' 1)]"

lemma delta_on_absent_not_replayed:
  "records (fold rec_step ex_absent new_store) = [(''stock:a'', [(''sku'', PStr []), (''qty'', PFloat (Fin 2))])]"
  "replay (fold rec_step ex_absent new_store) = Inr [(''stock:a'', [(''qty'', PFloat (Fin 2))])]"
  by code_simp+

text \<open>
  A delta checks neither the field types nor the unique fields of the schema: two deltas on absent records create two records
  with the same (empty) unique field, and the integer field holds a float, so that writing the record back as it was read is refused.
\<close>

definition ex_twice :: "rec_op list" where
  "ex_twice = ex_absent @ [Mutate (DoDelta ''stock'' ''b'' ''qty'' (Fin 2) ''clerk'' 1)]"

lemma delta_skips_schema_checks:
  "map (\<lambda>(_, r). dget r ''sku'') (records (fold rec_step ex_twice new_store)) = [Some (PStr []), Some (PStr [])]"
  "upsert ''stock'' ''a'' (the (get_record (fold rec_step ex_absent new_store) ''stock'' ''a'')) ''clerk'' 2 (fold rec_step ex_absent new_store)
     = Inl (RecordInvariantError ''stock'' ''a'' ''wrong type of field qty'')"
  by code_simp+

text \<open>
  Undone out of order, as for a group that fails after another effect on the record was applied, the record is gone but the
  ledger still has the entry of the other effect, and the replay brings it back.
\<close>

definition ex_group :: "undo_data list \<times> record_store" where
  "ex_group = commit_records [DoUpsert ''stock'' ''a'' [(''sku'', PStr ''S1''), (''qty'', PInt 5)] ''x'' 1,
     DoUpsert ''stock'' ''a'' [(''sku'', PStr ''S1''), (''qty'', PInt 7)] ''y'' 1] [] (rec_step (RegisterSchema ex_stock) new_store)"

lemma group_undo_breaks_replay:
  "records (invert_effect (hd (fst ex_group)) (snd ex_group)) = []"
  "replay (invert_effect (hd (fst ex_group)) (snd ex_group)) = Inr [(''stock:a'', [(''sku'', PStr ''S1''), (''qty'', PInt 7)])]"
  by code_simp+

end
