(* ===== verification/LLM.thy ===== *)
theory LLM
  imports PyString
begin

text \<open>
  The LLM device (\<^verbatim>\<open>device/llm/device.py\<close>) and the bridge between the parsers of model vendors and the events
  it consumes (\<^verbatim>\<open>device/llm/vendor/adapters/stream.py\<close>, with the messages of \<^verbatim>\<open>vendor/types\<close>).  The connection to a
  vendor is an argument: the events its parser yields, or those a provider yields and the exception that may
  end them.  So is the factory of the provider.  The models of messages reject what their field types do not allow: a text
  is a text and nothing else, a mapping may have no key that is not a field, and a field may be given by its name or by its
  alias in camel case, not by both.  Timestamps are left out, the texts of validation errors are shortened, and so is the
  answer to an unexpected command, which does not print it.
\<close>

section \<open>Messages and events\<close>

datatype block =
    TextContent string "string option"
  | ThinkingContent string "string option" bool
  | ToolCall string string pyval "string option"

record assistant_message =
  content :: "block list"
  api :: string
  provider_name :: string
  model_name :: string
  response_model :: "string option"
  response_provider :: "string option"
  response_id :: "string option"
  diagnostics :: "(string \<times> pyval) list"
  usage :: pyval
  stop_reason :: string
  error_message :: "string option"

fun text_of :: "block \<Rightarrow> string" where
  "text_of (TextContent t _) = t"
| "text_of _ = []"

fun is_tool_call :: "block \<Rightarrow> bool" where
  "is_tool_call (ToolCall _ _ _ _) = True"
| "is_tool_call _ = False"

definition message_text :: "assistant_message \<Rightarrow> string" where
  "message_text m = concat (map text_of (content m))"

definition tool_calls :: "assistant_message \<Rightarrow> block list" where
  "tool_calls m = filter is_tool_call (content m)"

datatype provider_event =
    ProviderRetryEvent
  | ProviderResponseStartEvent "string option"
  | ProviderTextDeltaEvent string
  | ProviderThinkingDeltaEvent string
  | ProviderToolCallEvent string string pyval "string option"
  | ProviderResponseEndEvent assistant_message "string option"
  | ProviderErrorEvent string pyval "string option"

datatype assistant_event =
    AssistantStartEvent assistant_message
  | TextStartEvent nat assistant_message
  | TextDeltaEvent nat string assistant_message
  | TextEndEvent nat string assistant_message
  | ThinkingStartEvent nat assistant_message
  | ThinkingDeltaEvent nat string assistant_message
  | ThinkingEndEvent nat string assistant_message
  | ToolCallStartEvent nat assistant_message
  | ToolCallEndEvent nat block assistant_message
  | AssistantDoneEvent string assistant_message
  | AssistantErrorEvent string assistant_message

section \<open>The stream bridge\<close>

datatype kind = KText | KThinking

record bridge =
  partial_message :: assistant_message
  active_index :: "nat option"
  active_kind :: "kind option"
  started :: bool
  terminal :: bool

definition new_bridge :: "string \<Rightarrow> string \<Rightarrow> string \<Rightarrow> pyval \<Rightarrow> bridge" where
  "new_bridge a p m no_usage =
     \<lparr>partial_message = \<lparr>content = [], api = a, provider_name = p, model_name = m, response_model = None,
        response_provider = None, response_id = None, diagnostics = [], usage = no_usage, stop_reason = ''stop'',
        error_message = None\<rparr>,
      active_index = None, active_kind = None, started = False, terminal = False\<rparr>"

definition end_active_block :: "bridge \<Rightarrow> assistant_event list" where
  "end_active_block b =
     (case active_index b of
        None \<Rightarrow> []
      | Some i \<Rightarrow>
          (case content (partial_message b) ! i of
             TextContent t _ \<Rightarrow> [TextEndEvent i t (partial_message b)]
           | ThinkingContent t _ _ \<Rightarrow> [ThinkingEndEvent i t (partial_message b)]
           | ToolCall _ _ _ _ \<Rightarrow> []))"

definition put_content :: "block list \<Rightarrow> bridge \<Rightarrow> bridge" where
  "put_content bs b = b\<lparr>partial_message := (partial_message b)\<lparr>content := bs\<rparr>\<rparr>"

text \<open>Opening a block of the other kind ends the active one.\<close>

definition open_block :: "kind \<Rightarrow> bridge \<Rightarrow> assistant_event list \<times> bridge" where
  "open_block k b =
     (if active_kind b \<noteq> Some k
      then let i = length (content (partial_message b));
               new = (case k of KText \<Rightarrow> TextContent [] None | KThinking \<Rightarrow> ThinkingContent [] None False);
               b' = put_content (content (partial_message b) @ [new]) (b\<lparr>active_index := Some i, active_kind := Some k\<rparr>)
           in (end_active_block b @ [case k of KText \<Rightarrow> TextStartEvent i (partial_message b')
                 | KThinking \<Rightarrow> ThinkingStartEvent i (partial_message b')], b')
      else ([], b))"

fun grow_block :: "string \<Rightarrow> block \<Rightarrow> block" where
  "grow_block d (TextContent t s) = TextContent (t @ d) s"
| "grow_block d (ThinkingContent t s r) = ThinkingContent (t @ d) s r"
| "grow_block d (ToolCall a b c e) = ToolCall a b c e"

definition add_delta :: "kind \<Rightarrow> string \<Rightarrow> bridge \<Rightarrow> assistant_event list \<times> bridge" where
  "add_delta k d b =
     (case open_block k b of (es, b) \<Rightarrow>
      let i = the (active_index b); bs = content (partial_message b);
          b' = put_content (bs[i := grow_block d (bs ! i)]) b
      in (es @ [case k of KText \<Rightarrow> TextDeltaEvent i d (partial_message b') | KThinking \<Rightarrow> ThinkingDeltaEvent i d (partial_message b')], b'))"

fun copy_thinking :: "block list \<Rightarrow> block list \<Rightarrow> block list" where
  "copy_thinking (ThinkingContent _ s r # src) (ThinkingContent t _ _ # tgt) = ThinkingContent t s r # copy_thinking src tgt"
| "copy_thinking [] tgt = tgt"
| "copy_thinking src [] = []"
| "copy_thinking src (b # tgt) = b # copy_thinking src tgt"

fun copy_text :: "block list \<Rightarrow> block list \<Rightarrow> block list" where
  "copy_text (TextContent _ s # src) (TextContent t _ # tgt) = TextContent t s # copy_text src tgt"
| "copy_text [] tgt = tgt"
| "copy_text src [] = []"
| "copy_text src (b # tgt) = b # copy_text src tgt"

fun is_text :: "block \<Rightarrow> bool" where
  "is_text (TextContent _ _) = True"
| "is_text _ = False"

fun is_thinking :: "block \<Rightarrow> bool" where
  "is_thinking (ThinkingContent _ _ _) = True"
| "is_thinking _ = False"

definition copy_replay_metadata :: "block list \<Rightarrow> block list \<Rightarrow> block list" where
  "copy_replay_metadata tgt src = copy_text (filter is_text src) (copy_thinking (filter is_thinking src) tgt)"

definition finish_reason :: "string option \<Rightarrow> bool \<Rightarrow> string" where
  "finish_reason v has_tools =
     (if has_tools \<or> v \<in> {Some ''tool_calls'', Some ''tool_use'', Some ''toolUse''} then ''toolUse''
      else if v \<in> {Some ''length'', Some ''max_tokens'', Some ''MAX_TOKENS'', Some ''incomplete''} then ''length''
      else ''stop'')"

text \<open>\<^verbatim>\<open>x or y\<close> on optional texts.\<close>

definition or_text :: "string option \<Rightarrow> string option \<Rightarrow> string option" where
  "or_text a b = (case a of Some s \<Rightarrow> if s \<noteq> [] then a else b | None \<Rightarrow> b)"

definition final_message :: "assistant_message \<Rightarrow> string option \<Rightarrow> bridge \<Rightarrow> assistant_message" where
  "final_message m reason b =
     (let p = partial_message b;
          bs = (if content p = [] \<and> content m \<noteq> [] then content m else content p);
          f = m\<lparr>api := api p, provider_name := provider_name p, model_name := model_name p,
                response_provider := or_text (response_provider m) (response_provider p),
                content := copy_replay_metadata bs (content m)\<rparr>
      in f\<lparr>stop_reason := finish_reason reason (tool_calls f \<noteq> [])\<rparr>)"

definition bridge_event :: "provider_event \<Rightarrow> bridge \<Rightarrow> assistant_event list \<times> bridge" where
  "bridge_event e b =
     (case e of
        ProviderTextDeltaEvent d \<Rightarrow> add_delta KText d b
      | ProviderThinkingDeltaEvent d \<Rightarrow> add_delta KThinking d b
      | ProviderToolCallEvent ident name args sig \<Rightarrow>
          (let i = length (content (partial_message b)); tc = ToolCall ident name args sig;
               b' = put_content (content (partial_message b) @ [tc]) (b\<lparr>active_index := None, active_kind := None\<rparr>)
           in (end_active_block b @ [ToolCallStartEvent i (partial_message b'), ToolCallEndEvent i tc (partial_message b')], b'))
      | ProviderResponseEndEvent m reason \<Rightarrow>
          (let f = final_message m reason b
           in (end_active_block b @ [AssistantDoneEvent (stop_reason f) f],
               b\<lparr>active_index := None, active_kind := None, terminal := True\<rparr>))
      | ProviderErrorEvent msg dat rp \<Rightarrow>
          (let p = partial_message b;
               err = p\<lparr>response_provider := or_text rp (response_provider p), stop_reason := ''error'', error_message := Some msg,
                       diagnostics := [(''provider_error'', dat)]\<rparr>
           in ([AssistantErrorEvent ''error'' err], b\<lparr>terminal := True\<rparr>))
      | _ \<Rightarrow> ([], b))"

definition start_event :: "bridge \<Rightarrow> assistant_event list \<times> bridge" where
  "start_event b = (if started b then ([], b) else ([AssistantStartEvent (partial_message b)], b\<lparr>started := True\<rparr>))"

definition bridge_step :: "provider_event \<Rightarrow> bridge \<Rightarrow> assistant_event list \<times> bridge" where
  "bridge_step e b =
     (case e of
        ProviderRetryEvent \<Rightarrow> ([], b)
      | ProviderResponseStartEvent rp \<Rightarrow>
          start_event (case rp of Some r \<Rightarrow> b\<lparr>partial_message := (partial_message b)\<lparr>response_provider := rp\<rparr>\<rparr> | None \<Rightarrow> b)
      | _ \<Rightarrow> (case start_event b of (es, b) \<Rightarrow> case bridge_event e b of (es', b) \<Rightarrow> (es @ es', b)))"

definition bridge_end :: "pyval \<Rightarrow> bridge \<Rightarrow> assistant_event list" where
  "bridge_end no_usage b =
     (if started b then [] else [AssistantStartEvent (partial_message b)])
     @ (if terminal b then []
        else [AssistantErrorEvent ''error'' ((partial_message b)\<lparr>stop_reason := ''error'',
                error_message := Some ''Provider stream ended without a terminal event'', usage := no_usage\<rparr>)])"

fun bridge_run :: "provider_event list \<Rightarrow> bridge \<Rightarrow> assistant_event list \<times> bridge" where
  "bridge_run [] b = ([], b)"
| "bridge_run (e # es) b = (case bridge_step e b of (xs, b) \<Rightarrow> case bridge_run es b of (ys, b) \<Rightarrow> (xs @ ys, b))"

definition canonicalize_provider_stream :: "string \<Rightarrow> string \<Rightarrow> string \<Rightarrow> pyval \<Rightarrow> provider_event list \<Rightarrow> assistant_event list" where
  "canonicalize_provider_stream a p m no_usage src =
     (case bridge_run src (new_bridge a p m no_usage) of (es, b) \<Rightarrow> es @ bridge_end no_usage b)"

section \<open>The device\<close>

record agent_tool =
  t_name :: pyval
  t_label :: pyval
  t_description :: pyval
  t_parameters :: pyval

text \<open>The messages of a conversation, as their constructors accept them.\<close>

datatype user_part = UserText string "string option" | ImageContent string string

datatype user_content = UserString string | UserParts "user_part list"

datatype message =
    UserMessage user_content
  | AssistantMessage assistant_message
  | ToolResultMessage string string "user_part list" bool

definition invalid :: "string \<Rightarrow> 'a res" where
  "invalid cls = Inl (ValueError (''validation error for '' @ cls))"

definition str_field :: "string \<Rightarrow> pyval \<Rightarrow> string res" where
  "str_field cls v = (case v of PStr s \<Rightarrow> Inr s | _ \<Rightarrow> invalid cls)"

text \<open>A mapping given for a text or image part: the known fields only, the literal type if there is one.\<close>

definition wire_keys :: "(string, pyval) dict \<Rightarrow> string list \<Rightarrow> string \<times> string \<Rightarrow> string \<Rightarrow> bool" where
  "wire_keys d names aliased ty \<longleftrightarrow>
     set (dkeys d) \<subseteq> set (''type'' # fst aliased # snd aliased # names) \<and> (dget d (fst aliased) = None \<or> dget d (snd aliased) = None)
     \<and> dget d ''type'' \<in> {None, Some (PStr ty)}"

definition wire_either :: "(string, pyval) dict \<Rightarrow> string \<times> string \<Rightarrow> pyval option" where
  "wire_either d aliased = (case dget d (snd aliased) of Some v \<Rightarrow> Some v | None \<Rightarrow> dget d (fst aliased))"

definition text_part :: "(string, pyval) dict \<Rightarrow> user_part option" where
  "text_part d =
     (if \<not> wire_keys d [''text''] (''text_signature'', ''textSignature'') ''text'' then None
      else case (dget d ''text'', wire_either d (''text_signature'', ''textSignature'')) of
        (Some (PStr t), None) \<Rightarrow> Some (UserText t None)
      | (Some (PStr t), Some PNone) \<Rightarrow> Some (UserText t None)
      | (Some (PStr t), Some (PStr g)) \<Rightarrow> Some (UserText t (Some g))
      | _ \<Rightarrow> None)"

definition image_part :: "(string, pyval) dict \<Rightarrow> user_part option" where
  "image_part d =
     (if \<not> wire_keys d [''data''] (''mime_type'', ''mimeType'') ''image'' then None
      else case (dget d ''data'', wire_either d (''mime_type'', ''mimeType'')) of
        (Some (PStr x), Some (PStr t)) \<Rightarrow> Some (ImageContent x t)
      | _ \<Rightarrow> None)"

definition user_part_of :: "pyval \<Rightarrow> user_part res" where
  "user_part_of v =
     (case v of
        PDict d \<Rightarrow> (case text_part d of Some x \<Rightarrow> Inr x | None \<Rightarrow> (case image_part d of Some x \<Rightarrow> Inr x | None \<Rightarrow> invalid ''UserMessage''))
      | _ \<Rightarrow> invalid ''UserMessage'')"

definition user_message :: "pyval \<Rightarrow> message res" where
  "user_message c =
     (case c of
        PStr s \<Rightarrow> Inr (UserMessage (UserString s))
      | PList l \<Rightarrow> rbind (rmap user_part_of l) (\<lambda>ps. Inr (UserMessage (UserParts ps)))
      | _ \<Rightarrow> invalid ''UserMessage'')"

definition tool_call :: "pyval \<Rightarrow> pyval \<Rightarrow> pyval \<Rightarrow> block res" where
  "tool_call i n args =
     (case (i, n, args) of
        (PStr i, PStr n, PDict _) \<Rightarrow> Inr (ToolCall i n args None)
      | _ \<Rightarrow> invalid ''ToolCall'')"

definition assistant_content :: "pyval \<Rightarrow> block list \<Rightarrow> block list res" where
  "assistant_content c calls =
     (if truthy c then rbind (str_field ''TextContent'' c) (\<lambda>t. Inr (TextContent t None # calls)) else Inr calls)"

text \<open>\<^verbatim>\<open>Usage()\<close> as \<^verbatim>\<open>model_dump\<close> prints it.\<close>

definition default_usage :: pyval where
  "default_usage = PDict [(''input'', PInt 0), (''output'', PInt 0), (''cacheRead'', PInt 0), (''cacheWrite'', PInt 0),
     (''cacheWrite1H'', PNone), (''reasoning'', PNone), (''totalTokens'', PInt 0),
     (''cost'', PDict [(''input'', PFloat (Fin 0)), (''output'', PFloat (Fin 0)), (''cacheRead'', PFloat (Fin 0)),
        (''cacheWrite'', PFloat (Fin 0)), (''total'', PFloat (Fin 0))])]"

definition assistant_of :: "pyval \<Rightarrow> block list \<Rightarrow> message res" where
  "assistant_of c calls =
     rbind (assistant_content c calls) (\<lambda>bs.
       Inr (AssistantMessage \<lparr>content = bs, api = ''unknown'', provider_name = ''unknown'', model_name = ''unknown'', response_model = None,
         response_provider = None, response_id = None, diagnostics = [], usage = default_usage, stop_reason = ''stop'',
         error_message = None\<rparr>))"

definition tool_result_of :: "pyval \<Rightarrow> pyval \<Rightarrow> pyval \<Rightarrow> bool \<Rightarrow> message res" where
  "tool_result_of i n c is_error =
     rbind (str_field ''TextContent'' c) (\<lambda>t.
     rbind (str_field ''ToolResultMessage'' i) (\<lambda>i.
     rbind (str_field ''ToolResultMessage'' n) (\<lambda>n.
       Inr (ToolResultMessage i n [UserText t None] is_error))))"

text \<open>A provider: its events for a request, and the exception that ends them early.\<close>

type_synonym provider = "pyval \<Rightarrow> pyval \<Rightarrow> message list \<Rightarrow> agent_tool list \<Rightarrow> assistant_event list \<times> exc option"

record llm_device =
  provider_factory :: "exc + provider"
  current_provider :: "provider option"

definition result_error :: "string \<Rightarrow> pyval" where
  "result_error e = PDict [(''command'', PStr ''llm_result''), (''ok'', PBool False), (''content'', PStr []), (''error'', PStr e)]"

fun call_value :: "block \<Rightarrow> pyval" where
  "call_value (ToolCall i n args _) = PDict [(''id'', PStr i), (''name'', PStr n), (''arguments'', args)]"
| "call_value _ = PNone"

definition result_ok :: "assistant_message \<Rightarrow> pyval" where
  "result_ok m = PDict [(''command'', PStr ''llm_result''), (''ok'', PBool True), (''content'', PStr (message_text m)),
     (''tool_calls'', PList (map call_value (tool_calls m))), (''usage'', usage m)]"

definition call_from_wire :: "pyval \<Rightarrow> block res" where
  "call_from_wire t =
     rbind (py_item t ''id'') (\<lambda>i. rbind (py_item t ''name'') (\<lambda>n. rbind (py_get t ''arguments'') (\<lambda>a.
       tool_call i n (py_or a (PDict [])))))"

definition message_from_wire :: "pyval \<Rightarrow> message list res" where
  "message_from_wire item =
     rbind (py_get item ''role'') (\<lambda>role.
       if role = PStr ''user'' then
         rbind (py_get_or item ''content'' (PStr [])) (\<lambda>c. rbind (user_message c) (\<lambda>m. Inr [m]))
       else if role = PStr ''assistant'' then
         rbind (py_get item ''tool_calls'') (\<lambda>ts. rbind (py_list (py_or ts (PList []))) (\<lambda>l. rbind (rmap call_from_wire l) (\<lambda>calls.
           rbind (py_get_or item ''content'' (PStr [])) (\<lambda>c. rbind (assistant_of c calls) (\<lambda>m. Inr [m])))))
       else if role = PStr ''tool'' then
         rbind (py_item item ''tool_call_id'') (\<lambda>i. rbind (py_get_or item ''tool_name'' (PStr [])) (\<lambda>n.
           rbind (py_get_or item ''content'' (PStr [])) (\<lambda>c. rbind (py_get item ''is_error'') (\<lambda>err.
             rbind (tool_result_of i n c (truthy err)) (\<lambda>m. Inr [m])))))
       else Inr [])"

definition messages_from_wire :: "pyval \<Rightarrow> message list res" where
  "messages_from_wire items = rbind (py_list items) (\<lambda>l. rbind (rmap message_from_wire l) (\<lambda>ms. Inr (concat ms)))"

definition tool_from_wire :: "pyval \<Rightarrow> agent_tool res" where
  "tool_from_wire t =
     rbind (py_item t ''name'') (\<lambda>n. rbind (py_get_or t ''description'' (PStr [])) (\<lambda>d. rbind (py_get t ''parameters'') (\<lambda>p.
       Inr \<lparr>t_name = n, t_label = n, t_description = d, t_parameters = py_or p (PDict [])\<rparr>)))"

definition tools_from_wire :: "pyval \<Rightarrow> agent_tool list res" where
  "tools_from_wire items = rbind (py_list items) (rmap tool_from_wire)"

text \<open>The loop over the provider's events: the last terminal event decides.\<close>

fun last_result :: "assistant_event list \<Rightarrow> pyval option \<Rightarrow> pyval option" where
  "last_result [] r = r"
| "last_result (AssistantDoneEvent _ m # es) r = last_result es (Some (result_ok m))"
| "last_result (AssistantErrorEvent _ m # es) r =
     last_result es (Some (result_error (if message_text m \<noteq> [] then message_text m else ''provider error'')))"
| "last_result (_ # es) r = last_result es r"

definition call :: "provider \<Rightarrow> pyval \<Rightarrow> pyval" where
  "call p payload =
     (case rbind (py_item payload ''model'') (\<lambda>model. rbind (py_get payload ''system'') (\<lambda>sys.
        rbind (py_get payload ''messages'') (\<lambda>ms. rbind (messages_from_wire (py_or ms (PList []))) (\<lambda>messages.
        rbind (py_get payload ''tools'') (\<lambda>ts. rbind (tools_from_wire (py_or ts (PList []))) (\<lambda>tools.
          Inr (p model (py_or sys (PStr [])) messages tools))))))) of
        Inl e \<Rightarrow> result_error (str_exc e)
      | Inr (es, Some e) \<Rightarrow> result_error (str_exc e)
      | Inr (es, None) \<Rightarrow>
          (case last_result es None of Some r \<Rightarrow> r | None \<Rightarrow> result_error ''stream ended without a terminal event''))"

definition answer_to :: "pyval \<Rightarrow> pyval \<Rightarrow> pyval" where
  "answer_to target payload = PDict [(''target'', target), (''kind'', PStr ''application''), (''payload'', payload)]"

definition llm_respond :: "pyval \<Rightarrow> (llm_device, pyval) sx" where
  "llm_respond ev =
     bind (lift (py_item ev ''payload'')) (\<lambda>payload.
     bind (lift (py_get payload ''command'')) (\<lambda>c.
     if c \<noteq> PStr ''llm_request'' then
       bind (lift (py_item ev ''source'')) (\<lambda>s. ret (answer_to s (result_error ''unexpected command'')))
     else
       bind (asks current_provider) (\<lambda>cp.
       bind (case cp of Some p \<Rightarrow> ret p
             | None \<Rightarrow> bind (asks provider_factory) (\<lambda>f. bind (lift f) (\<lambda>p.
                 andthen (modify (\<lambda>d. d\<lparr>current_provider := Some p\<rparr>)) (ret p)))) (\<lambda>p.
       bind (lift (py_item ev ''source'')) (\<lambda>s. ret (answer_to s (call p payload)))))))"

section \<open>What the bridge keeps\<close>

text \<open>A consumer that rebuilds the content of the message from the events alone.\<close>

fun rebuild :: "assistant_event list \<Rightarrow> block list \<Rightarrow> block list" where
  "rebuild [] bs = bs"
| "rebuild (TextStartEvent _ _ # es) bs = rebuild es (bs @ [TextContent [] None])"
| "rebuild (ThinkingStartEvent _ _ # es) bs = rebuild es (bs @ [ThinkingContent [] None False])"
| "rebuild (TextDeltaEvent i d _ # es) bs = rebuild es (bs[i := grow_block d (bs ! i)])"
| "rebuild (ThinkingDeltaEvent i d _ # es) bs = rebuild es (bs[i := grow_block d (bs ! i)])"
| "rebuild (ToolCallEndEvent _ tc _ # es) bs = rebuild es (bs @ [tc])"
| "rebuild (_ # es) bs = rebuild es bs"

fun ends :: "assistant_event \<Rightarrow> bool" where
  "ends (AssistantDoneEvent _ _) = True"
| "ends (AssistantErrorEvent _ _) = True"
| "ends _ = False"

fun final_event :: "provider_event \<Rightarrow> bool" where
  "final_event (ProviderResponseEndEvent _ _) = True"
| "final_event (ProviderErrorEvent _ _ _) = True"
| "final_event _ = False"

abbreviation contents :: "bridge \<Rightarrow> block list" where
  "contents b \<equiv> content (partial_message b)"

lemma rebuild_append: "rebuild (xs @ ys) bs = rebuild ys (rebuild xs bs)"
  by (induction xs bs rule: rebuild.induct) simp_all

lemma put_content_simps [simp]: "contents (put_content bs b) = bs" "active_index (put_content bs b) = active_index b"
  "active_kind (put_content bs b) = active_kind b" "started (put_content bs b) = started b" "terminal (put_content bs b) = terminal b"
  by (simp_all add: put_content_def)

lemma end_rebuild [simp]: "rebuild (end_active_block b) bs = bs" "\<not> list_ex ends (end_active_block b)"
  by (simp_all add: end_active_block_def split: option.split block.split)

text \<open>The active block is the last one, and of the active kind.\<close>

definition of_kind :: "kind \<Rightarrow> block \<Rightarrow> bool" where
  "of_kind k b = (case k of KText \<Rightarrow> is_text b | KThinking \<Rightarrow> is_thinking b)"

definition bridge_ok :: "bridge \<Rightarrow> bool" where
  "bridge_ok b \<longleftrightarrow> (case active_kind b of
       None \<Rightarrow> active_index b = None
     | Some k \<Rightarrow> contents b \<noteq> [] \<and> active_index b = Some (length (contents b) - 1) \<and> of_kind k (last (contents b)))"

lemma open_block_ok:
  assumes "bridge_ok b" "open_block k b = (es, b')"
  shows "bridge_ok b'" "active_kind b' = Some k" "concat (map text_of (contents b')) = concat (map text_of (contents b))"
    "filter is_tool_call (contents b') = filter is_tool_call (contents b)" "rebuild es (contents b) = contents b'" "\<not> list_ex ends es"
  using assms by (auto simp: open_block_def Let_def bridge_ok_def rebuild_append of_kind_def split: if_splits kind.splits)

lemma grow_kind: "of_kind k (grow_block d x) = of_kind k x" "is_tool_call (grow_block d x) = is_tool_call x"
  by (cases x; simp add: of_kind_def split: kind.split)+

lemma add_delta_ok:
  assumes "bridge_ok b" "add_delta k d b = (es, b')"
  shows "bridge_ok b'" "concat (map text_of (contents b')) = concat (map text_of (contents b)) @ (if k = KText then d else [])"
    "filter is_tool_call (contents b') = filter is_tool_call (contents b)" "rebuild es (contents b) = contents b'" "\<not> list_ex ends es"
proof -
  obtain es0 b0 where o: "open_block k b = (es0, b0)" by (meson surj_pair)
  note ok = open_block_ok [OF assms(1) o]
  obtain bs x where c: "contents b0 = bs @ [x]" using ok(1,2) unfolding bridge_ok_def
    by (cases "contents b0" rule: rev_cases) auto
  then have i: "active_index b0 = Some (length bs)" and x: "of_kind k x" using ok(1,2) by (auto simp: bridge_ok_def)
  have b': "b' = put_content (bs @ [grow_block d x]) b0"
    and es: "es = es0 @ [case k of KText \<Rightarrow> TextDeltaEvent (length bs) d (partial_message b') | KThinking \<Rightarrow> ThinkingDeltaEvent (length bs) d (partial_message b')]"
    using assms(2) by (auto simp add: add_delta_def o Let_def i c split: kind.splits)
  have t: "text_of (grow_block d x) = text_of x @ (if k = KText then d else [])"
    using x by (cases x; cases k) (simp_all add: of_kind_def)
  show "bridge_ok b'" using ok(1,2) i x by (simp add: b' bridge_ok_def grow_kind)
  show "concat (map text_of (contents b')) = concat (map text_of (contents b)) @ (if k = KText then d else [])"
    using ok(3) by (simp add: b' c t)
  show "filter is_tool_call (contents b') = filter is_tool_call (contents b)"
    using ok(4) x by (cases x; cases k) (simp_all add: b' c of_kind_def)
  show "rebuild es (contents b) = contents b'" using ok(5) by (simp add: es rebuild_append b' c split: kind.split)
  show "\<not> list_ex ends es" using ok(6) by (simp add: es split: kind.split)
qed

fun delta_text :: "provider_event \<Rightarrow> string" where
  "delta_text (ProviderTextDeltaEvent d) = d"
| "delta_text _ = []"

fun call_blocks :: "provider_event \<Rightarrow> block list" where
  "call_blocks (ProviderToolCallEvent i n a s) = [ToolCall i n a s]"
| "call_blocks _ = []"

lemma start_event_ok: "start_event b = (es, b') \<Longrightarrow> contents b' = contents b \<and> bridge_ok b' = bridge_ok b \<and> rebuild es bs = bs
    \<and> \<not> list_ex ends es \<and> started b' \<and> terminal b' = terminal b"
  by (auto simp: start_event_def bridge_ok_def split: if_splits option.splits)

lemma bridge_step_ok:
  assumes "bridge_ok b" "bridge_step e b = (es, b')" "\<not> final_event e"
  shows "bridge_ok b' \<and> concat (map text_of (contents b')) = concat (map text_of (contents b)) @ delta_text e
    \<and> filter is_tool_call (contents b') = filter is_tool_call (contents b) @ call_blocks e
    \<and> rebuild es (contents b) = contents b' \<and> \<not> list_ex ends es"
proof -
  obtain es0 b0 where s: "start_event b = (es0, b0)" by (meson surj_pair)
  note ok = start_event_ok [OF s]
  have b0: "bridge_ok b0" using ok assms(1) by blast
  show ?thesis
  proof (cases e)
    case (ProviderResponseStartEvent rp)
    have "start_event (case rp of Some r \<Rightarrow> b\<lparr>partial_message := (partial_message b)\<lparr>response_provider := rp\<rparr>\<rparr> | None \<Rightarrow> b) = (es, b')"
      using assms(2) ProviderResponseStartEvent by (simp add: bridge_step_def)
    from start_event_ok [OF this] show ?thesis using assms(1) ProviderResponseStartEvent
      by (auto simp: bridge_ok_def split: option.splits)
  next
    case (ProviderTextDeltaEvent d)
    obtain es1 where a: "add_delta KText d b0 = (es1, b')" "es = es0 @ es1"
      using assms(2) by (auto simp: bridge_step_def ProviderTextDeltaEvent s bridge_event_def split: prod.splits)
    show ?thesis using add_delta_ok [OF b0 a(1)] ok a(2) by (simp add: ProviderTextDeltaEvent rebuild_append)
  next
    case (ProviderThinkingDeltaEvent d)
    obtain es1 where a: "add_delta KThinking d b0 = (es1, b')" "es = es0 @ es1"
      using assms(2) by (auto simp: bridge_step_def ProviderThinkingDeltaEvent s bridge_event_def split: prod.splits)
    show ?thesis using add_delta_ok [OF b0 a(1)] ok a(2) by (simp add: ProviderThinkingDeltaEvent rebuild_append)
  next
    case (ProviderToolCallEvent i n a sg)
    then show ?thesis using assms(2) ok b0
      by (auto simp: bridge_step_def s bridge_event_def Let_def bridge_ok_def rebuild_append)
  qed (use assms in \<open>simp_all add: bridge_step_def\<close>)
qed

lemma bridge_run_ok:
  assumes "bridge_ok b" "bridge_run src b = (es, b')" "\<not> list_ex final_event src"
  shows "bridge_ok b' \<and> concat (map text_of (contents b')) = concat (map text_of (contents b)) @ concat (map delta_text src)
    \<and> filter is_tool_call (contents b') = filter is_tool_call (contents b) @ concat (map call_blocks src)
    \<and> rebuild es (contents b) = contents b' \<and> \<not> list_ex ends es"
  using assms
proof (induction src arbitrary: b es)
  case (Cons e src)
  obtain xs b1 where 1: "bridge_step e b = (xs, b1)" by (meson surj_pair)
  obtain ys where 2: "bridge_run src b1 = (ys, b')" "es = xs @ ys" using Cons.prems(2) 1 by (auto split: prod.splits)
  have s: "bridge_ok b1 \<and> concat (map text_of (contents b1)) = concat (map text_of (contents b)) @ delta_text e
    \<and> filter is_tool_call (contents b1) = filter is_tool_call (contents b) @ call_blocks e
    \<and> rebuild xs (contents b) = contents b1 \<and> \<not> list_ex ends xs"
    using bridge_step_ok [OF Cons.prems(1) 1] Cons.prems(3) by simp
  then show ?case using Cons.IH [OF _ 2(1)] Cons.prems(3) 2(2) by (simp add: rebuild_append)
qed simp

section \<open>What becomes of a request\<close>

lemma copy_thinking_keeps: "map text_of (copy_thinking src tgt) = map text_of tgt" "filter is_tool_call (copy_thinking src tgt) = filter is_tool_call tgt"
  by (induction src tgt rule: copy_thinking.induct) simp_all

lemma copy_text_keeps: "map text_of (copy_text src tgt) = map text_of tgt" "filter is_tool_call (copy_text src tgt) = filter is_tool_call tgt"
  by (induction src tgt rule: copy_text.induct) simp_all

lemma copy_metadata_keeps: "map text_of (copy_replay_metadata tgt src) = map text_of tgt"
  "filter is_tool_call (copy_replay_metadata tgt src) = filter is_tool_call tgt"
  by (simp_all add: copy_replay_metadata_def copy_text_keeps copy_thinking_keeps)

lemma last_result_append: "last_result (xs @ ys) r = last_result ys (last_result xs r)"
  by (induction xs r rule: last_result.induct) simp_all

lemma last_result_none: "\<not> list_ex ends xs \<Longrightarrow> last_result xs r = r"
  by (induction xs r rule: last_result.induct) simp_all

lemma bridge_run_append: "bridge_run (xs @ ys) b =
    (case bridge_run xs b of (es, b') \<Rightarrow> case bridge_run ys b' of (fs, b'') \<Rightarrow> (es @ fs, b''))"
  by (induction xs arbitrary: b) (auto split: prod.splits)

lemma final_message_keeps:
  "message_text (final_message m r b) = (if contents b \<noteq> [] then concat (map text_of (contents b)) else message_text m)"
  "tool_calls (final_message m r b) = (if contents b \<noteq> [] then filter is_tool_call (contents b) else tool_calls m)"
  "usage (final_message m r b) = usage m"
  by (simp_all add: final_message_def Let_def message_text_def tool_calls_def copy_metadata_keeps)

lemma bridge_step_terminal: "bridge_step e b = (es, b') \<Longrightarrow> \<not> final_event e \<Longrightarrow> terminal b' = terminal b"
proof (cases e)
  case (ProviderResponseStartEvent rp)
  assume "bridge_step e b = (es, b')"
  then show ?thesis using ProviderResponseStartEvent by (auto simp: bridge_step_def start_event_def split: option.splits if_splits)
qed (auto simp: bridge_step_def bridge_event_def start_event_def add_delta_def open_block_def Let_def split: if_splits prod.splits)

lemma bridge_run_terminal: "bridge_run src b = (es, b') \<Longrightarrow> \<not> list_ex final_event src \<Longrightarrow> terminal b' = terminal b"
  by (induction src arbitrary: b es) (auto dest: bridge_step_terminal split: prod.splits)

text \<open>What the device makes of a vendor's events, when the last of them is terminal and when none is.\<close>

lemma stream_result:
  assumes "\<not> list_ex final_event pre" and "bridge_run pre (new_bridge a p mo u) = (es, b)"
  shows "last_result (canonicalize_provider_stream a p mo u (pre @ [ProviderResponseEndEvent m r])) None
      = Some (result_ok (final_message m r b))"
    and "last_result (canonicalize_provider_stream a p mo u (pre @ [ProviderErrorEvent msg dat rp])) None
      = Some (result_error (if concat (map delta_text pre) \<noteq> [] then concat (map delta_text pre) else ''provider error''))"
    and "last_result (canonicalize_provider_stream a p mo u pre) None
      = Some (result_error (if concat (map delta_text pre) \<noteq> [] then concat (map delta_text pre) else ''provider error''))"
proof -
  have n: "bridge_ok (new_bridge a p mo u)" "contents (new_bridge a p mo u) = []" by (simp_all add: new_bridge_def bridge_ok_def)
  note ok = bridge_run_ok [OF n(1) assms(2,1)]
  have t: "concat (map text_of (contents b)) = concat (map delta_text pre)" using ok n(2) by simp
  have e: "last_result es None = None" using ok last_result_none by blast
  have tm: "terminal b = False" using bridge_run_terminal [OF assms(2,1)] by (simp add: new_bridge_def)
  obtain s b1 where s: "start_event b = (s, b1)" by (meson surj_pair)
  note st = start_event_ok [OF s]
  have s0: "last_result s x = x" for x using st last_result_none by blast
  have pm: "partial_message b1 = partial_message b" using s by (auto simp: start_event_def split: if_splits)
  have fm: "final_message m r b1 = final_message m r b" by (simp add: final_message_def pm)
  show "last_result (canonicalize_provider_stream a p mo u (pre @ [ProviderResponseEndEvent m r])) None = Some (result_ok (final_message m r b))"
    using st by (simp add: canonicalize_provider_stream_def bridge_run_append assms(2) bridge_step_def s bridge_event_def Let_def
        last_result_append e s0 last_result_none bridge_end_def fm)
  show "last_result (canonicalize_provider_stream a p mo u (pre @ [ProviderErrorEvent msg dat rp])) None
      = Some (result_error (if concat (map delta_text pre) \<noteq> [] then concat (map delta_text pre) else ''provider error''))"
    using st t by (simp add: canonicalize_provider_stream_def bridge_run_append assms(2) bridge_step_def s bridge_event_def Let_def
        last_result_append e s0 bridge_end_def message_text_def pm)
  show "last_result (canonicalize_provider_stream a p mo u pre) None
      = Some (result_error (if concat (map delta_text pre) \<noteq> [] then concat (map delta_text pre) else ''provider error''))"
    using t by (simp add: canonicalize_provider_stream_def assms(2) last_result_append e bridge_end_def tm message_text_def)
qed

text \<open>An event that shows something of the response.\<close>

fun shown :: "provider_event \<Rightarrow> bool" where
  "shown (ProviderTextDeltaEvent _) = True"
| "shown (ProviderThinkingDeltaEvent _) = True"
| "shown (ProviderToolCallEvent _ _ _ _) = True"
| "shown _ = False"

lemma add_delta_nonempty: "bridge_ok b \<Longrightarrow> add_delta k d b = (es, b') \<Longrightarrow> contents b' \<noteq> []"
  by (auto simp: add_delta_def open_block_def Let_def bridge_ok_def split: prod.splits if_splits)

lemma bridge_step_nonempty:
  assumes "bridge_ok b" "bridge_step e b = (es, b')" "\<not> final_event e" "shown e \<or> contents b \<noteq> []"
  shows "contents b' \<noteq> []"
proof -
  obtain es0 b0 where s: "start_event b = (es0, b0)" by (meson surj_pair)
  have b0: "bridge_ok b0" "contents b0 = contents b" using start_event_ok [OF s] assms(1) by auto
  show ?thesis
  proof (cases e)
    case (ProviderResponseStartEvent rp)
    then show ?thesis using assms(2,4) by (auto simp: bridge_step_def start_event_def split: option.splits if_splits)
  qed (use assms b0 s in \<open>auto simp: bridge_step_def bridge_event_def Let_def dest: add_delta_nonempty split: prod.splits\<close>)
qed

lemma bridge_run_nonempty:
  "bridge_ok b \<Longrightarrow> bridge_run src b = (es, b') \<Longrightarrow> \<not> list_ex final_event src \<Longrightarrow> list_ex shown src \<or> contents b \<noteq> [] \<Longrightarrow> contents b' \<noteq> []"
proof (induction src arbitrary: b es)
  case (Cons e src)
  obtain xs b1 where 1: "bridge_step e b = (xs, b1)" by (meson surj_pair)
  obtain ys where 2: "bridge_run src b1 = (ys, b')" using Cons.prems(2) 1 by (auto split: prod.splits)
  have "bridge_ok b1" using bridge_step_ok [OF Cons.prems(1) 1] Cons.prems(3) by simp
  then show ?case using Cons.IH [OF _ 2] bridge_step_nonempty [OF Cons.prems(1) 1] Cons.prems(3,4) by auto
qed simp

lemma bridge_step_empty:
  "bridge_step e b = (es, b') \<Longrightarrow> \<not> final_event e \<Longrightarrow> \<not> shown e \<Longrightarrow> contents b = [] \<Longrightarrow> contents b' = []"
  by (cases e) (auto simp: bridge_step_def start_event_def split: option.splits if_splits)

lemma bridge_run_empty:
  "bridge_run src b = (es, b') \<Longrightarrow> \<not> list_ex final_event src \<Longrightarrow> \<not> list_ex shown src \<Longrightarrow> contents b = [] \<Longrightarrow> contents b' = []"
  by (induction src arbitrary: b es) (auto dest: bridge_step_empty split: prod.splits)

definition wire_list :: "(string, pyval) dict \<Rightarrow> string \<Rightarrow> pyval" where
  "wire_list pl k = (case dget pl k of Some x \<Rightarrow> py_or x (PList []) | None \<Rightarrow> PList [])"

definition wire_text :: "(string, pyval) dict \<Rightarrow> string \<Rightarrow> pyval" where
  "wire_text pl k = (case dget pl k of Some x \<Rightarrow> py_or x (PStr []) | None \<Rightarrow> PStr [])"

lemma call_request:
  assumes "dget pl ''model'' = Some mo" "messages_from_wire (wire_list pl ''messages'') = Inr ms" "tools_from_wire (wire_list pl ''tools'') = Inr ts"
    and "p mo (wire_text pl ''system'') ms ts = (es, x)"
  shows "call p (PDict pl) = (case x of Some exc \<Rightarrow> result_error (str_exc exc)
     | None \<Rightarrow> (case last_result es None of Some r \<Rightarrow> r | None \<Rightarrow> result_error ''stream ended without a terminal event''))"
  using assms by (auto simp: call_def wire_list_def wire_text_def py_or_def split: option.splits)

lemma respond_request:
  assumes "dget e ''payload'' = Some (PDict pl)" "dget e ''source'' = Some s" "dget pl ''command'' = Some (PStr ''llm_request'')"
    and "current_provider d = Some p"
  shows "llm_respond (PDict e) d = (Inr (answer_to s (call p (PDict pl))), d)"
  using assms by (simp add: llm_respond_def sx_defs)

lemma last_result_result: "last_result es r0 = Some r \<Longrightarrow> r0 = None \<or> (\<exists>m. r0 = Some (result_ok m)) \<or> (\<exists>x. r0 = Some (result_error x))
    \<Longrightarrow> (\<exists>m. r = result_ok m) \<or> (\<exists>x. r = result_error x)"
  by (induction es r0 rule: last_result.induct) auto

lemma call_result: "(\<exists>m. call p pl = result_ok m) \<or> (\<exists>x. call p pl = result_error x)"
  using last_result_result [of _ None] by (auto simp: call_def split: sum.splits option.splits)

lemma answer_result: "\<exists>r. answer_to s (call p pl) = answer_to s r \<and> ((\<exists>m. r = result_ok m) \<or> (\<exists>x. r = result_error x))"
  using call_result by blast

section \<open>Properties\<close>

text \<open>
  C40. What the device does with any event that has a payload and a source.  A command other than a request is
  answered with an error.  A request is answered to its source with a successful result or one that names an error, whatever the
  messages, the tools and the stream of the provider, and the provider is kept for the next request.  Only a
  provider that cannot be created makes the device raise, with the exception of the factory.
\<close>

theorem llm_always_answers:
  assumes "dget e ''payload'' = Some (PDict pl)" "dget e ''source'' = Some s"
  shows "if dget pl ''command'' \<noteq> Some (PStr ''llm_request'')
     then llm_respond (PDict e) d = (Inr (answer_to s (result_error ''unexpected command'')), d)
     else case (case current_provider d of Some p \<Rightarrow> Inr p | None \<Rightarrow> provider_factory d) of
         Inl x \<Rightarrow> llm_respond (PDict e) d = (Inl x, d)
       | Inr p \<Rightarrow> \<exists>r. llm_respond (PDict e) d = (Inr (answer_to s r), d\<lparr>current_provider := Some p\<rparr>)
           \<and> ((\<exists>m. r = result_ok m) \<or> (\<exists>x. r = result_error x))"
  using assms by (auto simp: llm_respond_def sx_defs answer_result split: option.splits sum.splits)

text \<open>
  C39. What a requester gets of a stream that ends with its first terminal event.  When the provider raises, the answer is a
  failure with the text of the exception.  When the vendor's events end with the end of the response, the answer has the
  streamed pieces of text in order and the streamed tool calls in order (or, when nothing was streamed, the text and calls of
  the final message), and the usage the vendor reports.  When they end with an error event, or without a terminal
  one, the answer is a failure whose error is the text streamed before, or \<^verbatim>\<open>provider error\<close> when there was none.
\<close>

theorem llm_streamed_answer:
  assumes "dget e ''payload'' = Some (PDict pl)" "dget e ''source'' = Some s" "dget pl ''command'' = Some (PStr ''llm_request'')"
    and "current_provider d = Some p" "dget pl ''model'' = Some mo" "messages_from_wire (wire_list pl ''messages'') = Inr ms"
    and "tools_from_wire (wire_list pl ''tools'') = Inr ts"
    and "p mo (wire_text pl ''system'') ms ts = (es, x)" and "\<not> list_ex final_event pre"
  shows "case x of
      Some exc \<Rightarrow> llm_respond (PDict e) d = (Inr (answer_to s (result_error (str_exc exc))), d)
    | None \<Rightarrow>
       (es = canonicalize_provider_stream a n mn u (pre @ [ProviderResponseEndEvent m r]) \<longrightarrow>
         (\<exists>f. llm_respond (PDict e) d = (Inr (answer_to s (result_ok f)), d) \<and> usage f = usage m
            \<and> message_text f = (if list_ex shown pre then concat (map delta_text pre) else message_text m)
            \<and> tool_calls f = (if list_ex shown pre then concat (map call_blocks pre) else tool_calls m)))
       \<and> (es = canonicalize_provider_stream a n mn u pre \<or> es = canonicalize_provider_stream a n mn u (pre @ [ProviderErrorEvent msg dat rp]) \<longrightarrow>
         llm_respond (PDict e) d = (Inr (answer_to s (result_error
           (if concat (map delta_text pre) \<noteq> [] then concat (map delta_text pre) else ''provider error''))), d))"
proof -
  obtain xs b where b: "bridge_run pre (new_bridge a n mn u) = (xs, b)" by (meson surj_pair)
  have nb: "bridge_ok (new_bridge a n mn u)" "contents (new_bridge a n mn u) = []" by (simp_all add: new_bridge_def bridge_ok_def)
  note ok = bridge_run_ok [OF nb(1) b assms(9)] and res = stream_result [OF assms(9) b]
  note go = respond_request [OF assms(1-4)] and ask = call_request [where p = p, OF assms(5-8)]
  have shown: "contents b \<noteq> [] \<longleftrightarrow> list_ex shown pre"
    using bridge_run_nonempty [OF nb(1) b assms(9)] bridge_run_empty [OF b assms(9)] nb(2) by blast
  have "call p (PDict pl) = result_ok (final_message m r b)"
    if "x = None" "es = canonicalize_provider_stream a n mn u (pre @ [ProviderResponseEndEvent m r])"
    using ask res(1) [of m r] that by simp
  moreover have "call p (PDict pl) = result_error (if concat (map delta_text pre) \<noteq> [] then concat (map delta_text pre) else ''provider error'')"
    if "x = None" "es = canonicalize_provider_stream a n mn u pre \<or> es = canonicalize_provider_stream a n mn u (pre @ [ProviderErrorEvent msg dat rp])"
    using that ask res(2) [of msg dat rp] res(3) by auto
  moreover have "call p (PDict pl) = result_error (str_exc exc)" if "x = Some exc" for exc using ask that by simp
  ultimately show ?thesis
    using go ok nb(2) by (auto simp: final_message_keeps shown split: option.split intro!: exI [of _ "final_message m r b"])
qed

definition ex_pre :: "provider_event list" where
  "ex_pre = [ProviderResponseStartEvent None, ProviderThinkingDeltaEvent ''hm'', ProviderTextDeltaEvent ''Hel'', ProviderTextDeltaEvent ''lo'']"

definition ex_stream :: "provider_event list \<Rightarrow> provider" where
  "ex_stream src = (\<lambda>_ _ _ _. (canonicalize_provider_stream ''api'' ''vendor'' ''m'' PNone src, None))"

definition ex_request :: "(string, pyval) dict" where
  "ex_request = [(''command'', PStr ''llm_request''), (''model'', PStr ''m''),
     (''messages'', PList [PDict [(''role'', PStr ''user''), (''content'', PStr ''hi'')]])]"

definition ex_event :: "(string, pyval) dict" where
  "ex_event = [(''source'', PStr ''a1''), (''payload'', PDict ex_request)]"

definition ex_device :: "provider_event list \<Rightarrow> llm_device" where
  "ex_device src = \<lparr>provider_factory = Inl ProgrammingError, current_provider = Some (ex_stream src)\<rparr>"

theorem llm_always_answers_witness:
  "\<exists>r. llm_respond (PDict ex_event) (ex_device ex_pre) = (Inr (answer_to (PStr ''a1'') r), ex_device ex_pre)
     \<and> ((\<exists>m. r = result_ok m) \<or> (\<exists>x. r = result_error x))"
  using llm_always_answers [of ex_event ex_request "PStr ''a1''" "ex_device ex_pre"]
  by (simp add: ex_event_def ex_request_def ex_device_def)

definition ex_ask :: "message list" where
  "ex_ask = [UserMessage (UserString ''hi'')]"

theorem llm_streamed_answer_witness:
  "llm_respond (PDict ex_event) (ex_device (ex_pre @ [ProviderErrorEvent ''quota exceeded'' PNone None]))
     = (Inr (answer_to (PStr ''a1'') (result_error ''Hello'')), ex_device (ex_pre @ [ProviderErrorEvent ''quota exceeded'' PNone None]))"
proof -
  let ?src = "ex_pre @ [ProviderErrorEvent ''quota exceeded'' PNone None]"
  have r: "dget ex_event ''payload'' = Some (PDict ex_request)" "dget ex_event ''source'' = Some (PStr ''a1'')"
    "dget ex_request ''command'' = Some (PStr ''llm_request'')" "current_provider (ex_device ?src) = Some (ex_stream ?src)"
    "dget ex_request ''model'' = Some (PStr ''m'')" "messages_from_wire (wire_list ex_request ''messages'') = Inr ex_ask"
    "tools_from_wire (wire_list ex_request ''tools'') = Inr []" "\<not> list_ex final_event ex_pre"
    by (simp_all add: ex_event_def ex_request_def ex_device_def ex_pre_def ex_ask_def user_message_def messages_from_wire_def message_from_wire_def
        tools_from_wire_def wire_list_def py_or_def)
  have x: "ex_stream ?src (PStr ''m'') (wire_text ex_request ''system'') ex_ask [] = (canonicalize_provider_stream ''api'' ''vendor'' ''m'' PNone ?src, None)"
    by (simp add: ex_stream_def)
  have "concat (map delta_text ex_pre) = ''Hello''" by (simp add: ex_pre_def)
  then show ?thesis
    using llm_streamed_answer [where p = "ex_stream ?src" and d = "ex_device ?src", OF r(1-7) x r(8), of "''api''" "''vendor''" "''m''" PNone _ _ "''quota exceeded''" PNone None]
    by simp
qed

end
