(* ===== verification/Spec2Isabelle.thy ===== *)
theory Spec2Isabelle
  imports KernelExamples Dispatcher Agent Bash AgentState Task Transaction PredicateText Scheduler AgentTree Delivery Budget KBCommit Adjudication
    Records LLM
begin

text \<open>
  \<^bold>\<open>A verification of my-team.\<close>

  my-team runs a team of language-model agents as processes under a small kernel.  The live program is
  \<^verbatim>\<open>src/src/my_team\<close>: a kernel (\<^verbatim>\<open>kernel/\<close>), the agent process (\<^verbatim>\<open>agent/\<close>) and devices (\<^verbatim>\<open>device/\<close>).  Everything
  the processes do travels as events, dictionaries with a source, a target, a kind and a payload, through
  the kernel, which validates them, asks the Authority device what the source may do, journals them and
  routes them.  \<^verbatim>\<open>src/src/legacy\<close> is the archived tick-based engine; its stateful components with a contract
  of their own are modelled too.

  \<^bold>\<open>The theories, in the order of the code.\<close>

  \<^item> \<^verbatim>\<open>Prelude\<close>: Python values, insertion-ordered dictionaries (locale \<^verbatim>\<open>ordered_dict\<close>, interpreted on the list
    representation), exceptions as values, floats as exact rationals with the three IEEE specials, the
    state-and-exception type \<^verbatim>\<open>sx\<close> the kernel's handlers are written in, with its frame rules (\<^verbatim>\<open>keeps\<close>),
    invariant rules (\<^verbatim>\<open>ensures\<close>) and weakest preconditions (\<^verbatim>\<open>wp\<close>), reachability (a locale for step
    relations) and the undoing of logged operations in reverse order (locale \<^verbatim>\<open>undoable\<close>).  \<^verbatim>\<open>PyString\<close>: stripping, UTF-8 decoding with replacement, decimal numerals.
  \<^item> \<^verbatim>\<open>Events\<close> (\<^verbatim>\<open>event_validator.py\<close>, \<^verbatim>\<open>event_protocol.py\<close>): the rules and the first-failure loop; what the validator
    accepts, exactly.
  \<^item> \<^verbatim>\<open>Authority\<close> (\<^verbatim>\<open>authority.py\<close>): identities, grants and the tables injected into agents; which entries a
    position sees.
  \<^item> \<^verbatim>\<open>Process\<close> (\<^verbatim>\<open>process.py\<close>, \<^verbatim>\<open>sandbox_entry.py\<close>): identities, private homes, the \<^verbatim>\<open>bwrap\<close> command line, the options
    of a sandboxed device; the homes of accepted identities resolve to disjoint directories and a device has no network unless it asks for it.
  \<^item> \<^verbatim>\<open>Kernel\<close> (\<^verbatim>\<open>agent_os.py\<close>, \<^verbatim>\<open>journal.py\<close>, \<^verbatim>\<open>process_handle.py\<close>): one definition per method of \<^verbatim>\<open>AgentOS\<close> and its kernel
    commands.  The mutual recursion of the source between processing an event and emitting answers is cut by
    passing the emitter as an argument; \<^verbatim>\<open>KernelLemmas\<close> shows that the result satisfies the source's equation.
    A process may die at any moment; what is sent to it then is dropped until it is started again.
    \<^verbatim>\<open>KernelProps\<close>: in whose name the kernel speaks, and that events without rights change nothing, also when the in-process
    devices serve what the event queued for them.  \<^verbatim>\<open>KernelInv\<close>: executions (booting, events, serving, dying processes) and the
    invariant of their states.  Two conditions are stated as hypotheses because the code does not check them: no process is
    registered under the identity the Authority obeys, \<^verbatim>\<open>system\<close>, and the configuration reuses no name of an in-process device
    or of an agent.
    \<^verbatim>\<open>KernelEffects\<close>: what install, uninstall and the scope commands change, and what becomes of every event.
    \<^verbatim>\<open>KernelExamples\<close>: a booted organisation on which the properties are instantiated.
  \<^item> \<^verbatim>\<open>Channel\<close> (\<^verbatim>\<open>process_handle.py\<close>): the read side of a process's channel; a process cannot impersonate another: everything
    the kernel writes on account of its event names that process, the kernel or the Authority.
  \<^item> \<^verbatim>\<open>Dispatcher\<close> (\<^verbatim>\<open>process.py\<close>, \<^verbatim>\<open>BucketDispatcher\<close>): queues per source, workers and the semaphore as a step
    relation over the points where a worker waits; bounds, order and attendance hold in every interleaving.
  \<^item> \<^verbatim>\<open>Agent\<close> (\<^verbatim>\<open>agent.py\<close>): injection, triggers, argument extraction and tool calls; the agent's table mirrors the
    Authority's, and over the life of an agent that gets its injections from the Authority its calls stay within its grants.
  \<^item> \<^verbatim>\<open>Bash\<close> (\<^verbatim>\<open>device/bash/device.py\<close>): jobs, the pool, the queues per source, output buffers and deadlines; requests,
    driving tasks with their unexpected failures, readers and the deadline watch as a step relation.
  \<^item> \<^verbatim>\<open>LLM\<close> (\<^verbatim>\<open>device/llm/device.py\<close>, \<^verbatim>\<open>device/llm/vendor/adapters/stream.py\<close>, \<^verbatim>\<open>device/llm/vendor/types/messages.py\<close>): requests, the messages in them,
    answers and the bridge from a vendor's
    events to those of the device; every request is answered, with what was streamed or with an error.
  \<^item> \<^verbatim>\<open>Lifecycle\<close>: paths in a transition table (a locale) and breadth-first search, shared by \<^verbatim>\<open>AgentState\<close>
    (\<^verbatim>\<open>legacy/agent_state.py\<close>: machines, their named transitions and the shared audit log) and \<^verbatim>\<open>Task\<close>
    (\<^verbatim>\<open>legacy/models/task.py\<close>, \<^verbatim>\<open>legacy/task_tree.py\<close>: transitions, the tree and its traversals).
  \<^item> \<^verbatim>\<open>Hierarchy\<close>: what lies below a node and induction along a depth-first traversal, shared by \<^verbatim>\<open>Task\<close> and
    \<^verbatim>\<open>AgentTree\<close> (\<^verbatim>\<open>legacy/agent_tree.py\<close>, \<^verbatim>\<open>AgentConfig\<close> of \<^verbatim>\<open>legacy/models/agent.py\<close>: the checks an organisation has to
    pass, with two depth-first searches in three colours, and the traversals of an accepted one).  The searches
    accept exactly the acyclic graphs, and every exception names a real defect.
  \<^item> \<^verbatim>\<open>Transaction\<close> (\<^verbatim>\<open>legacy/transaction.py\<close>): staging, validation, conflict resolution, commit, rollback.
  \<^item> \<^verbatim>\<open>PredicateDSL\<close>, \<^verbatim>\<open>Canonical\<close>, \<^verbatim>\<open>PredicateParser\<close>, \<^verbatim>\<open>PredicateText\<close> (\<^verbatim>\<open>legacy/predicate.py\<close>, level L0): evaluation,
    the validator, the canonical form and replay key; that the canonical form keeps the value; the tokenizer
    and the recursive-descent parser; a printer, and that parsing inverts it.
  \<^item> \<^verbatim>\<open>Scheduler\<close> (\<^verbatim>\<open>legacy/scheduler.py\<close>, \<^verbatim>\<open>legacy/models/activation.py\<close>, and the lines of \<^verbatim>\<open>legacy/simulation.py\<close> that
    drive it): wake events, the ready set, activations, the end of a tick.  The ready set is compared with a specification of
    which events are due and which agent comes first.
  \<^item> \<^verbatim>\<open>Mail\<close> (\<^verbatim>\<open>legacy/mailbox.py\<close>, \<^verbatim>\<open>legacy/models/email.py\<close>): mailboxes, the queue and delivery; every email is
    delivered once.  \<^verbatim>\<open>Delivery\<close> puts it together with the scheduler in the deliver phase of a tick: which
    recipients of an email are activated in the tick in which it arrives, and what becomes of the others' wake events.
  \<^item> \<^verbatim>\<open>PendingOps\<close> (\<^verbatim>\<open>legacy/pending_ops.py\<close> and the submission of requests in \<^verbatim>\<open>legacy/simulation.py\<close>): the registry of
    operations in flight; the requests of an agent stay below the maximum and late results revive nothing.
    \<^verbatim>\<open>Budget\<close> (\<^verbatim>\<open>legacy/budget.py\<close>): prices, estimates, accumulators and the check of a round against the caps.
  \<^item> \<^verbatim>\<open>SharedKB\<close> (\<^verbatim>\<open>legacy/shared_kb.py\<close>): permission rules, versions (locale \<^verbatim>\<open>versioned\<close>), locks with leases and the store;
    locks are exclusive, no write is lost, the store stays well formed.  \<^verbatim>\<open>KBCommit\<close> puts it together with the
    transaction buffer: the tool handlers, and the commit phase of \<^verbatim>\<open>legacy/simulation.py\<close> as far as it concerns the
    knowledge base; a rollback undoes a log of effects (locale \<^verbatim>\<open>undoable\<close>) and leaves it as it was.
  \<^item> \<^verbatim>\<open>Records\<close> (\<^verbatim>\<open>legacy/record_store.py\<close> and the record effects of \<^verbatim>\<open>legacy/simulation.py\<close>): schemas, mutations and the ledger;
    the rules of a schema hold in every stored record, the ledger replays to the records (up to default fields of records that only deltas wrote), and a rollback (\<^verbatim>\<open>undoable\<close> again)
    restores both.
  \<^item> \<^verbatim>\<open>Adjudication\<close> (\<^verbatim>\<open>legacy/authority.py\<close>): conditions in three values, grants, the resolution of a decision and of a
    claim, and the check of a delegation.  The resolution is proved equal to a specification by sets of subjects,
    from which it follows that more consent never undoes a decision and that the order of grants does not
    matter when thresholds agree.

  \<^bold>\<open>How state corresponds to the code.\<close>  An object is a record with the source's fields; a method is a function
  that takes the record and returns it updated, or a handler in \<^verbatim>\<open>sx\<close>.  A dictionary is an association list in
  insertion order.  Objects that the source shares between containers are references: jobs of the bash device,
  activations of the scheduler and emails are indices into a store, staged effects are named by their identifier.
  An exception is a value of \<^verbatim>\<open>exc\<close> or of the component's own error type; exceptions that escape a handler
  are modelled as escaping.  Concurrency is a step relation whose steps end where the code awaits.  Code
  that is not in the repository is an argument: the Python module of a device, the resolution of symbolic links,
  hashing, the text of a float and the number a text denotes, the clock, fresh identifiers, the callbacks of a transaction's
  validation, the providers of language models, and the order in which a set of enum members is iterated.

  \<^bold>\<open>Recursion and bounds.\<close>  Functions are total, with termination proofs where the recursion is not structural:
  the parser's needs the lemma that every parser consumes tokens, proved on its domain first.  The traversals of
  the task tree may run forever on a tree with a cycle; they are partial functions into options, and the
  properties prove that they return on every tree the operations build.  \<^verbatim>\<open>strip_front\<close> takes the length of
  the string as fuel, which suffices because each round removes a character.  The searches for cycles take the
  number of agents as fuel, which suffices because every call turns a white agent grey.

  \<^bold>\<open>Limits of the model.\<close>  Message texts are ASCII renderings and are compared nowhere.  Strings are lists of UTF-8
  bytes; digits and letters outside ASCII are not recognised in predicate texts, and \<^verbatim>\<open>str.lower\<close> is that of
  ASCII.  Float arithmetic is exact.  Keys of dictionaries inside values are strings, as in JSON.  A
  tuple and a list are the same value.  The limits Python puts on recursion depth and on the digits of an
  integer are not modelled.

  \<^bold>\<open>Not modelled.\<close>  Process creation, sockets, the sqlite file of the journal and the threads of \<^verbatim>\<open>AgentOS.run\<close> are
  operating-system calls.  The clients of model vendors and the prompt assembly are adapters to remote models.  Of the archived
  engine: the orchestration of \<^verbatim>\<open>simulation.py\<close> outside the delivery of mail, the schedule, the submission of requests
  and the commit to the knowledge base and the record store; in the commit of the knowledge base, what becomes of
  effects on the other stores is an argument.  Tool descriptions and the handlers of other tools; the stores on files and sqlite, memory and
  recall; human control, the calendar, the crash guard and credentials; level L1 of the predicates, which
  inspects Python syntax trees; the registration of entities with the device base class.
\<close>

end
